(* ===== verification/Kernel_Prelude.thy ===== *)
theory Kernel_Prelude
  imports Main "HOL-Library.Word"
begin

unbundle bit_operations_syntax

section \<open>Shared vocabulary of the kernel model\<close>

text \<open>
  What a piece of kernel code does from a state: it returns (\<open>Ret\<close>), calls
  \<open>panic\<close> (\<open>Panic\<close>, with the message), gives the CPU up inside \<open>sched()\<close>
  (\<open>Asleep\<close>, with the state the scheduler sees), spins for ever on a lock that another
  CPU or the caller itself holds (\<open>Spin\<close>), or does something the C language gives no
  meaning to, such as a load through a null pointer (\<open>Fault\<close>).
  A kernel function is a map from states to outcomes, and the combinators below put
  functions in sequence the way C puts statements in sequence.
\<close>

datatype ('a, 's) outcome = Ret 'a 's | Panic string | Asleep 's | Spin | Fault string

type_synonym ('s, 'a) km = "'s \<Rightarrow> ('a, 's) outcome"

type_synonym u8 = "8 word"
type_synonym u16 = "16 word"
type_synonym u32 = "32 word"

definition ret :: "'a \<Rightarrow> ('s, 'a) km" where
  "ret x s = Ret x s"

primrec obind :: "('a, 's) outcome \<Rightarrow> ('a \<Rightarrow> ('s, 'b) km) \<Rightarrow> ('b, 's) outcome" where
  "obind (Ret x s) f = f x s"
| "obind (Panic e) f = Panic e"
| "obind (Asleep s) f = Asleep s"
| "obind Spin f = Spin"
| "obind (Fault e) f = Fault e"

definition bnd :: "('s, 'a) km \<Rightarrow> ('a \<Rightarrow> ('s, 'b) km) \<Rightarrow> ('s, 'b) km" where
  "bnd m f s = obind (m s) f"

definition thn :: "('s, 'a) km \<Rightarrow> ('s, 'b) km \<Rightarrow> ('s, 'b) km" where
  "thn m n = bnd m (\<lambda>_. n)"

definition panic :: "string \<Rightarrow> ('s, 'a) km" where
  "panic e s = Panic e"

definition fault :: "string \<Rightarrow> ('s, 'a) km" where
  "fault e s = Fault e"

definition gets :: "('s \<Rightarrow> 'a) \<Rightarrow> ('s, 'a) km" where
  "gets f s = Ret (f s) s"

definition modf :: "('s \<Rightarrow> 's) \<Rightarrow> ('s, unit) km" where
  "modf f s = Ret () (f s)"

definition whn :: "bool \<Rightarrow> ('s, unit) km \<Rightarrow> ('s, unit) km" where
  "whn b m = (if b then m else ret ())"

text \<open>A \<open>for\<close> loop over a list of indices, the body run for its effect.\<close>

primrec kfor :: "'i list \<Rightarrow> ('i \<Rightarrow> ('s, unit) km) \<Rightarrow> ('s, unit) km" where
  "kfor [] body = ret ()"
| "kfor (i # is) body = thn (body i) (kfor is body)"

named_theorems km "execution of the sequencing combinators"

lemma ret_run [km, simp]: "ret x s = Ret x s"
  by (simp add: ret_def)

lemma panic_run [km, simp]: "panic e s = Panic e"
  by (simp add: panic_def)

lemma fault_run [km, simp]: "fault e s = Fault e"
  by (simp add: fault_def)

lemma gets_run [km, simp]: "gets f s = Ret (f s) s"
  by (simp add: gets_def)

lemma modf_run [km, simp]: "modf f s = Ret () (f s)"
  by (simp add: modf_def)

lemma bnd_run [km, simp]: "bnd m f s = obind (m s) f"
  by (simp add: bnd_def)

lemma thn_run [km, simp]: "thn m n s = obind (m s) (\<lambda>_. n)"
  by (simp add: thn_def)

lemma obind_weak_cong [cong]: "r = r' \<Longrightarrow> obind r f = obind r' f"
  by simp

lemma obind_Ret_iff:
  "obind r f = Ret y t \<longleftrightarrow> (\<exists>x s. r = Ret x s \<and> f x s = Ret y t)"
  by (cases r) auto

lemma obind_Asleep_iff:
  "obind r f = Asleep t \<longleftrightarrow> r = Asleep t \<or> (\<exists>x s. r = Ret x s \<and> f x s = Asleep t)"
  by (cases r) auto

lemma obind_assoc: "obind (obind r f) g = obind r (\<lambda>x s. obind (f x s) g)"
  by (cases r) auto

lemma thn_assoc: "thn (thn a b) c = thn a (thn b c)"
proof (rule ext)
  fix s
  show "thn (thn a b) c s = thn a (thn b c) s" by (cases "a s") simp_all
qed

lemma kfor_snoc: "kfor (xs @ [x]) f s = obind (kfor xs f s) (\<lambda>_. f x)"
proof (induction xs arbitrary: s)
  case Nil
  then show ?case by (cases "f x s") simp_all
next
  case (Cons y ys)
  then show ?case by (cases "f y s") simp_all
qed

lemma whn_run [km, simp]: "whn b m s = (if b then m s else Ret () s)"
  by (simp add: whn_def)

lemma bnd_RetE:
  assumes "bnd m f s = Ret y t"
  obtains x s' where "m s = Ret x s'" and "f x s' = Ret y t"
  using assms by (auto simp: obind_Ret_iff)

lemma thn_RetE:
  assumes "thn m n s = Ret y t"
  obtains x s' where "m s = Ret x s'" and "n s' = Ret y t"
  using assms by (auto simp: obind_Ret_iff)

text \<open>A predicate that a computation keeps wherever it returns or goes to sleep.\<close>

definition keeps :: "('s \<Rightarrow> bool) \<Rightarrow> ('s, 'a) km \<Rightarrow> bool" where
  "keeps I m \<longleftrightarrow> (\<forall>s. I s \<longrightarrow>
     (\<forall>x t. m s = Ret x t \<longrightarrow> I t) \<and> (\<forall>t. m s = Asleep t \<longrightarrow> I t))"

lemma keepsI:
  assumes "\<And>s x t. I s \<Longrightarrow> m s = Ret x t \<Longrightarrow> I t"
    and "\<And>s t. I s \<Longrightarrow> m s = Asleep t \<Longrightarrow> I t"
  shows "keeps I m"
  unfolding keeps_def using assms by blast

lemma keeps_Ret: "keeps I m \<Longrightarrow> I s \<Longrightarrow> m s = Ret x t \<Longrightarrow> I t"
  unfolding keeps_def by blast

lemma keeps_bnd: "keeps I m \<Longrightarrow> (\<And>x. keeps I (f x)) \<Longrightarrow> keeps I (bnd m f)"
  unfolding keeps_def bnd_def obind_Ret_iff obind_Asleep_iff by blast

lemma keeps_thn: "keeps I m \<Longrightarrow> keeps I n \<Longrightarrow> keeps I (thn m n)"
  unfolding thn_def by (rule keeps_bnd)

lemma keeps_simple:
  "keeps I (ret x)" "keeps I (panic e)" "keeps I (fault e)" "keeps I (gets f)"
  by (auto simp: keeps_def)

lemma keeps_modf: "(\<And>s. I s \<Longrightarrow> I (f s)) \<Longrightarrow> keeps I (modf f)"
  by (auto simp: keeps_def)

lemma keeps_whn: "keeps I m \<Longrightarrow> keeps I (whn b m)"
  by (simp add: whn_def keeps_simple)

lemma keeps_if:
  "(b \<Longrightarrow> keeps I m) \<Longrightarrow> (\<not> b \<Longrightarrow> keeps I n) \<Longrightarrow> keeps I (if b then m else n)"
  by simp

lemma keeps_kfor: "(\<And>i. keeps I (body i)) \<Longrightarrow> keeps I (kfor is body)"
  by (induction "is") (simp_all add: keeps_simple keeps_thn)

lemmas keeps_intros = keeps_bnd keeps_thn keeps_simple keeps_whn keeps_if keeps_kfor

text \<open>A computation that never gives up the CPU.\<close>

definition awake :: "('s, 'a) km \<Rightarrow> bool" where
  "awake m \<longleftrightarrow> (\<forall>s t. m s \<noteq> Asleep t)"

lemma awakeD: "awake m \<Longrightarrow> m s \<noteq> Asleep t"
  by (simp add: awake_def)

lemma awake_bnd: "awake m \<Longrightarrow> (\<And>x. awake (f x)) \<Longrightarrow> awake (bnd m f)"
  unfolding awake_def bnd_def obind_Asleep_iff by blast

lemma awake_thn: "awake m \<Longrightarrow> awake n \<Longrightarrow> awake (thn m n)"
  unfolding thn_def by (rule awake_bnd)

lemma awake_simple:
  "awake (ret x)" "awake (panic e)" "awake (fault e)" "awake (gets f)" "awake (modf g)" "awake (\<lambda>s. Spin)"
  by (simp_all add: awake_def)

lemma awake_whn: "awake m \<Longrightarrow> awake (whn b m)"
  by (simp add: whn_def awake_simple)

lemma awake_if:
  "(b \<Longrightarrow> awake m) \<Longrightarrow> (\<not> b \<Longrightarrow> awake n) \<Longrightarrow> awake (if b then m else n)"
  by simp

lemma awake_option:
  "(x = None \<Longrightarrow> awake m) \<Longrightarrow> (\<And>y. x = Some y \<Longrightarrow> awake (f y)) \<Longrightarrow>
   awake (case x of None \<Rightarrow> m | Some y \<Rightarrow> f y)"
  by (simp split: option.split)

lemma awake_kfor: "(\<And>i. awake (body i)) \<Longrightarrow> awake (kfor is body)"
  by (induction "is") (simp_all add: awake_simple awake_thn)

lemmas awake_intros = awake_bnd awake_thn awake_simple awake_whn awake_if awake_option awake_kfor

subsection \<open>Scans of an array by index\<close>

text \<open>
  A \<open>for\<close> loop that updates the entries of an array one by one, where the update of an
  entry looks at that entry only, is the pointwise update of the whole array.
\<close>

lemma fold_pointwise:
  assumes "distinct is"
  shows "fold (\<lambda>i t. if P (t i) then t(i := f (t i)) else t) is t
    = (\<lambda>i. if i \<in> set is \<and> P (t i) then f (t i) else t i)"
  using assms
proof (induction "is" arbitrary: t)
  case Nil
  then show ?case by simp
next
  case (Cons i "is")
  then show ?case by (auto simp: fun_eq_iff)
qed

lemma find_upt_Some:
  "find P [0..<n] = Some i \<longleftrightarrow> i < n \<and> P i \<and> (\<forall>j<i. \<not> P j)"
proof -
  have "find P [0..<n] = Some i \<longleftrightarrow>
      (\<exists>k<n. P k \<and> i = k \<and> (\<forall>j<k. \<not> P j))"
    by (auto simp: find_Some_iff)
  then show ?thesis by blast
qed

lemma find_upt_None: "find P [0..<n] = None \<longleftrightarrow> (\<forall>i<n. \<not> P i)"
  by (auto simp: find_None_iff)

lemma mod_shift_neq:
  assumes "i < j" and "j < (n :: nat)"
  shows "(a + i) mod n \<noteq> (a + j) mod n"
proof
  assume "(a + i) mod n = (a + j) mod n"
  then have "n dvd (a + j) - (a + i)" using assms(1) by (intro mod_eq_dvd_iff_nat [THEN iffD1]) simp_all
  then show False using assms dvd_imp_le [of n "j - i"] by auto
qed

subsection \<open>Words\<close>

lemma unat_u32_less: "unat (x :: u32) < 4294967296"
proof -
  have "unat x < 2 ^ LENGTH(32)" by (rule unsigned_less)
  then show ?thesis by simp
qed

lemma unat_of_nat_small: "k < 4294967296 \<Longrightarrow> unat (of_nat k :: u32) = k"
  by (simp add: unat_of_nat take_bit_nat_eq_self)

lemma of_nat_u32_inj:
  assumes "i < 4294967296" and "j < 4294967296" and "(of_nat i :: u32) = of_nat j"
  shows "i = j"
  using assms unat_of_nat_small by metis

lemma unat_less_add:
  fixes a b :: u32
  assumes "unat a + unat b < 2 ^ 32"
  shows "unat (a + b) = unat a + unat b"
  using assms by (simp add: unat_word_ariths)

end
