(* ===== verification/Machine.thy ===== *)
theory Machine
  imports Kernel_Prelude
begin

section \<open>CPUs, interrupts and spin locks (spinlock.c, mycpu and myproc of proc.c)\<close>

text \<open>
  The machine as the executing CPU sees it: the array \<open>cpus\<close> with its \<open>ncpu\<close>
  entries in use, the identifier its local APIC reports, its interrupt-enable flag (bit FL_IF
  of eflags), its page-directory register cr3, and the spin locks, named by the data they
  protect. The debugging fields \<open>pcs\<close> of a lock (a call stack) are left out.
\<close>

record cpu =
  apicid :: u8
  ncli :: int
  intena :: bool
  cproc :: "nat option"
  ts_esp0 :: u32

datatype sleepid = BufSleep nat | InodeSleep nat

datatype lockid =
    PtableLock | KmemLock | BcacheLock | IdeLock | LogLock | IcacheLock | FtableLock
  | ConsLock | TicksLock | PipeLock u32 | SleepSpin sleepid

record spinlock =
  lname :: string
  locked :: bool
  lcpu :: "nat option"

record machine =
  cpus :: "nat \<Rightarrow> cpu"
  ncpu :: nat
  lapicid :: u8
  eflags_IF :: bool
  cr3 :: u32
  locks :: "lockid \<Rightarrow> spinlock"

text \<open>The kernel's state: each component below extends it with its own globals.\<close>

record kstate =
  mach :: machine

subsection \<open>Interrupt flag and current CPU\<close>

definition readeflags_IF :: "('z kstate_scheme, bool) km" where
  "readeflags_IF = gets (\<lambda>s. eflags_IF (mach s))"

definition cli :: "('z kstate_scheme, unit) km" where
  "cli = modf (\<lambda>s. s\<lparr>mach := (mach s)\<lparr>eflags_IF := False\<rparr>\<rparr>)"

definition sti :: "('z kstate_scheme, unit) km" where
  "sti = modf (\<lambda>s. s\<lparr>mach := (mach s)\<lparr>eflags_IF := True\<rparr>\<rparr>)"

definition find_cpu :: "machine \<Rightarrow> nat option" where
  "find_cpu m = find (\<lambda>i. apicid (cpus m i) = lapicid m) [0..<ncpu m]"

definition mycpu :: "('z kstate_scheme, nat) km" where
  "mycpu = bnd readeflags_IF (\<lambda>f.
     if f then panic (''mycpu called with interrupts enabled'' @ [CHR 0x0A])
     else bnd (gets (\<lambda>s. find_cpu (mach s))) (\<lambda>c.
       case c of Some i \<Rightarrow> ret i | None \<Rightarrow> panic (''unknown apicid'' @ [CHR 0x0A])))"

definition cpuid :: "('z kstate_scheme, nat) km" where
  "cpuid = mycpu"

definition set_cpu :: "nat \<Rightarrow> (cpu \<Rightarrow> cpu) \<Rightarrow> ('z kstate_scheme, unit) km" where
  "set_cpu c f = modf (\<lambda>s. s\<lparr>mach := (mach s)\<lparr>cpus := (cpus (mach s))(c := f (cpus (mach s) c))\<rparr>\<rparr>)"

definition get_cpu :: "nat \<Rightarrow> ('z kstate_scheme, cpu) km" where
  "get_cpu c = gets (\<lambda>s. cpus (mach s) c)"

subsection \<open>Nested interrupt disabling\<close>

definition pushcli :: "('z kstate_scheme, unit) km" where
  "pushcli = bnd readeflags_IF (\<lambda>eflags.
     thn cli (
     bnd mycpu (\<lambda>c.
     bnd (get_cpu c) (\<lambda>k.
     thn (whn (ncli k = 0) (set_cpu c (\<lambda>k. k\<lparr>intena := eflags\<rparr>)))
         (set_cpu c (\<lambda>k. k\<lparr>ncli := ncli k + 1\<rparr>))))))"

definition popcli :: "('z kstate_scheme, unit) km" where
  "popcli = bnd readeflags_IF (\<lambda>f.
     if f then panic ''popcli - interruptible''
     else bnd mycpu (\<lambda>c.
       thn (set_cpu c (\<lambda>k. k\<lparr>ncli := ncli k - 1\<rparr>)) (
       bnd (get_cpu c) (\<lambda>k.
       if ncli k < 0 then panic ''popcli''
       else whn (ncli k = 0 \<and> intena k) sti))))"

subsection \<open>The lock operations\<close>

definition set_lock :: "lockid \<Rightarrow> (spinlock \<Rightarrow> spinlock) \<Rightarrow> ('z kstate_scheme, unit) km" where
  "set_lock lk f =
     modf (\<lambda>s. s\<lparr>mach := (mach s)\<lparr>locks := (locks (mach s))(lk := f (locks (mach s) lk))\<rparr>\<rparr>)"

definition initlock :: "lockid \<Rightarrow> string \<Rightarrow> ('z kstate_scheme, unit) km" where
  "initlock lk nm = set_lock lk (\<lambda>_. \<lparr>lname = nm, locked = False, lcpu = None\<rparr>)"

definition holding :: "lockid \<Rightarrow> ('z kstate_scheme, bool) km" where
  "holding lk =
     thn pushcli (
     bnd (gets (\<lambda>s. locks (mach s) lk)) (\<lambda>l.
     bnd (if locked l then bnd mycpu (\<lambda>c. ret (lcpu l = Some c)) else ret False) (\<lambda>r.
     thn popcli (ret r))))"

text \<open>
  \<open>xchg(&lk->locked, 1)\<close> returns the old value. The loop leaves only when the old value
  is 0; while another CPU holds the lock nothing this CPU does changes it, which is \<open>Spin\<close>.
\<close>

definition xchg_loop :: "lockid \<Rightarrow> ('z kstate_scheme, unit) km" where
  "xchg_loop lk s =
     (if locked (locks (mach s) lk) then Spin else set_lock lk (\<lambda>l. l\<lparr>locked := True\<rparr>) s)"

definition acquire :: "lockid \<Rightarrow> ('z kstate_scheme, unit) km" where
  "acquire lk =
     thn pushcli (
     bnd (holding lk) (\<lambda>h.
     if h then panic ''acquire''
     else thn (xchg_loop lk) (
       bnd mycpu (\<lambda>c. set_lock lk (\<lambda>l. l\<lparr>lcpu := Some c\<rparr>)))))"

definition release :: "lockid \<Rightarrow> ('z kstate_scheme, unit) km" where
  "release lk =
     bnd (holding lk) (\<lambda>h.
     if \<not> h then panic ''release''
     else thn (set_lock lk (\<lambda>l. l\<lparr>lcpu := None\<rparr>)) (
       thn (set_lock lk (\<lambda>l. l\<lparr>locked := False\<rparr>)) popcli))"

text \<open>\<open>myproc()\<close>: the process this CPU is running, if any.\<close>

definition myproc :: "('z kstate_scheme, nat option) km" where
  "myproc = thn pushcli (bnd mycpu (\<lambda>c. bnd (get_cpu c) (\<lambda>k. thn popcli (ret (cproc k)))))"

subsection \<open>What the lock operations do to the machine\<close>

text \<open>
  \<open>cpu_ok\<close>: the executing CPU is one of the table, its nesting depth is not negative,
  interrupts are off whenever the depth is positive, and at depth 0 the saved flag
  \<open>intena\<close> agrees with the hardware flag (which every matched pair of pushcli and popcli
  establishes). From such a state pushcli and popcli are inverse to each other, and
  \<open>grab\<close> and \<open>drop_lk\<close> describe acquire and release.
\<close>

definition this_cpu :: "machine \<Rightarrow> nat" where
  "this_cpu m = the (find_cpu m)"

definition my_cpu :: "machine \<Rightarrow> cpu" where
  "my_cpu m = cpus m (this_cpu m)"

definition upd_my_cpu :: "(cpu \<Rightarrow> cpu) \<Rightarrow> machine \<Rightarrow> machine" where
  "upd_my_cpu f m = m\<lparr>cpus := (cpus m)(this_cpu m := f (cpus m (this_cpu m)))\<rparr>"

definition cpu_ok :: "machine \<Rightarrow> bool" where
  "cpu_ok m \<longleftrightarrow> find_cpu m \<noteq> None \<and> 0 \<le> ncli (my_cpu m) \<and>
     (0 < ncli (my_cpu m) \<longrightarrow> \<not> eflags_IF m) \<and>
     (ncli (my_cpu m) = 0 \<longrightarrow> intena (my_cpu m) = eflags_IF m)"

definition cli_in :: "machine \<Rightarrow> machine" where
  "cli_in m = upd_my_cpu (\<lambda>k. k\<lparr>ncli := ncli k + 1\<rparr>) (m\<lparr>eflags_IF := False\<rparr>)"

definition cli_out :: "machine \<Rightarrow> machine" where
  "cli_out m = upd_my_cpu (\<lambda>k. k\<lparr>ncli := ncli k - 1\<rparr>)
     (m\<lparr>eflags_IF := (ncli (my_cpu m) = 1 \<and> intena (my_cpu m))\<rparr>)"

definition held :: "machine \<Rightarrow> lockid \<Rightarrow> bool" where
  "held m lk \<longleftrightarrow> locked (locks m lk) \<and> lcpu (locks m lk) = Some (this_cpu m)"

definition lk_free :: "machine \<Rightarrow> lockid \<Rightarrow> bool" where
  "lk_free m lk \<longleftrightarrow> \<not> locked (locks m lk) \<and> lcpu (locks m lk) = None"

definition set_lk :: "lockid \<Rightarrow> (spinlock \<Rightarrow> spinlock) \<Rightarrow> machine \<Rightarrow> machine" where
  "set_lk lk f m = m\<lparr>locks := (locks m)(lk := f (locks m lk))\<rparr>"

definition grab :: "lockid \<Rightarrow> machine \<Rightarrow> machine" where
  "grab lk m = set_lk lk (\<lambda>l. l\<lparr>locked := True, lcpu := Some (this_cpu m)\<rparr>) (cli_in m)"

definition drop_lk :: "lockid \<Rightarrow> machine \<Rightarrow> machine" where
  "drop_lk lk m = cli_out (set_lk lk (\<lambda>l. l\<lparr>lcpu := None, locked := False\<rparr>) m)"

definition cur_proc :: "machine \<Rightarrow> nat option" where
  "cur_proc m = cproc (my_cpu m)"

named_theorems mach_simps "the machine after lock operations"

text \<open>Finding the executing CPU looks only at the identifiers, which no operation changes.\<close>

lemma find_cpu_cong:
  "ncpu m' = ncpu m \<Longrightarrow> lapicid m' = lapicid m \<Longrightarrow>
   (\<And>i. apicid (cpus m' i) = apicid (cpus m i)) \<Longrightarrow> find_cpu m' = find_cpu m"
  by (simp add: find_cpu_def)

lemma find_cpu_upd [mach_simps, simp]:
  "find_cpu (m\<lparr>eflags_IF := b\<rparr>) = find_cpu m"
  "find_cpu (m\<lparr>locks := l\<rparr>) = find_cpu m"
  "find_cpu (m\<lparr>cr3 := x\<rparr>) = find_cpu m"
  by (simp_all add: find_cpu_def)

lemma find_cpu_upd_my [mach_simps, simp]:
  "(\<And>k. apicid (f k) = apicid k) \<Longrightarrow> find_cpu (upd_my_cpu f m) = find_cpu m"
  by (rule find_cpu_cong) (simp_all add: upd_my_cpu_def)

lemma this_cpu_upd [mach_simps, simp]:
  "this_cpu (m\<lparr>eflags_IF := b\<rparr>) = this_cpu m"
  "this_cpu (m\<lparr>locks := l\<rparr>) = this_cpu m"
  "this_cpu (m\<lparr>cr3 := x\<rparr>) = this_cpu m"
  "(\<And>k. apicid (f k) = apicid k) \<Longrightarrow> this_cpu (upd_my_cpu f m) = this_cpu m"
  by (simp_all add: this_cpu_def)

lemma my_cpu_upd [mach_simps, simp]:
  "my_cpu (m\<lparr>eflags_IF := b\<rparr>) = my_cpu m"
  "my_cpu (m\<lparr>locks := l\<rparr>) = my_cpu m"
  "my_cpu (m\<lparr>cr3 := x\<rparr>) = my_cpu m"
  "(\<And>k. apicid (f k) = apicid k) \<Longrightarrow> my_cpu (upd_my_cpu f m) = f (my_cpu m)"
  unfolding my_cpu_def by (simp_all) (simp add: upd_my_cpu_def)

lemma upd_my_cpu_fields [mach_simps, simp]:
  "eflags_IF (upd_my_cpu f m) = eflags_IF m"
  "locks (upd_my_cpu f m) = locks m"
  "cr3 (upd_my_cpu f m) = cr3 m"
  "ncpu (upd_my_cpu f m) = ncpu m"
  "lapicid (upd_my_cpu f m) = lapicid m"
  by (simp_all add: upd_my_cpu_def)

lemma upd_my_cpu_comm [mach_simps, simp]:
  "upd_my_cpu f (m\<lparr>eflags_IF := b\<rparr>) = (upd_my_cpu f m)\<lparr>eflags_IF := b\<rparr>"
  "upd_my_cpu f (m\<lparr>locks := l\<rparr>) = (upd_my_cpu f m)\<lparr>locks := l\<rparr>"
  by (simp_all add: upd_my_cpu_def)

lemma upd_my_cpu_twice:
  "(\<And>k. apicid (f k) = apicid k) \<Longrightarrow>
   upd_my_cpu g (upd_my_cpu f m) = upd_my_cpu (\<lambda>k. g (f k)) m"
  unfolding upd_my_cpu_def [of g] by (simp, simp add: upd_my_cpu_def)

lemma upd_my_cpu_id: "f (my_cpu m) = my_cpu m \<Longrightarrow> upd_my_cpu f m = m"
  by (simp add: upd_my_cpu_def my_cpu_def)

lemma ops_this_cpu [mach_simps, simp]:
  "find_cpu (cli_in m) = find_cpu m"
  "find_cpu (cli_out m) = find_cpu m"
  "find_cpu (set_lk lk f m) = find_cpu m"
  "find_cpu (grab lk m) = find_cpu m"
  "find_cpu (drop_lk lk m) = find_cpu m"
  by (simp_all add: cli_in_def cli_out_def set_lk_def grab_def drop_lk_def)

lemma this_cpu_ops [mach_simps, simp]:
  "this_cpu (cli_in m) = this_cpu m"
  "this_cpu (cli_out m) = this_cpu m"
  "this_cpu (set_lk lk f m) = this_cpu m"
  "this_cpu (grab lk m) = this_cpu m"
  "this_cpu (drop_lk lk m) = this_cpu m"
  by (simp_all add: this_cpu_def)

lemma locks_ops [mach_simps, simp]:
  "locks (cli_in m) = locks m"
  "locks (cli_out m) = locks m"
  "locks (set_lk lk f m) = (locks m)(lk := f (locks m lk))"
  by (simp_all add: cli_in_def cli_out_def set_lk_def)

lemma my_cpu_ops [mach_simps, simp]:
  "my_cpu (cli_in m) = (my_cpu m)\<lparr>ncli := ncli (my_cpu m) + 1\<rparr>"
  "my_cpu (cli_out m) = (my_cpu m)\<lparr>ncli := ncli (my_cpu m) - 1\<rparr>"
  "my_cpu (set_lk lk f m) = my_cpu m"
  "my_cpu (grab lk m) = (my_cpu m)\<lparr>ncli := ncli (my_cpu m) + 1\<rparr>"
  "my_cpu (drop_lk lk m) = (my_cpu m)\<lparr>ncli := ncli (my_cpu m) - 1\<rparr>"
  by (simp_all add: cli_in_def cli_out_def set_lk_def grab_def drop_lk_def)

lemma cur_proc_ops [mach_simps, simp]:
  "cur_proc (cli_in m) = cur_proc m"
  "cur_proc (cli_out m) = cur_proc m"
  "cur_proc (set_lk lk f m) = cur_proc m"
  "cur_proc (grab lk m) = cur_proc m"
  "cur_proc (drop_lk lk m) = cur_proc m"
  by (simp_all add: cur_proc_def)

lemma held_ops [mach_simps, simp]:
  "held (cli_in m) lk = held m lk"
  "held (cli_out m) lk = held m lk"
  "held (grab l m) lk \<longleftrightarrow> l = lk \<or> held m lk"
  "held (drop_lk l m) lk \<longleftrightarrow> l \<noteq> lk \<and> held m lk"
  by (auto simp: held_def grab_def drop_lk_def)

lemma lk_free_ops [mach_simps, simp]:
  "lk_free (cli_in m) lk = lk_free m lk"
  "lk_free (cli_out m) lk = lk_free m lk"
  "lk_free (grab l m) lk \<longleftrightarrow> l \<noteq> lk \<and> lk_free m lk"
  "lk_free (drop_lk l m) lk \<longleftrightarrow> l = lk \<or> lk_free m lk"
  by (auto simp: lk_free_def grab_def drop_lk_def)

lemma free_not_held [simp]: "lk_free m lk \<Longrightarrow> \<not> held m lk"
  by (simp add: lk_free_def held_def)

lemma IF_ops [mach_simps, simp]:
  "\<not> eflags_IF (cli_in m)"
  "\<not> eflags_IF (grab lk m)"
  "eflags_IF (set_lk lk f m) = eflags_IF m"
  "eflags_IF (cli_out m) \<longleftrightarrow> ncli (my_cpu m) = 1 \<and> intena (my_cpu m)"
  by (simp_all add: cli_in_def grab_def set_lk_def cli_out_def)

lemma cpu_ok_ops [mach_simps, simp]:
  "cpu_ok m \<Longrightarrow> cpu_ok (cli_in m)"
  "cpu_ok (set_lk lk f m) = cpu_ok m"
  "cpu_ok m \<Longrightarrow> cpu_ok (grab lk m)"
  "cpu_ok m \<Longrightarrow> 0 < ncli (my_cpu m) \<Longrightarrow> cpu_ok (cli_out m)"
  "cpu_ok m \<Longrightarrow> 0 < ncli (my_cpu m) \<Longrightarrow> cpu_ok (drop_lk lk m)"
  by (auto simp: cpu_ok_def grab_def drop_lk_def)

lemma cpu_ok_depth: "cpu_ok m \<Longrightarrow> 0 \<le> ncli (my_cpu m)"
  by (simp add: cpu_ok_def)

lemma cli_out_in [mach_simps, simp]: "cpu_ok m \<Longrightarrow> cli_out (cli_in m) = m"
proof -
  assume ok: "cpu_ok m"
  have "cli_out (cli_in m) = (upd_my_cpu (\<lambda>k. k) m)\<lparr>eflags_IF :=
      (ncli (my_cpu m) = 0 \<and> intena (my_cpu m))\<rparr>"
    by (simp add: cli_out_def) (simp add: cli_in_def upd_my_cpu_twice)
  also have "\<dots> = m"
    using ok by (auto simp: upd_my_cpu_id cpu_ok_def)
  finally show ?thesis .
qed

lemma set_lk_cli_in [mach_simps]: "set_lk lk f (cli_in m) = cli_in (set_lk lk f m)"
  by (simp add: set_lk_def cli_in_def)

lemma set_lk_id: "f (locks m lk) = locks m lk \<Longrightarrow> set_lk lk f m = m"
  by (simp add: set_lk_def)

lemma drop_grab [mach_simps, simp]:
  assumes "cpu_ok m" and "lk_free m lk"
  shows "drop_lk lk (grab lk m) = m"
proof -
  have "set_lk lk (\<lambda>l. l\<lparr>lcpu := None, locked := False\<rparr>) (grab lk m)
      = set_lk lk (\<lambda>l. l\<lparr>lcpu := None, locked := False\<rparr>) (cli_in m)"
    by (simp add: grab_def set_lk_def)
  also have "\<dots> = cli_in m"
    using assms(2) by (simp add: set_lk_id lk_free_def)
  finally show ?thesis using assms(1) by (simp add: drop_lk_def)
qed

subsection \<open>Execution of the operations from a good machine state\<close>

lemma cpu_ok_found: "cpu_ok m \<Longrightarrow> find_cpu m = Some (this_cpu m)"
  by (auto simp: cpu_ok_def this_cpu_def)

lemma mycpu_at [simp]:
  "find_cpu (mach s) \<noteq> None \<Longrightarrow> \<not> eflags_IF (mach s) \<Longrightarrow> mycpu s = Ret (this_cpu (mach s)) s"
  by (auto simp: mycpu_def readeflags_IF_def this_cpu_def)

lemma set_my_cpu_run:
  "set_cpu (this_cpu (mach s)) f s = Ret () (s\<lparr>mach := upd_my_cpu f (mach s)\<rparr>)"
  by (simp add: set_cpu_def upd_my_cpu_def)

lemma get_my_cpu_run:
  "get_cpu (this_cpu (mach s)) s = Ret (my_cpu (mach s)) s"
  by (simp add: get_cpu_def my_cpu_def)

lemma set_lock_run:
  "set_lock lk f s = Ret () (s\<lparr>mach := set_lk lk f (mach s)\<rparr>)"
  by (simp add: set_lock_def set_lk_def)

lemma pushcli_run [simp]:
  assumes "cpu_ok (mach s)"
  shows "pushcli s = Ret () (s\<lparr>mach := cli_in (mach s)\<rparr>)"
proof -
  define t where "t = s\<lparr>mach := (mach s)\<lparr>eflags_IF := False\<rparr>\<rparr>"
  have f: "find_cpu (mach t) \<noteq> None" "\<not> eflags_IF (mach t)"
    and tc: "this_cpu (mach t) = this_cpu (mach s)" "my_cpu (mach t) = my_cpu (mach s)"
    using assms by (auto simp: t_def cpu_ok_def)
  have "pushcli s = obind (mycpu t) (\<lambda>c. bnd (get_cpu c) (\<lambda>k.
      thn (whn (ncli k = 0) (set_cpu c (\<lambda>k. k\<lparr>intena := eflags_IF (mach s)\<rparr>)))
          (set_cpu c (\<lambda>k. k\<lparr>ncli := ncli k + 1\<rparr>))))"
    by (simp add: pushcli_def readeflags_IF_def cli_def t_def)
  also have "\<dots> = obind ((whn (ncli (my_cpu (mach t)) = 0)
        (set_cpu (this_cpu (mach t)) (\<lambda>k. k\<lparr>intena := eflags_IF (mach s)\<rparr>))) t)
      (\<lambda>_. set_cpu (this_cpu (mach t)) (\<lambda>k. k\<lparr>ncli := ncli k + 1\<rparr>))"
    using f by (simp add: get_my_cpu_run)
  also have "whn (ncli (my_cpu (mach t)) = 0)
        (set_cpu (this_cpu (mach t)) (\<lambda>k. k\<lparr>intena := eflags_IF (mach s)\<rparr>)) t = Ret () t"
  proof (cases "ncli (my_cpu (mach t)) = 0")
    case True
    then have "upd_my_cpu (\<lambda>k. k\<lparr>intena := eflags_IF (mach s)\<rparr>) (mach t) = mach t"
      using assms tc by (intro upd_my_cpu_id) (simp add: cpu_ok_def)
    with True show ?thesis by (simp add: set_my_cpu_run)
  qed simp
  finally show ?thesis
    by (simp add: set_my_cpu_run) (simp add: t_def cli_in_def)
qed

lemma popcli_run [simp]:
  assumes "cpu_ok (mach s)" and "0 < ncli (my_cpu (mach s))"
  shows "popcli s = Ret () (s\<lparr>mach := cli_out (mach s)\<rparr>)"
proof -
  have 1: "find_cpu (mach s) \<noteq> None" "\<not> eflags_IF (mach s)"
    using assms by (auto simp: cpu_ok_def)
  define t where "t = s\<lparr>mach := upd_my_cpu (\<lambda>k. k\<lparr>ncli := ncli k - 1\<rparr>) (mach s)\<rparr>"
  have t: "this_cpu (mach t) = this_cpu (mach s)"
    "my_cpu (mach t) = (my_cpu (mach s))\<lparr>ncli := ncli (my_cpu (mach s)) - 1\<rparr>"
    "eflags_IF (mach t) = eflags_IF (mach s)"
    by (simp_all add: t_def)
  have "popcli s = bnd (get_cpu (this_cpu (mach t))) (\<lambda>k.
       if ncli k < 0 then panic ''popcli'' else whn (ncli k = 0 \<and> intena k) sti) t"
    using 1 by (simp add: popcli_def readeflags_IF_def set_my_cpu_run t) (simp add: t_def)
  also have "\<dots> = Ret () (if ncli (my_cpu (mach s)) = 1 \<and> intena (my_cpu (mach s))
      then t\<lparr>mach := (mach t)\<lparr>eflags_IF := True\<rparr>\<rparr> else t)"
    using assms(2) get_my_cpu_run [of t] t by (simp add: sti_def)
  also have "\<dots> = Ret () (s\<lparr>mach := cli_out (mach s)\<rparr>)"
    using 1 by (auto simp: t_def cli_out_def)
  finally show ?thesis .
qed

lemma holding_run [simp]:
  assumes "cpu_ok (mach s)"
  shows "holding lk s = Ret (held (mach s) lk) s"
proof -
  have "find_cpu (mach s) \<noteq> None" "0 \<le> ncli (my_cpu (mach s))"
    using assms by (auto simp: cpu_ok_def)
  then show ?thesis
    using assms by (auto simp: holding_def held_def)
qed

lemma myproc_run [simp]:
  assumes "cpu_ok (mach s)"
  shows "myproc s = Ret (cur_proc (mach s)) s"
proof -
  have "find_cpu (mach s) \<noteq> None" "0 \<le> ncli (my_cpu (mach s))"
    using assms by (auto simp: cpu_ok_def)
  then show ?thesis
    using assms get_my_cpu_run [of "s\<lparr>mach := cli_in (mach s)\<rparr>"]
    by (simp add: myproc_def cur_proc_def)
qed

lemma acquire_run [simp]:
  assumes "cpu_ok (mach s)" and "lk_free (mach s) lk"
  shows "acquire lk s = Ret () (s\<lparr>mach := grab lk (mach s)\<rparr>)"
proof -
  have "find_cpu (mach s) \<noteq> None"
    using assms(1) by (auto simp: cpu_ok_def)
  moreover have "\<not> locked (locks (mach s) lk)"
    using assms(2) by (simp add: lk_free_def)
  ultimately show ?thesis
    using assms by (simp add: acquire_def xchg_loop_def set_lock_run grab_def) (simp add: set_lk_def)
qed

lemma acquire_panic:
  "cpu_ok (mach s) \<Longrightarrow> held (mach s) lk \<Longrightarrow> acquire lk s = Panic ''acquire''"
  by (simp add: acquire_def)

lemma acquire_spin:
  "cpu_ok (mach s) \<Longrightarrow> locked (locks (mach s) lk) \<Longrightarrow> \<not> held (mach s) lk \<Longrightarrow>
   acquire lk s = Spin"
  by (simp add: acquire_def xchg_loop_def)

lemma release_run [simp]:
  assumes "cpu_ok (mach s)" and "held (mach s) lk" and "0 < ncli (my_cpu (mach s))"
  shows "release lk s = Ret () (s\<lparr>mach := drop_lk lk (mach s)\<rparr>)"
  using assms
  by (simp add: release_def set_lock_run drop_lk_def) (simp add: set_lk_def)

lemma release_panic:
  "cpu_ok (mach s) \<Longrightarrow> \<not> held (mach s) lk \<Longrightarrow> release lk s = Panic ''release''"
  by (simp add: release_def)

end
