(* ===== verification/Console_Out.thy ===== *)
theory Console_Out
  imports Machine "HOL-Library.Char_ord"
begin

section \<open>Console output (console.c: printint, cprintf, cgaputc, consputc)\<close>

text \<open>
  Characters leave the kernel on two devices: the serial port, seen here as the sequence of
  bytes \<open>uart_out\<close> handed to uartputc, and the CGA screen, whose memory \<open>crt\<close> and
  cursor register \<open>cga_pos\<close> (two 8-bit halves on the port, one number here) are state.
  An \<open>int\<close> character code is a natural number; 0x100 is the code BACKSPACE.
\<close>

record kcons = kstate +
  cons_locking :: bool
  panicked :: bool
  uart_out :: "nat list"
  crt :: "nat \<Rightarrow> u16"
  cga_pos :: nat

definition BACKSPACE :: nat where "BACKSPACE = 256"

subsection \<open>Numbers\<close>

text \<open>
  The digit loop shared by the kernel's and the user library's printint: least significant
  digit first, at least one digit. Both call it with base 10 or 16; the guard on the base
  makes the recursion total.
\<close>

function pdigits :: "nat \<Rightarrow> nat \<Rightarrow> nat list" where
  "pdigits b x = (if b < 2 then [] else
     (x mod b) # (if x div b = 0 then [] else pdigits b (x div b)))"
  by pat_completeness auto
termination
  by (relation "measure (\<lambda>(b, x). x)") (auto intro!: div_less_dividend intro: gr0I)

declare pdigits.simps [simp del]

definition digits_lower :: string where "digits_lower = ''0123456789abcdef''"

definition printint_text :: "u32 \<Rightarrow> nat \<Rightarrow> bool \<Rightarrow> string" where
  "printint_text xx base signd =
     (let neg = (signd \<and> sint xx < 0);
          x = (if neg then - xx else xx);
          buf = map (\<lambda>d. digits_lower ! d) (pdigits base (unat x));
          buf = (if neg then buf @ ''-'' else buf)
      in rev buf)"

subsection \<open>The CGA screen\<close>

text \<open>The cursor is read and written through ports 14 and 15 of CRTPORT, 8 bits each.\<close>

definition cga_move :: "nat \<Rightarrow> nat \<Rightarrow> nat" where
  "cga_move c pos =
     (if c = 10 then pos + (80 - pos mod 80)
      else if c = BACKSPACE then (if 0 < pos then pos - 1 else pos)
      else pos + 1)"

definition cgaputc :: "nat \<Rightarrow> ('z kcons_scheme, unit) km" where
  "cgaputc c =
     bnd (gets cga_pos) (\<lambda>pos0.
     thn (whn (c \<noteq> 10 \<and> c \<noteq> BACKSPACE)
            (modf (\<lambda>s. s\<lparr>crt := (crt s)(pos0 := (of_nat c AND 255) OR 0x700)\<rparr>))) (
     let pos = cga_move c pos0 in
     if pos > 25 * 80 then panic ''pos under/overflow''
     else bnd
       (if pos div 80 \<ge> 24 then
          thn (modf (\<lambda>s. s\<lparr>crt := (\<lambda>i. if i < 23 * 80 then crt s (i + 80) else crt s i)\<rparr>))
         (thn (modf (\<lambda>s. s\<lparr>crt := (\<lambda>i. if pos - 80 \<le> i \<and> i < 24 * 80 then 0 else crt s i)\<rparr>))
              (ret (pos - 80)))
        else ret pos) (\<lambda>pos.
       modf (\<lambda>s. s\<lparr>cga_pos := pos mod 65536, crt := (crt s)(pos := 32 OR 0x700)\<rparr>))))"

definition uartputc :: "nat \<Rightarrow> ('z kcons_scheme, unit) km" where
  "uartputc c = modf (\<lambda>s. s\<lparr>uart_out := uart_out s @ [c mod 256]\<rparr>)"

definition consputc :: "nat \<Rightarrow> ('z kcons_scheme, unit) km" where
  "consputc c =
     bnd (gets panicked) (\<lambda>p.
     if p then thn cli (\<lambda>s. Spin)
     else thn (if c = BACKSPACE
               then thn (uartputc 8) (thn (uartputc 32) (uartputc 8))
               else uartputc c)
          (cgaputc c))"

definition consputs :: "string \<Rightarrow> ('z kcons_scheme, unit) km" where
  "consputs cs = kfor cs (\<lambda>c. consputc (of_char c))"

subsection \<open>cprintf\<close>

text \<open>
  The variable arguments are a list of words; an argument read by \<open>%s\<close> is a pointer,
  null or to a string. A conversion that finds no argument, or an argument of the other
  kind, reads the stack as something it is not, which C leaves undefined.
\<close>

datatype fmt_arg = FInt u32 | FPtr "string option"

fun cprintf_fmt :: "string \<Rightarrow> fmt_arg list \<Rightarrow> string option" where
  "cprintf_fmt [] as = Some []"
| "cprintf_fmt (c # fs) as =
     (if c \<noteq> CHR ''%'' then map_option (Cons c) (cprintf_fmt fs as)
      else case fs of
        [] \<Rightarrow> Some []
      | d # fs' \<Rightarrow>
        (if d = CHR ''d'' then
           (case as of FInt x # as' \<Rightarrow> map_option ((@) (printint_text x 10 True)) (cprintf_fmt fs' as')
            | _ \<Rightarrow> None)
         else if d = CHR ''x'' \<or> d = CHR ''p'' then
           (case as of FInt x # as' \<Rightarrow> map_option ((@) (printint_text x 16 False)) (cprintf_fmt fs' as')
            | _ \<Rightarrow> None)
         else if d = CHR ''s'' then
           (case as of FPtr p # as' \<Rightarrow>
              map_option ((@) (case p of None \<Rightarrow> ''(null)'' | Some t \<Rightarrow> t)) (cprintf_fmt fs' as')
            | _ \<Rightarrow> None)
         else if d = CHR ''%'' then map_option (Cons (CHR ''%'')) (cprintf_fmt fs' as)
         else map_option ((@) [CHR ''%'', d]) (cprintf_fmt fs' as)))"

definition cprintf :: "string \<Rightarrow> fmt_arg list \<Rightarrow> ('z kcons_scheme, unit) km" where
  "cprintf fmt as =
     bnd (gets cons_locking) (\<lambda>locking.
     thn (whn locking (acquire ConsLock)) (
     thn (case cprintf_fmt fmt as of None \<Rightarrow> fault ''cprintf: bad arguments'' | Some t \<Rightarrow> consputs t) (
     whn locking (release ConsLock))))"

subsection \<open>Printed numbers denote the number\<close>

fun digits_value :: "nat \<Rightarrow> nat list \<Rightarrow> nat" where
  "digits_value b [] = 0"
| "digits_value b (d # ds) = d + b * digits_value b ds"

lemma pdigits_value: "2 \<le> b \<Longrightarrow> digits_value b (pdigits b x) = x"
proof (induction b x rule: pdigits.induct)
  case (1 b x)
  show ?case
  proof (cases "x div b = 0")
    case True
    with "1.prems" show ?thesis
      by (subst pdigits.simps) (auto simp: div_eq_0_iff)
  next
    case False
    with 1 have "digits_value b (pdigits b (x div b)) = x div b" by simp
    with False "1.prems" show ?thesis
      by (subst pdigits.simps) simp
  qed
qed

lemma pdigits_small: "2 \<le> b \<Longrightarrow> d \<in> set (pdigits b x) \<Longrightarrow> d < b"
proof (induction b x rule: pdigits.induct)
  case (1 b x)
  then show ?case
    by (subst (asm) (2) pdigits.simps) (auto split: if_splits)
qed

lemma pdigits_length:
  "2 \<le> b \<Longrightarrow> 0 < k \<Longrightarrow> x < b ^ k \<Longrightarrow> length (pdigits b x) \<le> k"
proof (induction k arbitrary: x)
  case 0
  then show ?case by simp
next
  case (Suc k)
  show ?case
  proof (cases "x div b = 0")
    case True
    then show ?thesis by (subst pdigits.simps) simp
  next
    case False
    with Suc.prems have "x div b < b ^ k" by (simp add: div_less_iff_less_mult mult.commute)
    moreover have "0 < k"
      using False calculation by (cases k) auto
    ultimately show ?thesis
      using Suc.IH [of "x div b"] Suc.prems(1) False by (subst pdigits.simps) simp
  qed
qed

text \<open>The 16-byte buffer of printint is never overrun: ten decimal digits and a sign fit.\<close>

lemma printint_fits: "base = 10 \<or> base = 16 \<Longrightarrow> length (printint_text x base signd) \<le> 16"
proof -
  assume b: "base = 10 \<or> base = 16"
  have "length (pdigits base (unat y)) \<le> 10" for y :: u32
    using b unat_u32_less [of y] pdigits_length [of base 10 "unat y"] by auto
  from this [of x] this [of "- x"] show ?thesis
    by (auto simp: printint_text_def Let_def)
qed

subsection \<open>The cursor stays on the screen\<close>

lemma cga_move_bound: "pos < 24 * 80 \<Longrightarrow> cga_move c pos \<le> 24 * 80"
proof -
  assume a: "pos < 24 * 80"
  have "pos mod 80 < 80" by simp
  then have "pos + (80 - pos mod 80) = 80 * (pos div 80 + 1)"
    using div_mult_mod_eq [of pos 80] by arith
  moreover have "pos div 80 < 24"
    using a by (simp add: div_less_iff_less_mult)
  ultimately have "pos + (80 - pos mod 80) \<le> 24 * 80" by simp
  then show ?thesis using a by (auto simp: cga_move_def)
qed

lemma cgaputc_keeps_cursor:
  assumes "cga_pos s < 24 * 80"
  shows "\<exists>t. cgaputc c s = Ret () t \<and> cga_pos t < 24 * 80 \<and>
    mach t = mach s \<and> uart_out t = uart_out s \<and> panicked t = panicked s"
proof -
  have b: "cga_move c (cga_pos s) \<le> 24 * 80"
    using assms by (rule cga_move_bound)
  moreover have "24 \<le> cga_move c (cga_pos s) div 80 \<Longrightarrow> cga_move c (cga_pos s) = 24 * 80"
    using b by (simp add: less_eq_div_iff_mult_less_eq)
  ultimately show ?thesis
    by (auto simp: cgaputc_def Let_def less_eq_div_iff_mult_less_eq not_le)
qed

end
