(* ===== verification/Kstring.thy ===== *)
theory Kstring
  imports Kernel_Prelude
begin

section \<open>Memory and the kernel's string routines (string.c)\<close>

text \<open>
  Memory is a function from 32-bit addresses to bytes; address arithmetic wraps as the
  machine's does. \<open>ld32\<close> and \<open>st32\<close> are the little-endian loads and stores of a
  \<open>uint\<close>. The routines follow string.c; a count \<open>n\<close> that the C code decrements to 0
  is a natural number here.
\<close>

type_synonym mem = "u32 \<Rightarrow> u8"

definition ld32 :: "mem \<Rightarrow> u32 \<Rightarrow> u32" where
  "ld32 m a = ucast (m a) OR push_bit 8 (ucast (m (a + 1))) OR
     push_bit 16 (ucast (m (a + 2))) OR push_bit 24 (ucast (m (a + 3)))"

definition st32 :: "mem \<Rightarrow> u32 \<Rightarrow> u32 \<Rightarrow> mem" where
  "st32 m a v = m(a := ucast v, a + 1 := ucast (drop_bit 8 v),
     a + 2 := ucast (drop_bit 16 v), a + 3 := ucast (drop_bit 24 v))"

subsection \<open>memset\<close>

fun stosb :: "mem \<Rightarrow> u32 \<Rightarrow> u8 \<Rightarrow> nat \<Rightarrow> mem" where
  "stosb m d c 0 = m"
| "stosb m d c (Suc n) = stosb (m(d := c)) (d + 1) c n"

fun stosl :: "mem \<Rightarrow> u32 \<Rightarrow> u32 \<Rightarrow> nat \<Rightarrow> mem" where
  "stosl m d v 0 = m"
| "stosl m d v (Suc n) = stosl (st32 m d v) (d + 4) v n"

definition quad :: "u32 \<Rightarrow> u32" where
  "quad c = push_bit 24 c OR push_bit 16 c OR push_bit 8 c OR c"

definition memset :: "mem \<Rightarrow> u32 \<Rightarrow> u32 \<Rightarrow> nat \<Rightarrow> mem" where
  "memset m dst c n =
     (if unat dst mod 4 = 0 \<and> n mod 4 = 0 then
        stosl m dst (quad (c AND 255)) (n div 4)
      else stosb m dst (ucast c) n)"

subsection \<open>memcmp, memmove, memcpy\<close>

fun memcmp :: "mem \<Rightarrow> u32 \<Rightarrow> u32 \<Rightarrow> nat \<Rightarrow> int" where
  "memcmp m s1 s2 0 = 0"
| "memcmp m s1 s2 (Suc n) =
     (if m s1 \<noteq> m s2 then uint (m s1) - uint (m s2) else memcmp m (s1 + 1) (s2 + 1) n)"

fun copy_up :: "mem \<Rightarrow> u32 \<Rightarrow> u32 \<Rightarrow> nat \<Rightarrow> mem" where
  "copy_up m d s 0 = m"
| "copy_up m d s (Suc n) = copy_up (m(d := m s)) (d + 1) (s + 1) n"

fun copy_down :: "mem \<Rightarrow> u32 \<Rightarrow> u32 \<Rightarrow> nat \<Rightarrow> mem" where
  "copy_down m d s 0 = m"
| "copy_down m d s (Suc n) = copy_down (m(d - 1 := m (s - 1))) (d - 1) (s - 1) n"

definition memmove :: "mem \<Rightarrow> u32 \<Rightarrow> u32 \<Rightarrow> nat \<Rightarrow> mem" where
  "memmove m dst src n =
     (if src < dst \<and> src + of_nat n > dst
      then copy_down m (dst + of_nat n) (src + of_nat n) n
      else copy_up m dst src n)"

definition memcpy :: "mem \<Rightarrow> u32 \<Rightarrow> u32 \<Rightarrow> nat \<Rightarrow> mem" where
  "memcpy m dst src n = memmove m dst src n"

subsection \<open>Strings\<close>

fun strncmp :: "mem \<Rightarrow> u32 \<Rightarrow> u32 \<Rightarrow> nat \<Rightarrow> int" where
  "strncmp m p q 0 = 0"
| "strncmp m p q (Suc n) =
     (if m p \<noteq> 0 \<and> m p = m q then strncmp m (p + 1) (q + 1) n
      else uint (m p) - uint (m q))"

fun strncpy :: "mem \<Rightarrow> u32 \<Rightarrow> u32 \<Rightarrow> nat \<Rightarrow> mem" where
  "strncpy m s t 0 = m"
| "strncpy m s t (Suc n) =
     (let m' = m(s := m t)
      in if m t \<noteq> 0 then strncpy m' (s + 1) (t + 1) n else stosb m' (s + 1) 0 n)"

fun safestrcpy_loop :: "mem \<Rightarrow> u32 \<Rightarrow> u32 \<Rightarrow> nat \<Rightarrow> mem" where
  "safestrcpy_loop m s t 0 = m(s := 0)"
| "safestrcpy_loop m s t (Suc n) =
     (let m' = m(s := m t)
      in if m t \<noteq> 0 then safestrcpy_loop m' (s + 1) (t + 1) n else m'(s + 1 := 0))"

definition safestrcpy :: "mem \<Rightarrow> u32 \<Rightarrow> u32 \<Rightarrow> int \<Rightarrow> mem" where
  "safestrcpy m s t n = (if n \<le> 0 then m else safestrcpy_loop m s t (nat (n - 1)))"

partial_function (option) strlen_from :: "mem \<Rightarrow> u32 \<Rightarrow> nat \<Rightarrow> nat option" where
  "strlen_from m s n = (if m (s + of_nat n) = 0 then Some n else strlen_from m s (Suc n))"

definition strlen :: "mem \<Rightarrow> u32 \<Rightarrow> nat option" where
  "strlen m s = strlen_from m s 0"

subsection \<open>Word-sized loads and stores\<close>

lemma ld32_st32_same: "ld32 (st32 m a v) a = v"
proof -
  have d: "a + 1 \<noteq> a" "a + 2 \<noteq> a" "a + 3 \<noteq> a" "a + 2 \<noteq> a + 1" "a + 3 \<noteq> a + 1" "a + 3 \<noteq> a + 2"
    by simp_all
  have "ld32 (st32 m a v) a = ucast (ucast v :: u8) OR push_bit 8 (ucast (ucast (drop_bit 8 v) :: u8))
      OR push_bit 16 (ucast (ucast (drop_bit 16 v) :: u8)) OR push_bit 24 (ucast (ucast (drop_bit 24 v) :: u8))"
    using d by (simp add: ld32_def st32_def)
  also have "\<dots> = v"
  proof (rule bit_word_eqI)
    fix n assume "n < LENGTH(32)"
    then show "bit (ucast (ucast v :: u8) OR push_bit 8 (ucast (ucast (drop_bit 8 v) :: u8))
      OR push_bit 16 (ucast (ucast (drop_bit 16 v) :: u8))
      OR push_bit 24 (ucast (ucast (drop_bit 24 v) :: u8)) :: u32) n = bit v n"
      by (cases "n < 8"; cases "n < 16"; cases "n < 24") (auto simp: bit_simps)
  qed
  finally show ?thesis .
qed

lemma ld32_cong:
  "m a = m' a \<Longrightarrow> m (a + 1) = m' (a + 1) \<Longrightarrow> m (a + 2) = m' (a + 2) \<Longrightarrow>
   m (a + 3) = m' (a + 3) \<Longrightarrow> ld32 m a = ld32 m' a"
  by (simp add: ld32_def)

lemma st32_other:
  "4 \<le> unat (x - a) \<Longrightarrow> st32 m a v x = m x"
  by (auto simp: st32_def)

lemma st32_at:
  "unat (x - a) < 4 \<Longrightarrow> st32 m a v x = ucast (drop_bit (8 * unat (x - a)) v)"
proof -
  assume l: "unat (x - a) < 4"
  have x: "x = a + of_nat (unat (x - a))" by simp
  from l consider "unat (x - a) = 0" | "unat (x - a) = 1" | "unat (x - a) = 2" | "unat (x - a) = 3"
    by linarith
  then show ?thesis
    by cases (use x in \<open>auto simp: st32_def\<close>)
qed

subsection \<open>memset fills the range\<close>

definition filled :: "mem \<Rightarrow> u32 \<Rightarrow> u8 \<Rightarrow> nat \<Rightarrow> mem" where
  "filled m d c n = (\<lambda>a. if unat (a - d) < n then c else m a)"

lemma unat_pred:
  fixes x :: u32
  shows "x \<noteq> 0 \<Longrightarrow> unat (x - 1) = unat x - 1"
  by (metis unat_minus_one)

lemma unat_minus_1: "unat (- 1 :: u32) = 4294967295"
  by (simp add: unsigned_minus_1_eq_mask mask_eq_exp_minus_1)

lemma range_step:
  fixes a d :: u32
  assumes "n < 2 ^ 32"
  shows "unat (a - (d + 1)) < n \<longleftrightarrow> a \<noteq> d \<and> unat (a - d) < Suc n"
proof (cases "a = d")
  case True
  then show ?thesis using assms by (simp add: unat_minus_1)
next
  case False
  then have "unat (a - d - 1) = unat (a - d) - 1" "0 < unat (a - d)"
    by (simp_all add: unat_pred unat_gt_0)
  then show ?thesis using False by (simp add: diff_diff_eq) linarith
qed

lemma stosb_filled: "n \<le> 2 ^ 32 \<Longrightarrow> stosb m d c n = filled m d c n"
proof (induction n arbitrary: m d)
  case 0
  then show ?case by (simp add: filled_def)
next
  case (Suc n)
  then have "stosb m d c (Suc n) = filled (m(d := c)) (d + 1) c n" by simp
  also have "\<dots> = filled m d c (Suc n)"
    using Suc.prems range_step [of n _ d] by (auto simp: filled_def fun_eq_iff)
  finally show ?case .
qed

lemma range_step4:
  fixes a d :: u32
  assumes "n + 4 \<le> 2 ^ 32"
  shows "unat (a - d) < n + 4 \<longleftrightarrow> unat (a - d) < 4 \<or> unat (a - (d + 4)) < n"
proof (cases "unat (a - d) < 4")
  case True
  then show ?thesis by simp
next
  case False
  then have "unat (a - d - 4) = unat (a - d) - 4"
    by (subst unat_sub) (auto simp: word_le_nat_alt)
  then show ?thesis using False by (simp add: diff_diff_eq) linarith
qed

lemma far_step4:
  fixes a d :: u32
  assumes "unat (a - d) < 4" and "n + 4 \<le> 2 ^ 32"
  shows "\<not> unat (a - (d + 4)) < n"
proof -
  have "unat (x - 4) = 2 ^ 32 + unat x - 4" if "unat x < 4" for x :: u32
    using that by (simp add: unat_sub_if')
  then have "unat (a - d - 4) = 2 ^ 32 + unat (a - d) - 4"
    using assms(1) by blast
  then show ?thesis using assms by (simp add: diff_diff_eq)
qed

lemma replicated_byte:
  assumes "k < 4"
  shows "ucast (drop_bit (8 * k) (quad (c AND 255))) = (ucast c :: u8)"
proof -
  have "c AND 255 = take_bit 8 c"
    by (simp add: take_bit_eq_mask mask_eq_exp_minus_1)
  moreover from assms consider "k = 0" | "k = 1" | "k = 2" | "k = 3" by linarith
  then have "ucast (drop_bit (8 * k) (quad (take_bit 8 c))) = (ucast c :: u8)"
    by cases (rule bit_word_eqI; auto simp: quad_def bit_simps)+
  ultimately show ?thesis by simp
qed

lemma stosl_filled:
  assumes "4 * n \<le> 2 ^ 32"
    and "\<And>k. k < 4 \<Longrightarrow> ucast (drop_bit (8 * k) v) = c"
  shows "stosl m d v n = filled m d c (4 * n)"
  using assms(1)
proof (induction n arbitrary: m d)
  case 0
  then show ?case by (simp add: filled_def)
next
  case (Suc n)
  then have "stosl m d v (Suc n) = filled (st32 m d v) (d + 4) c (4 * n)" by simp
  also have "\<dots> = filled m d c (4 * n + 4)"
  proof (rule ext)
    fix a
    have b: "4 * n + 4 \<le> 2 ^ 32" using Suc.prems by simp
    show "filled (st32 m d v) (d + 4) c (4 * n) a = filled m d c (4 * n + 4) a"
      using range_step4 [OF b, of a d] far_step4 [OF _ b, of a d]
      by (cases "unat (a - d) < 4") (auto simp: filled_def st32_at st32_other assms(2))
  qed
  finally show ?case by (simp add: add.commute)
qed

lemma memset_filled:
  assumes "n \<le> 2 ^ 32"
  shows "memset m dst c n = filled m dst (ucast c) n"
proof (cases "unat dst mod 4 = 0 \<and> n mod 4 = 0")
  case True
  then have n: "4 * (n div 4) = n" by auto
  then have "stosl m dst (quad (c AND 255)) (n div 4) = filled m dst (ucast c) (4 * (n div 4))"
    using assms by (intro stosl_filled replicated_byte) simp
  then show ?thesis using True n by (simp add: memset_def)
next
  case False
  then show ?thesis
    unfolding memset_def using assms by (simp only: if_False stosb_filled)
qed

subsection \<open>memmove copies as if through a snapshot\<close>

definition copied :: "mem \<Rightarrow> u32 \<Rightarrow> u32 \<Rightarrow> nat \<Rightarrow> mem" where
  "copied m d s n = (\<lambda>a. if unat (a - d) < n then m (s + (a - d)) else m a)"

lemma copy_up_copied:
  assumes "n < 2 ^ 32" and "d = s \<or> n \<le> unat (d - s)"
  shows "copy_up m d s n = copied m d s n"
  using assms
proof (induction n arbitrary: m d s)
  case 0
  then show ?case by (simp add: copied_def)
next
  case (Suc n)
  have "d + 1 = s + 1 \<or> n \<le> unat (d + 1 - (s + 1))" using Suc.prems by auto
  then have "copy_up m d s (Suc n) = copied (m(d := m s)) (d + 1) (s + 1) n"
    using Suc.IH Suc.prems by simp
  also have "\<dots> = copied m d s (Suc n)"
  proof (rule ext)
    fix a
    have r: "unat (a - (d + 1)) < n \<longleftrightarrow> a \<noteq> d \<and> unat (a - d) < Suc n"
      using Suc.prems by (intro range_step) simp
    have e: "s + 1 + (a - (d + 1)) = s + (a - d)" by simp
    have "s + (a - d) = d \<Longrightarrow> unat (a - d) < Suc n \<Longrightarrow> a \<noteq> d \<Longrightarrow> False"
    proof -
      assume h: "s + (a - d) = d" "unat (a - d) < Suc n" "a \<noteq> d"
      then have "a - d = d - s" by (metis add_diff_cancel_left')
      then show False using h Suc.prems(2) by auto
    qed
    then show "copied (m(d := m s)) (d + 1) (s + 1) n a = copied m d s (Suc n) a"
      using r e by (auto simp: copied_def)
  qed
  finally show ?case .
qed

lemma copy_down_copied:
  assumes "n < 2 ^ 32" and "d = s \<or> n \<le> unat (s - d)"
  shows "copy_down m (d + of_nat n) (s + of_nat n) n = copied m d s n"
  using assms
proof (induction n arbitrary: m)
  case 0
  then show ?case by (simp add: copied_def)
next
  case (Suc n)
  let ?m = "m(d + of_nat n := m (s + of_nat n))"
  have "copy_down m (d + of_nat (Suc n)) (s + of_nat (Suc n)) (Suc n)
      = copy_down ?m (d + of_nat n) (s + of_nat n) n"
    by (simp add: algebra_simps)
  also have "\<dots> = copied ?m d s n" using Suc by auto
  also have "\<dots> = copied m d s (Suc n)"
  proof (rule ext)
    fix a
    have u: "unat (of_nat n :: u32) = n" using Suc.prems(1) by (simp add: unat_of_nat)
    have last: "a = d + of_nat n \<longleftrightarrow> unat (a - d) = n"
    proof
      show "unat (a - d) = n" if "a = d + of_nat n" using that u by simp
      show "a = d + of_nat n" if "unat (a - d) = n"
        using that by (simp flip: that)
    qed
    have "s + (a - d) = d + of_nat n \<Longrightarrow> unat (a - d) < n \<Longrightarrow> d = s"
    proof (rule ccontr)
      assume h: "s + (a - d) = d + of_nat n" "unat (a - d) < n" "d \<noteq> s"
      then have sd: "s - d = of_nat n - (a - d)" by (simp add: algebra_simps)
      have "unat (of_nat n - (a - d) :: u32) = n - unat (a - d)"
        using h(2) u by (subst unat_sub) (auto simp: word_le_nat_alt)
      then have "unat (s - d) \<le> n" unfolding sd by linarith
      then show False using h(3) Suc.prems(2) by auto
    qed
    moreover have "d = s \<Longrightarrow> s + (a - d) = d + of_nat n \<Longrightarrow> unat (a - d) = n"
      using last by simp
    ultimately show "copied ?m d s n a = copied m d s (Suc n) a"
      using last by (auto simp: copied_def less_Suc_eq)
  qed
  finally show ?case .
qed

lemma memmove_copied:
  assumes "unat src + n < 2 ^ 32" and "unat dst + n \<le> 2 ^ 32"
  shows "memmove m dst src n = copied m dst src n"
proof -
  have n: "n < 2 ^ 32" and u: "unat (src + of_nat n) = unat src + n"
    using assms(1) by (auto simp: unat_word_ariths unat_of_nat)
  show ?thesis
  proof (cases "src < dst \<and> src + of_nat n > dst")
    case True
    then have "unat src < unat dst" by (simp add: word_less_nat_alt)
    then have "unat (src - dst) = 2 ^ 32 + unat src - unat dst"
      by (simp add: unat_sub_if')
    then have "n \<le> unat (src - dst)" using assms(2) by simp
    with True n show ?thesis by (simp add: memmove_def copy_down_copied)
  next
    case False
    have "dst = src \<or> n \<le> unat (dst - src)"
    proof (cases "src < dst")
      case True
      then have "unat (src + of_nat n) \<le> unat dst"
        using False by (simp add: word_less_nat_alt)
      then have "n \<le> unat dst - unat src" using u by simp
      then show ?thesis using True
        by (simp add: unat_sub word_le_nat_alt word_less_nat_alt)
    next
      case nl: False
      show ?thesis
      proof (cases "dst = src")
        case ne: False
        then have "unat dst < unat src"
          using nl by (simp add: word_less_nat_alt) (metis nat_neq_iff unsigned_word_eqI)
        then have "unat (dst - src) = 2 ^ 32 + unat dst - unat src"
          by (simp add: unat_sub_if')
        moreover have "n \<le> 2 ^ 32 + unat dst - unat src"
          using assms(1) by linarith
        ultimately show ?thesis by (intro disjI2) (simp only:)
      qed simp
    qed
    then show ?thesis using n False by (auto simp: memmove_def copy_up_copied)
  qed
qed

subsection \<open>strlen returns\<close>

lemma strlen_from_returns:
  assumes "m (s + of_nat k) = 0" and "\<forall>j<k. m (s + of_nat j) \<noteq> 0" and "n \<le> k"
  shows "strlen_from m s n = Some k"
  using assms(3)
proof (induction rule: inc_induct)
  case base
  then show ?case using assms(1) by (subst strlen_from.simps) simp
next
  case (step i)
  then show ?case using assms(2) by (subst strlen_from.simps) simp
qed

lemma strlen_returns:
  assumes "m (s + of_nat k) = 0" and "\<forall>j<k. m (s + of_nat j) \<noteq> 0"
  shows "strlen m s = Some k"
  unfolding strlen_def by (rule strlen_from_returns [OF assms]) simp

end
