(* ===== verification/Kalloc.thy ===== *)
theory Kalloc
  imports Console_Out Kstring
begin

section \<open>The physical page allocator (kalloc.c)\<close>

text \<open>
  \<open>ram\<close> is the kernel's view of memory: physical address \<open>p\<close> is seen at
  \<open>KERNBASE + p\<close>. A free page holds in its first word the address of the next free page;
  \<open>kernel_end\<close> is the linker's symbol \<open>end\<close>. The guard of the page loop compares
  addresses as numbers: a range that ends at the very top of the address space would make
  the C pointer overflow, which C leaves undefined.
\<close>

record kmem = kcons +
  ram :: mem
  use_lock :: bool
  freelist :: u32
  kernel_end :: u32

definition PGSIZE :: nat where "PGSIZE = 4096"
definition KERNBASE :: u32 where "KERNBASE = 0x80000000"
definition PHYSTOP :: u32 where "PHYSTOP = 0xE000000"

definition V2P :: "u32 \<Rightarrow> u32" where "V2P a = a - KERNBASE"
definition P2V :: "u32 \<Rightarrow> u32" where "P2V a = a + KERNBASE"

definition PGROUNDUP :: "u32 \<Rightarrow> u32" where "PGROUNDUP sz = (sz + 4095) AND NOT 4095"
definition PGROUNDDOWN :: "u32 \<Rightarrow> u32" where "PGROUNDDOWN a = a AND NOT 4095"

definition kfree :: "u32 \<Rightarrow> ('z kmem_scheme, unit) km" where
  "kfree v =
     bnd (gets kernel_end) (\<lambda>e.
     if unat v mod PGSIZE \<noteq> 0 \<or> v < e \<or> V2P v \<ge> PHYSTOP then panic ''kfree''
     else
       thn (modf (\<lambda>s. s\<lparr>ram := memset (ram s) v 1 PGSIZE\<rparr>)) (
       bnd (gets use_lock) (\<lambda>ul.
       thn (whn ul (acquire KmemLock)) (
       thn (modf (\<lambda>s. s\<lparr>ram := st32 (ram s) v (freelist s)\<rparr>)) (
       thn (modf (\<lambda>s. s\<lparr>freelist := v\<rparr>)) (
       whn ul (release KmemLock)))))))"

definition kalloc :: "('z kmem_scheme, u32) km" where
  "kalloc =
     bnd (gets use_lock) (\<lambda>ul.
     thn (whn ul (acquire KmemLock)) (
     bnd (gets freelist) (\<lambda>r.
     thn (whn (r \<noteq> 0) (modf (\<lambda>s. s\<lparr>freelist := ld32 (ram s) r\<rparr>))) (
     thn (whn ul (release KmemLock)) (ret r)))))"

function freerange_loop :: "u32 \<Rightarrow> u32 \<Rightarrow> ('z kmem_scheme, unit) km" where
  "freerange_loop p vend =
     (if unat p + PGSIZE \<le> unat vend
      then thn (kfree p) (freerange_loop (p + of_nat PGSIZE) vend)
      else ret ())"
  by pat_completeness auto

lemma page_step: "unat (p :: u32) + PGSIZE \<le> unat (e :: u32) \<Longrightarrow> unat (p + of_nat PGSIZE) = unat p + PGSIZE"
proof -
  assume "unat p + PGSIZE \<le> unat e"
  then have "unat p + 4096 < 2 ^ 32" using unat_u32_less [of e] by (simp add: PGSIZE_def)
  then show ?thesis by (subst unat_less_add) (simp_all add: PGSIZE_def)
qed

termination freerange_loop
proof (relation "measure (\<lambda>(p, e). unat e - unat p)")
  fix p e :: u32
  assume a: "unat p + PGSIZE \<le> unat e"
  then show "((p + of_nat PGSIZE, e), p, e) \<in> measure (\<lambda>(p, e). unat e - unat p)"
    using page_step [OF a] by (simp add: PGSIZE_def)
qed simp

declare freerange_loop.simps [simp del]

definition freerange :: "u32 \<Rightarrow> u32 \<Rightarrow> ('z kmem_scheme, unit) km" where
  "freerange vstart vend = freerange_loop (PGROUNDUP vstart) vend"

definition kinit1 :: "u32 \<Rightarrow> u32 \<Rightarrow> ('z kmem_scheme, unit) km" where
  "kinit1 vstart vend =
     thn (initlock KmemLock ''kmem'') (
     thn (modf (\<lambda>s. s\<lparr>use_lock := False\<rparr>)) (freerange vstart vend))"

definition kinit2 :: "u32 \<Rightarrow> u32 \<Rightarrow> ('z kmem_scheme, unit) km" where
  "kinit2 vstart vend =
     thn (freerange vstart vend) (modf (\<lambda>s. s\<lparr>use_lock := True\<rparr>))"

subsection \<open>The free list\<close>

text \<open>
  \<open>chained m a xs\<close>: following first words from \<open>a\<close> visits exactly \<open>xs\<close> and ends
  at the null pointer. \<open>page_ok\<close> is what kfree checks of an address.
\<close>

fun chained :: "mem \<Rightarrow> u32 \<Rightarrow> u32 list \<Rightarrow> bool" where
  "chained m a [] \<longleftrightarrow> a = 0"
| "chained m a (x # xs) \<longleftrightarrow> a = x \<and> x \<noteq> 0 \<and> chained m (ld32 m x) xs"

definition page_ok :: "u32 \<Rightarrow> u32 \<Rightarrow> bool" where
  "page_ok e v \<longleftrightarrow> unat v mod PGSIZE = 0 \<and> e \<le> v \<and> V2P v < PHYSTOP"

definition free_pages :: "'z kmem_scheme \<Rightarrow> u32 list \<Rightarrow> bool" where
  "free_pages s xs \<longleftrightarrow> chained (ram s) (freelist s) xs \<and> distinct xs \<and>
     (\<forall>x \<in> set xs. page_ok (kernel_end s) x) \<and> kernel_end s \<noteq> 0"

definition kmem_lock_ok :: "'z kmem_scheme \<Rightarrow> bool" where
  "kmem_lock_ok s \<longleftrightarrow> use_lock s \<longrightarrow> cpu_ok (mach s) \<and> lk_free (mach s) KmemLock"

lemma page_apart:
  fixes x v :: u32
  assumes "unat x mod 4096 = 0" and "unat v mod 4096 = 0" and "x \<noteq> v" and "k < 4096"
  shows "4096 \<le> unat (x + of_nat k - v)"
proof -
  have "4096 dvd unat x" "4096 dvd unat v" "(4096::nat) dvd 2 ^ 32"
    using assms(1,2) by (simp_all add: mod_eq_0_iff_dvd)
  then have "4096 dvd unat (x - v)"
    by (simp only: unat_sub_if' len_bit0 split: if_split)
      (simp add: dvd_diff_nat)
  then obtain q where q: "unat (x - v) = 4096 * q" by (auto elim: dvdE)
  moreover have "unat (x - v) \<noteq> 0" using assms(3) by (simp add: unat_eq_0)
  ultimately have "4096 \<le> unat (x - v)" "unat (x - v) + 4096 \<le> 2 ^ 32"
    using unat_u32_less [of "x - v"] by (cases q; simp)+
  moreover have "unat (of_nat k :: u32) = k" using assms(4) by (simp add: unat_of_nat)
  ultimately have "unat ((x - v) + of_nat k) = unat (x - v) + k"
    using assms(4) by (subst unat_less_add) auto
  with \<open>4096 \<le> unat (x - v)\<close> show ?thesis by (simp add: algebra_simps)
qed

definition same_page :: "mem \<Rightarrow> mem \<Rightarrow> u32 \<Rightarrow> bool" where
  "same_page m m' x \<longleftrightarrow> (\<forall>k<4096. m' (x + of_nat k) = m (x + of_nat k))"

lemma same_page_ld32: "same_page m m' x \<Longrightarrow> ld32 m' x = ld32 m x"
proof -
  assume s: "same_page m m' x"
  have "m' (x + of_nat k) = m (x + of_nat k)" if "k < 4" for k
    using s that by (simp add: same_page_def)
  from this [of 0] this [of 1] this [of 2] this [of 3] show ?thesis
    by (intro ld32_cong) simp_all
qed

lemma chained_cong:
  "(\<And>x. x \<in> set xs \<Longrightarrow> same_page m m' x) \<Longrightarrow> chained m' a xs = chained m a xs"
proof (induction xs arbitrary: a)
  case (Cons x xs)
  then show ?case using same_page_ld32 [of m m' x] by simp
qed simp

text \<open>What kfree leaves in memory: the link in the first word, junk in the rest of the page.\<close>

definition freed_ram :: "mem \<Rightarrow> u32 \<Rightarrow> u32 \<Rightarrow> mem" where
  "freed_ram m v nxt = st32 (filled m v 1 PGSIZE) v nxt"

lemma freed_ram_other:
  assumes "unat x mod 4096 = 0" and "unat v mod 4096 = 0" and "x \<noteq> v"
  shows "same_page m (freed_ram m v nxt) x"
  unfolding same_page_def
proof (intro allI impI)
  fix k :: nat assume "k < 4096"
  then have "4096 \<le> unat (x + of_nat k - v)" using assms by (intro page_apart)
  then show "freed_ram m v nxt (x + of_nat k) = m (x + of_nat k)"
    by (simp add: freed_ram_def st32_other filled_def PGSIZE_def)
qed

lemma kfree_run:
  assumes "page_ok (kernel_end s) v" and "kmem_lock_ok s"
  shows "kfree v s = Ret () (s\<lparr>ram := freed_ram (ram s) v (freelist s), freelist := v\<rparr>)"
proof -
  have m: "memset (ram s) v 1 PGSIZE = filled (ram s) v 1 PGSIZE"
    by (subst memset_filled) (simp_all add: PGSIZE_def)
  have g: "\<not> (unat v mod PGSIZE \<noteq> 0 \<or> v < kernel_end s \<or> V2P v \<ge> PHYSTOP)"
    using assms(1) by (auto simp: page_ok_def not_less not_le)
  show ?thesis
  proof (cases "use_lock s")
    case True
    then have "cpu_ok (mach s)" "lk_free (mach s) KmemLock" "0 < ncli (my_cpu (mach s)) + 1"
      using assms(2) cpu_ok_depth [of "mach s"] by (auto simp: kmem_lock_ok_def)
    then show ?thesis
      using g True by (simp add: kfree_def m freed_ram_def)
  next
    case False
    then show ?thesis using g by (simp add: kfree_def m freed_ram_def)
  qed
qed

lemma kalloc_run:
  assumes "kmem_lock_ok s"
  shows "kalloc s = Ret (freelist s)
    (if freelist s = 0 then s else s\<lparr>freelist := ld32 (ram s) (freelist s)\<rparr>)"
proof (cases "use_lock s")
  case True
  then have "cpu_ok (mach s)" "lk_free (mach s) KmemLock" "0 < ncli (my_cpu (mach s)) + 1"
    using assms cpu_ok_depth [of "mach s"] by (auto simp: kmem_lock_ok_def)
  then show ?thesis using True by (simp add: kalloc_def)
next
  case False
  then show ?thesis by (simp add: kalloc_def)
qed

lemma free_pages_kfree:
  assumes f: "free_pages s xs" and p: "page_ok (kernel_end s) v" and v: "v \<notin> set xs"
  shows "free_pages (s\<lparr>ram := freed_ram (ram s) v (freelist s), freelist := v\<rparr>) (v # xs)"
proof -
  have "chained (freed_ram (ram s) v (freelist s)) (freelist s) xs"
  proof (subst chained_cong [where m = "ram s"])
    fix x assume "x \<in> set xs"
    then show "same_page (ram s) (freed_ram (ram s) v (freelist s)) x"
      using f p v by (intro freed_ram_other) (auto simp: free_pages_def page_ok_def PGSIZE_def)
    next show "chained (ram s) (freelist s) xs" using f by (simp add: free_pages_def)
  qed
  moreover have "ld32 (freed_ram (ram s) v (freelist s)) v = freelist s"
    by (simp add: freed_ram_def ld32_st32_same)
  moreover have "v \<noteq> 0"
    using f p by (auto simp: free_pages_def page_ok_def)
  ultimately show ?thesis
    using f p v by (simp add: free_pages_def)
qed

lemma free_pages_kalloc:
  assumes "free_pages s (x # xs)"
  shows "freelist s = x" and "x \<noteq> 0"
    and "free_pages (s\<lparr>freelist := ld32 (ram s) x\<rparr>) xs"
  using assms by (auto simp: free_pages_def)

text \<open>
  \<open>range_pages p e\<close>: the pages that the loop of freerange hands to kfree, in order.
\<close>

definition range_pages :: "u32 \<Rightarrow> u32 \<Rightarrow> u32 list" where
  "range_pages p e = map (\<lambda>k. p + of_nat (k * PGSIZE)) [0..<(unat e - unat p) div PGSIZE]"

lemma range_pages_step:
  assumes "unat p + PGSIZE \<le> unat e"
  shows "range_pages p e = p # range_pages (p + of_nat PGSIZE) e"
proof -
  have "(unat e - unat p) div PGSIZE = Suc ((unat e - unat (p + of_nat PGSIZE)) div PGSIZE)"
    using assms page_step [OF assms] by (simp add: PGSIZE_def le_div_geq)
  then show ?thesis
    unfolding range_pages_def
    by (simp add: upt_conv_Cons map_Suc_upt [symmetric] del: upt_Suc) (simp add: algebra_simps)
qed

lemma range_pages_stop: "\<not> unat p + PGSIZE \<le> unat e \<Longrightarrow> range_pages p e = []"
  by (simp add: range_pages_def PGSIZE_def)

lemma kmem_lock_ok_upd [simp]:
  "kmem_lock_ok (s\<lparr>ram := m\<rparr>) = kmem_lock_ok s"
  "kmem_lock_ok (s\<lparr>freelist := x\<rparr>) = kmem_lock_ok s"
  by (simp_all add: kmem_lock_ok_def)

lemma page_index_small:
  assumes "i < (unat (e :: u32) - unat p) div PGSIZE"
  shows "i * PGSIZE < 4294967296"
proof -
  have "Suc i \<le> (unat e - unat p) div 4096"
    using assms by (simp add: PGSIZE_def)
  then have "Suc i * 4096 \<le> unat e - unat p"
    by (subst (asm) less_eq_div_iff_mult_less_eq) simp_all
  then show ?thesis using unat_u32_less [of e] by (simp add: PGSIZE_def)
qed

lemma range_pages_distinct: "distinct (range_pages p e)"
proof -
  let ?k = "(unat e - unat p) div PGSIZE"
  have "inj_on (\<lambda>k. p + of_nat (k * PGSIZE)) {0..<?k}"
  proof (rule inj_onI)
    fix i j
    assume a: "i \<in> {0..<?k}" "j \<in> {0..<?k}" "p + of_nat (i * PGSIZE) = p + of_nat (j * PGSIZE)"
    then have "i * PGSIZE = j * PGSIZE"
      by (intro of_nat_u32_inj page_index_small [of _ e p]) simp_all
    then show "i = j" by (simp add: PGSIZE_def)
  qed
  then show ?thesis by (simp add: range_pages_def distinct_map)
qed

lemma freerange_loop_run:
  assumes "free_pages s xs" and "kmem_lock_ok s"
    and "\<forall>x \<in> set (range_pages p e). page_ok (kernel_end s) x"
    and "set (range_pages p e) \<inter> set xs = {}"
  shows "\<exists>t. freerange_loop p e s = Ret () t \<and> free_pages t (rev (range_pages p e) @ xs) \<and>
    kmem_lock_ok t \<and> kernel_end t = kernel_end s \<and> mach t = mach s"
  using assms
proof (induction p e arbitrary: s xs rule: freerange_loop.induct)
  case (1 p e)
  show ?case
  proof (cases "unat p + PGSIZE \<le> unat e")
    case False
    then show ?thesis
      using "1.prems" by (subst freerange_loop.simps) (simp add: range_pages_stop)
  next
    case True
    note st = range_pages_step [OF True]
    let ?t = "s\<lparr>ram := freed_ram (ram s) p (freelist s), freelist := p\<rparr>"
    have p: "page_ok (kernel_end s) p" "p \<notin> set xs"
      using "1.prems" st by auto
    have d: "p \<notin> set (range_pages (p + of_nat PGSIZE) e)"
      using range_pages_distinct [of p e] st by simp
    have "free_pages ?t (p # xs)" using "1.prems"(1) p by (rule free_pages_kfree)
    then have "\<exists>t. freerange_loop (p + of_nat PGSIZE) e ?t = Ret () t \<and>
        free_pages t (rev (range_pages (p + of_nat PGSIZE) e) @ (p # xs)) \<and>
        kmem_lock_ok t \<and> kernel_end t = kernel_end ?t \<and> mach t = mach ?t"
      using "1.prems" st d by (intro "1.IH" [OF True]) auto
    then show ?thesis
      using True p(1) "1.prems"(2) st
      by (subst freerange_loop.simps) (simp add: kfree_run)
  qed
qed

subsection \<open>The allocator as its clients see it\<close>

text \<open>
  A pool of pages: taking from a nonempty pool gives its first page and the rest of the pool;
  taking from the empty pool gives the null address and changes nothing. From these two laws
  any number of allocations is determined.
\<close>

locale page_pool =
  fixes pool :: "'s \<Rightarrow> u32 list \<Rightarrow> bool"
    and grabpage :: "'s \<Rightarrow> (u32, 's) outcome"
  assumes grab_some: "pool s (x # xs) \<Longrightarrow> \<exists>t. grabpage s = Ret x t \<and> pool t xs"
    and grab_none: "pool s [] \<Longrightarrow> grabpage s = Ret 0 s"
    and pool_distinct: "pool s xs \<Longrightarrow> distinct xs \<and> 0 \<notin> set xs"
begin

primrec grab_n :: "nat \<Rightarrow> 's \<Rightarrow> (u32 list, 's) outcome" where
  "grab_n 0 = ret []"
| "grab_n (Suc n) = bnd grabpage (\<lambda>p. bnd (grab_n n) (\<lambda>ps. ret (p # ps)))"

lemma grab_n_run:
  "pool s xs \<Longrightarrow> n \<le> length xs \<Longrightarrow> \<exists>t. grab_n n s = Ret (take n xs) t \<and> pool t (drop n xs)"
proof (induction n arbitrary: s xs)
  case 0
  then show ?case by simp
next
  case (Suc n)
  then obtain x ys where xs: "xs = x # ys" by (cases xs) auto
  obtain t where "grabpage s = Ret x t" "pool t ys"
    using Suc.prems(1) xs grab_some by blast
  moreover from this obtain u where "grab_n n t = Ret (take n ys) u" "pool u (drop n ys)"
    using Suc xs by fastforce
  ultimately show ?case using xs by simp
qed

lemma grab_n_distinct:
  assumes "pool s xs" and "n \<le> length xs" and "grab_n n s = Ret ps t"
  shows "distinct ps \<and> 0 \<notin> set ps \<and> length ps = n \<and> pool t (drop n xs) \<and> ps = take n xs"
  using grab_n_run [OF assms(1,2)] pool_distinct [OF assms(1)] assms(2,3)
  by (auto dest: in_set_takeD)

end

definition kernel_pool :: "'z kmem_scheme \<Rightarrow> u32 list \<Rightarrow> bool" where
  "kernel_pool s xs \<longleftrightarrow> free_pages s xs \<and> kmem_lock_ok s"

lemma free_pages_nonzero: "free_pages s xs \<Longrightarrow> 0 \<notin> set xs"
  by (auto simp: free_pages_def page_ok_def)

interpretation kpool: page_pool kernel_pool kalloc
proof
  fix s :: "'a kmem_scheme" and x xs
  show "kernel_pool s (x # xs) \<Longrightarrow> \<exists>t. kalloc s = Ret x t \<and> kernel_pool t xs"
    using free_pages_kalloc [of s x xs] by (auto simp: kernel_pool_def kalloc_run)
  show "kernel_pool s [] \<Longrightarrow> kalloc s = Ret 0 s"
    by (auto simp: kernel_pool_def free_pages_def kalloc_run)
  show "kernel_pool s xs \<Longrightarrow> distinct xs \<and> 0 \<notin> set xs"
    using free_pages_nonzero by (auto simp: kernel_pool_def free_pages_def)
qed

lemma kfree_refuses: "\<not> page_ok (kernel_end s) v \<Longrightarrow> kfree v s = Panic ''kfree''"
  by (auto simp: kfree_def page_ok_def)

text \<open>C11: kfree puts a page on the free list without touching any other page, and a kalloc
  right after it hands back that page and the previous free list: freeing and allocating are
  inverse, whether or not the allocator's lock is in use. Both leave CPUs, interrupt flag and
  every lock as they were. kfree takes an address that is page aligned, not below the end of the
  kernel and below PHYSTOP, and panics on every other.\<close>

theorem kalloc_undoes_kfree:
  assumes "free_pages s xs" and "kmem_lock_ok s" and "v \<notin> set xs"
  shows "if unat v mod 4096 = 0 \<and> kernel_end s \<le> v \<and> v - KERNBASE < PHYSTOP
    then \<exists>t u. kfree v s = Ret () t \<and> free_pages t (v # xs) \<and> mach t = mach s \<and>
      (\<forall>x. unat x mod 4096 = 0 \<and> x \<noteq> v \<longrightarrow> same_page (ram s) (ram t) x) \<and>
      kalloc t = Ret v u \<and> u = t\<lparr>freelist := freelist s\<rparr> \<and> free_pages u xs \<and> mach u = mach s
    else kfree v s = Panic ''kfree''"
proof (cases "page_ok (kernel_end s) v")
  case True
  let ?t = "s\<lparr>ram := freed_ram (ram s) v (freelist s), freelist := v\<rparr>"
  have f: "free_pages ?t (v # xs)" using assms(1) True assms(3) by (rule free_pages_kfree)
  then have n: "v \<noteq> 0" by (simp add: free_pages_kalloc)
  have l: "ld32 (ram ?t) v = freelist s" by (simp add: freed_ram_def ld32_st32_same)
  have "kalloc ?t = Ret v (?t\<lparr>freelist := freelist s\<rparr>)"
    using assms(2) n l by (subst kalloc_run) simp_all
  moreover have "free_pages (?t\<lparr>freelist := freelist s\<rparr>) xs"
    using free_pages_kalloc(3) [OF f] unfolding l .
  moreover have "same_page (ram s) (ram ?t) x" if "unat x mod 4096 = 0" "x \<noteq> v" for x
    using that True by (simp add: freed_ram_other page_ok_def PGSIZE_def)
  ultimately have "\<exists>t u. kfree v s = Ret () t \<and> free_pages t (v # xs) \<and> mach t = mach s \<and>
      (\<forall>x. unat x mod 4096 = 0 \<and> x \<noteq> v \<longrightarrow> same_page (ram s) (ram t) x) \<and>
      kalloc t = Ret v u \<and> u = t\<lparr>freelist := freelist s\<rparr> \<and> free_pages u xs \<and> mach u = mach s"
    using f assms(2) True
    by (intro exI [of _ ?t] exI [of _ "?t\<lparr>freelist := freelist s\<rparr>"]) (simp add: kfree_run)
  then show ?thesis using True by (simp add: page_ok_def V2P_def PGSIZE_def)
next
  case False
  then show ?thesis using kfree_refuses [OF False] by (auto simp: page_ok_def V2P_def PGSIZE_def)
qed

lemma PGROUNDUP_aligned: "unat (PGROUNDUP a) mod PGSIZE = 0"
proof -
  have m: "NOT 4095 = (NOT (mask 12) :: u32)" by (simp add: mask_eq_exp_minus_1)
  have "take_bit 12 (PGROUNDUP a) = 0"
    unfolding PGROUNDUP_def m by (rule bit_word_eqI) (auto simp: bit_simps)
  then have "unat (take_bit 12 (PGROUNDUP a)) = 0" by simp
  then show ?thesis by (simp only: unsigned_take_bit_eq) (simp add: take_bit_eq_mod PGSIZE_def)
qed

lemma unat_add_nat:
  fixes p :: u32
  assumes "unat p + n < 4294967296"
  shows "unat (p + of_nat n) = unat p + n"
proof -
  have "unat (of_nat n :: u32) = n" using assms by (intro unat_of_nat_small) simp
  then show ?thesis using assms unat_less_add [of p "of_nat n"] by simp
qed

lemma range_pages_set:
  "x \<in> set (range_pages p e) \<longleftrightarrow>
    (\<exists>k. unat x = unat p + k * PGSIZE \<and> unat p + k * PGSIZE + PGSIZE \<le> unat e)"
proof -
  have lt: "k < (unat e - unat p) div PGSIZE \<longleftrightarrow> unat p + k * PGSIZE + PGSIZE \<le> unat e" for k
  proof -
    have "k < (unat e - unat p) div PGSIZE \<longleftrightarrow> Suc k * PGSIZE \<le> unat e - unat p"
      by (simp only: Suc_le_eq [symmetric]) (simp add: less_eq_div_iff_mult_less_eq PGSIZE_def)
    then show ?thesis by (auto simp: PGSIZE_def)
  qed
  have at: "unat (p + of_nat (k * PGSIZE)) = unat p + k * PGSIZE" if "unat p + k * PGSIZE + PGSIZE \<le> unat e" for k
  proof -
    have "unat p + k * PGSIZE < 4294967296" using that unat_u32_less [of e] by (simp add: PGSIZE_def)
    then show ?thesis by (rule unat_add_nat)
  qed
  show ?thesis
  proof
    assume "x \<in> set (range_pages p e)"
    then obtain k where "k < (unat e - unat p) div PGSIZE" "x = p + of_nat (k * PGSIZE)"
      by (auto simp: range_pages_def)
    then show "\<exists>k. unat x = unat p + k * PGSIZE \<and> unat p + k * PGSIZE + PGSIZE \<le> unat e"
      using lt at by auto
  next
    assume "\<exists>k. unat x = unat p + k * PGSIZE \<and> unat p + k * PGSIZE + PGSIZE \<le> unat e"
    then obtain k where k: "unat x = unat p + k * PGSIZE" "unat p + k * PGSIZE + PGSIZE \<le> unat e" by blast
    then have "x = p + of_nat (k * PGSIZE)" using at [OF k(2)] by (metis unsigned_word_eqI)
    then show "x \<in> set (range_pages p e)" using k(2) lt by (auto simp: range_pages_def)
  qed
qed

text \<open>\<open>kallocs n\<close>: n calls of kalloc, one after the other, and the addresses they return.\<close>

primrec kallocs :: "nat \<Rightarrow> ('z kmem_scheme, u32 list) km" where
  "kallocs 0 = ret []"
| "kallocs (Suc n) = bnd kalloc (\<lambda>p. bnd (kallocs n) (\<lambda>ps. ret (p # ps)))"

lemma kallocs_grab: "kallocs n = kpool.grab_n n"
  by (induction n) simp_all

lemma PGROUNDUP_bounds:
  assumes "unat a \<le> 4294963200"
  shows "unat a \<le> unat (PGROUNDUP a) \<and> unat (PGROUNDUP a) < unat a + 4096"
proof -
  have m: "NOT 4095 = (NOT (mask 12) :: u32)" by (simp add: mask_eq_exp_minus_1)
  let ?x = "a + 4095"
  have x: "unat ?x = unat a + 4095" using assms by (subst unat_less_add) simp_all
  have "PGROUNDUP a + (?x AND mask 12) = ?x"
    unfolding PGROUNDUP_def m by (subst disjunctive_add) (auto simp: bit_simps intro!: bit_word_eqI)
  then have p: "PGROUNDUP a = ?x - take_bit 12 ?x" by (metis add_diff_cancel_right' take_bit_eq_mask)
  have tb: "unat (take_bit 12 ?x) = unat ?x mod 4096"
    by (simp only: unsigned_take_bit_eq) (simp add: take_bit_eq_mod)
  then have "take_bit 12 ?x \<le> ?x" by (simp add: word_le_nat_alt)
  then have "unat (PGROUNDUP a) = unat ?x - unat ?x mod 4096" unfolding p by (simp add: unat_sub tb)
  then show ?thesis unfolding x using mod_less_divisor [of 4096 "unat a + 4095"] by linarith
qed

lemma aligned_above:
  fixes p x a :: nat
  assumes "p mod 4096 = 0" and "x mod 4096 = 0" and "p < a + 4096" and "a \<le> x"
  shows "p \<le> x"
proof (rule ccontr)
  assume "\<not> p \<le> x"
  moreover obtain i j where "p = 4096 * i" "x = 4096 * j" using assms(1,2) by (auto simp: mod_eq_0_iff_dvd elim!: dvdE)
  ultimately show False using assms(3,4) by simp
qed

lemma range_pages_ascend: "sorted_wrt (<) (range_pages p e)"
proof -
  have "unat (p + of_nat (k * PGSIZE)) = unat p + k * PGSIZE"
    if "k < (unat e - unat p) div PGSIZE" for k
  proof -
    have "Suc k * PGSIZE \<le> unat e - unat p"
      using that by (simp only: Suc_le_eq [symmetric]) (simp add: less_eq_div_iff_mult_less_eq PGSIZE_def)
    then have "unat p + k * PGSIZE < 4294967296" using unat_u32_less [of e] by (simp add: PGSIZE_def)
    then show ?thesis by (rule unat_add_nat)
  qed
  then show ?thesis
    by (auto simp: range_pages_def sorted_wrt_iff_nth_less word_less_nat_alt PGSIZE_def simp del: of_nat_mult)
qed

lemma kallocs_mach: "kmem_lock_ok s \<Longrightarrow> kallocs n s = Ret ps u \<Longrightarrow> mach u = mach s"
proof (induction n arbitrary: s ps)
  case (Suc n)
  let ?t = "if freelist s = 0 then s else s\<lparr>freelist := ld32 (ram s) (freelist s)\<rparr>"
  obtain qs where "kallocs n ?t = Ret qs u"
    using Suc.prems by (auto simp: kalloc_run obind_Ret_iff)
  then have "mach u = mach ?t" using Suc.prems(1) by (intro Suc.IH) simp_all
  then show ?case by simp
qed simp

text \<open>C12: when freerange is given the range from a to e, kalloc then succeeds once for each
  whole page in it and returns each of them once, the last first; the next kalloc returns the
  null pointer. A page is one of these when it is page aligned, not below a and ends at e at
  the latest. CPUs, interrupt flag and locks stay as they were.\<close>

theorem freerange_then_kalloc:
  assumes "free_pages s []" and "kmem_lock_ok s" and "unat a \<le> 4294963200"
    and "\<forall>x. unat x mod 4096 = 0 \<and> unat a \<le> unat x \<and> unat x + 4096 \<le> unat e \<longrightarrow> page_ok (kernel_end s) x"
  shows "\<exists>t ps u. freerange a e s = Ret () t \<and> mach t = mach s \<and>
    set ps = {x. unat x mod 4096 = 0 \<and> unat a \<le> unat x \<and> unat x + 4096 \<le> unat e} \<and>
    sorted_wrt (\<lambda>x y. y < x) ps \<and>
    kallocs (length ps) t = Ret ps u \<and> mach u = mach s \<and> kalloc u = Ret 0 u"
proof -
  let ?p = "PGROUNDUP a" and ?ps = "rev (range_pages (PGROUNDUP a) e)"
  have up: "unat a \<le> unat ?p" "unat ?p < unat a + 4096" using PGROUNDUP_bounds [OF assms(3)] by simp_all
  have st: "set (range_pages ?p e) = {x. unat x mod 4096 = 0 \<and> unat a \<le> unat x \<and> unat x + 4096 \<le> unat e}"
    (is "_ = ?S")
  proof (rule set_eqI)
    fix x
    have al: "unat ?p mod 4096 = 0" using PGROUNDUP_aligned [of a] by (simp add: PGSIZE_def)
    show "x \<in> set (range_pages ?p e) \<longleftrightarrow> x \<in> ?S"
    proof
      assume "x \<in> set (range_pages ?p e)"
      then obtain k where k: "unat x = unat ?p + k * 4096" "unat x + 4096 \<le> unat e"
        by (auto simp: range_pages_set PGSIZE_def)
      then show "x \<in> ?S" using al up by (simp add: mod_add_left_eq [symmetric])
    next
      assume x: "x \<in> ?S"
      have "unat ?p \<le> unat x" using x al up aligned_above [of "unat ?p" "unat x" "unat a"] by simp
      moreover have "4096 dvd unat x - unat ?p" using x al by (simp add: mod_eq_0_iff_dvd dvd_diff_nat)
      ultimately obtain k where "unat x = unat ?p + k * 4096"
        by (metis dvd_def le_add_diff_inverse mult.commute)
      then show "x \<in> set (range_pages ?p e)" using x by (auto simp: range_pages_set PGSIZE_def)
    qed
  qed
  have ok: "\<forall>x \<in> set (range_pages ?p e). page_ok (kernel_end s) x" using assms(4) unfolding st by simp
  obtain t where t: "freerange a e s = Ret () t" "free_pages t ?ps" "kmem_lock_ok t" "mach t = mach s"
    using freerange_loop_run [OF assms(1,2) ok] by (auto simp: freerange_def)
  have "kernel_pool t ?ps" using t by (simp add: kernel_pool_def)
  then obtain u where u: "kallocs (length ?ps) t = Ret ?ps u" "kernel_pool u []"
    using kpool.grab_n_run [of t ?ps "length ?ps"] by (auto simp: kallocs_grab)
  have "mach u = mach s" using kallocs_mach [OF t(3) u(1)] t(4) by simp
  moreover have "kalloc u = Ret 0 u" using u(2) by (rule kpool.grab_none)
  moreover have "sorted_wrt (\<lambda>x y. y < x) ?ps" by (simp add: sorted_wrt_rev range_pages_ascend)
  ultimately show ?thesis using t(1,4) u(1) st by (intro exI [of _ t] exI [of _ ?ps] exI [of _ u]) simp
qed

lemma unat_num_iff: "numeral n < (4294967296 :: nat) \<Longrightarrow> unat (x :: u32) = numeral n \<longleftrightarrow> x = numeral n"
  using unat_of_nat_small [of "numeral n"] by (metis of_nat_numeral unsigned_word_eqI)

text \<open>A concrete machine: one CPU, interrupts on, every lock free, an empty memory.\<close>

definition mach0 :: machine where
  "mach0 = \<lparr>cpus = (\<lambda>_. \<lparr>apicid = 0, ncli = 0, intena = True, cproc = None, ts_esp0 = 0\<rparr>),
     ncpu = 1, lapicid = 0, eflags_IF = True, cr3 = 0,
     locks = (\<lambda>_. \<lparr>lname = ''lock'', locked = False, lcpu = None\<rparr>)\<rparr>"

definition kmem0 :: kmem where
  "kmem0 = \<lparr>mach = mach0, cons_locking = True, panicked = False, uart_out = [],
     crt = (\<lambda>_. 0), cga_pos = 0,
     ram = (\<lambda>_. 0), use_lock = True, freelist = 0, kernel_end = 0x80100000\<rparr>"

lemma mach0_ok [simp]: "cpu_ok mach0" "lk_free mach0 lk" "cur_proc mach0 = None"
proof -
  have f: "find_cpu mach0 = Some 0" by (simp add: find_cpu_def mach0_def)
  then show "cpu_ok mach0" by (simp add: cpu_ok_def my_cpu_def this_cpu_def) (simp add: mach0_def)
  show "lk_free mach0 lk" by (simp add: lk_free_def mach0_def)
  show "cur_proc mach0 = None" using f by (simp add: cur_proc_def my_cpu_def this_cpu_def mach0_def)
qed

lemma kmem0_ok: "free_pages kmem0 []" "kmem_lock_ok kmem0" "kernel_end kmem0 = 0x80100000"
  by (simp_all add: free_pages_def kmem_lock_ok_def kmem0_def)

lemma kalloc_undoes_kfree_witness:
  "(\<exists>t u. kfree 0x80101000 kmem0 = Ret () t \<and> kalloc t = Ret 0x80101000 u \<and> mach u = mach0) \<and>
    kfree 0x8E000000 kmem0 = Panic ''kfree''"
  using kalloc_undoes_kfree [OF kmem0_ok(1,2), of "0x80101000"] kalloc_undoes_kfree [OF kmem0_ok(1,2), of "0x8E000000"]
  by (auto simp: KERNBASE_def PHYSTOP_def kmem0_ok) (auto simp: kmem0_def)

lemma freerange_then_kalloc_witness:
  "\<exists>t ps u. freerange 0x80100001 0x80104000 kmem0 = Ret () t \<and>
    set ps = {0x80101000, 0x80102000, 0x80103000} \<and> kallocs (length ps) t = Ret ps u \<and> kalloc u = Ret 0 u"
proof -
  have pages: "{x :: u32. unat x mod 4096 = 0 \<and> unat (0x80100001 :: u32) \<le> unat x \<and>
      unat x + 4096 \<le> unat (0x80104000 :: u32)} = {0x80101000, 0x80102000, 0x80103000}" (is "?S = ?T")
  proof (rule set_eqI)
    fix x :: u32
    have "unat x \<in> {0x80101000, 0x80102000, 0x80103000}" if x: "x \<in> ?S"
    proof -
      obtain i where i: "unat x = 4096 * i" using x by (auto simp: mod_eq_0_iff_dvd elim!: dvdE)
      moreover have "2148532225 \<le> unat x" "unat x + 4096 \<le> 2148548608" using x by simp_all
      ultimately have "i = 524545 \<or> i = 524546 \<or> i = 524547" by linarith
      then show ?thesis using i by auto
    qed
    then have "x \<in> ?S \<longleftrightarrow> unat x \<in> {0x80101000, 0x80102000, 0x80103000}" by auto
    also have "\<dots> \<longleftrightarrow> x \<in> ?T" by (auto simp: unat_num_iff)
    finally show "x \<in> ?S \<longleftrightarrow> x \<in> ?T" .
  qed
  have pk: "page_ok (kernel_end kmem0) x" if "x \<in> ?S" for x
    using that unfolding pages kmem0_ok by (auto simp: page_ok_def PGSIZE_def V2P_def KERNBASE_def PHYSTOP_def)
  have "\<forall>x. unat x mod 4096 = 0 \<and> unat (0x80100001 :: u32) \<le> unat x \<and>
      unat x + 4096 \<le> unat (0x80104000 :: u32) \<longrightarrow> page_ok (kernel_end kmem0) x"
    by (intro allI impI) (rule pk [OF CollectI])
  from freerange_then_kalloc [OF kmem0_ok(1,2) _ this] show ?thesis unfolding pages by auto
qed

end
