(* ===== verification/Vm.thy ===== *)
theory Vm
  imports Kalloc
begin

section \<open>Page tables (vm.c, mmu.h, memlayout.h)\<close>

text \<open>
  Page directories and page tables live in \<open>ram\<close> and are read and written through the
  kernel's addresses; an address 0 is C's null pointer. \<open>kpgdir\<close> is the kernel-only
  directory, \<open>kdata\<close> the linker's symbol \<open>data\<close>. Loops over addresses keep the
  address at 32 bits: a step that wraps past the top of the address space starts the same
  traversal again and is \<open>Spin\<close>. The segment descriptors that seginit and switchuvm
  write are left out, except for esp0, the kernel stack the CPU uses on a trap.
\<close>

record kvm = kmem +
  kpgdir :: u32
  kdata :: u32

definition PTE_P :: u32 where "PTE_P = 1"
definition PTE_W :: u32 where "PTE_W = 2"
definition PTE_U :: u32 where "PTE_U = 4"
definition EXTMEM :: u32 where "EXTMEM = 0x100000"
definition DEVSPACE :: u32 where "DEVSPACE = 0xFE000000"
definition KERNLINK :: u32 where "KERNLINK = KERNBASE + EXTMEM"
definition KSTACKSIZE :: u32 where "KSTACKSIZE = 4096"
definition NPDENTRIES :: nat where "NPDENTRIES = 1024"

definition PDX :: "u32 \<Rightarrow> u32" where "PDX va = drop_bit 22 va AND 0x3FF"
definition PTX :: "u32 \<Rightarrow> u32" where "PTX va = drop_bit 12 va AND 0x3FF"
definition PGADDR :: "u32 \<Rightarrow> u32 \<Rightarrow> u32 \<Rightarrow> u32" where
  "PGADDR d t off = push_bit 22 d OR push_bit 12 t OR off"
definition PTE_ADDR :: "u32 \<Rightarrow> u32" where "PTE_ADDR pte = pte AND NOT 0xFFF"
definition PTE_FLAGS :: "u32 \<Rightarrow> u32" where "PTE_FLAGS pte = pte AND 0xFFF"

definition rd32 :: "u32 \<Rightarrow> ('z kmem_scheme, u32) km" where
  "rd32 a = gets (\<lambda>s. ld32 (ram s) a)"

definition wr32 :: "u32 \<Rightarrow> u32 \<Rightarrow> ('z kmem_scheme, unit) km" where
  "wr32 a v = modf (\<lambda>s. s\<lparr>ram := st32 (ram s) a v\<rparr>)"

definition zero_page :: "u32 \<Rightarrow> ('z kmem_scheme, unit) km" where
  "zero_page a = modf (\<lambda>s. s\<lparr>ram := memset (ram s) a 0 PGSIZE\<rparr>)"

definition walkpgdir :: "u32 \<Rightarrow> u32 \<Rightarrow> bool \<Rightarrow> ('z kmem_scheme, u32) km" where
  "walkpgdir pgdir va alloc =
     (let pde = pgdir + 4 * PDX va in
      bnd (rd32 pde) (\<lambda>e.
      if e AND PTE_P \<noteq> 0 then ret (P2V (PTE_ADDR e) + 4 * PTX va)
      else if \<not> alloc then ret 0
      else bnd kalloc (\<lambda>pgtab.
        if pgtab = 0 then ret 0
        else thn (zero_page pgtab) (
          thn (wr32 pde (V2P pgtab OR PTE_P OR PTE_W OR PTE_U))
              (ret (pgtab + 4 * PTX va))))))"

text \<open>
  The loop of mappages runs \<open>a\<close> up to \<open>last\<close>, both page aligned, so at most
  \<open>2 ^ 20\<close> times; the first argument counts the pages left after this one.
\<close>

primrec mappages_loop :: "nat \<Rightarrow> u32 \<Rightarrow> u32 \<Rightarrow> u32 \<Rightarrow> u32 \<Rightarrow> u32 \<Rightarrow> ('z kmem_scheme, int) km" where
  "mappages_loop 0 pgdir a lst pa perm = (\<lambda>s. Spin)"
| "mappages_loop (Suc n) pgdir a lst pa perm =
     bnd (walkpgdir pgdir a True) (\<lambda>pte.
     if pte = 0 then ret (- 1)
     else bnd (rd32 pte) (\<lambda>e.
       if e AND PTE_P \<noteq> 0 then panic ''remap''
       else thn (wr32 pte (pa OR perm OR PTE_P)) (
         if a = lst then ret 0
         else mappages_loop n pgdir (a + of_nat PGSIZE) lst (pa + of_nat PGSIZE) perm)))"

definition mappages :: "u32 \<Rightarrow> u32 \<Rightarrow> u32 \<Rightarrow> u32 \<Rightarrow> u32 \<Rightarrow> ('z kmem_scheme, int) km" where
  "mappages pgdir va sz pa perm =
     mappages_loop (2 ^ 20) pgdir (PGROUNDDOWN va) (PGROUNDDOWN (va + sz - 1)) pa perm"

subsection \<open>Freeing\<close>

function dealloc_loop :: "u32 \<Rightarrow> u32 \<Rightarrow> u32 \<Rightarrow> ('z kmem_scheme, unit) km" where
  "dealloc_loop pgdir a oldsz =
     (if a < oldsz then
        bnd (walkpgdir pgdir a False) (\<lambda>pte.
        if pte = 0 then
          (let a' = PGADDR (PDX a + 1) 0 0 - of_nat PGSIZE + of_nat PGSIZE
           in if a < a' then dealloc_loop pgdir a' oldsz else (\<lambda>s. Spin))
        else bnd (rd32 pte) (\<lambda>e.
          thn (whn (e AND PTE_P \<noteq> 0) (
                 let pa = PTE_ADDR e in
                 if pa = 0 then panic ''kfree''
                 else thn (kfree (P2V pa)) (wr32 pte 0))) (
          if a < a + of_nat PGSIZE then dealloc_loop pgdir (a + of_nat PGSIZE) oldsz
          else (\<lambda>s. Spin))))
      else ret ())"
  by pat_completeness auto
termination
proof (relation "measure (\<lambda>(d, a, e). 4294967296 - unat a)")
qed (use unat_u32_less in \<open>auto simp: word_less_nat_alt intro!: diff_less_mono2\<close>)

declare dealloc_loop.simps [simp del]

definition deallocuvm :: "u32 \<Rightarrow> u32 \<Rightarrow> u32 \<Rightarrow> ('z kmem_scheme, u32) km" where
  "deallocuvm pgdir oldsz newsz =
     (if newsz \<ge> oldsz then ret oldsz
      else thn (dealloc_loop pgdir (PGROUNDUP newsz) oldsz) (ret newsz))"

definition freevm :: "u32 \<Rightarrow> ('z kmem_scheme, unit) km" where
  "freevm pgdir =
     (if pgdir = 0 then panic ''freevm: no pgdir''
      else thn (bnd (deallocuvm pgdir KERNBASE 0) (\<lambda>_. ret ())) (
        thn (kfor [0..<NPDENTRIES] (\<lambda>i.
          bnd (rd32 (pgdir + 4 * of_nat i)) (\<lambda>e.
          whn (e AND PTE_P \<noteq> 0) (kfree (P2V (PTE_ADDR e)))))) (
        kfree pgdir)))"

subsection \<open>Kernel mappings and switching\<close>

definition kmap :: "u32 \<Rightarrow> (u32 \<times> u32 \<times> u32 \<times> u32) list" where
  "kmap dat =
     [(KERNBASE, 0, EXTMEM, PTE_W),
      (KERNLINK, V2P KERNLINK, V2P dat, 0),
      (dat, V2P dat, PHYSTOP, PTE_W),
      (DEVSPACE, DEVSPACE, 0, PTE_W)]"

primrec map_kernel :: "u32 \<Rightarrow> (u32 \<times> u32 \<times> u32 \<times> u32) list \<Rightarrow> ('z kmem_scheme, u32) km" where
  "map_kernel pgdir [] = ret pgdir"
| "map_kernel pgdir (k # ks) =
     (case k of (virt, ps, pe, perm) \<Rightarrow>
        bnd (mappages pgdir virt (pe - ps) ps perm) (\<lambda>r.
        if r < 0 then thn (freevm pgdir) (ret 0) else map_kernel pgdir ks))"

definition setupkvm :: "('z kvm_scheme, u32) km" where
  "setupkvm =
     bnd kalloc (\<lambda>pgdir.
     if pgdir = 0 then ret 0
     else thn (zero_page pgdir) (
       if P2V PHYSTOP > DEVSPACE then panic ''PHYSTOP too high''
       else bnd (gets kdata) (\<lambda>dat. map_kernel pgdir (kmap dat))))"

definition lcr3 :: "u32 \<Rightarrow> ('z kstate_scheme, unit) km" where
  "lcr3 v = modf (\<lambda>s. s\<lparr>mach := (mach s)\<lparr>cr3 := v\<rparr>\<rparr>)"

definition switchkvm :: "('z kvm_scheme, unit) km" where
  "switchkvm = bnd (gets kpgdir) (\<lambda>d. lcr3 (V2P d))"

definition kvmalloc :: "('z kvm_scheme, unit) km" where
  "kvmalloc = bnd setupkvm (\<lambda>d. thn (modf (\<lambda>s. s\<lparr>kpgdir := d\<rparr>)) switchkvm)"

text \<open>switchuvm reads of the process its kernel stack and its page directory.\<close>

definition switchuvm :: "(u32 \<times> u32) option \<Rightarrow> ('z kvm_scheme, unit) km" where
  "switchuvm p =
     (case p of None \<Rightarrow> panic ''switchuvm: no process''
      | Some (kstack, pgdir) \<Rightarrow>
          if kstack = 0 then panic ''switchuvm: no kstack''
          else if pgdir = 0 then panic ''switchuvm: no pgdir''
          else thn pushcli (
            bnd mycpu (\<lambda>c.
            thn (set_cpu c (\<lambda>k. k\<lparr>ts_esp0 := kstack + KSTACKSIZE\<rparr>)) (
            thn (lcr3 (V2P pgdir)) popcli))))"

subsection \<open>User memory\<close>

definition inituvm :: "u32 \<Rightarrow> u32 \<Rightarrow> nat \<Rightarrow> ('z kmem_scheme, unit) km" where
  "inituvm pgdir init sz =
     (if sz \<ge> PGSIZE then panic ''inituvm: more than a page''
      else bnd kalloc (\<lambda>mm.
        if mm = 0 then fault ''memset of null''
        else thn (zero_page mm) (
          bnd (mappages pgdir 0 (of_nat PGSIZE) (V2P mm) (PTE_W OR PTE_U)) (\<lambda>_.
          modf (\<lambda>s. s\<lparr>ram := memmove (ram s) mm init sz\<rparr>)))))"

function alloc_loop :: "u32 \<Rightarrow> u32 \<Rightarrow> u32 \<Rightarrow> u32 \<Rightarrow> ('z kmem_scheme, u32) km" where
  "alloc_loop pgdir a oldsz newsz =
     (if a < newsz then
        bnd kalloc (\<lambda>mm.
        if mm = 0 then
          thn (cprintf (''allocuvm out of memory'' @ [CHR 0x0A]) []) (
          bnd (deallocuvm pgdir newsz oldsz) (\<lambda>_. ret 0))
        else thn (zero_page mm) (
          bnd (mappages pgdir a (of_nat PGSIZE) (V2P mm) (PTE_W OR PTE_U)) (\<lambda>r.
          if r < 0 then
            thn (cprintf (''allocuvm out of memory (2)'' @ [CHR 0x0A]) []) (
            bnd (deallocuvm pgdir newsz oldsz) (\<lambda>_.
            thn (kfree mm) (ret 0)))
          else if a < a + of_nat PGSIZE then alloc_loop pgdir (a + of_nat PGSIZE) oldsz newsz
          else (\<lambda>s. Spin))))
      else ret newsz)"
  by pat_completeness auto
termination
proof (relation "measure (\<lambda>(d, a, q, e). 4294967296 - unat a)")
qed (use unat_u32_less in \<open>auto simp: word_less_nat_alt intro!: diff_less_mono2\<close>)

declare alloc_loop.simps [simp del]

definition allocuvm :: "u32 \<Rightarrow> u32 \<Rightarrow> u32 \<Rightarrow> ('z kmem_scheme, u32) km" where
  "allocuvm pgdir oldsz newsz =
     (if newsz \<ge> KERNBASE then ret 0
      else if newsz < oldsz then ret oldsz
      else alloc_loop pgdir (PGROUNDUP oldsz) oldsz newsz)"

definition clearpteu :: "u32 \<Rightarrow> u32 \<Rightarrow> ('z kmem_scheme, unit) km" where
  "clearpteu pgdir uva =
     bnd (walkpgdir pgdir uva False) (\<lambda>pte.
     if pte = 0 then panic ''clearpteu''
     else bnd (rd32 pte) (\<lambda>e. wr32 pte (e AND NOT PTE_U)))"

function copy_loop :: "u32 \<Rightarrow> u32 \<Rightarrow> u32 \<Rightarrow> u32 \<Rightarrow> ('z kmem_scheme, u32) km" where
  "copy_loop pgdir d i sz =
     (if i < sz then
        bnd (walkpgdir pgdir i False) (\<lambda>pte.
        if pte = 0 then panic ''copyuvm: pte should exist''
        else bnd (rd32 pte) (\<lambda>e.
          if e AND PTE_P = 0 then panic ''copyuvm: page not present''
          else bnd kalloc (\<lambda>mm.
            if mm = 0 then thn (freevm d) (ret 0)
            else thn (modf (\<lambda>s. s\<lparr>ram := memmove (ram s) mm (P2V (PTE_ADDR e)) PGSIZE\<rparr>)) (
              bnd (mappages d i (of_nat PGSIZE) (V2P mm) (PTE_FLAGS e)) (\<lambda>r.
              if r < 0 then thn (kfree mm) (thn (freevm d) (ret 0))
              else if i < i + of_nat PGSIZE then copy_loop pgdir d (i + of_nat PGSIZE) sz
              else (\<lambda>s. Spin))))))
      else ret d)"
  by pat_completeness auto
termination
proof (relation "measure (\<lambda>(d, d', a, e). 4294967296 - unat a)")
qed (use unat_u32_less in \<open>auto simp: word_less_nat_alt intro!: diff_less_mono2\<close>)

declare copy_loop.simps [simp del]

definition copyuvm :: "u32 \<Rightarrow> u32 \<Rightarrow> ('z kvm_scheme, u32) km" where
  "copyuvm pgdir sz = bnd setupkvm (\<lambda>d. if d = 0 then ret 0 else copy_loop pgdir d 0 sz)"

text \<open>
  uva2ka reads \<open>*pte\<close> without looking at whether walkpgdir found a page table.
\<close>

definition uva2ka :: "u32 \<Rightarrow> u32 \<Rightarrow> ('z kmem_scheme, u32) km" where
  "uva2ka pgdir uva =
     bnd (walkpgdir pgdir uva False) (\<lambda>pte.
     if pte = 0 then fault ''load through a null pte''
     else bnd (rd32 pte) (\<lambda>e.
       if e AND PTE_P = 0 then ret 0
       else if e AND PTE_U = 0 then ret 0
       else ret (P2V (PTE_ADDR e))))"

definition page_room :: "u32 \<Rightarrow> nat \<Rightarrow> nat" where
  "page_room va len =
     (let n = PGSIZE - unat (va - PGROUNDDOWN va) in if n > len then len else n)"

lemma page_off: "unat (va - PGROUNDDOWN va) = unat va mod 4096"
proof -
  have m: "NOT 4095 = (NOT (mask 12) :: u32)" by (simp add: mask_eq_exp_minus_1)
  have "PGROUNDDOWN va + (va AND mask 12) = va"
    unfolding PGROUNDDOWN_def m by (subst disjunctive_add) (auto simp: bit_simps intro!: bit_word_eqI)
  then have "va - PGROUNDDOWN va = va AND mask 12" by (metis add_diff_cancel_left')
  then have "va - PGROUNDDOWN va = take_bit 12 va" by (simp add: take_bit_eq_mask)
  then show ?thesis by (simp only: unsigned_take_bit_eq) (simp add: take_bit_eq_mod)
qed

lemma page_room_pos: "0 < len \<Longrightarrow> 0 < page_room va len \<and> page_room va len \<le> len"
  by (simp add: page_room_def page_off PGSIZE_def Let_def)

function copyout :: "u32 \<Rightarrow> u32 \<Rightarrow> u32 \<Rightarrow> nat \<Rightarrow> ('z kmem_scheme, int) km" where
  "copyout pgdir va buf len =
     (if len > 0 then
        (let va0 = PGROUNDDOWN va in
         bnd (uva2ka pgdir va0) (\<lambda>pa0.
         if pa0 = 0 then ret (- 1)
         else (let n = page_room va len in
           thn (modf (\<lambda>s. s\<lparr>ram := memmove (ram s) (pa0 + (va - va0)) buf n\<rparr>)) (
           copyout pgdir (va0 + of_nat PGSIZE) (buf + of_nat n) (len - n)))))
      else ret 0)"
  by pat_completeness auto
termination
proof (relation "measure (\<lambda>(d, v, b, len). len)")
qed (use page_room_pos in auto)

declare copyout.simps [simp del]

subsection \<open>Table slots do not overlap\<close>

definition pg_aligned :: "u32 \<Rightarrow> bool" where "pg_aligned x \<longleftrightarrow> unat x mod 4096 = 0"

lemma ld32_st32_far:
  assumes "\<And>k. k < 4 \<Longrightarrow> 4 \<le> unat (b + of_nat k - a)"
  shows "ld32 (st32 m a v) b = ld32 m b"
  using assms [of 0] assms [of 1] assms [of 2] assms [of 3]
  by (intro ld32_cong) (simp_all add: st32_other)

lemma slot_nat: "4 * (i :: u32) = of_nat (4 * unat i)"
  by simp

lemma unat_diff_nat:
  assumes "p < 4294967296" and "q < 4294967296"
  shows "unat (of_nat p - of_nat q :: u32) = (if q \<le> p then p - q else 4294967296 + p - q)"
proof (cases "q \<le> p")
  case True
  then have "(of_nat p - of_nat q :: u32) = of_nat (p - q)" by (simp add: of_nat_diff)
  then show ?thesis using True assms by (simp only: unat_of_nat_small) simp
next
  case False
  then have "(of_nat (4294967296 + p - q) :: u32) = of_nat (4294967296 + p) - of_nat q"
    using assms by (intro of_nat_diff) simp
  then have "(of_nat p - of_nat q :: u32) = of_nat (4294967296 + p - q)" by simp
  then show ?thesis using False assms by (simp only: unat_of_nat_small) simp
qed

lemma far_slot:
  assumes "pg_aligned x" and "pg_aligned y" and "x \<noteq> y" and "unat (i :: u32) < 1024"
    and "k < 4096"
  shows "4 \<le> unat (y + of_nat k - (x + 4 * i))"
proof -
  let ?a = "4 * unat i"
  let ?d = "y + of_nat k - x"
  have d: "4096 \<le> unat ?d"
    using assms by (intro page_apart) (auto simp: pg_aligned_def)
  have e: "y + of_nat k - (x + 4 * i) = ?d - of_nat ?a" by (simp add: algebra_simps)
  have u: "unat (of_nat ?a :: u32) = ?a" using assms(4) by (intro unat_of_nat_small) simp
  have "of_nat ?a \<le> ?d" unfolding word_le_nat_alt u using d assms(4) by linarith
  then have "unat (?d - of_nat ?a) = unat ?d - ?a" by (simp only: unat_sub u)
  moreover have "4 \<le> unat ?d - ?a" using d assms(4) by linarith
  ultimately show ?thesis by (simp only: e)
qed

lemma slot_apart:
  assumes "pg_aligned x" and "pg_aligned y" and "unat (i :: u32) < 1024" and "unat (j :: u32) < 1024"
    and "(x, i) \<noteq> (y, j)"
  shows "ld32 (st32 m (x + 4 * i) v) (y + 4 * j) = ld32 m (y + 4 * j)"
proof (rule ld32_st32_far)
  fix k :: nat assume k: "k < 4"
  let ?a = "4 * unat i" and ?b = "4 * unat j"
  show "4 \<le> unat (y + 4 * j + of_nat k - (x + 4 * i))"
  proof (cases "x = y")
    case True
    then have "i \<noteq> j" using assms(5) by simp
    then have ij: "unat i \<noteq> unat j" by (metis unsigned_word_eqI)
    have "y + 4 * j + of_nat k - (x + 4 * i) = of_nat (?b + k) - of_nat ?a"
      using True by (simp add: algebra_simps)
    moreover have "unat (of_nat (?b + k) - of_nat ?a :: u32)
        = (if ?a \<le> ?b + k then ?b + k - ?a else 4294967296 + (?b + k) - ?a)"
      using assms(3,4) k by (intro unat_diff_nat) simp_all
    ultimately have c: "unat (y + 4 * j + of_nat k - (x + 4 * i))
        = (if ?a \<le> ?b + k then ?b + k - ?a else 4294967296 + (?b + k) - ?a)"
      by (simp only:)
    show ?thesis unfolding c using ij k assms(3,4) by (cases "?a \<le> ?b + k") auto
  next
    case False
    then have "4 \<le> unat (y + of_nat (?b + k) - (x + 4 * i))"
      using assms k by (intro far_slot) simp_all
    then show ?thesis by (simp add: algebra_simps)
  qed
qed

lemma slot_in_page:
  assumes "unat (j :: u32) < 1024" and "k < 4"
  shows "unat (x + 4 * j + of_nat k - x) < 4096"
proof -
  have "x + 4 * j + of_nat k - x = of_nat (4 * unat j + k)" by simp
  then show ?thesis using assms by (simp only: unat_of_nat_small)
qed

lemma slot_zeroed:
  assumes "unat (j :: u32) < 1024"
  shows "ld32 (filled m x 0 PGSIZE) (x + 4 * j) = 0"
proof -
  have "filled m x 0 PGSIZE (x + 4 * j + of_nat k) = 0" if "k < 4" for k
    using slot_in_page [OF assms that, of x] by (simp add: filled_def PGSIZE_def)
  from this [of 0] this [of 1] this [of 2] this [of 3] show ?thesis
    by (simp add: ld32_def)
qed

lemma slot_not_filled:
  assumes "pg_aligned x" and "pg_aligned y" and "x \<noteq> y" and "unat (j :: u32) < 1024"
  shows "ld32 (filled m x c PGSIZE) (y + 4 * j) = ld32 m (y + 4 * j)"
proof -
  have "filled m x c PGSIZE (y + 4 * j + of_nat k) = m (y + 4 * j + of_nat k)" if k: "k < 4" for k
  proof -
    have "4096 \<le> unat (y + of_nat (4 * unat j + k) - x)"
      using assms k by (intro page_apart) (simp_all add: pg_aligned_def)
    then have "4096 \<le> unat (y + 4 * j + of_nat k - x)" by (simp add: algebra_simps)
    then show ?thesis by (simp add: filled_def PGSIZE_def)
  qed
  from this [of 0] this [of 1] this [of 2] this [of 3] show ?thesis
    by (intro ld32_cong) simp_all
qed

lemma PDX_less [simp]: "unat (PDX va) < 1024" and PTX_less [simp]: "unat (PTX va) < 1024"
proof -
  have "x AND 0x3FF < 1024" for x :: u32
    using word_and_le1 [of x "0x3FF"] by (simp add: word_less_nat_alt word_le_nat_alt)
  then show "unat (PDX va) < 1024" "unat (PTX va) < 1024"
    by (simp_all add: PDX_def PTX_def word_less_nat_alt)
qed

lemma aligned_bits: "pg_aligned x \<longleftrightarrow> x AND 0xFFF = 0"
proof -
  have "unat x mod 4096 = unat (take_bit 12 x)"
    by (simp only: unsigned_take_bit_eq) (simp add: take_bit_eq_mod)
  also have "take_bit 12 x = x AND 0xFFF"
    by (simp add: take_bit_eq_mask mask_eq_exp_minus_1)
  finally show ?thesis by (simp add: pg_aligned_def unat_eq_0)
qed

lemma aligned_bit: "pg_aligned x \<Longrightarrow> n < 12 \<Longrightarrow> \<not> bit x n"
proof -
  assume a: "pg_aligned x" "n < 12"
  have "take_bit 12 x = x AND 0xFFF"
    by (simp add: take_bit_eq_mask mask_eq_exp_minus_1)
  then have "take_bit 12 x = 0" using a(1) by (simp add: aligned_bits)
  then show ?thesis using a(2) by (metis bit_take_bit_iff bit_0_eq bot_apply bot_bool_def)
qed

lemma mask12: "(0xFFF :: u32) = mask 12"
  by (simp add: mask_eq_exp_minus_1)

lemma PTE_ADDR_aligned: "pg_aligned (PTE_ADDR e)"
  unfolding aligned_bits PTE_ADDR_def mask12 by (rule bit_word_eqI) (auto simp: bit_simps)

lemma low_flags: "n \<ge> 12 \<Longrightarrow> \<not> bit (7 :: u32) n"
proof -
  assume n: "n \<ge> 12"
  have "(7 :: u32) = mask 3" by (simp add: mask_eq_exp_minus_1)
  then show ?thesis using n by (simp only: bit_mask_iff) simp
qed

lemma PTE_ADDR_flags:
  assumes "pg_aligned x"
  shows "PTE_ADDR (x OR 7) = x"
  unfolding PTE_ADDR_def mask12
proof (rule bit_word_eqI)
  fix n assume "n < LENGTH(32)"
  then show "bit ((x OR 7) AND NOT (mask 12)) n = bit x n"
    using aligned_bit [OF assms, of n] low_flags [of n] by (cases "n < 12") (auto simp: bit_simps)
qed

lemma P2V_aligned: "pg_aligned (P2V x) = pg_aligned x"
proof -
  have "unat (P2V x) = (unat x + 2147483648) mod 4294967296"
    by (simp add: unat_word_ariths KERNBASE_def P2V_def)
  moreover have "n mod 4294967296 mod 4096 = n mod 4096" for n :: nat
    by (rule mod_mod_cancel) simp
  moreover have "(unat x + 2147483648) mod 4096 = unat x mod 4096"
    using mod_mult_self1 [of "unat x" 524288 4096] by simp
  ultimately show ?thesis by (simp only: pg_aligned_def)
qed

lemma V2P_aligned: "pg_aligned (V2P x) = pg_aligned x"
proof -
  have "V2P x = P2V x" by (simp add: V2P_def P2V_def KERNBASE_def)
  then show ?thesis by (simp add: P2V_aligned)
qed

lemma P2V_V2P [simp]: "P2V (V2P x) = x" "V2P (P2V x) = x"
  by (simp_all add: P2V_def V2P_def)


subsection \<open>What the page-table walk of the hardware finds\<close>

text \<open>
  \<open>hw_walk\<close>: the page-table entry the x86 paging unit uses for a virtual address, if both
  levels are present; it grants writing and user access only where both levels do. \<open>pt_ok\<close>: the directory and the page tables it refers to are
  pairwise different pages, none of them on the free list.
\<close>

definition pde_at :: "mem \<Rightarrow> u32 \<Rightarrow> u32 \<Rightarrow> u32" where
  "pde_at m d va = ld32 m (d + 4 * PDX va)"

definition table_at :: "mem \<Rightarrow> u32 \<Rightarrow> u32 \<Rightarrow> u32" where
  "table_at m d va = P2V (PTE_ADDR (pde_at m d va))"

definition has_table :: "mem \<Rightarrow> u32 \<Rightarrow> u32 \<Rightarrow> bool" where
  "has_table m d va \<longleftrightarrow> pde_at m d va AND PTE_P \<noteq> 0"

definition hw_entry :: "u32 \<Rightarrow> u32 \<Rightarrow> u32" where
  "hw_entry pde e = e AND (pde OR NOT (PTE_W OR PTE_U))"

definition hw_walk :: "mem \<Rightarrow> u32 \<Rightarrow> u32 \<Rightarrow> u32 option" where
  "hw_walk m d va =
     (if has_table m d va then
        (let e = ld32 m (table_at m d va + 4 * PTX va) in if e AND PTE_P \<noteq> 0 then Some (hw_entry (pde_at m d va) e) else None)
      else None)"

definition pt_ok :: "mem \<Rightarrow> u32 \<Rightarrow> u32 list \<Rightarrow> bool" where
  "pt_ok m d xs \<longleftrightarrow> pg_aligned d \<and> d \<notin> set xs \<and>
     (\<forall>va. has_table m d va \<longrightarrow> table_at m d va \<noteq> d \<and> table_at m d va \<noteq> 0 \<and>
        table_at m d va \<notin> set xs \<and> pde_at m d va AND (PTE_W OR PTE_U) = PTE_W OR PTE_U) \<and>
     (\<forall>va va'. has_table m d va \<longrightarrow> has_table m d va' \<longrightarrow> PDX va \<noteq> PDX va' \<longrightarrow>
        table_at m d va \<noteq> table_at m d va')"

lemma table_aligned [simp]: "pg_aligned (table_at m d va)"
  by (simp add: table_at_def P2V_aligned PTE_ADDR_aligned)

lemma hw_entry_full:
  assumes "pde AND (PTE_W OR PTE_U) = PTE_W OR PTE_U"
  shows "hw_entry pde e = e"
  unfolding hw_entry_def
proof (rule bit_word_eqI)
  fix n assume n: "n < LENGTH(32)"
  have "bit (pde AND (PTE_W OR PTE_U)) n = bit (PTE_W OR PTE_U) n" by (simp only: assms)
  then show "bit (e AND (pde OR NOT (PTE_W OR PTE_U))) n = bit e n" using n by (auto simp: bit_simps)
qed

lemma same_page_slot:
  assumes "pg_aligned x" and "pg_aligned y" and "x \<noteq> y" and "unat (i :: u32) < 1024"
  shows "same_page m (st32 m (x + 4 * i) v) y"
  unfolding same_page_def
  using far_slot [OF assms] by (simp add: st32_other)

lemma same_page_filled:
  assumes "pg_aligned x" and "pg_aligned y" and "x \<noteq> y"
  shows "same_page m (filled m x c PGSIZE) y"
  unfolding same_page_def
proof (intro allI impI)
  fix k :: nat assume "k < 4096"
  then have "4096 \<le> unat (y + of_nat k - x)"
    using assms by (intro page_apart) (auto simp: pg_aligned_def)
  then show "filled m x c PGSIZE (y + of_nat k) = m (y + of_nat k)"
    by (simp add: filled_def PGSIZE_def)
qed

lemma same_page_trans: "same_page m m' x \<Longrightarrow> same_page m' m'' x \<Longrightarrow> same_page m m'' x"
  by (simp add: same_page_def)

text \<open>Memory after walkpgdir put the zeroed page \<open>x\<close> into the directory.\<close>

definition with_table :: "mem \<Rightarrow> u32 \<Rightarrow> u32 \<Rightarrow> u32 \<Rightarrow> mem" where
  "with_table m d va x = st32 (filled m x 0 PGSIZE) (d + 4 * PDX va) (V2P x OR PTE_P OR PTE_W OR PTE_U)"

lemma walkpgdir_run:
  assumes "kernel_pool s xs"
  shows "walkpgdir d va True s =
    (if has_table (ram s) d va then Ret (table_at (ram s) d va + 4 * PTX va) s
     else case xs of [] \<Rightarrow> Ret 0 s
       | x # ys \<Rightarrow> Ret (x + 4 * PTX va)
           (s\<lparr>freelist := ld32 (ram s) x, ram := with_table (ram s) d va x\<rparr>))"
proof -
  have z: "memset m x 0 PGSIZE = filled m x 0 PGSIZE" for m x
    by (subst memset_filled) (simp_all add: PGSIZE_def)
  have k: "kalloc s = Ret (freelist s)
      (if freelist s = 0 then s else s\<lparr>freelist := ld32 (ram s) (freelist s)\<rparr>)"
    using assms by (intro kalloc_run) (simp add: kernel_pool_def)
  show ?thesis
  proof (cases xs)
    case Nil
    then have "freelist s = 0" using assms by (simp add: kernel_pool_def free_pages_def)
    then show ?thesis using Nil k
      by (simp add: walkpgdir_def Let_def rd32_def has_table_def table_at_def pde_at_def)
  next
    case (Cons x ys)
    then have "freelist s = x" "x \<noteq> 0"
      using assms free_pages_kalloc [of s x ys] by (auto simp: kernel_pool_def)
    then show ?thesis using Cons k
      by (simp add: walkpgdir_def Let_def rd32_def wr32_def zero_page_def has_table_def
          table_at_def pde_at_def with_table_def z)
  qed
qed

lemma new_table_entry:
  assumes "pg_aligned x"
  shows "PTE_ADDR (V2P x OR PTE_P OR PTE_W OR PTE_U) = V2P x"
    and "(V2P x OR PTE_P OR PTE_W OR PTE_U) AND PTE_P \<noteq> 0"
    and "(V2P x OR PTE_P OR PTE_W OR PTE_U) AND (PTE_W OR PTE_U) = PTE_W OR PTE_U"
proof -
  have "V2P x OR PTE_P OR PTE_W OR PTE_U = V2P x OR 7"
    by (simp add: PTE_P_def PTE_W_def PTE_U_def)
  then show "PTE_ADDR (V2P x OR PTE_P OR PTE_W OR PTE_U) = V2P x"
    using assms by (simp add: PTE_ADDR_flags V2P_aligned)
  have "bit ((V2P x OR PTE_P OR PTE_W OR PTE_U) AND PTE_P) 0"
    by (simp add: PTE_P_def bit_simps)
  then show "(V2P x OR PTE_P OR PTE_W OR PTE_U) AND PTE_P \<noteq> 0" by (metis bit_0_eq bot_apply bot_bool_def)
  show "(V2P x OR PTE_P OR PTE_W OR PTE_U) AND (PTE_W OR PTE_U) = PTE_W OR PTE_U"
    by (rule bit_word_eqI) (auto simp: bit_simps)
qed

lemma with_table_pde:
  assumes "pg_aligned x" and "pg_aligned d" and "x \<noteq> d"
  shows "pde_at (with_table m d va x) d va' =
    (if PDX va' = PDX va then V2P x OR PTE_P OR PTE_W OR PTE_U else pde_at m d va')"
  using assms slot_apart [of d d "PDX va" "PDX va'"] slot_not_filled [of x d "PDX va'" m 0]
  by (auto simp: pde_at_def with_table_def ld32_st32_same)

lemma with_table_walk:
  assumes "pt_ok m d (x # ys)" and "pg_aligned x" and "\<not> has_table m d va" and "x \<notin> set ys"
    and "x \<noteq> 0"
  shows "hw_walk (with_table m d va x) d va' = hw_walk m d va'"
    and "pt_ok (with_table m d va x) d ys"
    and "has_table (with_table m d va x) d va"
    and "table_at (with_table m d va x) d va = x"
proof -
  let ?m = "with_table m d va x"
  have d: "pg_aligned d" "x \<noteq> d" using assms(1) by (auto simp: pt_ok_def)
  note pde = with_table_pde [OF assms(2) d, of m va]
  have h: "has_table ?m d v \<longleftrightarrow> PDX v = PDX va \<or> has_table m d v"
    and tb: "table_at ?m d v = (if PDX v = PDX va then x else table_at m d v)" for v
    using new_table_entry [OF assms(2)] by (auto simp: has_table_def table_at_def pde)
  have nt: "\<not> has_table m d v" if "PDX v = PDX va" for v
    using assms(3) that by (simp add: has_table_def pde_at_def)
  show "has_table ?m d va" "table_at ?m d va = x" by (simp_all add: h tb)
  show "hw_walk ?m d va' = hw_walk m d va'"
  proof (cases "PDX va' = PDX va")
    case True
    have "ld32 ?m (x + 4 * PTX va') = 0"
      using slot_apart [of d x "PDX va" "PTX va'"] d assms(2)
      by (simp add: with_table_def slot_zeroed)
    then show ?thesis using True nt [OF True] by (simp add: hw_walk_def h tb)
  next
    case False
    have "ld32 ?m (table_at m d va' + 4 * PTX va') = ld32 m (table_at m d va' + 4 * PTX va')"
      if "has_table m d va'"
      using that assms(1,2) d slot_apart [of d "table_at m d va'" "PDX va" "PTX va'"]
        slot_not_filled [of x "table_at m d va'" "PTX va'" m 0]
      by (auto simp: with_table_def pt_ok_def)
    then show ?thesis using False by (simp add: hw_walk_def h tb pde Let_def)
  qed
  show "pt_ok ?m d ys"
    using assms(1,4,5) nt new_table_entry(3) [OF assms(2)] unfolding pt_ok_def h tb pde by auto
qed

lemma with_table_pool:
  assumes "kernel_pool s (x # ys)" and "pt_ok (ram s) d (x # ys)"
  shows "kernel_pool (s\<lparr>freelist := ld32 (ram s) x, ram := with_table (ram s) d va x\<rparr>) ys"
proof -
  have f: "free_pages (s\<lparr>freelist := ld32 (ram s) x\<rparr>) ys" and l: "kmem_lock_ok s"
    using assms(1) free_pages_kalloc [of s x ys] by (auto simp: kernel_pool_def)
  have al: "pg_aligned y" if "y \<in> set (x # ys)" for y
    using assms(1) that by (auto simp: kernel_pool_def free_pages_def page_ok_def pg_aligned_def PGSIZE_def)
  have "same_page (ram s) (with_table (ram s) d va x) y" if "y \<in> set ys" for y
  proof -
    have "y \<noteq> x" "y \<noteq> d" "pg_aligned d"
      using that assms by (auto simp: kernel_pool_def free_pages_def pt_ok_def)
    then show ?thesis
      unfolding with_table_def using that al
      by (intro same_page_trans [OF same_page_filled same_page_slot]) auto
  qed
  then have "chained (with_table (ram s) d va x) (ld32 (ram s) x) ys = chained (ram s) (ld32 (ram s) x) ys"
    by (rule chained_cong)
  then show ?thesis using f l by (simp add: kernel_pool_def free_pages_def kmem_lock_ok_def)
qed

text \<open>Writing one entry changes the translation of that page only.\<close>

lemma pte_write_walk:
  assumes "pt_ok m d xs" and "has_table m d va" and "v AND PTE_P \<noteq> 0"
  shows "hw_walk (st32 m (table_at m d va + 4 * PTX va) v) d va' =
      (if PDX va' = PDX va \<and> PTX va' = PTX va then Some v else hw_walk m d va')"
    and "pt_ok (st32 m (table_at m d va + 4 * PTX va) v) d xs"
proof -
  let ?m = "st32 m (table_at m d va + 4 * PTX va) v"
  have d: "pg_aligned d" "table_at m d va \<noteq> d" using assms(1,2) by (auto simp: pt_ok_def)
  have pde: "pde_at ?m d w = pde_at m d w" for w
    using slot_apart [of "table_at m d va" d "PTX va" "PDX w"] d by (simp add: pde_at_def)
  then have h: "has_table ?m d w = has_table m d w" and tb: "table_at ?m d w = table_at m d w" for w
    by (simp_all add: has_table_def table_at_def)
  show "pt_ok ?m d xs" using assms(1) by (simp add: pt_ok_def h tb pde)
  have same: "table_at m d va' = table_at m d va" "has_table m d va'" if "PDX va' = PDX va"
    using that assms(2) by (simp_all add: table_at_def has_table_def pde_at_def)
  have full: "pde_at m d w AND (PTE_W OR PTE_U) = PTE_W OR PTE_U" if "has_table m d w" for w
    using that assms(1) by (simp add: pt_ok_def)
  have other: "ld32 ?m (table_at m d va' + 4 * PTX va') = ld32 m (table_at m d va' + 4 * PTX va')"
    if "has_table m d va'" "\<not> (PDX va' = PDX va \<and> PTX va' = PTX va)"
    using that assms(1,2) same
    by (intro slot_apart) (auto simp: pt_ok_def)
  show "hw_walk ?m d va' =
      (if PDX va' = PDX va \<and> PTX va' = PTX va then Some v else hw_walk m d va')"
    using other same assms(3) full by (auto simp: hw_walk_def h tb pde ld32_st32_same Let_def hw_entry_full)
qed


lemma pool_aligned: "kernel_pool s xs \<Longrightarrow> y \<in> set xs \<Longrightarrow> pg_aligned y"
  by (auto simp: kernel_pool_def free_pages_def page_ok_def pg_aligned_def PGSIZE_def)

lemma pte_write_pool:
  assumes "kernel_pool s xs" and "pt_ok (ram s) d xs" and "has_table (ram s) d va"
  shows "kernel_pool (s\<lparr>ram := st32 (ram s) (table_at (ram s) d va + 4 * PTX va) v\<rparr>) xs"
proof -
  have "same_page (ram s) (st32 (ram s) (table_at (ram s) d va + 4 * PTX va) v) y" if "y \<in> set xs" for y
    using that assms pool_aligned [OF assms(1)] by (intro same_page_slot) (auto simp: pt_ok_def)
  then have "chained (st32 (ram s) (table_at (ram s) d va + 4 * PTX va) v) a xs = chained (ram s) a xs" for a
    by (rule chained_cong)
  then show ?thesis using assms(1) by (simp add: kernel_pool_def free_pages_def)
qed

lemma not_mask12: "NOT (4095 :: u32) = NOT (mask 12)"
  by (simp add: mask_eq_exp_minus_1)

lemma page_of_va: "PGROUNDDOWN a = PGROUNDDOWN b \<longleftrightarrow> PDX a = PDX b \<and> PTX a = PTX b"
proof -
  have m: "(0x3FF :: u32) = mask 10" by (simp add: mask_eq_exp_minus_1)
  have d: "bit (PDX x) n \<longleftrightarrow> n < 10 \<and> bit x (22 + n)" for x n
    unfolding PDX_def m by (auto simp: bit_simps)
  have t: "bit (PTX x) n \<longleftrightarrow> n < 10 \<and> bit x (12 + n)" for x n
    unfolding PTX_def m by (auto simp: bit_simps)
  have g: "bit (PGROUNDDOWN x) n \<longleftrightarrow> 12 \<le> n \<and> bit x n" for x n
    unfolding PGROUNDDOWN_def not_mask12 by (auto simp: bit_simps dest: bit_imp_le_length)
  show ?thesis
  proof
    assume e: "PGROUNDDOWN a = PGROUNDDOWN b"
    have "bit a n = bit b n" if "12 \<le> n" for n
      using g [of a n] g [of b n] that e by simp
    then show "PDX a = PDX b \<and> PTX a = PTX b"
      by (intro conjI bit_word_eqI) (simp_all add: d t)
  next
    assume e: "PDX a = PDX b \<and> PTX a = PTX b"
    show "PGROUNDDOWN a = PGROUNDDOWN b"
    proof (rule bit_word_eqI)
      fix n assume n: "n < LENGTH(32)"
      have "n < 12 \<or> (n = 12 + (n - 12) \<and> n - 12 < 10) \<or> (n = 22 + (n - 22) \<and> n - 22 < 10)"
        using n by simp linarith
      then consider "n < 12" | k where "n = 12 + k" "k < 10" | k where "n = 22 + k" "k < 10"
        by blast
      then show "bit (PGROUNDDOWN a) n = bit (PGROUNDDOWN b) n"
        by cases (use e d t g in \<open>simp, metis+\<close>)
    qed
  qed
qed

lemma PGROUNDDOWN_aligned: "pg_aligned a \<Longrightarrow> PGROUNDDOWN a = a"
  unfolding PGROUNDDOWN_def not_mask12
proof (rule bit_word_eqI)
  fix n assume "pg_aligned a" "n < LENGTH(32)"
  then show "bit (a AND NOT (mask 12)) n = bit a n"
    using aligned_bit [of a n] by (cases "n < 12") (auto simp: bit_simps)
qed

lemma PGROUNDDOWN_last: 
  assumes "pg_aligned a"
  shows "PGROUNDDOWN (a + 4095) = a"
proof -
  have m: "(4095 :: u32) = mask 12" by (simp add: mask_eq_exp_minus_1)
  have "a + mask 12 = a OR mask 12"
    by (rule disjunctive_add) (auto simp: bit_simps dest: aligned_bit [OF assms])
  then have "PGROUNDDOWN (a + mask 12) = PGROUNDDOWN a"
    unfolding PGROUNDDOWN_def not_mask12 by (simp only:) (rule bit_word_eqI, auto simp: bit_simps)
  then show ?thesis unfolding m using assms by (simp add: PGROUNDDOWN_aligned)
qed

lemma map_page_loop:
  "mappages_loop (Suc n) d a a pa perm s =
     obind (walkpgdir d a True s) (\<lambda>pte. if pte = 0 then ret (- 1)
       else bnd (rd32 pte) (\<lambda>e. if e AND PTE_P \<noteq> 0 then panic ''remap''
         else thn (wr32 pte (pa OR perm OR PTE_P)) (ret 0)))"
  by simp

lemma map_page_unfold:
  assumes "pg_aligned va"
  shows "mappages d va (of_nat PGSIZE) pa perm s =
     obind (walkpgdir d va True s) (\<lambda>pte. if pte = 0 then ret (- 1)
       else bnd (rd32 pte) (\<lambda>e. if e AND PTE_P \<noteq> 0 then panic ''remap''
         else thn (wr32 pte (pa OR perm OR PTE_P)) (ret 0)))"
proof -
  have "va + of_nat PGSIZE - 1 = va + 4095" by (simp add: PGSIZE_def)
  moreover obtain n where "(2::nat) ^ 20 = Suc n" by (metis not0_implies_Suc power_eq_0_iff zero_neq_numeral)
  ultimately show ?thesis
    using assms map_page_loop unfolding mappages_def
    by (simp only: PGROUNDDOWN_aligned PGROUNDDOWN_last)
qed

definition maps_page :: "'z kmem_scheme \<Rightarrow> 'z kmem_scheme \<Rightarrow> u32 \<Rightarrow> u32 \<Rightarrow> u32 \<Rightarrow> bool" where
  "maps_page s t d va e \<longleftrightarrow>
     (\<forall>va'. hw_walk (ram t) d va' = (if PGROUNDDOWN va' = va then Some e else hw_walk (ram s) d va'))"

lemma slot_nonzero:
  assumes "pg_aligned x" and "x \<noteq> 0" and "unat (i::u32) < 1024"
  shows "x + 4 * i \<noteq> 0"
proof
  assume z: "x + 4 * i = 0"
  have "4 \<le> unat (0 + of_nat 0 - (x + 4 * i))"
    using assms by (intro far_slot) (auto simp: pg_aligned_def)
  then show False using z by simp
qed


definition vm_ok :: "'z kmem_scheme \<Rightarrow> u32 \<Rightarrow> u32 list \<Rightarrow> bool" where
  "vm_ok s d xs \<longleftrightarrow> kernel_pool s xs \<and> pt_ok (ram s) d xs"

text \<open>
  A page that is neither the directory nor one of its tables nor free is \<open>untouched\<close>;
  \<open>spares\<close> says that a step leaves the bytes of all such pages alone.
\<close>

definition untouched :: "'z kmem_scheme \<Rightarrow> u32 \<Rightarrow> u32 list \<Rightarrow> u32 \<Rightarrow> bool" where
  "untouched s d xs z \<longleftrightarrow> pg_aligned z \<and> z \<noteq> d \<and> z \<notin> set xs \<and>
     (\<forall>va. has_table (ram s) d va \<longrightarrow> table_at (ram s) d va \<noteq> z)"

definition spares :: "'z kmem_scheme \<Rightarrow> 'z kmem_scheme \<Rightarrow> u32 \<Rightarrow> u32 list \<Rightarrow> u32 list \<Rightarrow> bool" where
  "spares s t d xs ys \<longleftrightarrow>
     (\<forall>z. untouched s d xs z \<longrightarrow> untouched t d ys z \<and> same_page (ram s) (ram t) z)"

lemma spares_refl: "spares s s d xs xs"
  by (simp add: spares_def same_page_def)

lemma spares_trans: "spares s t d xs ys \<Longrightarrow> spares t u d ys zs \<Longrightarrow> spares s u d xs zs"
  unfolding spares_def using same_page_trans by blast

lemma pte_write_spares:
  assumes "pt_ok (ram s) d xs" and "has_table (ram s) d va"
  shows "spares s (s\<lparr>ram := st32 (ram s) (table_at (ram s) d va + 4 * PTX va) v\<rparr>) d xs xs"
proof -
  let ?m = "st32 (ram s) (table_at (ram s) d va + 4 * PTX va) v"
  have d: "pg_aligned d" "table_at (ram s) d va \<noteq> d" using assms by (auto simp: pt_ok_def)
  have "pde_at ?m d w = pde_at (ram s) d w" for w
    using slot_apart [of "table_at (ram s) d va" d "PTX va" "PDX w"] d by (simp add: pde_at_def)
  then show ?thesis
    using assms(2) by (auto simp: spares_def untouched_def has_table_def table_at_def [where m = ?m]
        table_at_def [symmetric] intro!: same_page_slot)
qed

lemma with_table_spares:
  assumes "pt_ok (ram s) d (x # ys)" and "pg_aligned x" and "\<not> has_table (ram s) d va"
  shows "spares s (s\<lparr>freelist := f, ram := with_table (ram s) d va x\<rparr>) d (x # ys) ys"
proof -
  let ?m = "with_table (ram s) d va x"
  have d: "pg_aligned d" "x \<noteq> d" using assms(1) by (auto simp: pt_ok_def)
  note pde = with_table_pde [OF assms(2) d, of "ram s" va]
  have h: "has_table ?m d v \<longleftrightarrow> PDX v = PDX va \<or> has_table (ram s) d v"
    and tb: "table_at ?m d v = (if PDX v = PDX va then x else table_at (ram s) d v)" for v
    using new_table_entry [OF assms(2)] by (auto simp: has_table_def table_at_def pde)
  have "same_page (ram s) ?m z" if "untouched s d (x # ys) z" for z
    unfolding with_table_def using that d assms(2)
    by (intro same_page_trans [OF same_page_filled same_page_slot]) (auto simp: untouched_def)
  then show ?thesis by (auto simp: spares_def untouched_def h tb)
qed

lemma map_with_table:
  assumes "vm_ok s d xs" and "has_table (ram s) d va" and "pg_aligned va"
  shows "mappages d va (of_nat PGSIZE) pa perm s =
      (if hw_walk (ram s) d va = None
       then Ret 0 (s\<lparr>ram := st32 (ram s) (table_at (ram s) d va + 4 * PTX va) (pa OR perm OR PTE_P)\<rparr>)
       else Panic ''remap'')"
proof -
  have "walkpgdir d va True s = Ret (table_at (ram s) d va + 4 * PTX va) s"
    using assms walkpgdir_run [of s xs d va] by (simp add: vm_ok_def)
  moreover have "table_at (ram s) d va + 4 * PTX va \<noteq> 0"
    using assms(1,2) by (intro slot_nonzero) (auto simp: vm_ok_def pt_ok_def)
  ultimately show ?thesis
    using assms(2) by (simp add: map_page_unfold [OF assms(3)] rd32_def wr32_def hw_walk_def Let_def)
qed

lemma pa_present: "(pa OR perm OR PTE_P) AND PTE_P \<noteq> 0"
proof -
  have "bit ((pa OR perm OR PTE_P) AND PTE_P) 0" by (simp add: PTE_P_def bit_simps)
  then show ?thesis by (metis bit_0_eq bot_apply bot_bool_def)
qed

lemma map_with_table_ok:
  assumes "vm_ok s d xs" and "has_table (ram s) d va" and "pg_aligned va"
    and "hw_walk (ram s) d va = None"
  shows "\<exists>t. mappages d va (of_nat PGSIZE) pa perm s = Ret 0 t \<and> vm_ok t d xs \<and>
    maps_page s t d va (pa OR perm OR PTE_P) \<and> spares s t d xs xs"
proof -
  let ?t = "s\<lparr>ram := st32 (ram s) (table_at (ram s) d va + 4 * PTX va) (pa OR perm OR PTE_P)\<rparr>"
  note w = pte_write_walk [of "ram s" d xs va "pa OR perm OR PTE_P"]
  have "maps_page s ?t d va (pa OR perm OR PTE_P)"
    using w(1) assms pa_present page_of_va [of _ va] PGROUNDDOWN_aligned [OF assms(3)]
    by (simp add: maps_page_def vm_ok_def)
  moreover have "vm_ok ?t d xs"
    using w(2) assms pa_present pte_write_pool [of s xs d va] by (simp add: vm_ok_def)
  moreover have "spares s ?t d xs xs" using assms(1,2) by (intro pte_write_spares) (simp_all add: vm_ok_def)
  ultimately show ?thesis using assms by (auto simp: map_with_table)
qed

lemma map_new_table_ok:
  assumes "vm_ok s d (x # ys)" and "\<not> has_table (ram s) d va" and "pg_aligned va"
  shows "\<exists>t. mappages d va (of_nat PGSIZE) pa perm s = Ret 0 t \<and> vm_ok t d ys \<and>
    maps_page s t d va (pa OR perm OR PTE_P) \<and> spares s t d (x # ys) ys"
proof -
  let ?t = "s\<lparr>freelist := ld32 (ram s) x, ram := with_table (ram s) d va x\<rparr>"
  have x: "pg_aligned x" "x \<noteq> 0" "x \<notin> set ys"
    using assms(1) pool_aligned [of s "x # ys" x] free_pages_nonzero [of s "x # ys"]
    by (auto simp: vm_ok_def kernel_pool_def free_pages_def)
  have p: "pt_ok (ram s) d (x # ys)" and k: "kernel_pool s (x # ys)"
    using assms(1) by (auto simp: vm_ok_def)
  note wt = with_table_walk [OF p x(1) assms(2) x(3,2)]
  have t: "vm_ok ?t d ys" using wt(2) with_table_pool [OF k p] by (simp add: vm_ok_def)
  have "hw_walk (ram ?t) d va = None" using wt(1) [of va] assms(2) by (simp add: hw_walk_def)
  then obtain u where u: "mappages d va (of_nat PGSIZE) pa perm ?t = Ret 0 u" "vm_ok u d ys"
    "maps_page ?t u d va (pa OR perm OR PTE_P)" "spares ?t u d ys ys"
    using map_with_table_ok [OF t _ assms(3)] wt(3) by auto
  have "walkpgdir d va True s = Ret (x + 4 * PTX va) ?t"
    using walkpgdir_run [OF k] assms(2) by simp
  moreover have "walkpgdir d va True ?t = Ret (x + 4 * PTX va) ?t"
    using walkpgdir_run [of ?t ys d va] t wt(3,4) by (simp add: vm_ok_def)
  ultimately have "mappages d va (of_nat PGSIZE) pa perm s = mappages d va (of_nat PGSIZE) pa perm ?t"
    by (simp only: map_page_unfold [OF assms(3)])
  moreover have "maps_page s u d va (pa OR perm OR PTE_P)"
    using u(3) wt(1) by (simp add: maps_page_def)
  moreover have "spares s u d (x # ys) ys"
    using with_table_spares [OF p x(1) assms(2)] u(4) by (rule spares_trans)
  ultimately show ?thesis using u by auto
qed

text \<open>C13: mapping one page. When the page is not mapped and a page for the page table is at
  hand, mappages returns 0 and the hardware walk then finds the new entry at every address of
  that page, with the permissions of both levels taken together, and what it found before at
  every other address; a page that is neither the directory nor one of its tables nor free
  keeps its bytes; at most one page is taken, for a missing table. When no page is left for the
  table mappages returns -1 and changes nothing; on a page already mapped it panics.\<close>

theorem mappages_one_page:
  assumes "vm_ok s d xs" and "pg_aligned va"
  shows "if hw_walk (ram s) d va \<noteq> None
      then mappages d va (of_nat PGSIZE) pa perm s = Panic ''remap''
    else if \<not> has_table (ram s) d va \<and> xs = []
      then mappages d va (of_nat PGSIZE) pa perm s = Ret (- 1) s
    else \<exists>t ys. mappages d va (of_nat PGSIZE) pa perm s = Ret 0 t \<and> vm_ok t d ys \<and>
      ys = (if has_table (ram s) d va then xs else tl xs) \<and>
      (\<forall>va'. hw_walk (ram t) d va' =
        (if PGROUNDDOWN va' = va then Some (pa OR perm OR PTE_P) else hw_walk (ram s) d va')) \<and>
      (\<forall>z. untouched s d xs z \<longrightarrow> same_page (ram s) (ram t) z)"
proof (cases "has_table (ram s) d va")
  case True
  then show ?thesis
    using map_with_table_ok [OF assms(1) True assms(2)] map_with_table [OF assms(1) True assms(2)]
    by (auto simp: maps_page_def spares_def)
next
  case False
  then have n: "hw_walk (ram s) d va = None" by (simp add: hw_walk_def)
  show ?thesis
  proof (cases xs)
    case Nil
    then have "walkpgdir d va True s = Ret 0 s"
      using walkpgdir_run [of s xs d va] assms(1) False by (simp add: vm_ok_def)
    then show ?thesis using n Nil False by (simp add: map_page_unfold [OF assms(2)])
  next
    case (Cons x ys)
    then show ?thesis
      using map_new_table_ok [of s d x ys va pa perm] assms n False
      by (auto simp: maps_page_def spares_def)
  qed
qed


subsection \<open>Growing a process\<close>

lemma take_page_ok:
  assumes "vm_ok s d (x # ys)"
  shows "kalloc s = Ret x (s\<lparr>freelist := ld32 (ram s) x\<rparr>)"
    and "vm_ok (s\<lparr>freelist := ld32 (ram s) x, ram := filled (ram s) x c PGSIZE\<rparr>) d ys"
    and "hw_walk (filled (ram s) x c PGSIZE) d va = hw_walk (ram s) d va"
    and "spares s (s\<lparr>freelist := ld32 (ram s) x, ram := filled (ram s) x c PGSIZE\<rparr>) d (x # ys) ys"
    and "untouched (s\<lparr>freelist := ld32 (ram s) x, ram := filled (ram s) x c PGSIZE\<rparr>) d ys x"
proof -
  let ?m = "filled (ram s) x c PGSIZE"
  have k: "kernel_pool s (x # ys)" and p: "pt_ok (ram s) d (x # ys)"
    using assms by (auto simp: vm_ok_def)
  have x: "pg_aligned x" "x \<noteq> 0" "x \<notin> set ys" "pg_aligned d" "x \<noteq> d"
    using k p pool_aligned [OF k, of x] free_pages_nonzero [of s "x # ys"]
    by (auto simp: kernel_pool_def free_pages_def pt_ok_def)
  show "kalloc s = Ret x (s\<lparr>freelist := ld32 (ram s) x\<rparr>)"
    using k x(2) by (auto simp: kernel_pool_def kalloc_run free_pages_def)
  have pde: "pde_at ?m d w = pde_at (ram s) d w" for w
    using x by (simp add: pde_at_def slot_not_filled)
  then have h: "has_table ?m d w = has_table (ram s) d w"
    and tb: "table_at ?m d w = table_at (ram s) d w" for w
    by (simp_all add: has_table_def table_at_def)
  have "ld32 ?m (table_at (ram s) d va + 4 * PTX va) = ld32 (ram s) (table_at (ram s) d va + 4 * PTX va)"
    if "has_table (ram s) d va"
    using that p x by (intro slot_not_filled) (auto simp: pt_ok_def)
  then show "hw_walk ?m d va = hw_walk (ram s) d va" by (simp add: hw_walk_def h tb pde Let_def)
  have "same_page (ram s) ?m y" if "y \<in> set ys" for y
    using that x pool_aligned [OF k] by (intro same_page_filled) auto
  then have "chained ?m (ld32 (ram s) x) ys = chained (ram s) (ld32 (ram s) x) ys"
    by (rule chained_cong)
  then show "vm_ok (s\<lparr>freelist := ld32 (ram s) x, ram := ?m\<rparr>) d ys"
    using k p by (auto simp: vm_ok_def pt_ok_def h tb pde kernel_pool_def free_pages_def kmem_lock_ok_def)
  have tx: "has_table (ram s) d w \<Longrightarrow> table_at (ram s) d w \<noteq> x" for w using p by (auto simp: pt_ok_def)
  show "spares s (s\<lparr>freelist := ld32 (ram s) x, ram := ?m\<rparr>) d (x # ys) ys"
    using x same_page_filled [OF x(1)] by (auto simp: spares_def untouched_def h tb)
  show "untouched (s\<lparr>freelist := ld32 (ram s) x, ram := ?m\<rparr>) d ys x"
    using x tx by (auto simp: untouched_def h tb)
qed

definition zeroed :: "'z kmem_scheme \<Rightarrow> u32 \<Rightarrow> bool" where
  "zeroed s x \<longleftrightarrow> (\<forall>k<4096. ram s (x + of_nat k) = 0)"

lemma filled_zero: "k < 4096 \<Longrightarrow> filled m x 0 PGSIZE (x + of_nat k) = 0"
  by (simp add: filled_def PGSIZE_def unat_of_nat_small)

definition user_pte :: "u32 \<Rightarrow> u32" where
  "user_pte x = V2P x OR (PTE_W OR PTE_U) OR PTE_P"

definition vpages :: "u32 \<Rightarrow> nat \<Rightarrow> u32 list" where
  "vpages a n = map (\<lambda>k. a + of_nat (k * PGSIZE)) [0..<n]"

lemma vpages_Suc: "vpages a (Suc n) = a # vpages (a + of_nat PGSIZE) n"
  unfolding vpages_def
  by (simp add: upt_conv_Cons map_Suc_upt [symmetric] del: upt_Suc) (simp add: algebra_simps)

definition mapped_run :: "'z kmem_scheme \<Rightarrow> 'z kmem_scheme \<Rightarrow> u32 \<Rightarrow> u32 \<Rightarrow> u32 list \<Rightarrow> bool" where
  "mapped_run s t d a ps \<longleftrightarrow> (\<forall>va. hw_walk (ram t) d va =
     (case map_of (zip (vpages a (length ps)) ps) (PGROUNDDOWN va) of
        None \<Rightarrow> hw_walk (ram s) d va | Some x \<Rightarrow> Some (user_pte x)))"

lemma vpages_later:
  assumes "unat (a :: u32) + n * 4096 < 4294967296" and "b \<in> set (vpages (a + of_nat PGSIZE) (n - 1))"
    and "0 < n"
  shows "a < b"
proof -
  obtain k where k: "k < n - 1" and b: "b = a + of_nat PGSIZE + of_nat (k * PGSIZE)"
    using assms(2) by (auto simp: vpages_def)
  then have e: "b = a + of_nat ((k + 1) * 4096)" by (simp add: PGSIZE_def algebra_simps)
  have "(k + 1) * 4096 \<le> n * 4096" using k by simp
  then have s: "unat a + (k + 1) * 4096 < 4294967296" using assms(1) by linarith
  then have "unat (of_nat ((k + 1) * 4096) :: u32) = (k + 1) * 4096"
    by (intro unat_of_nat_small) simp
  then have "unat b = unat a + (k + 1) * 4096"
    unfolding e using s by (subst unat_less_add) simp_all
  then show ?thesis by (simp add: word_less_nat_alt)
qed

lemma aligned_step: "pg_aligned a \<Longrightarrow> pg_aligned (a + of_nat PGSIZE)"
proof -
  assume a: "pg_aligned a"
  have "n mod 4294967296 mod 4096 = n mod 4096" for n :: nat
    by (rule mod_mod_cancel) simp
  then show ?thesis using a by (simp add: pg_aligned_def unat_word_ariths PGSIZE_def)
qed

lemma aligned_steps: "pg_aligned c \<Longrightarrow> pg_aligned (c + of_nat (k * PGSIZE))"
proof (induction k)
  case (Suc k)
  have "c + of_nat (Suc k * PGSIZE) = c + of_nat (k * PGSIZE) + of_nat PGSIZE"
    by (simp add: algebra_simps)
  with Suc aligned_step show ?case by metis
qed simp

lemma alloc_loop_ok:
  assumes "vm_ok s d xs" and "pg_aligned a" and "2 * n \<le> length xs"
    and "unat newsz \<le> unat a + n * 4096" and "unat a + n * 4096 < unat newsz + 4096"
    and "newsz < KERNBASE"
    and "\<And>b. b \<in> set (vpages a n) \<Longrightarrow> hw_walk (ram s) d b = None"
  shows "\<exists>t ps ys. alloc_loop d a oldsz newsz s = Ret newsz t \<and> vm_ok t d ys \<and> length ps = n \<and>
    set ps \<union> set ys \<subseteq> set xs \<and> distinct ps \<and> set ps \<inter> set ys = {} \<and> mapped_run s t d a ps \<and>
    spares s t d xs ys \<and> (\<forall>x\<in>set ps. untouched t d ys x \<and> zeroed t x)"
  using assms
proof (induction n arbitrary: s xs a)
  case 0
  then have "\<not> a < newsz" by (simp add: word_less_nat_alt)
  then show ?case
    using "0.prems"(1) by (subst alloc_loop.simps) (auto simp: mapped_run_def spares_refl)
next
  case (Suc n)
  have nb: "unat newsz < 2147483648" using Suc.prems(6) by (simp add: word_less_nat_alt KERNBASE_def)
  have lt: "a < newsz" using Suc.prems(5) by (simp add: word_less_nat_alt)
  have ua: "unat (a + of_nat PGSIZE) = unat a + 4096"
    using lt nb by (subst unat_less_add) (simp_all add: PGSIZE_def word_less_nat_alt)
  then have st: "a < a + of_nat PGSIZE" by (simp add: word_less_nat_alt)
  obtain x y zs where xs: "xs = x # y # zs"
    using Suc.prems(3) by (cases xs; cases "tl xs") auto
  let ?s1 = "s\<lparr>freelist := ld32 (ram s) x, ram := filled (ram s) x 0 PGSIZE\<rparr>"
  note tp = take_page_ok(1) [OF Suc.prems(1) [unfolded xs]]
    take_page_ok(2-5) [OF Suc.prems(1) [unfolded xs], where c = 0]
  have none: "hw_walk (ram ?s1) d a = None"
    using Suc.prems(7) [of a] tp(3) by (simp add: vpages_Suc)
  obtain t1 ys1 where t1: "mappages d a (of_nat PGSIZE) (V2P x) (PTE_W OR PTE_U) ?s1 = Ret 0 t1"
      "vm_ok t1 d ys1" "ys1 = y # zs \<or> ys1 = zs" "maps_page ?s1 t1 d a (user_pte x)"
      "spares ?s1 t1 d (y # zs) ys1"
    using map_with_table_ok [OF tp(2) _ Suc.prems(2) none, of "V2P x" "PTE_W OR PTE_U"]
      map_new_table_ok [OF tp(2) _ Suc.prems(2), of "V2P x" "PTE_W OR PTE_U"]
    unfolding user_pte_def by (cases "has_table (ram ?s1) d a") blast+
  have mp: "hw_walk (ram t1) d va = (if PGROUNDDOWN va = a then Some (user_pte x) else hw_walk (ram s) d va)" for va
    using t1(4) tp(3) by (simp add: maps_page_def)
  have later: "a < b" if "b \<in> set (vpages (a + of_nat PGSIZE) n)" for b
    using that nb Suc.prems(5) by (intro vpages_later [of a "Suc n"]) simp_all
  have un: "hw_walk (ram t1) d b = None" if b: "b \<in> set (vpages (a + of_nat PGSIZE) n)" for b
  proof -
    have "pg_aligned b"
      using b aligned_steps [OF aligned_step [OF Suc.prems(2)]] by (auto simp: vpages_def)
    then have "PGROUNDDOWN b \<noteq> a" using later [OF b] by (simp add: PGROUNDDOWN_aligned)
    then show ?thesis using Suc.prems(7) [of b] b by (simp add: mp vpages_Suc)
  qed
  have "2 * n \<le> length ys1" using Suc.prems(3) t1(3) xs by auto
  then obtain t ps ys where r: "alloc_loop d (a + of_nat PGSIZE) oldsz newsz t1 = Ret newsz t"
      "vm_ok t d ys" "length ps = n" "set ps \<union> set ys \<subseteq> set ys1" "distinct ps"
      "set ps \<inter> set ys = {}" "mapped_run t1 t d (a + of_nat PGSIZE) ps"
      "spares t1 t d ys1 ys" "\<forall>x\<in>set ps. untouched t d ys x \<and> zeroed t x"
    using Suc.IH [OF t1(2) aligned_step [OF Suc.prems(2)]] Suc.prems un ua by auto
  have z: "memset m x 0 PGSIZE = filled m x 0 PGSIZE" for m
    by (subst memset_filled) (simp_all add: PGSIZE_def)
  have "x \<noteq> 0" "x \<notin> set (y # zs)"
    using Suc.prems(1) xs free_pages_nonzero [of s xs] by (auto simp: vm_ok_def kernel_pool_def free_pages_def)
  moreover have "alloc_loop d a oldsz newsz s = Ret newsz t"
    using lt st tp(1) t1(1) r(1) \<open>x \<noteq> 0\<close>
    by (subst alloc_loop.simps) (simp add: zero_page_def z)
  moreover have "mapped_run s t d a (x # ps)"
  proof -
    have "map_of (zip (vpages (a + of_nat PGSIZE) (length ps)) ps) a = None"
      using later [of a] r(3) by (auto simp: map_of_eq_None_iff dest: set_zip_leftD)
    then show ?thesis
      using r(7) mp by (auto simp: mapped_run_def vpages_Suc split: option.splits)
  qed
  moreover have s1: "spares ?s1 t d (y # zs) ys" using t1(5) r(8) by (rule spares_trans)
  then have "spares s t d xs ys" unfolding xs using tp(4) by (blast intro: spares_trans)
  moreover have "untouched t d ys x" "same_page (ram ?s1) (ram t) x"
    using s1 tp(5) unfolding spares_def by blast+
  then have "untouched t d ys x \<and> zeroed t x" by (auto simp: zeroed_def same_page_def filled_zero)
  ultimately show ?case
    using r t1(3) xs by (intro exI [of _ t] exI [of _ "x # ps"] exI [of _ ys]) auto
qed


definition up_pages :: "u32 \<Rightarrow> nat" where
  "up_pages sz = (unat sz + 4095) div 4096"

lemma unat_PGROUNDDOWN: "unat (PGROUNDDOWN x) = unat x div 4096 * 4096"
proof -
  have "PGROUNDDOWN x \<le> x" by (simp add: PGROUNDDOWN_def word_and_le2)
  then have "unat (x - PGROUNDDOWN x) = unat x - unat (PGROUNDDOWN x)" "unat (PGROUNDDOWN x) \<le> unat x"
    by (simp_all add: unat_sub word_le_nat_alt)
  then have "unat (PGROUNDDOWN x) = unat x - unat x mod 4096"
    using page_off [of x] by simp
  then show ?thesis by (simp add: minus_mod_eq_div_mult)
qed

lemma unat_PGROUNDUP: "unat sz < 4294963200 \<Longrightarrow> unat (PGROUNDUP sz) = up_pages sz * 4096"
proof -
  assume "unat sz < 4294963200"
  then have "unat (sz + 4095) = unat sz + 4095" by (subst unat_less_add) simp_all
  moreover have "PGROUNDUP sz = PGROUNDDOWN (sz + 4095)" by (simp add: PGROUNDUP_def PGROUNDDOWN_def)
  ultimately show ?thesis by (simp add: unat_PGROUNDDOWN up_pages_def)
qed

text \<open>C14: growing a process. With enough free pages and the new part of the address space
  unmapped, allocuvm returns the new size; each new virtual page is mapped present, writable
  and user-accessible to a physical page of its own taken from the free list, which is zeroed
  and serves neither as a page table nor as a free page; no other translation changes, no other
  page in use changes, and the page tables and the free list stay well formed.\<close>

theorem allocuvm_maps:
  assumes "vm_ok s d xs" and "oldsz \<le> newsz" and "newsz < KERNBASE"
    and "n = up_pages newsz - up_pages oldsz" and "2 * n \<le> length xs"
    and "\<forall>b \<in> set (vpages (PGROUNDUP oldsz) n). hw_walk (ram s) d b = None"
  shows "\<exists>t ps ys. allocuvm d oldsz newsz s = Ret newsz t \<and> vm_ok t d ys \<and> length ps = n \<and>
    distinct ps \<and> set ps \<union> set ys \<subseteq> set xs \<and> set ps \<inter> set ys = {} \<and>
    mapped_run s t d (PGROUNDUP oldsz) ps \<and> (\<forall>x\<in>set ps. untouched t d ys x \<and> zeroed t x) \<and>
    (\<forall>z. untouched s d xs z \<longrightarrow> same_page (ram s) (ram t) z)"
proof -
  have b: "unat newsz < 2147483648" "unat oldsz \<le> unat newsz"
    using assms(2,3) by (simp_all add: word_less_nat_alt word_le_nat_alt KERNBASE_def)
  have up: "unat (PGROUNDUP oldsz) = up_pages oldsz * 4096" using b by (intro unat_PGROUNDUP) simp
  then have al: "pg_aligned (PGROUNDUP oldsz)" by (simp add: pg_aligned_def)
  have le: "up_pages oldsz \<le> up_pages newsz" using b(2) by (simp add: up_pages_def div_le_mono)
  have "unat (PGROUNDUP oldsz) + n * 4096 = up_pages newsz * 4096"
    using le unfolding up assms(4) by (simp add: diff_mult_distrib)
  moreover have "unat newsz \<le> up_pages newsz * 4096" "up_pages newsz * 4096 < unat newsz + 4096"
    using div_mult_mod_eq [of "unat newsz + 4095" 4096] mod_less_divisor [of 4096 "unat newsz + 4095"]
    unfolding up_pages_def by linarith+
  ultimately have "\<exists>t ps ys. alloc_loop d (PGROUNDUP oldsz) oldsz newsz s = Ret newsz t \<and>
      vm_ok t d ys \<and> length ps = n \<and> set ps \<union> set ys \<subseteq> set xs \<and> distinct ps \<and>
      set ps \<inter> set ys = {} \<and> mapped_run s t d (PGROUNDUP oldsz) ps \<and>
      spares s t d xs ys \<and> (\<forall>x\<in>set ps. untouched t d ys x \<and> zeroed t x)"
    using assms al by (intro alloc_loop_ok) simp_all
  moreover have "allocuvm d oldsz newsz s = alloc_loop d (PGROUNDUP oldsz) oldsz newsz s"
  proof -
    have "\<not> KERNBASE \<le> newsz" "\<not> newsz < oldsz" using assms(2,3) by (simp_all add: not_le not_less)
    then show ?thesis by (simp add: allocuvm_def)
  qed
  ultimately show ?thesis unfolding spares_def by (elim exE conjE) (metis (no_types, lifting))
qed

subsection \<open>A concrete directory\<close>

text \<open>Three free pages and an empty page directory elsewhere.\<close>

definition put_page :: "u32 \<Rightarrow> kmem \<Rightarrow> kmem" where
  "put_page v s = s\<lparr>ram := freed_ram (ram s) v (freelist s), freelist := v\<rparr>"

definition kmem3 :: kmem where
  "kmem3 = put_page 0x80103000 (put_page 0x80102000 (put_page 0x80101000 kmem0))"

lemma put_page_ok:
  assumes "free_pages s xs" and "kmem_lock_ok s" and "kernel_end s = 0x80100000"
    and "v \<in> {0x80101000, 0x80102000, 0x80103000}" and "v \<notin> set xs"
  shows "free_pages (put_page v s) (v # xs)" "kmem_lock_ok (put_page v s)"
    "kernel_end (put_page v s) = 0x80100000" "same_page (ram s) (ram (put_page v s)) 0x80200000"
proof -
  have v: "page_ok (kernel_end s) v" "unat v mod 4096 = 0" "v \<noteq> 0x80200000"
    using assms(3,4) by (auto simp: page_ok_def PGSIZE_def V2P_def KERNBASE_def PHYSTOP_def)
  show "free_pages (put_page v s) (v # xs)"
    unfolding put_page_def using assms(1) v(1) assms(5) by (rule free_pages_kfree)
  show "kmem_lock_ok (put_page v s)" "kernel_end (put_page v s) = 0x80100000"
    using assms by (simp_all add: put_page_def)
  show "same_page (ram s) (ram (put_page v s)) 0x80200000"
    unfolding put_page_def using v by (simp add: freed_ram_other)
qed

lemma kmem3_vm: "vm_ok kmem3 0x80200000 [0x80103000, 0x80102000, 0x80101000]"
  and kmem3_empty: "hw_walk (ram kmem3) 0x80200000 va = None"
proof -
  note p1 = put_page_ok [OF kmem0_ok, of "0x80101000", simplified]
  note p2 = put_page_ok [OF p1(1,2,3), of "0x80102000", simplified]
  note p3 = put_page_ok [OF p2(1,2,3), of "0x80103000", simplified]
  have s: "same_page (ram kmem0) (ram kmem3) 0x80200000"
    unfolding kmem3_def using p1(4) p2(4) p3(4) by (blast intro: same_page_trans)
  have z: "ld32 (ram kmem3) (0x80200000 + 4 * i) = 0" if i: "unat i < 1024" for i
  proof -
    have "ram kmem3 (0x80200000 + 4 * i + of_nat k) = 0" if k: "k < 4" for k
    proof -
      have "ram kmem3 (0x80200000 + of_nat (4 * unat i + k)) = ram kmem0 (0x80200000 + of_nat (4 * unat i + k))"
        by (rule s [unfolded same_page_def, rule_format]) (use i k in linarith)
      then show ?thesis by (simp add: kmem0_def algebra_simps)
    qed
    from this [of 0] this [of 1] this [of 2] this [of 3] show ?thesis by (simp add: ld32_def)
  qed
  have h: "\<not> has_table (ram kmem3) 0x80200000 w" for w
    using z by (simp add: has_table_def pde_at_def)
  then show "hw_walk (ram kmem3) 0x80200000 va = None" by (simp add: hw_walk_def)
  show "vm_ok kmem3 0x80200000 [0x80103000, 0x80102000, 0x80101000]"
    using p3 h by (simp add: vm_ok_def kernel_pool_def pt_ok_def pg_aligned_def kmem3_def)
qed

lemma mappages_one_page_witness:
  "\<exists>t. mappages 0x80200000 0x5000 (of_nat PGSIZE) 0x9000 PTE_U kmem3 = Ret 0 t \<and>
    hw_walk (ram t) 0x80200000 0x5123 = Some 0x9005 \<and> hw_walk (ram t) 0x80200000 0x6000 = None"
proof -
  obtain t where t: "mappages 0x80200000 0x5000 (of_nat PGSIZE) 0x9000 PTE_U kmem3 = Ret 0 t"
    and w: "\<And>va. hw_walk (ram t) 0x80200000 va =
      (if PGROUNDDOWN va = 0x5000 then Some (0x9000 OR PTE_U OR PTE_P) else None)"
    using mappages_one_page [OF kmem3_vm, of "0x5000" "0x9000" PTE_U] kmem3_empty
    by (auto simp: pg_aligned_def)
  from w [of "0x5123"] w [of "0x6000"] t show ?thesis
    by (simp add: PGROUNDDOWN_def PTE_U_def PTE_P_def)
qed

lemma allocuvm_maps_witness:
  "\<exists>t x. allocuvm 0x80200000 0x1000 0x1001 kmem3 = Ret 0x1001 t \<and>
    hw_walk (ram t) 0x80200000 0x1ABC = Some (user_pte x) \<and> zeroed t x"
proof -
  have r: "PGROUNDUP 0x1000 = 0x1000" by (simp add: PGROUNDUP_def)
  have "vpages 0x1000 1 = [0x1000]" by (simp add: vpages_def)
  moreover obtain t ps where "allocuvm 0x80200000 0x1000 0x1001 kmem3 = Ret 0x1001 t" "length ps = 1"
      "mapped_run kmem3 t 0x80200000 0x1000 ps" "\<forall>x\<in>set ps. zeroed t x"
    using allocuvm_maps [OF kmem3_vm, of "0x1000" "0x1001" 1] kmem3_empty r
    by (auto simp: up_pages_def KERNBASE_def)
  ultimately show ?thesis
    by (cases ps) (auto simp: mapped_run_def PGROUNDDOWN_def)
qed

end
