(* ===== verification/Proc.thy ===== *)
theory Proc
  imports Vm
begin

section \<open>Processes: scheduling, sleep and wakeup (proc.c, proc.h)\<close>

text \<open>
  A process is named by its index in \<open>ptable.proc\<close>, an open file and an in-memory inode by
  their index in their tables. A sleep channel is the address of some kernel object, named
  here by the object; \<open>None\<close> is the null channel. \<open>sched_intena\<close> is the local variable
  \<open>intena\<close> of sched, which stays on the process's kernel stack while another runs.

  A switch to the scheduler ends the function as \<open>Asleep\<close>; the statements after the call of
  swtch are the definitions named \<open>_resume\<close>, which run when the process is picked again.
\<close>

datatype procstate = UNUSED | EMBRYO | SLEEPING | RUNNABLE | RUNNING | ZOMBIE

datatype chan =
    ChanProc nat | ChanSleep sleepid | ChanBuf nat | ChanLog | ChanTicks | ChanCons
  | ChanRead u32 | ChanWrite u32

record proc =
  sz :: u32
  pgdir :: u32
  kstack :: u32
  pstate :: procstate
  pid :: u32
  parent :: "nat option"
  tf :: u32
  ctxt :: u32
  chan :: "chan option"
  killed :: bool
  ofile :: "nat \<Rightarrow> nat option"
  cwd :: "nat option"
  pname :: string
  priority :: u32
  sched_intena :: bool

record kproc = kvm +
  ptable :: "nat \<Rightarrow> proc"
  initproc :: "nat option"
  nextpid :: u32
  trapret_addr :: u32
  forkret_addr :: u32

definition NPROC :: nat where "NPROC = 64"
definition NOFILE :: nat where "NOFILE = 16"

definition get_proc :: "nat \<Rightarrow> ('z kproc_scheme, proc) km" where
  "get_proc p = gets (\<lambda>s. ptable s p)"

definition set_proc :: "nat \<Rightarrow> (proc \<Rightarrow> proc) \<Rightarrow> ('z kproc_scheme, unit) km" where
  "set_proc p f = modf (\<lambda>s. s\<lparr>ptable := (ptable s)(p := f (ptable s p))\<rparr>)"

definition need :: "string \<Rightarrow> 'a option \<Rightarrow> ('s, 'a) km" where
  "need e x = (case x of None \<Rightarrow> fault e | Some y \<Rightarrow> ret y)"

definition pinit :: "('z kproc_scheme, unit) km" where
  "pinit = initlock PtableLock ''ptable''"

subsection \<open>Giving up the CPU\<close>

definition swtch_to_scheduler :: "('s, 'a) km" where
  "swtch_to_scheduler s = Asleep s"

definition sched :: "('z kproc_scheme, 'a) km" where
  "sched =
     bnd myproc (\<lambda>mp.
     bnd (holding PtableLock) (\<lambda>h.
     if \<not> h then panic ''sched ptable.lock''
     else bnd mycpu (\<lambda>c.
     bnd (get_cpu c) (\<lambda>k.
     if ncli k \<noteq> 1 then panic ''sched locks''
     else bnd (need ''sched: no process'' mp) (\<lambda>p.
     bnd (get_proc p) (\<lambda>pr.
     if pstate pr = RUNNING then panic ''sched running''
     else bnd readeflags_IF (\<lambda>f.
     if f then panic ''sched interruptible''
     else thn (set_proc p (\<lambda>r. r\<lparr>sched_intena := intena k\<rparr>))
       swtch_to_scheduler)))))))"

definition sched_resume :: "('z kproc_scheme, unit) km" where
  "sched_resume =
     bnd myproc (\<lambda>mp.
     bnd (need ''sched: no process'' mp) (\<lambda>p.
     bnd (get_proc p) (\<lambda>pr.
     bnd mycpu (\<lambda>c. set_cpu c (\<lambda>k. k\<lparr>intena := sched_intena pr\<rparr>)))))"

definition yield :: "('z kproc_scheme, 'a) km" where
  "yield =
     thn (acquire PtableLock) (
     bnd myproc (\<lambda>mp.
     bnd (need ''yield: no process'' mp) (\<lambda>p.
     thn (set_proc p (\<lambda>r. r\<lparr>pstate := RUNNABLE\<rparr>)) sched)))"

definition yield_resume :: "('z kproc_scheme, unit) km" where
  "yield_resume = thn sched_resume (release PtableLock)"

definition sleep :: "chan \<Rightarrow> lockid \<Rightarrow> ('z kproc_scheme, 'a) km" where
  "sleep ch lk =
     bnd myproc (\<lambda>mp.
     case mp of None \<Rightarrow> panic ''sleep''
     | Some p \<Rightarrow>
       thn (whn (lk \<noteq> PtableLock) (thn (acquire PtableLock) (release lk))) (
       thn (set_proc p (\<lambda>r. r\<lparr>chan := Some ch\<rparr>)) (
       thn (set_proc p (\<lambda>r. r\<lparr>pstate := SLEEPING\<rparr>)) sched)))"

definition sleep_resume :: "lockid \<Rightarrow> ('z kproc_scheme, unit) km" where
  "sleep_resume lk =
     bnd myproc (\<lambda>mp.
     bnd (need ''sleep: no process'' mp) (\<lambda>p.
     thn sched_resume (
     thn (set_proc p (\<lambda>r. r\<lparr>chan := None\<rparr>)) (
     whn (lk \<noteq> PtableLock) (thn (release PtableLock) (acquire lk))))))"

subsection \<open>Waking up and killing\<close>

definition wakeup1 :: "chan option \<Rightarrow> ('z kproc_scheme, unit) km" where
  "wakeup1 ch = modf (\<lambda>s. s\<lparr>ptable :=
     fold (\<lambda>i t. if pstate (t i) = SLEEPING \<and> chan (t i) = ch
                 then t(i := (t i)\<lparr>pstate := RUNNABLE\<rparr>) else t) [0..<NPROC] (ptable s)\<rparr>)"

definition wakeup :: "chan \<Rightarrow> ('z kproc_scheme, unit) km" where
  "wakeup ch = thn (acquire PtableLock) (thn (wakeup1 (Some ch)) (release PtableLock))"

definition kill :: "u32 \<Rightarrow> ('z kproc_scheme, int) km" where
  "kill pd =
     thn (acquire PtableLock) (
     bnd (gets (\<lambda>s. find (\<lambda>i. pid (ptable s i) = pd) [0..<NPROC])) (\<lambda>r.
     case r of
       Some p \<Rightarrow>
         thn (set_proc p (\<lambda>r. r\<lparr>killed := True\<rparr>)) (
         bnd (get_proc p) (\<lambda>pr.
         thn (whn (pstate pr = SLEEPING) (set_proc p (\<lambda>r. r\<lparr>pstate := RUNNABLE\<rparr>))) (
         thn (release PtableLock) (ret 0))))
     | None \<Rightarrow> thn (release PtableLock) (ret (- 1))))"

subsection \<open>The scheduler\<close>

text \<open>
  One round of scheduler() is \<open>scheduler_begin\<close>, then for each table entry in turn
  \<open>scheduler_switch\<close> when the entry is RUNNABLE; the switched-to process comes back with
  the table's lock held, \<open>scheduler_back\<close> runs, and the scan goes on with the next entry;
  \<open>scheduler_end\<close> closes the round. \<open>scheduler_start\<close> precedes the first round.
\<close>

definition scheduler_start :: "('z kproc_scheme, unit) km" where
  "scheduler_start = bnd mycpu (\<lambda>c. set_cpu c (\<lambda>k. k\<lparr>cproc := None\<rparr>))"

definition scheduler_begin :: "('z kproc_scheme, unit) km" where
  "scheduler_begin = thn sti (acquire PtableLock)"

definition scheduler_switch :: "nat \<Rightarrow> ('z kproc_scheme, unit) km" where
  "scheduler_switch p =
     bnd mycpu (\<lambda>c.
     thn (set_cpu c (\<lambda>k. k\<lparr>cproc := Some p\<rparr>)) (
     bnd (get_proc p) (\<lambda>pr.
     thn (switchuvm (Some (kstack pr, pgdir pr)))
         (set_proc p (\<lambda>r. r\<lparr>pstate := RUNNING\<rparr>)))))"

definition scheduler_back :: "('z kproc_scheme, unit) km" where
  "scheduler_back = thn switchkvm (bnd mycpu (\<lambda>c. set_cpu c (\<lambda>k. k\<lparr>cproc := None\<rparr>)))"

definition scheduler_end :: "('z kproc_scheme, unit) km" where
  "scheduler_end = release PtableLock"

subsection \<open>Listings\<close>

text \<open>
  getcallerpcs (spinlock.c) follows saved frame pointers; the entries it does not fill are 0.
\<close>

fun callerpcs_from :: "nat \<Rightarrow> mem \<Rightarrow> u32 \<Rightarrow> u32 list" where
  "callerpcs_from 0 m ebp = []"
| "callerpcs_from (Suc n) m ebp =
     (if ebp = 0 \<or> ebp < KERNBASE \<or> ebp = 0xffffffff then replicate (Suc n) 0
      else ld32 m (ebp + 4) # callerpcs_from n m (ld32 m ebp))"

definition getcallerpcs :: "mem \<Rightarrow> u32 \<Rightarrow> u32 list" where
  "getcallerpcs m v = callerpcs_from 10 m (v - 8)"

fun state_name :: "procstate \<Rightarrow> string" where
  "state_name UNUSED = ''unused''"
| "state_name EMBRYO = ''embryo''"
| "state_name SLEEPING = ''sleep ''"
| "state_name RUNNABLE = ''runble''"
| "state_name RUNNING = ''run   ''"
| "state_name ZOMBIE = ''zombie''"

definition procdump :: "('z kproc_scheme, unit) km" where
  "procdump = kfor [0..<NPROC] (\<lambda>i.
     bnd (get_proc i) (\<lambda>p.
     whn (pstate p \<noteq> UNUSED) (
       thn (cprintf ''%d %s %s'' [FInt (pid p), FPtr (Some (state_name (pstate p))), FPtr (Some (pname p))]) (
       thn (whn (pstate p = SLEEPING)
              (bnd (gets (\<lambda>s. getcallerpcs (ram s) (ld32 (ram s) (ctxt p + 12) + 8))) (\<lambda>pcs.
               kfor (takeWhile (\<lambda>pc. pc \<noteq> 0) pcs) (\<lambda>pc. cprintf '' %p'' [FInt pc])))) (
       cprintf [CHR 0x0A] [])))))"

definition cps_line :: "procstate \<Rightarrow> string option" where
  "cps_line st =
     (let fmt = (\<lambda>nm. ''%s '' @ [CHR 0x09] @ '' %d '' @ [CHR 0x09] @ '' '' @ nm @ '' '' @ [CHR 0x09]
                      @ '' %d'' @ [CHR 0x0A])
      in if st = SLEEPING then Some (fmt ''SLEEPING'')
         else if st = RUNNING then Some (fmt ''RUNNING'')
         else if st = RUNNABLE then Some (fmt ''RUNNABLE'')
         else None)"

definition cps :: "('z kproc_scheme, int) km" where
  "cps =
     thn sti (
     thn (acquire PtableLock) (
     thn (kfor [0..<NPROC] (\<lambda>i.
       bnd (get_proc i) (\<lambda>p.
       case cps_line (pstate p) of None \<Rightarrow> ret ()
       | Some fmt \<Rightarrow> cprintf fmt [FPtr (Some (pname p)), FInt (pid p), FInt (priority p)]))) (
     thn (release PtableLock) (ret 22))))"

subsection \<open>Execution from good states\<close>

lemma get_proc_run [simp]: "get_proc p s = Ret (ptable s p) s"
  by (simp add: get_proc_def)

lemma set_proc_run [simp]:
  "set_proc p f s = Ret () (s\<lparr>ptable := (ptable s)(p := f (ptable s p))\<rparr>)"
  by (simp add: set_proc_def)

lemma need_run [simp]: "need e (Some x) s = Ret x s" "need e None s = Fault e"
  by (simp_all add: need_def)

lemma readeflags_run [simp]: "readeflags_IF s = Ret (eflags_IF (mach s)) s"
  by (simp add: readeflags_IF_def)

lemma cpu_ok_intr_off: "cpu_ok m \<Longrightarrow> 0 < ncli (my_cpu m) \<Longrightarrow> \<not> eflags_IF m"
  by (simp add: cpu_ok_def)

lemma mycpu_run [simp]:
  "cpu_ok (mach s) \<Longrightarrow> 0 < ncli (my_cpu (mach s)) \<Longrightarrow> mycpu s = Ret (this_cpu (mach s)) s"
  by (simp add: cpu_ok_found cpu_ok_intr_off)

lemma sched_run:
  assumes "cpu_ok (mach s)" and "held (mach s) PtableLock" and "ncli (my_cpu (mach s)) = 1"
    and "cur_proc (mach s) = Some p" and "pstate (ptable s p) \<noteq> RUNNING"
  shows "sched s = Asleep (s\<lparr>ptable := (ptable s)(p :=
    (ptable s p)\<lparr>sched_intena := intena (my_cpu (mach s))\<rparr>)\<rparr>)"
  using assms by (simp add: sched_def get_my_cpu_run cpu_ok_intr_off swtch_to_scheduler_def)

lemma sched_panic:
  "cpu_ok (mach s) \<Longrightarrow> \<not> held (mach s) PtableLock \<Longrightarrow> sched s = Panic ''sched ptable.lock''"
  "cpu_ok (mach s) \<Longrightarrow> held (mach s) PtableLock \<Longrightarrow> 0 < ncli (my_cpu (mach s)) \<Longrightarrow>
   ncli (my_cpu (mach s)) \<noteq> 1 \<Longrightarrow> sched s = Panic ''sched locks''"
  by (simp_all add: sched_def get_my_cpu_run)

lemma sched_resume_run:
  assumes "cpu_ok (mach s)" and "0 < ncli (my_cpu (mach s))" and "cur_proc (mach s) = Some p"
  shows "sched_resume s = Ret () (s\<lparr>mach :=
    upd_my_cpu (\<lambda>k. k\<lparr>intena := sched_intena (ptable s p)\<rparr>) (mach s)\<rparr>)"
  using assms by (simp add: sched_resume_def set_my_cpu_run)

definition wake_all :: "chan option \<Rightarrow> (nat \<Rightarrow> proc) \<Rightarrow> nat \<Rightarrow> proc" where
  "wake_all ch t = (\<lambda>i. if i < NPROC \<and> pstate (t i) = SLEEPING \<and> chan (t i) = ch
     then (t i)\<lparr>pstate := RUNNABLE\<rparr> else t i)"

lemma wakeup1_run [simp]: "wakeup1 ch s = Ret () (s\<lparr>ptable := wake_all ch (ptable s)\<rparr>)"
proof -
  have "fold (\<lambda>i t. if pstate (t i) = SLEEPING \<and> chan (t i) = ch
          then t(i := (t i)\<lparr>pstate := RUNNABLE\<rparr>) else t) [0..<NPROC] (ptable s)
      = (\<lambda>i. if i \<in> set [0..<NPROC] \<and> (pstate (ptable s i) = SLEEPING \<and> chan (ptable s i) = ch)
          then (ptable s i)\<lparr>pstate := RUNNABLE\<rparr> else ptable s i)"
    by (rule fold_pointwise [where P = "\<lambda>q. pstate q = SLEEPING \<and> chan q = ch"]) simp
  then show ?thesis by (simp add: wakeup1_def wake_all_def)
qed

definition lock_ready :: "lockid \<Rightarrow> machine \<Rightarrow> bool" where
  "lock_ready lk m \<longleftrightarrow> cpu_ok m \<and> lk_free m lk"

lemma lock_ready_run:
  assumes "lock_ready lk (mach s)"
  shows "acquire lk s = Ret () (s\<lparr>mach := grab lk (mach s)\<rparr>)"
    and "cpu_ok (grab lk (mach s))" and "held (grab lk (mach s)) lk"
    and "0 < ncli (my_cpu (grab lk (mach s)))" and "drop_lk lk (grab lk (mach s)) = mach s"
  using assms cpu_ok_depth [of "mach s"] by (simp_all add: lock_ready_def)

lemma wakeup_run:
  "lock_ready PtableLock (mach s) \<Longrightarrow> wakeup ch s = Ret () (s\<lparr>ptable := wake_all (Some ch) (ptable s)\<rparr>)"
  using lock_ready_run [of PtableLock s] by (simp add: wakeup_def)

lemma wakeup_locked:
  "cpu_ok (mach s) \<Longrightarrow> held (mach s) PtableLock \<Longrightarrow> wakeup ch s = Panic ''acquire''"
  by (simp add: wakeup_def acquire_panic)

definition kill_proc :: "proc \<Rightarrow> proc" where
  "kill_proc p = (if pstate p = SLEEPING then p\<lparr>killed := True, pstate := RUNNABLE\<rparr>
     else p\<lparr>killed := True\<rparr>)"

lemma kill_run:
  assumes "lock_ready PtableLock (mach s)"
  shows "kill pd s = (case find (\<lambda>i. pid (ptable s i) = pd) [0..<NPROC] of
      Some p \<Rightarrow> Ret 0 (s\<lparr>ptable := (ptable s)(p := kill_proc (ptable s p))\<rparr>)
    | None \<Rightarrow> Ret (- 1) s)"
  using lock_ready_run [OF assms] by (simp add: kill_def kill_proc_def split: option.split)

subsection \<open>sleep and yield\<close>

definition asleep_on :: "chan \<Rightarrow> bool \<Rightarrow> proc \<Rightarrow> proc" where
  "asleep_on ch f p = p\<lparr>chan := Some ch, pstate := SLEEPING, sched_intena := f\<rparr>"

lemma sleep_run:
  assumes "cpu_ok (mach s)" and "cur_proc (mach s) = Some p" and "ncli (my_cpu (mach s)) = 1"
    and "held (mach s) lk" and "lk \<noteq> PtableLock" and "lk_free (mach s) PtableLock"
  shows "sleep ch lk s = Asleep (s\<lparr>mach := drop_lk lk (grab PtableLock (mach s)),
    ptable := (ptable s)(p := asleep_on ch (intena (my_cpu (mach s))) (ptable s p))\<rparr>)"
  using assms by (simp add: sleep_def sched_run asleep_on_def)

lemma sleep_ptable_run:
  assumes "cpu_ok (mach s)" and "cur_proc (mach s) = Some p" and "ncli (my_cpu (mach s)) = 1"
    and "held (mach s) PtableLock"
  shows "sleep ch PtableLock s = Asleep (s\<lparr>
    ptable := (ptable s)(p := asleep_on ch (intena (my_cpu (mach s))) (ptable s p))\<rparr>)"
  using assms by (simp add: sleep_def sched_run asleep_on_def)

lemma sleep_panic: "cpu_ok (mach s) \<Longrightarrow> cur_proc (mach s) = None \<Longrightarrow> sleep ch lk s = Panic ''sleep''"
  by (simp add: sleep_def)

lemma yield_run:
  assumes "lock_ready PtableLock (mach s)" and "cur_proc (mach s) = Some p"
  shows "yield s = (if ncli (my_cpu (mach s)) = 0
    then Asleep (s\<lparr>mach := grab PtableLock (mach s),
      ptable := (ptable s)(p := (ptable s p)\<lparr>pstate := RUNNABLE, sched_intena := intena (my_cpu (mach s))\<rparr>)\<rparr>)
    else Panic ''sched locks'')"
  using lock_ready_run [OF assms(1)] assms
  by (auto simp: yield_def sched_run sched_panic lock_ready_def)

end
