(* ===== verification/ProcLife.thy ===== *)
theory ProcLife
  imports Proc
begin

section \<open>The life of a process: allocation, growth, exit, wait (proc.c)\<close>

text \<open>
  The parts of process creation and destruction that do not touch files. A kernel stack is
  one page; the trap frame (76 bytes), the return address trapret and the context (20 bytes,
  with eip at offset 16) are laid out at its top, in \<open>ram\<close>.
\<close>

definition TF_SIZE :: u32 where "TF_SIZE = 76"
definition CONTEXT_SIZE :: u32 where "CONTEXT_SIZE = 20"

definition allocproc :: "('z kproc_scheme, nat option) km" where
  "allocproc =
     thn (acquire PtableLock) (
     bnd (gets (\<lambda>s. find (\<lambda>i. pstate (ptable s i) = UNUSED) [0..<NPROC])) (\<lambda>r.
     case r of
       None \<Rightarrow> thn (release PtableLock) (ret None)
     | Some p \<Rightarrow>
       thn (set_proc p (\<lambda>q. q\<lparr>pstate := EMBRYO\<rparr>)) (
       bnd (gets nextpid) (\<lambda>n.
       thn (modf (\<lambda>s. s\<lparr>nextpid := n + 1\<rparr>)) (
       thn (set_proc p (\<lambda>q. q\<lparr>pid := n\<rparr>)) (
       thn (set_proc p (\<lambda>q. q\<lparr>priority := 10\<rparr>)) (
       thn (release PtableLock) (
       bnd kalloc (\<lambda>st.
       thn (set_proc p (\<lambda>q. q\<lparr>kstack := st\<rparr>)) (
       if st = 0 then thn (set_proc p (\<lambda>q. q\<lparr>pstate := UNUSED\<rparr>)) (ret None)
       else
         let sp0 = st + KSTACKSIZE; sp1 = sp0 - TF_SIZE; sp2 = sp1 - 4; sp3 = sp2 - CONTEXT_SIZE in
         thn (set_proc p (\<lambda>q. q\<lparr>tf := sp1\<rparr>)) (
         bnd (gets trapret_addr) (\<lambda>tr.
         thn (wr32 sp2 tr) (
         thn (set_proc p (\<lambda>q. q\<lparr>ctxt := sp3\<rparr>)) (
         thn (modf (\<lambda>s. s\<lparr>ram := memset (ram s) sp3 0 (unat CONTEXT_SIZE)\<rparr>)) (
         bnd (gets forkret_addr) (\<lambda>fr.
         thn (wr32 (sp3 + 16) fr) (ret (Some p))))))))))))))))))"

definition growproc :: "u32 \<Rightarrow> ('z kproc_scheme, int) km" where
  "growproc n =
     bnd myproc (\<lambda>mp.
     bnd (need ''growproc: no process'' mp) (\<lambda>p.
     bnd (get_proc p) (\<lambda>pr.
     let commit = (\<lambda>z.
       thn (set_proc p (\<lambda>q. q\<lparr>sz := z\<rparr>)) (
       bnd (get_proc p) (\<lambda>pr'.
       thn (switchuvm (Some (kstack pr', pgdir pr'))) (ret 0)))) in
     if 0 < sint n then
       bnd (allocuvm (pgdir pr) (sz pr) (sz pr + n)) (\<lambda>z. if z = 0 then ret (- 1) else commit z)
     else if sint n < 0 then
       bnd (deallocuvm (pgdir pr) (sz pr) (sz pr + n)) (\<lambda>z. if z = 0 then ret (- 1) else commit z)
     else commit (sz pr))))"

text \<open>The last part of exit(), after the files are closed: from the acquire on.\<close>

definition reparent :: "nat \<Rightarrow> nat option \<Rightarrow> nat \<Rightarrow> ('z kproc_scheme, unit) km" where
  "reparent cur ini i =
     bnd (get_proc i) (\<lambda>q.
     whn (parent q = Some cur) (
       thn (set_proc i (\<lambda>q. q\<lparr>parent := ini\<rparr>)) (
       whn (pstate q = ZOMBIE) (wakeup1 (map_option ChanProc ini)))))"

definition exit_tail :: "nat \<Rightarrow> ('z kproc_scheme, 'a) km" where
  "exit_tail cur =
     thn (acquire PtableLock) (
     bnd (get_proc cur) (\<lambda>me.
     thn (wakeup1 (map_option ChanProc (parent me))) (
     bnd (gets initproc) (\<lambda>ini.
     thn (kfor [0..<NPROC] (reparent cur ini)) (
     thn (set_proc cur (\<lambda>q. q\<lparr>pstate := ZOMBIE\<rparr>)) sched)))))"

definition reap :: "nat \<Rightarrow> ('z kproc_scheme, int) km" where
  "reap p =
     bnd (get_proc p) (\<lambda>q.
     thn (kfree (kstack q)) (
     thn (set_proc p (\<lambda>q. q\<lparr>kstack := 0\<rparr>)) (
     thn (freevm (pgdir q)) (
     thn (set_proc p (\<lambda>q. q\<lparr>pid := 0\<rparr>)) (
     thn (set_proc p (\<lambda>q. q\<lparr>parent := None\<rparr>)) (
     thn (set_proc p (\<lambda>q. q\<lparr>pname := ''''\<rparr>)) (
     thn (set_proc p (\<lambda>q. q\<lparr>killed := False\<rparr>)) (
     thn (set_proc p (\<lambda>q. q\<lparr>pstate := UNUSED\<rparr>)) (
     thn (release PtableLock) (ret (sint (pid q))))))))))))"

definition wait_scan :: "nat option \<Rightarrow> ('z kproc_scheme, int) km" where
  "wait_scan mp =
     bnd (gets (\<lambda>s. find (\<lambda>i. parent (ptable s i) = mp \<and> pstate (ptable s i) = ZOMBIE) [0..<NPROC])) (\<lambda>r.
     case r of
       Some p \<Rightarrow> reap p
     | None \<Rightarrow>
       bnd (gets (\<lambda>s. list_ex (\<lambda>i. parent (ptable s i) = mp) [0..<NPROC])) (\<lambda>havekids.
       if \<not> havekids then thn (release PtableLock) (ret (- 1))
       else bnd (need ''wait: no process'' mp) (\<lambda>cur.
         bnd (get_proc cur) (\<lambda>me.
         if killed me then thn (release PtableLock) (ret (- 1))
         else sleep (ChanProc cur) PtableLock))))"

definition wait :: "('z kproc_scheme, int) km" where
  "wait = bnd myproc (\<lambda>mp. thn (acquire PtableLock) (wait_scan mp))"

definition wait_resume :: "('z kproc_scheme, int) km" where
  "wait_resume = bnd myproc (\<lambda>mp. thn (sleep_resume PtableLock) (wait_scan mp))"

text \<open>The last statements of fork and userinit.\<close>

definition make_runnable :: "nat \<Rightarrow> ('z kproc_scheme, unit) km" where
  "make_runnable p =
     thn (acquire PtableLock) (
     thn (set_proc p (\<lambda>q. q\<lparr>pstate := RUNNABLE\<rparr>)) (release PtableLock))"

subsection \<open>Operations that change memory only\<close>

definition mem_only :: "'z kmem_scheme \<Rightarrow> 'z kmem_scheme \<Rightarrow> bool" where
  "mem_only s t \<longleftrightarrow> kmem_lock_ok s \<and> (\<exists>r f. t = s\<lparr>ram := r, freelist := f\<rparr>)"

lemma mem_only_refl: "kmem_lock_ok s \<Longrightarrow> mem_only s s"
  unfolding mem_only_def by (rule conjI, assumption, rule exI [of _ "ram s"], rule exI [of _ "freelist s"]) simp

lemma mem_only_locks: "mem_only s t \<Longrightarrow> kmem_lock_ok t"
  by (auto simp: mem_only_def)

lemma mem_only_upd:
  assumes "mem_only s t"
  shows "mem_only s (t\<lparr>ram := r\<rparr>)" and "mem_only s (t\<lparr>ram := r, freelist := f\<rparr>)"
    and "mem_only s (t\<lparr>freelist := f\<rparr>)"
proof -
  obtain r' f' where t: "kmem_lock_ok s" "t = s\<lparr>ram := r', freelist := f'\<rparr>"
    using assms by (auto simp: mem_only_def)
  have "t\<lparr>ram := r\<rparr> = s\<lparr>ram := r, freelist := f'\<rparr>"
    "t\<lparr>ram := r, freelist := f\<rparr> = s\<lparr>ram := r, freelist := f\<rparr>"
    "t\<lparr>freelist := f\<rparr> = s\<lparr>ram := r', freelist := f\<rparr>"
    by (simp_all add: t(2))
  with t(1) show "mem_only s (t\<lparr>ram := r\<rparr>)" "mem_only s (t\<lparr>ram := r, freelist := f\<rparr>)"
    "mem_only s (t\<lparr>freelist := f\<rparr>)"
    unfolding mem_only_def by blast+
qed

lemma kfree_mem: "keeps (mem_only s) (kfree v)"
proof -
  have "kfree v t = Panic ''kfree'' \<or>
      kfree v t = Ret () (t\<lparr>ram := freed_ram (ram t) v (freelist t), freelist := v\<rparr>)"
    if "mem_only s t" for t
  proof (cases "page_ok (kernel_end t) v")
    case True
    then show ?thesis using kfree_run mem_only_locks [OF that] by blast
  next
    case False
    then show ?thesis by (auto simp: kfree_def page_ok_def)
  qed
  then show ?thesis unfolding keeps_def using mem_only_upd by fastforce
qed

lemma kalloc_mem: "keeps (mem_only s) kalloc"
  unfolding keeps_def using mem_only_upd mem_only_locks by (fastforce simp: kalloc_run)

lemma rw_mem: "keeps (mem_only s) (rd32 a)" "keeps (mem_only s) (wr32 a v)" "keeps (mem_only s) (zero_page a)"
  unfolding rd32_def wr32_def zero_page_def
  by (auto intro!: keeps_intros keeps_modf mem_only_upd)

lemma spin_keeps: "keeps I (\<lambda>s. Spin)"
  by (simp add: keeps_def)

lemma walkpgdir_mem: "keeps (mem_only s) (walkpgdir d va b)"
  unfolding walkpgdir_def Let_def by (intro keeps_intros rw_mem kalloc_mem)

lemma dealloc_loop_mem: "keeps (mem_only s) (dealloc_loop d a e)"
proof (induction d a e rule: dealloc_loop.induct)
  case (1 d a e)
  show ?case
    by (subst dealloc_loop.simps, unfold Let_def)
      (intro keeps_intros walkpgdir_mem rw_mem spin_keeps kfree_mem;
       (rule 1; (assumption | simp))?)
qed

lemma freevm_mem: "keeps (mem_only s) (freevm d)"
  unfolding freevm_def deallocuvm_def
  by (intro keeps_intros kfree_mem rw_mem dealloc_loop_mem)


subsection \<open>The machine across a switch\<close>

lemma cpu_ok_upd [simp]:
  "cpu_ok (m\<lparr>cr3 := x\<rparr>) = cpu_ok m"
  "(\<And>k. apicid (f k) = apicid k) \<Longrightarrow> (\<And>k. ncli (f k) = ncli k) \<Longrightarrow> (\<And>k. intena (f k) = intena k) \<Longrightarrow>
   cpu_ok (upd_my_cpu f m) = cpu_ok m"
  "cpu_ok m \<Longrightarrow> 0 < ncli (my_cpu m) \<Longrightarrow> cpu_ok (upd_my_cpu (intena_update g) m)"
  by (simp_all add: cpu_ok_def)

lemma held_upd [simp]:
  "held (m\<lparr>cr3 := x\<rparr>) lk = held m lk"
  "(\<And>k. apicid (f k) = apicid k) \<Longrightarrow> held (upd_my_cpu f m) lk = held m lk"
  "lk_free (m\<lparr>cr3 := x\<rparr>) lk = lk_free m lk"
  "held (m\<lparr>eflags_IF := b\<rparr>) lk = held m lk"
  "lk_free (m\<lparr>eflags_IF := b\<rparr>) lk = lk_free m lk"
  "lk_free (upd_my_cpu f m) lk = lk_free m lk"
  by (simp_all add: held_def lk_free_def)

lemma cur_proc_upd [simp]:
  "cur_proc (m\<lparr>cr3 := x\<rparr>) = cur_proc m"
  "(\<And>k. apicid (f k) = apicid k) \<Longrightarrow> cur_proc (upd_my_cpu f m) = cproc (f (my_cpu m))"
  by (simp_all add: cur_proc_def)

lemma scheduler_switch_run:
  assumes "cpu_ok (mach s)" and "0 < ncli (my_cpu (mach s))"
  shows "scheduler_switch p s =
    (if kstack (ptable s p) = 0 then Panic ''switchuvm: no kstack''
     else if pgdir (ptable s p) = 0 then Panic ''switchuvm: no pgdir''
     else Ret () (s\<lparr>mach := cli_out ((upd_my_cpu (\<lambda>k. k\<lparr>ts_esp0 := kstack (ptable s p) + KSTACKSIZE\<rparr>)
            (cli_in (upd_my_cpu (\<lambda>k. k\<lparr>cproc := Some p\<rparr>) (mach s))))\<lparr>cr3 := V2P (pgdir (ptable s p))\<rparr>),
          ptable := (ptable s)(p := (ptable s p)\<lparr>pstate := RUNNING\<rparr>)\<rparr>))"
proof -
  define m1 where "m1 = upd_my_cpu (\<lambda>k. k\<lparr>cproc := Some p\<rparr>) (mach s)"
  have m1: "cpu_ok m1" "0 < ncli (my_cpu m1)" using assms by (simp_all add: m1_def)
  have a: "scheduler_switch p s = bnd (get_proc p) (\<lambda>pr.
      thn (switchuvm (Some (kstack pr, pgdir pr))) (set_proc p (\<lambda>r. r\<lparr>pstate := RUNNING\<rparr>)))
      (s\<lparr>mach := m1\<rparr>)"
    using assms by (simp add: scheduler_switch_def set_my_cpu_run m1_def)
  have sm: "set_cpu (this_cpu m1) f (s\<lparr>mach := cli_in m1\<rparr>)
      = Ret () (s\<lparr>mach := upd_my_cpu f (cli_in m1)\<rparr>)" for f
    using set_my_cpu_run [of "s\<lparr>mach := cli_in m1\<rparr>" f] by simp
  show ?thesis
    unfolding a m1_def [symmetric] using m1 by (simp add: switchuvm_def lcr3_def sm)
qed

lemma switched_machine:
  assumes "cpu_ok m" and "ncli (my_cpu m) = 1"
    and m': "m' = cli_out ((upd_my_cpu (\<lambda>k. k\<lparr>ts_esp0 := x\<rparr>)
      (cli_in (upd_my_cpu (\<lambda>k. k\<lparr>cproc := Some p\<rparr>) m)))\<lparr>cr3 := y\<rparr>)"
  shows "cpu_ok m'" and "ncli (my_cpu m') = 1" and "cur_proc m' = Some p"
    and "held m' lk = held m lk" and "lk_free m' lk = lk_free m lk"
    and "cr3 m' = y" and "ts_esp0 (my_cpu m') = x"
  using assms(1,2) unfolding m' by simp_all (simp add: cli_out_def)?

lemma scheduler_back_run:
  assumes "cpu_ok (mach s)" and "0 < ncli (my_cpu (mach s))"
  shows "scheduler_back s = Ret ()
    (s\<lparr>mach := upd_my_cpu (\<lambda>k. k\<lparr>cproc := None\<rparr>) ((mach s)\<lparr>cr3 := V2P (kpgdir s)\<rparr>)\<rparr>)"
proof -
  let ?t = "s\<lparr>mach := (mach s)\<lparr>cr3 := V2P (kpgdir s)\<rparr>\<rparr>"
  have "mycpu ?t = Ret (this_cpu (mach s)) ?t" using assms by simp
  moreover have "set_cpu (this_cpu (mach s)) f ?t = Ret () (s\<lparr>mach := upd_my_cpu f (mach ?t)\<rparr>)" for f
    using set_my_cpu_run [of ?t f] by simp
  ultimately show ?thesis by (simp add: scheduler_back_def switchkvm_def lcr3_def)
qed

text \<open>pushcli at depth 0 overwrites \<open>intena\<close>, so its old value does not matter.\<close>

lemma pushcli_norm:
  assumes "find_cpu (mach s) \<noteq> None" and "ncli (my_cpu (mach s)) = 0"
  shows "pushcli (s\<lparr>mach := upd_my_cpu (\<lambda>k. k\<lparr>intena := b\<rparr>) (mach s)\<rparr>) = pushcli s"
proof -
  have g: "get_cpu (this_cpu (mach t)) t = Ret (my_cpu (mach t)) t" for t :: "'a kstate_scheme"
    by (rule get_my_cpu_run)
  have st: "set_cpu (this_cpu (mach t)) f t = Ret () (t\<lparr>mach := upd_my_cpu f (mach t)\<rparr>)" for t :: "'a kstate_scheme" and f
    by (rule set_my_cpu_run)
  let ?u = "\<lambda>m. s\<lparr>mach := m\<lparr>eflags_IF := False\<rparr>\<rparr>"
  have run: "pushcli (s\<lparr>mach := m\<rparr>) = Ret () (s\<lparr>mach :=
      upd_my_cpu (\<lambda>k. k\<lparr>intena := eflags_IF m, ncli := ncli k + 1\<rparr>) (m\<lparr>eflags_IF := False\<rparr>)\<rparr>)"
    if "find_cpu m \<noteq> None" "ncli (my_cpu m) = 0" for m
    using that g [of "?u m"] st [of "?u m"]
      st [of "s\<lparr>mach := upd_my_cpu (\<lambda>k. k\<lparr>intena := eflags_IF m\<rparr>) (m\<lparr>eflags_IF := False\<rparr>)\<rparr>"]
    by (simp add: pushcli_def cli_def upd_my_cpu_twice)
  show ?thesis
    using run [of "mach s"] run [of "upd_my_cpu (\<lambda>k. k\<lparr>intena := b\<rparr>) (mach s)"] assms
    by (simp add: upd_my_cpu_twice)
qed

lemma acquire_norm:
  assumes "find_cpu (mach s) \<noteq> None" and "ncli (my_cpu (mach s)) = 0"
  shows "acquire lk s = acquire lk (s\<lparr>mach := upd_my_cpu (\<lambda>k. k\<lparr>intena := b\<rparr>) (mach s)\<rparr>)"
  using pushcli_norm [OF assms] by (simp add: acquire_def)

lemma scheduler_begin_run:
  assumes "find_cpu (mach s) \<noteq> None" and "ncli (my_cpu (mach s)) = 0" and "lk_free (mach s) PtableLock"
  shows "scheduler_begin s = Ret () (s\<lparr>mach :=
    grab PtableLock (upd_my_cpu (\<lambda>k. k\<lparr>intena := True\<rparr>) ((mach s)\<lparr>eflags_IF := True\<rparr>))\<rparr>)"
proof -
  let ?t = "s\<lparr>mach := (mach s)\<lparr>eflags_IF := True\<rparr>\<rparr>"
  have "scheduler_begin s = acquire PtableLock ?t" by (simp add: scheduler_begin_def sti_def)
  also have "\<dots> = acquire PtableLock (?t\<lparr>mach := upd_my_cpu (\<lambda>k. k\<lparr>intena := True\<rparr>) (mach ?t)\<rparr>)"
    using assms by (intro acquire_norm) simp_all
  also have "\<dots> = Ret () (?t\<lparr>mach := grab PtableLock (upd_my_cpu (\<lambda>k. k\<lparr>intena := True\<rparr>) (mach ?t))\<rparr>)"
    (is "acquire PtableLock ?u = _")
  proof -
    have "cpu_ok (mach ?u)" "lk_free (mach ?u) PtableLock"
      using assms by (simp_all add: cpu_ok_def)
    from acquire_run [OF this] show ?thesis by simp
  qed
  finally show ?thesis by simp
qed


subsection \<open>What exit and wait do to the table\<close>

text \<open>\<open>woken t t'\<close>: some sleepers became runnable, nothing else of states and channels changed.\<close>

definition woken :: "(nat \<Rightarrow> proc) \<Rightarrow> (nat \<Rightarrow> proc) \<Rightarrow> bool" where
  "woken t t' \<longleftrightarrow> (\<forall>j. chan (t' j) = chan (t j) \<and> sched_intena (t' j) = sched_intena (t j) \<and>
     (pstate (t' j) = pstate (t j) \<or> pstate (t j) = SLEEPING \<and> pstate (t' j) = RUNNABLE))"

lemma woken_refl [intro, simp]: "woken t t"
  by (simp add: woken_def)

lemma woken_trans: "woken t t' \<Longrightarrow> woken t' t'' \<Longrightarrow> woken t t''"
  unfolding woken_def by metis

lemma woken_wake_all [intro, simp]: "woken t (wake_all ch t)"
  by (simp add: woken_def wake_all_def)

lemma wake_all_parent [simp]: "parent (wake_all ch t j) = parent (t j)"
  by (simp add: wake_all_def)

definition adopt :: "nat \<Rightarrow> nat option \<Rightarrow> nat \<Rightarrow> (nat \<Rightarrow> proc) \<Rightarrow> nat \<Rightarrow> proc" where
  "adopt cur ini i t =
     (if parent (t i) = Some cur then
        (let t' = t(i := (t i)\<lparr>parent := ini\<rparr>)
         in if pstate (t i) = ZOMBIE then wake_all (map_option ChanProc ini) t' else t')
      else t)"

lemma reparent_run: "reparent cur ini i s = Ret () (s\<lparr>ptable := adopt cur ini i (ptable s)\<rparr>)"
  by (simp add: reparent_def adopt_def Let_def)

lemma adopt_woken: "woken t (adopt cur ini i t)"
proof -
  have "woken t (t(i := (t i)\<lparr>parent := ini\<rparr>))" by (simp add: woken_def)
  then show ?thesis
    using woken_trans woken_wake_all by (auto simp: adopt_def Let_def)
qed

lemma adopt_parent:
  "parent (adopt cur ini i t j) = (if j = i \<and> parent (t i) = Some cur then ini else parent (t j))"
  by (simp add: adopt_def Let_def)

definition adopt_all :: "nat \<Rightarrow> nat option \<Rightarrow> nat list \<Rightarrow> (nat \<Rightarrow> proc) \<Rightarrow> nat \<Rightarrow> proc" where
  "adopt_all cur ini is t = fold (adopt cur ini) is t"

lemma reparent_all_run:
  "kfor is (reparent cur ini) s = Ret () (s\<lparr>ptable := adopt_all cur ini is (ptable s)\<rparr>)"
  by (induction "is" arbitrary: s) (simp_all add: reparent_run adopt_all_def)

lemma adopt_all_woken: "woken t (adopt_all cur ini is t)"
  unfolding adopt_all_def
  by (induction "is" arbitrary: t) (auto intro: woken_trans adopt_woken)

lemma adopt_all_parent:
  "distinct is \<Longrightarrow> parent (adopt_all cur ini is t j) =
    (if j \<in> set is \<and> parent (t j) = Some cur then ini else parent (t j))"
  unfolding adopt_all_def
  by (induction "is" arbitrary: t) (auto simp: adopt_parent)

definition exit_table :: "nat \<Rightarrow> nat option \<Rightarrow> bool \<Rightarrow> (nat \<Rightarrow> proc) \<Rightarrow> nat \<Rightarrow> proc" where
  "exit_table cur ini f t =
     (let t1 = wake_all (map_option ChanProc (parent (t cur))) t;
          t2 = adopt_all cur ini [0..<NPROC] t1
      in t2(cur := (t2 cur)\<lparr>pstate := ZOMBIE, sched_intena := f\<rparr>))"

lemma exit_tail_run:
  assumes "lock_ready PtableLock (mach s)" and "cur_proc (mach s) = Some p"
    and "ncli (my_cpu (mach s)) = 0"
  shows "exit_tail p s = Asleep (s\<lparr>mach := grab PtableLock (mach s),
     ptable := exit_table p (initproc s) (intena (my_cpu (mach s))) (ptable s)\<rparr>)"
  using lock_ready_run [OF assms(1)] assms
  by (simp add: exit_tail_def reparent_all_run sched_run exit_table_def Let_def
      split: if_splits)

lemma exit_table_state:
  "pstate (exit_table p ini f t p) = ZOMBIE"
  "j \<noteq> p \<Longrightarrow> pstate (exit_table p ini f t j) = pstate (t j) \<or>
     pstate (t j) = SLEEPING \<and> pstate (exit_table p ini f t j) = RUNNABLE"
  "chan (exit_table p ini f t j) = chan (t j)"
  using woken_trans [OF woken_wake_all [of t "map_option ChanProc (parent (t p))"]
      adopt_all_woken [of _ p ini "[0..<NPROC]"]]
  by (auto simp: exit_table_def Let_def woken_def)

lemma exit_table_parent:
  "parent (exit_table p ini f t j) = (if j < NPROC \<and> parent (t j) = Some p then ini else parent (t j))"
  by (auto simp: exit_table_def Let_def adopt_all_parent)

lemma exit_table_wakes:
  assumes "parent (t p) = Some q" and "q < NPROC" and "q \<noteq> p"
    and "pstate (t q) = SLEEPING" and "chan (t q) = Some (ChanProc q)"
  shows "pstate (exit_table p ini f t q) = RUNNABLE"
proof -
  have "pstate (wake_all (map_option ChanProc (parent (t p))) t q) = RUNNABLE"
    using assms by (simp add: wake_all_def)
  then have "pstate (adopt_all p ini [0..<NPROC] (wake_all (map_option ChanProc (parent (t p))) t) q) = RUNNABLE"
    using adopt_all_woken [of "wake_all (map_option ChanProc (parent (t p))) t" p ini "[0..<NPROC]"]
    unfolding woken_def by (metis procstate.distinct)
  then show ?thesis using assms(3) by (simp add: exit_table_def Let_def)
qed

text \<open>C15: exit leaves nothing dangling. From the acquire on, exit goes to the scheduler with the
  process a zombie and the table's lock held; every child it had now belongs to init, its own
  parent is unchanged, and a parent asleep in wait has been made runnable.\<close>

theorem exit_hands_over:
  assumes "lock_ready PtableLock (mach s)" and "cur_proc (mach s) = Some p"
    and "ncli (my_cpu (mach s)) = 0" and "p < NPROC"
    and "initproc s \<noteq> Some p" and "parent (ptable s p) \<noteq> Some p"
  shows "\<exists>t. exit_tail p s = Asleep t \<and> held (mach t) PtableLock \<and>
    pstate (ptable t p) = ZOMBIE \<and> parent (ptable t p) = parent (ptable s p) \<and>
    (\<forall>j<NPROC. parent (ptable t j) \<noteq> Some p \<and>
       (parent (ptable s j) = Some p \<longrightarrow> parent (ptable t j) = initproc s)) \<and>
    (\<forall>q<NPROC. parent (ptable s p) = Some q \<and> pstate (ptable s q) = SLEEPING \<and>
       chan (ptable s q) = Some (ChanProc q) \<longrightarrow> pstate (ptable t q) = RUNNABLE)"
proof -
  let ?t = "s\<lparr>mach := grab PtableLock (mach s),
     ptable := exit_table p (initproc s) (intena (my_cpu (mach s))) (ptable s)\<rparr>"
  have "exit_tail p s = Asleep ?t" using assms(1-3) by (rule exit_tail_run)
  then show ?thesis
    using lock_ready_run(3) [OF assms(1)] assms(4-6)
    by (intro exI [of _ ?t]) (auto simp: exit_table_state exit_table_parent intro!: exit_table_wakes)
qed


definition cleared :: "proc \<Rightarrow> proc" where
  "cleared p = p\<lparr>kstack := 0, pid := 0, parent := None, pname := '''', killed := False, pstate := UNUSED\<rparr>"

definition free_proc_memory :: "nat \<Rightarrow> ('z kproc_scheme, unit) km" where
  "free_proc_memory p =
     bnd (get_proc p) (\<lambda>q. thn (kfree (kstack q)) (
       thn (set_proc p (\<lambda>q. q\<lparr>kstack := 0\<rparr>)) (freevm (pgdir q))))"

text \<open>
  kfree and freevm of one model state extension: they commute with what they do not look at,
  so their effect on a kproc state is that on its memory.
\<close>

lemma mem_only_proc:
  assumes "mem_only s t"
  shows "ptable t = ptable s" and "mach t = mach s" and "initproc t = initproc s"
    and "nextpid t = nextpid s" and "kpgdir t = kpgdir s" and "trapret_addr t = trapret_addr s"
    and "forkret_addr t = forkret_addr s"
  using assms by (auto simp: mem_only_def)

lemma keeps_mem_Ret:
  "keeps (mem_only s) m \<Longrightarrow> kmem_lock_ok s \<Longrightarrow> m s = Ret x t \<Longrightarrow> mem_only s t"
  using mem_only_refl [of s] unfolding keeps_def by metis

lemma keeps_mem_Asleep:
  "keeps (mem_only s) m \<Longrightarrow> kmem_lock_ok s \<Longrightarrow> m s = Asleep t \<Longrightarrow> mem_only s t"
  using mem_only_refl [of s] unfolding keeps_def by metis

lemma free_proc_memory_table:
  assumes "free_proc_memory p s = Ret () u" and "kmem_lock_ok s"
  shows "ptable u = (ptable s)(p := (ptable s p)\<lparr>kstack := 0\<rparr>)" and "mach u = mach s"
    and "kmem_lock_ok u" and "kpgdir u = kpgdir s"
proof -
  obtain v where v: "kfree (kstack (ptable s p)) s = Ret () v"
    and u: "freevm (pgdir (ptable s p)) (v\<lparr>ptable := (ptable v)(p := (ptable v p)\<lparr>kstack := 0\<rparr>)\<rparr>) = Ret () u"
    using assms(1) by (auto simp: free_proc_memory_def obind_Ret_iff)
  let ?w = "v\<lparr>ptable := (ptable v)(p := (ptable v p)\<lparr>kstack := 0\<rparr>)\<rparr>"
  have sv: "mem_only s v" using keeps_mem_Ret [OF kfree_mem assms(2) v] .
  then have "kmem_lock_ok ?w" using mem_only_locks [OF sv] by (simp add: kmem_lock_ok_def)
  then have "mem_only ?w u" using keeps_mem_Ret [OF freevm_mem _ u] by blast
  with mem_only_proc [OF this] mem_only_proc [OF sv] mem_only_locks [OF this]
  show "ptable u = (ptable s)(p := (ptable s p)\<lparr>kstack := 0\<rparr>)" "mach u = mach s" "kmem_lock_ok u"
    "kpgdir u = kpgdir s" by simp_all
qed

lemma reap_run:
  assumes "free_proc_memory p s = Ret () u" and "kmem_lock_ok s"
    and "cpu_ok (mach s)" and "held (mach s) PtableLock" and "0 < ncli (my_cpu (mach s))"
  shows "reap p s = Ret (sint (pid (ptable s p))) (u\<lparr>mach := drop_lk PtableLock (mach s),
      ptable := (ptable s)(p := cleared (ptable s p))\<rparr>)"
proof -
  note f = free_proc_memory_table [OF assms(1,2)]
  obtain v where v: "kfree (kstack (ptable s p)) s = Ret () v"
    and u: "freevm (pgdir (ptable s p)) (v\<lparr>ptable := (ptable v)(p := (ptable v p)\<lparr>kstack := 0\<rparr>)\<rparr>) = Ret () u"
    using assms(1) by (auto simp: free_proc_memory_def obind_Ret_iff)
  show ?thesis
    using v u f assms(3-5) by (simp add: reap_def cleared_def)
qed

text \<open>C16: wait. It takes the first zombie child of the table, gives back its pid and clears
  its entry, leaving every other process as it was; without a zombie child it returns -1 at
  once when there is no child or the caller was killed, and otherwise sleeps on the channel
  that exit of a child wakes, with the table's lock held.\<close>

theorem wait_outcomes:
  assumes "lock_ready PtableLock (mach s)" and "kmem_lock_ok (s\<lparr>mach := grab PtableLock (mach s)\<rparr>)"
    and "cur_proc (mach s) = Some c"
    and "\<forall>p<NPROC. parent (ptable s p) = Some c \<and> pstate (ptable s p) = ZOMBIE \<longrightarrow>
      (\<exists>u. free_proc_memory p (s\<lparr>mach := grab PtableLock (mach s)\<rparr>) = Ret () u)"
  shows "case find (\<lambda>i. parent (ptable s i) = Some c \<and> pstate (ptable s i) = ZOMBIE) [0..<NPROC] of
      Some p \<Rightarrow> \<exists>t. wait s = Ret (sint (pid (ptable s p))) t \<and> mach t = mach s \<and>
        ptable t = (ptable s)(p := cleared (ptable s p))
    | None \<Rightarrow> if (\<forall>i<NPROC. parent (ptable s i) \<noteq> Some c) \<or> killed (ptable s c)
        then wait s = Ret (- 1) s
        else ncli (my_cpu (mach s)) = 0 \<longrightarrow>
          wait s = Asleep (s\<lparr>mach := grab PtableLock (mach s), ptable := (ptable s)(c :=
            asleep_on (ChanProc c) (intena (my_cpu (mach s))) (ptable s c))\<rparr>)"
proof -
  let ?g = "s\<lparr>mach := grab PtableLock (mach s)\<rparr>"
  note lr = lock_ready_run [OF assms(1)]
  have w: "wait s = wait_scan (Some c) ?g"
    using lr assms(1,3) by (simp add: wait_def lock_ready_def)
  show ?thesis
  proof (cases "find (\<lambda>i. parent (ptable s i) = Some c \<and> pstate (ptable s i) = ZOMBIE) [0..<NPROC]")
    case (Some p)
    then have "p < NPROC \<and> parent (ptable s p) = Some c \<and> pstate (ptable s p) = ZOMBIE"
      by (simp add: find_upt_Some)
    then obtain u where "free_proc_memory p ?g = Ret () u" using assms(4) by blast
    then have "reap p ?g = Ret (sint (pid (ptable s p))) (u\<lparr>mach := mach s,
        ptable := (ptable s)(p := cleared (ptable s p))\<rparr>)"
      using lr assms(2) by (subst reap_run) simp_all
    then show ?thesis using Some w by (simp add: wait_scan_def)
  next
    case None
    have "list_ex (\<lambda>i. parent (ptable s i) = Some c) [0..<NPROC] \<longleftrightarrow>
        (\<exists>i<NPROC. parent (ptable s i) = Some c)" by (auto simp: list_ex_iff)
    then show ?thesis using None w lr assms(3) by (auto simp: wait_scan_def sleep_ptable_run)
  qed
qed


subsection \<open>The scheduler as a state machine\<close>

text \<open>
  Where the CPU is: scanning the table at an entry, at the return of swtch in a process that
  was just picked (table's lock held), or running a process's kernel code. The steps are the
  operations above; a process that goes to sleep gives the CPU back to the scan, at the next
  entry. \<open>make_runnable\<close> stands for the end of fork, whose new process is an EMBRYO.
\<close>

datatype ctl = Scanning nat | Resuming nat | InProc nat

inductive sys_step :: "'z kproc_scheme \<times> ctl \<Rightarrow> 'z kproc_scheme \<times> ctl \<Rightarrow> bool" where
  pick: "i < NPROC \<Longrightarrow> pstate (ptable s i) = RUNNABLE \<Longrightarrow> scheduler_switch i s = Ret () t \<Longrightarrow>
    sys_step (s, Scanning i) (t, Resuming i)"
| skip: "i < NPROC \<Longrightarrow> pstate (ptable s i) \<noteq> RUNNABLE \<Longrightarrow> sys_step (s, Scanning i) (s, Scanning (Suc i))"
| round: "scheduler_end s = Ret () t \<Longrightarrow> scheduler_begin t = Ret () u \<Longrightarrow>
    sys_step (s, Scanning NPROC) (u, Scanning 0)"
| back_yield: "yield_resume s = Ret () t \<Longrightarrow> sys_step (s, Resuming p) (t, InProc p)"
| back_sleep: "sleep_resume lk s = Ret () t \<Longrightarrow> lk \<notin> {PtableLock, KmemLock} \<Longrightarrow>
    sys_step (s, Resuming p) (t, InProc p)"
| back_new: "release PtableLock s = Ret () t \<Longrightarrow> sys_step (s, Resuming p) (t, InProc p)"
| back_wait: "wait_resume s = Ret r t \<Longrightarrow> sys_step (s, Resuming p) (t, InProc p)"
| again_wait: "wait_resume s = Asleep t \<Longrightarrow> scheduler_back t = Ret () u \<Longrightarrow>
    sys_step (s, Resuming p) (u, Scanning (Suc p))"
| yields: "yield s = (Asleep t :: (unit, _) outcome) \<Longrightarrow> scheduler_back t = Ret () u \<Longrightarrow>
    sys_step (s, InProc p) (u, Scanning (Suc p))"
| sleeps: "sleep ch lk s = (Asleep t :: (unit, _) outcome) \<Longrightarrow> lk \<noteq> KmemLock \<Longrightarrow> scheduler_back t = Ret () u \<Longrightarrow>
    sys_step (s, InProc p) (u, Scanning (Suc p))"
| exits: "exit_tail p s = (Asleep t :: (unit, _) outcome) \<Longrightarrow> scheduler_back t = Ret () u \<Longrightarrow>
    sys_step (s, InProc p) (u, Scanning (Suc p))"
| waits: "wait s = Ret r t \<Longrightarrow> sys_step (s, InProc p) (t, InProc p)"
| waits_asleep: "wait s = Asleep t \<Longrightarrow> scheduler_back t = Ret () u \<Longrightarrow>
    sys_step (s, InProc p) (u, Scanning (Suc p))"
| wakes: "wakeup ch s = Ret () t \<Longrightarrow> sys_step (s, InProc p) (t, InProc p)"
| kills: "kill pd s = Ret r t \<Longrightarrow> sys_step (s, InProc p) (t, InProc p)"
| starts: "pstate (ptable s q) = EMBRYO \<Longrightarrow> make_runnable q s = Ret () t \<Longrightarrow>
    sys_step (s, InProc p) (t, InProc p)"
| locks: "acquire lk s = Ret () t \<Longrightarrow> lk \<notin> {PtableLock, KmemLock} \<Longrightarrow> lk_free (mach s) lk \<Longrightarrow>
    sys_step (s, InProc p) (t, InProc p)"
| unlocks: "release lk s = Ret () t \<Longrightarrow> lk \<notin> {PtableLock, KmemLock} \<Longrightarrow> 0 < ncli (my_cpu (mach s)) \<Longrightarrow>
    sys_step (s, InProc p) (t, InProc p)"

inductive_cases scan_stepE: "sys_step (s, Scanning i) (t, c)"
inductive_cases resume_stepE: "sys_step (s, Resuming p) (t, c)"
inductive_cases inproc_stepE: "sys_step (s, InProc p) (t, c)"

definition running_only :: "nat option \<Rightarrow> (nat \<Rightarrow> proc) \<Rightarrow> bool" where
  "running_only r t \<longleftrightarrow> (\<forall>i<NPROC. pstate (t i) = RUNNING \<longleftrightarrow> r = Some i) \<and>
     (\<forall>i<NPROC. pstate (t i) = SLEEPING \<longrightarrow> chan (t i) \<noteq> None)"

fun on_cpu :: "ctl \<Rightarrow> nat option" where
  "on_cpu (Scanning i) = None"
| "on_cpu (Resuming p) = Some p"
| "on_cpu (InProc p) = Some p"

fun ctl_ok :: "ctl \<Rightarrow> machine \<Rightarrow> bool" where
  "ctl_ok (Scanning i) m \<longleftrightarrow> i \<le> NPROC \<and> held m PtableLock \<and> ncli (my_cpu m) = 1"
| "ctl_ok (Resuming p) m \<longleftrightarrow> p < NPROC \<and> held m PtableLock \<and> ncli (my_cpu m) = 1"
| "ctl_ok (InProc p) m \<longleftrightarrow> p < NPROC \<and> lk_free m PtableLock"

definition sched_inv :: "'z kproc_scheme \<times> ctl \<Rightarrow> bool" where
  "sched_inv = (\<lambda>(s, c). cpu_ok (mach s) \<and> lk_free (mach s) KmemLock \<and>
     cur_proc (mach s) = on_cpu c \<and> ctl_ok c (mach s) \<and> running_only (on_cpu c) (ptable s))"

lemma inv_kmem: "cpu_ok (mach s) \<Longrightarrow> lk_free (mach s) KmemLock \<Longrightarrow> kmem_lock_ok s"
  by (simp add: kmem_lock_ok_def)

lemma running_only_off:
  "running_only (Some p) t \<Longrightarrow> pstate q \<noteq> RUNNING \<Longrightarrow> (pstate q = SLEEPING \<longrightarrow> chan q \<noteq> None) \<Longrightarrow>
   running_only None (t(p := q))"
  unfolding running_only_def by (auto split: if_splits)

lemma running_only_on:
  "running_only None t \<Longrightarrow> pstate q = RUNNING \<Longrightarrow> running_only (Some p) (t(p := q))"
  unfolding running_only_def by (auto split: if_splits)

lemma running_only_same:
  "running_only r t \<Longrightarrow> pstate (t p) \<noteq> RUNNING \<Longrightarrow> pstate q \<noteq> RUNNING \<Longrightarrow>
   (pstate q = SLEEPING \<longrightarrow> chan q \<noteq> None) \<Longrightarrow> running_only r (t(p := q))"
  unfolding running_only_def by (auto split: if_splits)

lemma running_only_keep:
  "running_only r t \<Longrightarrow> pstate q = pstate (t p) \<Longrightarrow> (pstate q = SLEEPING \<longrightarrow> chan q \<noteq> None) \<Longrightarrow>
   running_only r (t(p := q))"
  unfolding running_only_def by (auto split: if_splits)

lemma running_only_wake: "running_only r t \<Longrightarrow> running_only r (wake_all ch t)"
  unfolding running_only_def wake_all_def by auto

text \<open>The way back to the scan after a process went to the scheduler.\<close>

lemma back_inv:
  assumes "scheduler_back t = Ret () u" and "cpu_ok (mach t)" and "lk_free (mach t) KmemLock"
    and "held (mach t) PtableLock" and "ncli (my_cpu (mach t)) = 1" and "p < NPROC"
    and "running_only None (ptable t)"
  shows "sched_inv (u, Scanning (Suc p))"
  using assms by (auto simp: sched_inv_def scheduler_back_run)

lemma yield_resume_run:
  assumes "cpu_ok (mach s)" and "0 < ncli (my_cpu (mach s))" and "cur_proc (mach s) = Some p"
    and "held (mach s) PtableLock"
  shows "yield_resume s = Ret () (s\<lparr>mach := drop_lk PtableLock
    (upd_my_cpu (\<lambda>k. k\<lparr>intena := sched_intena (ptable s p)\<rparr>) (mach s))\<rparr>)"
  using assms by (simp add: yield_resume_def sched_resume_run)


lemma acquire_Ret:
  assumes "acquire lk s = Ret x t" and "cpu_ok (mach s)"
  shows "t = s\<lparr>mach := grab lk (mach s)\<rparr>" and "\<not> held (mach s) lk"
proof -
  have nl: "\<not> locked (locks (mach s) lk)"
    using assms acquire_panic [of s lk] acquire_spin [of s lk] by fastforce
  then show "\<not> held (mach s) lk" by (simp add: held_def)
  have "find_cpu (mach s) \<noteq> None" using assms(2) by (auto simp: cpu_ok_def)
  then have "acquire lk s = Ret () (s\<lparr>mach := grab lk (mach s)\<rparr>)"
    using nl assms(2)
    by (simp add: acquire_def xchg_loop_def set_lock_run grab_def held_def) (simp add: set_lk_def)
  then show "t = s\<lparr>mach := grab lk (mach s)\<rparr>" using assms(1) by simp
qed

lemma release_Ret:
  assumes "release lk s = Ret x t" and "cpu_ok (mach s)" and "0 < ncli (my_cpu (mach s))"
  shows "t = s\<lparr>mach := drop_lk lk (mach s)\<rparr>" and "held (mach s) lk"
proof -
  show h: "held (mach s) lk" using assms release_panic [of s lk] by fastforce
  show "t = s\<lparr>mach := drop_lk lk (mach s)\<rparr>"
    using release_run [OF assms(2) h assms(3)] assms(1) by simp
qed

lemma sleep_resume_Ret:
  assumes "sleep_resume lk s = Ret () t" and "cpu_ok (mach s)" and "ncli (my_cpu (mach s)) = 1"
    and "cur_proc (mach s) = Some p" and "held (mach s) PtableLock" and "lk \<noteq> PtableLock"
  shows "t = s\<lparr>ptable := (ptable s)(p := (ptable s p)\<lparr>chan := None\<rparr>),
    mach := grab lk (drop_lk PtableLock
      (upd_my_cpu (\<lambda>k. k\<lparr>intena := sched_intena (ptable s p)\<rparr>) (mach s)))\<rparr>"
proof -
  let ?m = "drop_lk PtableLock (upd_my_cpu (\<lambda>k. k\<lparr>intena := sched_intena (ptable s p)\<rparr>) (mach s))"
  let ?u = "s\<lparr>ptable := (ptable s)(p := (ptable s p)\<lparr>chan := None\<rparr>), mach := ?m\<rparr>"
  have "acquire lk ?u = Ret () t"
    using assms by (simp add: sleep_resume_def sched_resume_run)
  moreover have "cpu_ok (mach ?u)" using assms by simp
  ultimately show ?thesis using acquire_Ret(1) by fastforce
qed

lemma sched_not_Ret: "sched s \<noteq> Ret x t"
  by (auto simp: sched_def obind_Ret_iff swtch_to_scheduler_def split: if_splits)

lemma sleep_not_Ret: "sleep ch lk s \<noteq> Ret x t"
  by (auto simp: sleep_def obind_Ret_iff sched_not_Ret split: option.splits if_splits)

lemma sched_not_Asleep:
  assumes "cpu_ok (mach s)" and "ncli (my_cpu (mach s)) \<noteq> 1"
  shows "sched s \<noteq> Asleep v"
proof -
  have "mycpu s = Ret (this_cpu (mach s)) s \<or> (\<exists>e. mycpu s = Panic e)"
    using assms(1) cpu_ok_found [OF assms(1)] by (auto simp: mycpu_def)
  then show ?thesis
    using assms by (auto simp: sched_def get_my_cpu_run)
qed

lemma wait_scan_Ret:
  assumes "wait_scan (Some c) s = Ret r t" and "cpu_ok (mach s)" and "0 < ncli (my_cpu (mach s))"
    and "held (mach s) PtableLock" and "lk_free (mach s) KmemLock" and "cur_proc (mach s) = Some c"
  shows "mach t = drop_lk PtableLock (mach s)"
    and "ptable t = ptable s \<or> (\<exists>p. pstate (ptable s p) = ZOMBIE \<and>
      ptable t = (ptable s)(p := cleared (ptable s p)))"
proof -
  have k: "kmem_lock_ok s" using assms inv_kmem by blast
  have "mach t = drop_lk PtableLock (mach s) \<and> (ptable t = ptable s \<or> (\<exists>p. pstate (ptable s p) = ZOMBIE \<and>
      ptable t = (ptable s)(p := cleared (ptable s p))))"
  proof (cases "find (\<lambda>i. parent (ptable s i) = Some c \<and> pstate (ptable s i) = ZOMBIE) [0..<NPROC]")
    case None
    then show ?thesis
      using assms by (auto simp: wait_scan_def sleep_not_Ret split: if_splits)
  next
    case (Some p)
    then have z: "pstate (ptable s p) = ZOMBIE" by (simp add: find_upt_Some)
    have r: "reap p s = Ret r t" using assms(1) Some by (simp add: wait_scan_def)
    then obtain u where "free_proc_memory p s = Ret () u"
      by (auto simp: reap_def free_proc_memory_def obind_Ret_iff)
    from reap_run [OF this k] r assms z show ?thesis by auto
  qed
  then show "mach t = drop_lk PtableLock (mach s)"
    "ptable t = ptable s \<or> (\<exists>p. pstate (ptable s p) = ZOMBIE \<and>
      ptable t = (ptable s)(p := cleared (ptable s p)))" by auto
qed

lemma awake_locks: "awake pushcli" "awake popcli" "awake (acquire lk)" "awake (release lk)"
proof -
  have s: "awake (set_cpu c f)" "awake (get_cpu c)" "awake cli" "awake sti" "awake readeflags_IF"
    "awake (set_lock lk g)" for c f g
    by (simp_all add: set_cpu_def get_cpu_def cli_def sti_def readeflags_IF_def set_lock_def awake_simple)
  have m: "awake mycpu" unfolding mycpu_def by (intro awake_intros s)
  show p: "awake pushcli" unfolding pushcli_def by (intro awake_intros s m)
  show q: "awake popcli" unfolding popcli_def by (intro awake_intros s m)
  have h: "awake (holding lk)" unfolding holding_def by (intro awake_intros s m p q)
  have x: "awake (xchg_loop lk)" by (simp add: awake_def xchg_loop_def set_lock_def)
  show "awake (acquire lk)" unfolding acquire_def by (intro awake_intros s m p h x)
  show "awake (release lk)" unfolding release_def by (intro awake_intros s m q h)
qed

lemma awake_memory:
  "awake (kfree v)" "awake kalloc" "awake (rd32 a)" "awake (wr32 a w)" "awake (zero_page a)"
  unfolding kfree_def kalloc_def rd32_def wr32_def zero_page_def by (intro awake_intros awake_locks)+

lemma awake_dealloc: "awake (dealloc_loop d a e)"
proof (induction d a e rule: dealloc_loop.induct)
  case (1 d a e)
  show ?case
    by (subst dealloc_loop.simps, unfold Let_def walkpgdir_def)
      (intro awake_intros awake_memory; (rule 1; (assumption | simp))?)
qed

lemma awake_reap: "awake (reap p)"
proof -
  have "awake (get_proc q)" "awake (set_proc q f)" for q f
    by (simp_all add: get_proc_def set_proc_def awake_simple)
  then show ?thesis
    unfolding reap_def freevm_def deallocuvm_def
    by (intro awake_intros awake_memory awake_dealloc awake_locks)
qed

lemma wait_scan_Asleep:
  assumes "wait_scan (Some c) s = Asleep t" and "cpu_ok (mach s)" and "0 < ncli (my_cpu (mach s))"
    and "held (mach s) PtableLock" and "cur_proc (mach s) = Some c"
  shows "t = s\<lparr>ptable := (ptable s)(c := asleep_on (ChanProc c) (intena (my_cpu (mach s))) (ptable s c))\<rparr>"
    and "ncli (my_cpu (mach s)) = 1"
proof -
  have sl: "sleep (ChanProc c) PtableLock s = (Asleep t :: (int, 'a kproc_scheme) outcome)"
    using assms awakeD [OF awake_reap]
    by (auto simp: wait_scan_def split: if_splits option.splits)
  then show one: "ncli (my_cpu (mach s)) = 1"
    using assms by (cases "ncli (my_cpu (mach s)) = 1") (auto simp: sleep_def sched_not_Asleep)
  show "t = s\<lparr>ptable := (ptable s)(c := asleep_on (ChanProc c) (intena (my_cpu (mach s))) (ptable s c))\<rparr>"
    using sl by (simp add: sleep_ptable_run [OF assms(2,5) one assms(4)])
qed


lemma exit_table_running:
  assumes "running_only (Some p) t" and "p < NPROC"
  shows "running_only None (exit_table p ini f t)"
  unfolding running_only_def
proof (intro conjI allI impI)
  fix i assume i: "i < NPROC"
  show "pstate (exit_table p ini f t i) = RUNNING \<longleftrightarrow> None = Some i"
    using assms i exit_table_state(1) [of p ini f t] exit_table_state(2) [of i p ini f t]
    by (cases "i = p") (auto simp: running_only_def)
  show "chan (exit_table p ini f t i) \<noteq> None" if "pstate (exit_table p ini f t i) = SLEEPING"
    using that assms i exit_table_state(1) [of p ini f t] exit_table_state(2) [of i p ini f t]
      exit_table_state(3) [of p ini f t i]
    by (cases "i = p") (auto simp: running_only_def)
qed

lemma running_only_reap:
  "running_only r t \<Longrightarrow> pstate (t q) = ZOMBIE \<Longrightarrow> running_only r (t(q := cleared (t q)))"
  by (rule running_only_same) (simp_all add: cleared_def)

lemma inv_parts:
  assumes "sched_inv (s, c)"
  shows "cpu_ok (mach s)" and "lk_free (mach s) KmemLock" and "cur_proc (mach s) = on_cpu c"
    and "ctl_ok c (mach s)" and "running_only (on_cpu c) (ptable s)" and "kmem_lock_ok s"
  using assms inv_kmem by (auto simp: sched_inv_def)

lemma inv_ready:
  assumes "sched_inv (s, InProc p)"
  shows "lock_ready PtableLock (mach s)" and "p < NPROC"
  using inv_parts [OF assms] by (auto simp: lock_ready_def)

lemma step_from_scan:
  assumes "sys_step (s, Scanning i) (t, c)" and "sched_inv (s, Scanning i)"
  shows "sched_inv (t, c)"
  using assms(1)
proof (cases rule: scan_stepE [consumes 1, case_names pick skip round])
  case pick
  note p = inv_parts [OF assms(2)]
  then have m: "cpu_ok (mach s)" "ncli (my_cpu (mach s)) = 1" by auto
  show ?thesis
    using pick p scheduler_switch_run [of s i] switched_machine [OF m refl]
    by (auto simp: sched_inv_def running_only_on split: if_splits)
next
  case skip
  then show ?thesis using assms(2) by (auto simp: sched_inv_def)
next
  case (round v)
  note p = inv_parts [OF assms(2)]
  have v: "v = s\<lparr>mach := drop_lk PtableLock (mach s)\<rparr>"
    using round(3) p release_Ret(1) [of PtableLock s "()" v] by (simp add: scheduler_end_def)
  have "find_cpu (mach v) \<noteq> None" "ncli (my_cpu (mach v)) = 0" "lk_free (mach v) PtableLock"
    using v p by (auto simp: cpu_ok_def)
  note b = scheduler_begin_run [OF this]
  have f: "find_cpu (mach s) \<noteq> None" using p(1) by (simp add: cpu_ok_def)
  have "cpu_ok (upd_my_cpu (\<lambda>k. k\<lparr>intena := True\<rparr>) ((mach v)\<lparr>eflags_IF := True\<rparr>))"
    using f v p(4) by (simp add: cpu_ok_def)
  then show ?thesis
    using b round v p by (simp add: sched_inv_def del: upd_my_cpu_comm) (auto simp: cur_proc_def)
qed

lemma step_from_resume:
  assumes "sys_step (s, Resuming p) (t, c)" and "sched_inv (s, Resuming p)"
  shows "sched_inv (t, c)"
proof -
  note i = inv_parts [OF assms(2)]
  then have m: "cpu_ok (mach s)" "ncli (my_cpu (mach s)) = 1" "cur_proc (mach s) = Some p"
    "held (mach s) PtableLock" "p < NPROC" "running_only (Some p) (ptable s)" by auto
  have un: "running_only (Some p) ((ptable s)(p := (ptable s p)\<lparr>chan := x\<rparr>))" for x
  proof -
    have "pstate (ptable s p) = RUNNING" using m(5,6) by (simp add: running_only_def)
    then show ?thesis using m(6) by (intro running_only_keep) simp_all
  qed
  have wr: "wait_resume s = wait_scan (Some p) (s\<lparr>
      mach := upd_my_cpu (\<lambda>k. k\<lparr>intena := sched_intena (ptable s p)\<rparr>) (mach s),
      ptable := (ptable s)(p := (ptable s p)\<lparr>chan := None\<rparr>)\<rparr>)"
    using m by (simp add: wait_resume_def sleep_resume_def sched_resume_run)
  let ?w = "s\<lparr>mach := upd_my_cpu (\<lambda>k. k\<lparr>intena := sched_intena (ptable s p)\<rparr>) (mach s),
      ptable := (ptable s)(p := (ptable s p)\<lparr>chan := None\<rparr>)\<rparr>"
  have w: "cpu_ok (mach ?w)" "0 < ncli (my_cpu (mach ?w))" "held (mach ?w) PtableLock"
    "cur_proc (mach ?w) = Some p" "lk_free (mach ?w) KmemLock"
    using m i(2) by (simp_all add: cur_proc_def)
  from assms(1) show ?thesis
  proof (cases rule: resume_stepE [consumes 1, case_names back_yield back_sleep back_new back_wait again_wait])
    case back_yield
    then show ?thesis using m i yield_resume_run [of s p] by (auto simp: sched_inv_def cur_proc_def)
  next
    case (back_sleep lk)
    then have t: "t = s\<lparr>ptable := (ptable s)(p := (ptable s p)\<lparr>chan := None\<rparr>),
      mach := grab lk (drop_lk PtableLock
        (upd_my_cpu (\<lambda>k. k\<lparr>intena := sched_intena (ptable s p)\<rparr>) (mach s)))\<rparr>"
      using m by (intro sleep_resume_Ret) simp_all
    have "cur_proc (mach t) = Some p" unfolding t using m(3) by (simp add: cur_proc_def)
    then show ?thesis
      using back_sleep m i(2) un [of None] unfolding sched_inv_def by (simp add: t)
  next
    case back_new
    have t: "t = s\<lparr>mach := drop_lk PtableLock (mach s)\<rparr>"
      using release_Ret(1) [OF back_new(2) m(1)] m(2) by simp
    then show ?thesis using back_new m i(2) by (simp add: sched_inv_def)
  next
    case (back_wait r)
    then have r: "wait_scan (Some p) ?w = Ret r t" using wr by simp
    note ws = wait_scan_Ret [OF r w(1-3,5,4)]
    have "running_only (Some p) (ptable ?w)" using un by simp
    then have "running_only (Some p) (ptable t)"
      using ws(2) running_only_reap [of "Some p" "ptable ?w"] by metis
    moreover have "cpu_ok (mach t)" "lk_free (mach t) KmemLock" "cur_proc (mach t) = Some p"
      "lk_free (mach t) PtableLock"
      unfolding ws(1) using w by simp_all
    ultimately show ?thesis using back_wait m(5) by (simp add: sched_inv_def)
  next
    case (again_wait v)
    then have r: "wait_scan (Some p) ?w = Asleep v" using wr by simp
    note ws = wait_scan_Asleep [OF r w(1-4)]
    have "running_only None (ptable v)"
      using m(6) unfolding ws(1) by (auto simp: asleep_on_def intro!: running_only_off)
    moreover have "mach v = mach ?w" unfolding ws(1) by simp
    ultimately show ?thesis
      using again_wait(1) back_inv [OF again_wait(3)] w m(2,5) by simp
  qed
qed

lemma sleep_Asleep:
  assumes "sleep ch lk s = Asleep v" and "lock_ready PtableLock (mach s)" and "cur_proc (mach s) = Some p"
  shows "lk \<noteq> PtableLock" and "held (mach s) lk" and "ncli (my_cpu (mach s)) = 1"
    and "v = s\<lparr>mach := drop_lk lk (grab PtableLock (mach s)),
      ptable := (ptable s)(p := asleep_on ch (intena (my_cpu (mach s))) (ptable s p))\<rparr>"
proof -
  note lr = lock_ready_run [OF assms(2)]
  have ok: "cpu_ok (mach s)" "lk_free (mach s) PtableLock" using assms(2) by (auto simp: lock_ready_def)
  show n: "lk \<noteq> PtableLock"
    using assms(1,3) ok by (auto simp: sleep_def sched_panic(1))
  show h: "held (mach s) lk"
    using assms(1,3) ok n lr by (cases "held (mach s) lk") (auto simp: sleep_def release_panic)
  have d: "cpu_ok (drop_lk lk (grab PtableLock (mach s)))" using ok lr by simp
  show one: "ncli (my_cpu (mach s)) = 1"
  proof (rule ccontr)
    assume "ncli (my_cpu (mach s)) \<noteq> 1"
    then show False
      using assms(1,3) ok n h lr d
      by (auto simp: sleep_def sched_not_Asleep)
  qed
  show "v = s\<lparr>mach := drop_lk lk (grab PtableLock (mach s)),
      ptable := (ptable s)(p := asleep_on ch (intena (my_cpu (mach s))) (ptable s p))\<rparr>"
    using assms(1) by (simp add: sleep_run [OF ok(1) assms(3) one h n ok(2)])
qed

lemma exit_tail_Asleep:
  assumes "exit_tail p s = Asleep v" and "lock_ready PtableLock (mach s)" and "cur_proc (mach s) = Some p"
  shows "ncli (my_cpu (mach s)) = 0"
proof (rule ccontr)
  assume "ncli (my_cpu (mach s)) \<noteq> 0"
  then show False
    using assms lock_ready_run [OF assms(2)]
    by (auto simp: exit_tail_def reparent_all_run sched_not_Asleep)
qed

lemma step_from_proc:
  assumes "sys_step (s, InProc p) (t, c)" and "sched_inv (s, InProc p)"
  shows "sched_inv (t, c)"
proof -
  note i = inv_parts [OF assms(2)] inv_ready [OF assms(2)]
  note lr = lock_ready_run [OF i(7)]
  have m: "cur_proc (mach s) = Some p" "running_only (Some p) (ptable s)" "lk_free (mach s) PtableLock"
    using i by auto
  have d: "0 \<le> ncli (my_cpu (mach s))" using i(1) by (rule cpu_ok_depth)
  have rescan: "sched_inv (u, Scanning (Suc p))"
    if "scheduler_back v = Ret () u" "mach v = grab PtableLock (mach s)" "ncli (my_cpu (mach s)) = 0"
      "running_only None (ptable v)" for u v
    using that i lr by (intro back_inv [OF that(1)]) simp_all
  from assms(1) show ?thesis
  proof (cases rule: inproc_stepE [consumes 1, case_names yields sleeps exits waits waits_asleep wakes kills starts locks unlocks])
    case (yields v)
    then have z: "ncli (my_cpu (mach s)) = 0" and
      v: "v = s\<lparr>mach := grab PtableLock (mach s), ptable := (ptable s)(p := (ptable s p)\<lparr>pstate := RUNNABLE,
        sched_intena := intena (my_cpu (mach s))\<rparr>)\<rparr>"
      by (auto simp: yield_run [OF i(7) m(1)] split: if_splits)
    have "running_only None (ptable v)" unfolding v using m(2) by (auto intro!: running_only_off)
    moreover have "mach v = grab PtableLock (mach s)" unfolding v by simp
    ultimately show ?thesis using rescan [OF yields(3) _ z] yields(1) by simp
  next
    case (sleeps ch lk v)
    note sl = sleep_Asleep [OF sleeps(2) i(7) m(1)]
    have "running_only None (ptable v)"
      unfolding sl(4) using m(2) by (auto simp: asleep_on_def intro!: running_only_off)
    moreover have "cpu_ok (mach v)" "lk_free (mach v) KmemLock" "held (mach v) PtableLock"
      "ncli (my_cpu (mach v)) = 1"
      unfolding sl(4) using sl(1-3) i lr sleeps(3) by simp_all
    ultimately show ?thesis using back_inv [OF sleeps(4)] i(8) sleeps(1) by simp
  next
    case (exits v)
    note z = exit_tail_Asleep [OF exits(2) i(7) m(1)]
    have v: "v = s\<lparr>mach := grab PtableLock (mach s),
        ptable := exit_table p (initproc s) (intena (my_cpu (mach s))) (ptable s)\<rparr>"
      using exits(2) by (simp add: exit_tail_run [OF i(7) m(1) z])
    have "mach v = grab PtableLock (mach s)" "running_only None (ptable v)"
      unfolding v using exit_table_running [OF m(2) i(8)] by simp_all
    then show ?thesis using rescan [OF exits(3) _ z] exits(1) by simp
  next
    case (waits r)
    let ?g = "s\<lparr>mach := grab PtableLock (mach s)\<rparr>"
    have w: "wait s = wait_scan (Some p) ?g" using i lr m by (simp add: wait_def)
    have g: "cpu_ok (mach ?g)" "0 < ncli (my_cpu (mach ?g))" "held (mach ?g) PtableLock"
      "lk_free (mach ?g) KmemLock" "cur_proc (mach ?g) = Some p"
      using i lr m by simp_all
    note ws = wait_scan_Ret [OF waits(2) [unfolded w] g]
    have "mach t = mach s" using ws(1) lr by simp
    moreover have "running_only (Some p) (ptable t)"
      using ws(2) m(2) running_only_reap by fastforce
    ultimately show ?thesis using waits i m by (simp add: sched_inv_def)
  next
    case (waits_asleep v)
    let ?g = "s\<lparr>mach := grab PtableLock (mach s)\<rparr>"
    have w: "wait s = wait_scan (Some p) ?g" using i lr m by (simp add: wait_def)
    have g: "cpu_ok (mach ?g)" "0 < ncli (my_cpu (mach ?g))" "held (mach ?g) PtableLock"
      "cur_proc (mach ?g) = Some p"
      using i lr m by simp_all
    note ws = wait_scan_Asleep [OF waits_asleep(2) [unfolded w] g]
    have z: "ncli (my_cpu (mach s)) = 0" using ws(2) by simp
    have "running_only None (ptable v)"
      unfolding ws(1) using m(2) by (auto simp: asleep_on_def intro!: running_only_off)
    moreover have "mach v = grab PtableLock (mach s)" unfolding ws(1) by simp
    ultimately show ?thesis using rescan [OF waits_asleep(3) _ z] waits_asleep(1) by simp
  next
    case (wakes ch)
    then show ?thesis using i m wakeup_run [OF i(7), of ch] by (auto simp: sched_inv_def running_only_wake)
  next
    case (kills pd r)
    have "running_only (Some p) ((ptable s)(q := kill_proc (ptable s q)))" for q
      using m(2) unfolding running_only_def kill_proc_def by auto
    then show ?thesis using kills i m kill_run [OF i(7), of pd] by (auto simp: sched_inv_def split: option.splits)
  next
    case (starts q)
    then have "t = s\<lparr>ptable := (ptable s)(q := (ptable s q)\<lparr>pstate := RUNNABLE\<rparr>)\<rparr>"
      using lr i by (simp add: make_runnable_def)
    then show ?thesis using starts i m by (auto simp: sched_inv_def intro!: running_only_same)
  next
    case (locks lk)
    have t: "t = s\<lparr>mach := grab lk (mach s)\<rparr>" using locks(2) i(1) by (rule acquire_Ret)
    then show ?thesis using locks i(1,2,8) m by (simp add: sched_inv_def)
  next
    case (unlocks lk)
    have t: "t = s\<lparr>mach := drop_lk lk (mach s)\<rparr>"
      using unlocks(2) i(1) unlocks(3) by (rule release_Ret)
    then show ?thesis using unlocks i(1,2,8) m by (simp add: sched_inv_def)
  qed
qed

lemma step_inv: "sys_step x y \<Longrightarrow> sched_inv x \<Longrightarrow> sched_inv y"
proof -
  assume a: "sys_step x y" "sched_inv x"
  obtain s c t d where xy: "x = (s, c)" "y = (t, d)" by (cases x; cases y) auto
  show "sched_inv y"
    using a step_from_scan step_from_resume step_from_proc unfolding xy by (cases c) blast+
qed

lemma steps_inv: "sys_step\<^sup>*\<^sup>* x y \<Longrightarrow> sched_inv x \<Longrightarrow> sched_inv y"
  by (induction rule: rtranclp_induct) (auto intro: step_inv)


subsection \<open>Concrete processes\<close>

text \<open>Freeing an empty directory frees its one page.\<close>

lemma next_pde:
  assumes "(a :: u32) < KERNBASE"
  shows "a < PGADDR (PDX a + 1) 0 0"
proof -
  have u: "unat a < 2147483648" using assms by (simp add: word_less_nat_alt KERNBASE_def)
  have m: "(0x3FF :: u32) = mask 10" by (simp add: mask_eq_exp_minus_1)
  have "drop_bit 22 a AND 0x3FF = drop_bit 22 a"
    unfolding m by (rule bit_word_eqI) (auto simp: bit_simps dest: bit_imp_le_length)
  then have "unat (PDX a) = unat (drop_bit 22 a)" by (simp only: PDX_def)
  also have "\<dots> = unat a div 2 ^ 22" by (simp only: unat_drop_bit_eq) (simp only: drop_bit_eq_div)
  finally have p: "unat (PDX a) = unat a div 4194304" by simp
  then have lt: "unat (PDX a) < 512" using u by (simp add: div_less_iff_less_mult)
  have p1: "unat (PDX a + 1) = unat (PDX a) + 1" using lt by (subst unat_less_add) simp_all
  have "push_bit 22 (PDX a + 1) = of_nat ((unat (PDX a) + 1) * 4194304)"
    using p1 by (simp add: push_bit_eq_mult mult.commute)
  then have "unat (PGADDR (PDX a + 1) 0 0) = (unat (PDX a) + 1) * 4194304"
    using lt unat_of_nat_small [of "(unat (PDX a) + 1) * 4194304"] by (simp add: PGADDR_def)
  moreover have "unat a < (unat (PDX a) + 1) * 4194304"
    unfolding p using dividend_less_div_times [of 4194304 "unat a"] by simp
  ultimately show ?thesis by (simp add: word_less_nat_alt)
qed

lemma dealloc_empty:
  "(\<forall>va. \<not> has_table (ram s) d va) \<Longrightarrow> e \<le> KERNBASE \<Longrightarrow> dealloc_loop d a e s = Ret () s"
proof (induction d a e rule: dealloc_loop.induct)
  case (1 d a e)
  show ?case
  proof (cases "a < e")
    case False
    then show ?thesis by (subst dealloc_loop.simps) simp
  next
    case True
    have w: "walkpgdir d a False s = Ret 0 s"
      using "1.prems"(1) by (simp add: walkpgdir_def rd32_def has_table_def pde_at_def Let_def)
    have n: "a < PGADDR (PDX a + 1) 0 0" using True "1.prems"(2) by (intro next_pde) simp
    have "dealloc_loop d (PGADDR (PDX a + 1) 0 0) e s = Ret () s"
      using "1.IH"(1) [OF True refl refl] n "1.prems" by simp
    then show ?thesis using True w n by (subst dealloc_loop.simps) simp
  qed
qed

lemma freevm_empty:
  assumes "\<forall>i. unat i < 1024 \<longrightarrow> ld32 (ram s) (d + 4 * i) AND PTE_P = 0" and "d \<noteq> 0"
  shows "freevm d s = kfree d s"
proof -
  have h: "\<forall>va. \<not> has_table (ram s) d va" using assms(1) by (simp add: has_table_def pde_at_def)
  have "kfor is (\<lambda>i. bnd (rd32 (d + 4 * of_nat i)) (\<lambda>e.
      whn (e AND PTE_P \<noteq> 0) (kfree (P2V (PTE_ADDR e))))) s = Ret () s" if "set is \<subseteq> {0..<1024}" for "is" :: "nat list"
    using that
  proof (induction "is")
    case (Cons i "is")
    then have "unat (of_nat i :: u32) < 1024" by (simp add: unat_of_nat_small)
    then show ?case using Cons assms(1) by (simp add: rd32_def)
  qed simp
  from this [of "[0..<NPDENTRIES]"] show ?thesis
    using assms(2) dealloc_empty [OF h, of KERNBASE "PGROUNDUP 0"]
    by (simp add: freevm_def deallocuvm_def NPDENTRIES_def KERNBASE_def)
qed

text \<open>
  A machine with CPU 0 in process 2, interrupts on and no lock held; init is process 0,
  process 1 sleeps in wait for its child 2, and 2 has a zombie child 3, whose kernel stack and
  empty page directory are the two pages at 0x80300000 and 0x80301000.
\<close>

definition idle_proc :: proc where
  "idle_proc = \<lparr>sz = 0, pgdir = 0, kstack = 0, pstate = UNUSED, pid = 0, parent = None, tf = 0, ctxt = 0,
     chan = None, killed = False, ofile = (\<lambda>_. None), cwd = None, pname = '''', priority = 10,
     sched_intena = True\<rparr>"

definition kproc0 :: kproc where
  "kproc0 = \<lparr>mach = mach0\<lparr>cpus := (\<lambda>_. \<lparr>apicid = 0, ncli = 0, intena = True, cproc = Some 2, ts_esp0 = 0\<rparr>)\<rparr>,
     cons_locking = True, panicked = False, uart_out = [], crt = (\<lambda>_. 0), cga_pos = 0,
     ram = (\<lambda>_. 0), use_lock = True, freelist = 0, kernel_end = 0x80100000,
     kpgdir = 0x80200000, kdata = 0x80108000,
     ptable = (\<lambda>_. idle_proc)(
       0 := idle_proc\<lparr>pid := 1, pstate := RUNNABLE, kstack := 0x80400000, pgdir := 0x80401000\<rparr>,
       1 := idle_proc\<lparr>pid := 2, pstate := SLEEPING, chan := Some (ChanProc 1), parent := Some 0\<rparr>,
       2 := idle_proc\<lparr>pid := 3, pstate := RUNNING, parent := Some 1\<rparr>,
       3 := idle_proc\<lparr>pid := 4, pstate := ZOMBIE, parent := Some 2,
              kstack := 0x80300000, pgdir := 0x80301000\<rparr>),
     initproc = Some 0, nextpid = 5, trapret_addr = 0x80105000, forkret_addr = 0x80103000\<rparr>"

lemma kproc0_mach:
  "cpu_ok (mach kproc0)" "lk_free (mach kproc0) lk" "cur_proc (mach kproc0) = Some 2"
  "ncli (my_cpu (mach kproc0)) = 0" "lock_ready PtableLock (mach kproc0)"
proof -
  have f: "find_cpu (mach kproc0) = Some 0" by (simp add: find_cpu_def mach0_def kproc0_def)
  then have c: "my_cpu (mach kproc0) = \<lparr>apicid = 0, ncli = 0, intena = True, cproc = Some 2, ts_esp0 = 0\<rparr>"
    by (simp add: my_cpu_def this_cpu_def) (simp add: kproc0_def)
  show k: "cpu_ok (mach kproc0)" using f by (simp add: cpu_ok_def c) (simp add: kproc0_def mach0_def)
  show l: "lk_free (mach kproc0) lk" for lk by (simp add: lk_free_def kproc0_def mach0_def)
  show "cur_proc (mach kproc0) = Some 2" "ncli (my_cpu (mach kproc0)) = 0"
    by (simp_all add: cur_proc_def c)
  show "lock_ready PtableLock (mach kproc0)" using k l by (simp add: lock_ready_def)
qed

lemma kproc0_table:
  "initproc kproc0 = Some 0" "kmem_lock_ok kproc0" "(2::nat) < NPROC" "(1::nat) < NPROC" "(3::nat) < NPROC"
  "parent (ptable kproc0 1) = Some 0" "pstate (ptable kproc0 1) = SLEEPING"
  "chan (ptable kproc0 1) = Some (ChanProc 1)"
  "parent (ptable kproc0 2) = Some 1" "pstate (ptable kproc0 2) = RUNNING"
  "parent (ptable kproc0 3) = Some 2" "pstate (ptable kproc0 3) = ZOMBIE" "pid (ptable kproc0 3) = 4"
  "kstack (ptable kproc0 3) = 0x80300000" "pgdir (ptable kproc0 3) = 0x80301000"
  "pstate (ptable kproc0 0) = RUNNABLE" "kstack (ptable kproc0 0) \<noteq> 0" "pgdir (ptable kproc0 0) \<noteq> 0"
  using kproc0_mach by (simp_all add: kmem_lock_ok_def) (simp_all add: kproc0_def NPROC_def)

lemma exit_hands_over_witness:
  "\<exists>t. exit_tail 2 kproc0 = (Asleep t :: (unit, kproc) outcome) \<and> pstate (ptable t 2) = ZOMBIE \<and>
    parent (ptable t 3) = Some 0 \<and> pstate (ptable t 1) = RUNNABLE"
proof -
  have "initproc kproc0 \<noteq> Some 2" "parent (ptable kproc0 2) \<noteq> Some 2"
    by (simp_all add: kproc0_table)
  from exit_hands_over [OF kproc0_mach(5,3,4) kproc0_table(3) this]
  obtain t where "exit_tail 2 kproc0 = (Asleep t :: (unit, kproc) outcome)" "pstate (ptable t 2) = ZOMBIE"
    and a: "\<And>j. j < NPROC \<Longrightarrow> parent (ptable kproc0 j) = Some 2 \<Longrightarrow> parent (ptable t j) = initproc kproc0"
    and b: "\<And>q. q < NPROC \<Longrightarrow> parent (ptable kproc0 2) = Some q \<Longrightarrow> pstate (ptable kproc0 q) = SLEEPING \<Longrightarrow>
      chan (ptable kproc0 q) = Some (ChanProc q) \<Longrightarrow> pstate (ptable t q) = RUNNABLE"
    by blast
  moreover have "parent (ptable t 3) = Some 0"
    using a [OF kproc0_table(5,11)] kproc0_table(1) by simp
  moreover have "pstate (ptable t 1) = RUNNABLE" by (rule b [OF kproc0_table(4,9,7,8)])
  ultimately show ?thesis by blast
qed

lemma wait_outcomes_witness:
  "\<exists>t. wait kproc0 = Ret 4 t \<and> pstate (ptable t 3) = UNUSED \<and> pstate (ptable t 1) = SLEEPING"
proof -
  let ?g = "kproc0\<lparr>mach := grab PtableLock (mach kproc0)\<rparr>"
  have fnd: "find (\<lambda>i. parent (ptable kproc0 i) = Some 2 \<and> pstate (ptable kproc0 i) = ZOMBIE) [0..<NPROC] = Some 3"
    by (auto simp: find_upt_Some NPROC_def kproc0_def idle_proc_def)
  have only3: "p = 3" if "p < NPROC" "parent (ptable kproc0 p) = Some 2" for p
    using that by (auto simp: kproc0_def idle_proc_def split: if_splits)
  have k: "kmem_lock_ok ?g" using kproc0_mach(1,2) by (simp add: kmem_lock_ok_def)
  have pk: "page_ok (kernel_end ?g) 0x80300000" "page_ok (kernel_end ?g) 0x80301000"
    by (simp_all add: page_ok_def PGSIZE_def V2P_def KERNBASE_def PHYSTOP_def kproc0_def)
  define h where "h = ?g\<lparr>ram := freed_ram (ram ?g) 0x80300000 (freelist ?g), freelist := 0x80300000,
      ptable := (ptable ?g)(3 := (ptable ?g 3)\<lparr>kstack := 0\<rparr>)\<rparr>"
  have hk: "kmem_lock_ok h" "kernel_end h = kernel_end ?g" using k by (simp_all add: h_def kmem_lock_ok_def)
  have z: "ld32 (ram h) (0x80301000 + 4 * i) = 0" if i: "unat i < 1024" for i
  proof -
    have sp: "same_page (ram ?g) (ram h) 0x80301000" unfolding h_def by (simp add: freed_ram_other)
    have "ram h (0x80301000 + 4 * i + of_nat n) = 0" if n: "n < 4" for n
    proof -
      have "ram h (0x80301000 + of_nat (4 * unat i + n)) = ram ?g (0x80301000 + of_nat (4 * unat i + n))"
        by (rule sp [unfolded same_page_def, rule_format]) (use i n in linarith)
      then show ?thesis by (simp add: kproc0_def algebra_simps)
    qed
    from this [of 0] this [of 1] this [of 2] this [of 3] show ?thesis by (simp add: ld32_def)
  qed
  have "freevm 0x80301000 h = kfree 0x80301000 h" using z by (intro freevm_empty) simp_all
  also have "\<dots> = Ret () (h\<lparr>ram := freed_ram (ram h) 0x80301000 (freelist h), freelist := 0x80301000\<rparr>)"
    using pk(2) hk by (intro kfree_run) simp_all
  finally have fv: "\<exists>u. freevm 0x80301000 h = Ret () u" by blast
  have kf: "kfree 0x80300000 ?g = Ret () (?g\<lparr>ram := freed_ram (ram ?g) 0x80300000 (freelist ?g), freelist := 0x80300000\<rparr>)"
    using pk(1) k by (rule kfree_run)
  have fp: "\<exists>u. free_proc_memory 3 ?g = Ret () u"
    using fv kf kproc0_table(14,15) by (simp add: free_proc_memory_def h_def)
  have "\<forall>p<NPROC. parent (ptable kproc0 p) = Some 2 \<and> pstate (ptable kproc0 p) = ZOMBIE \<longrightarrow>
      (\<exists>u. free_proc_memory p ?g = Ret () u)"
    using only3 fp by blast
  from wait_outcomes [OF kproc0_mach(5) k kproc0_mach(3) this] fnd
  obtain t where "wait kproc0 = Ret (sint (pid (ptable kproc0 3))) t"
    "ptable t = (ptable kproc0)(3 := cleared (ptable kproc0 3))" by auto
  then show ?thesis using kproc0_table by (simp add: cleared_def)
qed

lemma kproc0_inv: "sched_inv (kproc0, InProc 2)"
  using kproc0_mach kproc0_table(3)
  by (auto simp: sched_inv_def running_only_def) (auto simp: kproc0_def idle_proc_def split: if_splits)


subsection \<open>Sleep, wakeup and kill as their callers see them\<close>


text \<open>C19: kill. It finds the first entry with the pid, marks that process killed, makes it
  RUNNABLE if it was asleep and changes nothing else; it returns 0 exactly when there is such an
  entry and otherwise -1 with the state unchanged.\<close>

theorem kill_outcomes:
  assumes "lock_ready PtableLock (mach s)"
  shows "if \<exists>p<NPROC. pid (ptable s p) = pd
    then \<exists>p<NPROC. \<exists>t. pid (ptable s p) = pd \<and> (\<forall>j<p. pid (ptable s j) \<noteq> pd) \<and>
      kill pd s = Ret 0 t \<and> mach t = mach s \<and> killed (ptable t p) \<and>
      pstate (ptable t p) = (if pstate (ptable s p) = SLEEPING then RUNNABLE else pstate (ptable s p)) \<and>
      (\<forall>q. q \<noteq> p \<longrightarrow> ptable t q = ptable s q)
    else kill pd s = Ret (- 1) s"
proof (cases "find (\<lambda>i. pid (ptable s i) = pd) [0..<NPROC]")
  case None
  then have "\<not> (\<exists>p<NPROC. pid (ptable s p) = pd)" by (simp add: find_upt_None)
  then show ?thesis using kill_run [OF assms, of pd] None by simp
next
  case (Some p)
  then have p: "p < NPROC" "pid (ptable s p) = pd" "\<forall>j<p. pid (ptable s j) \<noteq> pd"
    by (simp_all add: find_upt_Some)
  then show ?thesis
    using kill_run [OF assms, of pd] Some
    by (auto simp: kill_proc_def intro!: exI [of _ p])
qed


lemma kill_outcomes_witness:
  "(\<exists>t. kill 2 kproc0 = Ret 0 t) \<and> kill 99 kproc0 = Ret (- 1) kproc0"
proof -
  have "pid (ptable kproc0 1) = 2" "\<not> (\<exists>p<NPROC. pid (ptable kproc0 p) = 99)"
    by (simp_all add: kproc0_def idle_proc_def)
  with kill_outcomes [OF kproc0_mach(5), of 2] kill_outcomes [OF kproc0_mach(5), of 99] kproc0_table(4)
  show ?thesis by (metis (no_types, lifting))
qed

end
