(* ===== verification/Sleeplock.thy ===== *)
theory Sleeplock
  imports ProcLife
begin

section \<open>Sleep locks (sleeplock.c, sleeplock.h)\<close>

text \<open>
  A sleep lock is named by what it protects, a buffer or an in-memory inode; its spin lock is
  \<open>SleepSpin\<close> of that name and its channel \<open>ChanSleep\<close>. The loop of acquiresleep ends
  either with the lock taken or in sleep; \<open>acquiresleep_resume\<close> is the rest after sleep.
\<close>

record sleeplock =
  sl_locked :: bool
  sl_name :: string
  sl_pid :: u32

record kslp = kproc +
  slocks :: "sleepid \<Rightarrow> sleeplock"

lemma kproc_update_order [simp]:
  fixes s :: "'z kproc_scheme"
  shows
    "mach_update f1 (ptable_update g1 s) = ptable_update g1 (mach_update f1 s)"
  by simp_all

lemma kslp_update_order [simp]:
  fixes s :: "'z kslp_scheme"
  shows
    "mach_update f2 (slocks_update g2 s) = slocks_update g2 (mach_update f2 s)"
    "ptable_update f3 (slocks_update g3 s) = slocks_update g3 (ptable_update f3 s)"
  by simp_all

definition set_slock :: "sleepid \<Rightarrow> (sleeplock \<Rightarrow> sleeplock) \<Rightarrow> ('z kslp_scheme, unit) km" where
  "set_slock lk f = modf (\<lambda>s. s\<lparr>slocks := (slocks s)(lk := f (slocks s lk))\<rparr>)"

definition initsleeplock :: "sleepid \<Rightarrow> string \<Rightarrow> ('z kslp_scheme, unit) km" where
  "initsleeplock lk nm =
     thn (initlock (SleepSpin lk) ''sleep lock'') (
     thn (set_slock lk (\<lambda>l. l\<lparr>sl_name := nm\<rparr>)) (
     thn (set_slock lk (\<lambda>l. l\<lparr>sl_locked := False\<rparr>))
         (set_slock lk (\<lambda>l. l\<lparr>sl_pid := 0\<rparr>))))"

definition my_pid :: "('z kslp_scheme, u32) km" where
  "my_pid = bnd myproc (\<lambda>mp. bnd (need ''no process'' mp) (\<lambda>p. bnd (get_proc p) (\<lambda>q. ret (pid q))))"

definition acquiresleep_loop :: "sleepid \<Rightarrow> ('z kslp_scheme, unit) km" where
  "acquiresleep_loop lk =
     bnd (gets (\<lambda>s. sl_locked (slocks s lk))) (\<lambda>l.
     if l then sleep (ChanSleep lk) (SleepSpin lk)
     else thn (set_slock lk (\<lambda>l. l\<lparr>sl_locked := True\<rparr>)) (
       bnd my_pid (\<lambda>pd.
       thn (set_slock lk (\<lambda>l. l\<lparr>sl_pid := pd\<rparr>)) (release (SleepSpin lk)))))"

definition acquiresleep :: "sleepid \<Rightarrow> ('z kslp_scheme, unit) km" where
  "acquiresleep lk = thn (acquire (SleepSpin lk)) (acquiresleep_loop lk)"

definition acquiresleep_resume :: "sleepid \<Rightarrow> ('z kslp_scheme, unit) km" where
  "acquiresleep_resume lk = thn (sleep_resume (SleepSpin lk)) (acquiresleep_loop lk)"

definition releasesleep :: "sleepid \<Rightarrow> ('z kslp_scheme, unit) km" where
  "releasesleep lk =
     thn (acquire (SleepSpin lk)) (
     thn (set_slock lk (\<lambda>l. l\<lparr>sl_locked := False\<rparr>)) (
     thn (set_slock lk (\<lambda>l. l\<lparr>sl_pid := 0\<rparr>)) (
     thn (wakeup (ChanSleep lk)) (release (SleepSpin lk)))))"

definition holdingsleep :: "sleepid \<Rightarrow> ('z kslp_scheme, bool) km" where
  "holdingsleep lk =
     thn (acquire (SleepSpin lk)) (
     bnd (gets (\<lambda>s. slocks s lk)) (\<lambda>l.
     bnd (if sl_locked l then bnd my_pid (\<lambda>pd. ret (sl_pid l = pd)) else ret False) (\<lambda>r.
     thn (release (SleepSpin lk)) (ret r))))"

subsection \<open>Execution in a process that holds no spin lock\<close>

text \<open>
  \<open>at_rest p s\<close>: process \<open>p\<close> runs kernel code on this CPU, every spin lock is free,
  no interrupt is disabled by pushcli, and the process has a stack and a page directory. The
  operations of the layers above begin and end in such states.
\<close>

definition at_rest :: "nat \<Rightarrow> 'z kproc_scheme \<Rightarrow> bool" where
  "at_rest p s \<longleftrightarrow> cpu_ok (mach s) \<and> (\<forall>lk. lk_free (mach s) lk) \<and> cur_proc (mach s) = Some p \<and>
     ncli (my_cpu (mach s)) = 0 \<and> p < NPROC \<and> pstate (ptable s p) = RUNNING \<and>
     kstack (ptable s p) \<noteq> 0 \<and> pgdir (ptable s p) \<noteq> 0"

definition slheld :: "nat \<Rightarrow> 'z kslp_scheme \<Rightarrow> sleepid \<Rightarrow> bool" where
  "slheld p s lk \<longleftrightarrow> sl_locked (slocks s lk) \<and> sl_pid (slocks s lk) = pid (ptable s p)"

lemma at_restD:
  assumes "at_rest p s"
  shows "cpu_ok (mach s)" "lk_free (mach s) lk" "cur_proc (mach s) = Some p" "ncli (my_cpu (mach s)) = 0"
    "lock_ready lk (mach s)" "p < NPROC" "pstate (ptable s p) = RUNNING"
  using assms by (auto simp: at_rest_def lock_ready_def)

lemma at_rest_acquire:
  assumes "at_rest p s"
  shows "acquire lk s = Ret () (s\<lparr>mach := grab lk (mach s)\<rparr>)"
    and "cpu_ok (grab lk (mach s))" and "held (grab lk (mach s)) lk"
    and "0 < ncli (my_cpu (grab lk (mach s)))" and "drop_lk lk (grab lk (mach s)) = mach s"
    and "cur_proc (grab lk (mach s)) = Some p"
  using lock_ready_run [OF at_restD(5) [OF assms, of lk]] at_restD(3) [OF assms] by simp_all

lemma my_pid_run:
  "cpu_ok (mach s) \<Longrightarrow> cur_proc (mach s) = Some p \<Longrightarrow> my_pid s = Ret (pid (ptable s p)) s"
  by (simp add: my_pid_def)

lemma holdingsleep_run:
  assumes "at_rest p s"
  shows "holdingsleep lk s = Ret (slheld p s lk) s"
  using at_rest_acquire [OF assms, of "SleepSpin lk"]
  by (auto simp: holdingsleep_def my_pid_run [of _ p] slheld_def)

lemma acquiresleep_run:
  assumes "at_rest p s" and "\<not> sl_locked (slocks s lk)"
  shows "acquiresleep lk s = Ret () (s\<lparr>slocks := (slocks s)(lk :=
    (slocks s lk)\<lparr>sl_locked := True, sl_pid := pid (ptable s p)\<rparr>)\<rparr>)"
  using at_rest_acquire [OF assms(1), of "SleepSpin lk"] assms(2)
  by (simp add: acquiresleep_def acquiresleep_loop_def set_slock_def my_pid_run [of _ p])

lemma acquiresleep_blocks:
  assumes "at_rest p s" and "sl_locked (slocks s lk)"
  shows "\<exists>t. acquiresleep lk s = Asleep t \<and> pstate (ptable t p) = SLEEPING \<and>
    chan (ptable t p) = Some (ChanSleep lk) \<and> slocks t = slocks s \<and> lk_free (mach t) (SleepSpin lk)"
proof -
  note r = at_rest_acquire [OF assms(1), of "SleepSpin lk"]
  let ?g = "s\<lparr>mach := grab (SleepSpin lk) (mach s)\<rparr>"
  have "sleep (ChanSleep lk) (SleepSpin lk) ?g = (Asleep (?g\<lparr>
      mach := drop_lk (SleepSpin lk) (grab PtableLock (mach ?g)),
      ptable := (ptable ?g)(p := asleep_on (ChanSleep lk) (intena (my_cpu (mach ?g))) (ptable ?g p))\<rparr>) :: (unit, _) outcome)"
    using r at_restD [OF assms(1)] by (intro sleep_run) simp_all
  then show ?thesis
    using r assms(2) by (simp add: acquiresleep_def acquiresleep_loop_def asleep_on_def)
qed

lemma releasesleep_run:
  assumes "at_rest p s"
  shows "releasesleep lk s = Ret () (s\<lparr>ptable := wake_all (Some (ChanSleep lk)) (ptable s),
    slocks := (slocks s)(lk := (slocks s lk)\<lparr>sl_locked := False, sl_pid := 0\<rparr>)\<rparr>)"
proof -
  note r = at_rest_acquire [OF assms, of "SleepSpin lk"]
  have lr: "lock_ready PtableLock (grab (SleepSpin lk) (mach s))"
    using r at_restD [OF assms] by (simp add: lock_ready_def)
  show ?thesis
    using r lr
    by (simp add: releasesleep_def set_slock_def wakeup_run)
qed

lemma wake_all_running [simp]:
  "pstate (t p) = RUNNING \<Longrightarrow> wake_all ch t p = t p"
  "pid (wake_all ch t q) = pid (t q)" "kstack (wake_all ch t q) = kstack (t q)"
  "pgdir (wake_all ch t q) = pgdir (t q)"
  by (simp_all add: wake_all_def)

lemma at_rest_cong:
  "mach t = mach s \<Longrightarrow> ptable t p = ptable s p \<Longrightarrow> at_rest p t = at_rest p s"
  by (simp add: at_rest_def)

lemma leave_cpu:
  fixes t :: "'z kproc_scheme"
  assumes "cpu_ok (mach t)" and "held (mach t) PtableLock" and "ncli (my_cpu (mach t)) = 1"
    and "\<And>lk. lk \<noteq> PtableLock \<Longrightarrow> lk_free (mach t) lk"
  shows "\<exists>m. thn scheduler_back scheduler_end t = Ret () (t\<lparr>mach := m\<rparr>) \<and> cpu_ok m \<and>
    (\<forall>lk. lk_free m lk) \<and> ncli (my_cpu m) = 0"
proof -
  let ?m1 = "upd_my_cpu (\<lambda>k. k\<lparr>cproc := None\<rparr>) ((mach t)\<lparr>cr3 := V2P (kpgdir t)\<rparr>)"
  let ?m2 = "drop_lk PtableLock ?m1"
  have 1: "scheduler_back t = Ret () (t\<lparr>mach := ?m1\<rparr>)"
    using assms by (intro scheduler_back_run) simp_all
  have m1: "cpu_ok ?m1" "held ?m1 PtableLock" "ncli (my_cpu ?m1) = 1"
    using assms by simp_all
  have 2: "scheduler_end (t\<lparr>mach := ?m1\<rparr>) = Ret () (t\<lparr>mach := ?m2\<rparr>)"
    using m1 release_run [of "t\<lparr>mach := ?m1\<rparr>" PtableLock] by (simp add: scheduler_end_def)
  have m2: "cpu_ok ?m2" "ncli (my_cpu ?m2) = 0"
    using m1 by simp_all
  have fr: "lk_free ?m2 lk" for lk
    using assms(4) [of lk] by (cases "lk = PtableLock") simp_all
  show ?thesis
    by (rule exI [of _ ?m2]) (use 1 2 m2 fr in \<open>simp only: thn_run obind.simps, blast\<close>)
qed

lemma enter_cpu:
  fixes u :: "'z kproc_scheme"
  assumes "cpu_ok (mach u)" and "\<And>lk. lk_free (mach u) lk" and "ncli (my_cpu (mach u)) = 0"
    and "kstack (ptable u p) \<noteq> 0" and "pgdir (ptable u p) \<noteq> 0"
  shows "\<exists>m. thn scheduler_begin (scheduler_switch p) u =
      Ret () (u\<lparr>mach := m, ptable := (ptable u)(p := (ptable u p)\<lparr>pstate := RUNNING\<rparr>)\<rparr>) \<and>
    cpu_ok m \<and> held m PtableLock \<and> ncli (my_cpu m) = 1 \<and> cur_proc m = Some p \<and>
    (\<forall>lk. lk \<noteq> PtableLock \<longrightarrow> lk_free m lk)"
proof -
  define m0 where "m0 = upd_my_cpu (\<lambda>k. k\<lparr>intena := True\<rparr>) ((mach u)\<lparr>eflags_IF := True\<rparr>)"
  define m1 where "m1 = grab PtableLock m0"
  have f: "find_cpu (mach u) \<noteq> None" using assms(1) by (auto simp: cpu_ok_def)
  have 1: "scheduler_begin u = Ret () (u\<lparr>mach := m1\<rparr>)"
    unfolding m1_def m0_def using f assms(3,2) by (rule scheduler_begin_run)
  have ok0: "cpu_ok m0" unfolding m0_def using f assms(3) by (simp add: cpu_ok_def)
  have fr0: "lk_free m0 lk" for lk unfolding m0_def using assms(2) by simp
  have m1: "cpu_ok m1" "held m1 PtableLock" "\<And>lk. lk \<noteq> PtableLock \<Longrightarrow> lk_free m1 lk"
    using ok0 fr0 by (simp_all add: m1_def)
  have n1: "ncli (my_cpu m1) = 1" unfolding m1_def m0_def using assms(3) by simp
  let ?m = "cli_out ((upd_my_cpu (\<lambda>k. k\<lparr>ts_esp0 := kstack (ptable u p) + KSTACKSIZE\<rparr>)
      (cli_in (upd_my_cpu (\<lambda>k. k\<lparr>cproc := Some p\<rparr>) m1)))\<lparr>cr3 := V2P (pgdir (ptable u p))\<rparr>)"
  have "scheduler_switch p (u\<lparr>mach := m1\<rparr>) = Ret () (u\<lparr>mach := ?m,
      ptable := (ptable u)(p := (ptable u p)\<lparr>pstate := RUNNING\<rparr>)\<rparr>)"
    using m1 n1 assms(4,5) by (subst scheduler_switch_run) simp_all
  note 2 = this
  have 3: "thn scheduler_begin (scheduler_switch p) u = Ret () (u\<lparr>mach := ?m,
      ptable := (ptable u)(p := (ptable u p)\<lparr>pstate := RUNNING\<rparr>)\<rparr>)"
    by (simp only: thn_run 1 obind.simps 2)
  note sm = switched_machine [OF m1(1) n1 refl]
  have h: "held ?m PtableLock" unfolding sm(4) by (rule m1(2))
  have fr: "lk_free ?m lk" if "lk \<noteq> PtableLock" for lk unfolding sm(5) using that by (rule m1(3))
  show ?thesis
    by (rule exI [of _ ?m], intro conjI allI impI) (rule 3 sm(1-3) h, (erule fr)?)+
qed

lemma sleep_resume_rest:
  fixes v :: "'z kproc_scheme"
  assumes "cpu_ok (mach v)" and "held (mach v) PtableLock" and "ncli (my_cpu (mach v)) = 1"
    and "cur_proc (mach v) = Some p" and "\<And>l. l \<noteq> PtableLock \<Longrightarrow> lk_free (mach v) l"
    and "lk \<noteq> PtableLock"
  shows "\<exists>m. sleep_resume lk v = Ret () (v\<lparr>mach := grab lk m, ptable := (ptable v)(p := (ptable v p)\<lparr>chan := None\<rparr>)\<rparr>) \<and>
    cpu_ok m \<and> (\<forall>l. lk_free m l) \<and> ncli (my_cpu m) = 0 \<and> cur_proc m = Some p"
proof -
  let ?u = "upd_my_cpu (\<lambda>k. k\<lparr>intena := sched_intena (ptable v p)\<rparr>) (mach v)"
  let ?m = "drop_lk PtableLock ?u"
  have m0: "cpu_ok ?u" "held ?u PtableLock" "ncli (my_cpu ?u) = 1"
    using assms(1-3) by simp_all
  have c0: "cur_proc ?u = Some p" using assms(4) by (simp add: cur_proc_def)
  have m: "cpu_ok ?m" "ncli (my_cpu ?m) = 0" "cur_proc ?m = Some p"
    using m0 c0 by (simp_all del: cur_proc_upd)
  have fr: "lk_free ?m l" for l
    using assms(5) [of l] by (cases "l = PtableLock") simp_all
  let ?w = "v\<lparr>mach := ?m, ptable := (ptable v)(p := (ptable v p)\<lparr>chan := None\<rparr>)\<rparr>"
  have "sleep_resume lk v = acquire lk ?w"
    using assms(1-4,6) by (simp add: sleep_resume_def sched_resume_run)
  also have "\<dots> = Ret () (?w\<lparr>mach := grab lk (mach ?w)\<rparr>)"
    using m fr by (intro acquire_run) simp_all
  finally have "sleep_resume lk v = Ret () (v\<lparr>mach := grab lk ?m, ptable := (ptable v)(p := (ptable v p)\<lparr>chan := None\<rparr>)\<rparr>)"
    by simp
  with m fr show ?thesis by blast
qed

end
