(* ===== verification/Ide.thy ===== *)
theory Ide
  imports Sleeplock
begin

section \<open>Buffers and the disk driver (buf.h, ide.c)\<close>

text \<open>
  A buffer is named by its index in \<open>bcache.buf\<close>; the index NBUF is the list head of the
  cache. Of \<open>flags\<close> only B_VALID and B_DIRTY are ever set, kept as two booleans. Block
  contents are functions of the offset, of which the first BSIZE bytes matter.

  The disks are hardware: \<open>disk d n\<close> is what drive \<open>d\<close> holds at sector \<open>n\<close> (a block
  is one sector, as BSIZE = SECTOR_SIZE), \<open>ide_req\<close> the request in the device's registers
  (drive, sector, write), \<open>disk_err\<close> the error bits of its status register,
  \<open>disk1_there\<close> whether a second drive answers, and \<open>disk_writes\<close> the history of the
  sector writes it has carried out, oldest first. A ready device is the only one idewait lets
  the driver talk to, so its busy wait is no step of the model.
\<close>

type_synonym block = "nat \<Rightarrow> u8"

record buf =
  bvalid :: bool
  bdirty :: bool
  bdev :: nat
  bblockno :: nat
  brefcnt :: nat
  bprev :: nat
  bnext :: nat
  bqnext :: "nat option"
  bdata :: block

record kide = kslp +
  bufs :: "nat \<Rightarrow> buf"
  idequeue :: "nat option"
  havedisk1 :: bool
  disk :: "nat \<Rightarrow> nat \<Rightarrow> block"
  ide_req :: "nat \<times> nat \<times> bool"
  disk_err :: bool
  disk1_there :: bool
  disk_writes :: "(nat \<times> nat \<times> block) list"

text \<open>Updates of the lower layers are moved innermost, so that equal states look equal.\<close>

lemma kide_update_order [simp]:
  fixes s :: "'z kide_scheme"
  shows
    "mach_update f1 (bufs_update g1 s) = bufs_update g1 (mach_update f1 s)"
    "mach_update f2 (idequeue_update g2 s) = idequeue_update g2 (mach_update f2 s)"
    "mach_update f3 (disk_update g3 s) = disk_update g3 (mach_update f3 s)"
    "mach_update f4 (ide_req_update g4 s) = ide_req_update g4 (mach_update f4 s)"
    "mach_update f5 (disk_writes_update g5 s) = disk_writes_update g5 (mach_update f5 s)"
    "mach_update f6 (havedisk1_update g6 s) = havedisk1_update g6 (mach_update f6 s)"
    "ptable_update f7 (bufs_update g7 s) = bufs_update g7 (ptable_update f7 s)"
    "ptable_update f8 (idequeue_update g8 s) = idequeue_update g8 (ptable_update f8 s)"
    "ptable_update f9 (disk_update g9 s) = disk_update g9 (ptable_update f9 s)"
    "ptable_update f10 (ide_req_update g10 s) = ide_req_update g10 (ptable_update f10 s)"
    "ptable_update f11 (disk_writes_update g11 s) = disk_writes_update g11 (ptable_update f11 s)"
    "ptable_update f12 (havedisk1_update g12 s) = havedisk1_update g12 (ptable_update f12 s)"
    "slocks_update f13 (bufs_update g13 s) = bufs_update g13 (slocks_update f13 s)"
    "slocks_update f14 (idequeue_update g14 s) = idequeue_update g14 (slocks_update f14 s)"
    "slocks_update f15 (disk_update g15 s) = disk_update g15 (slocks_update f15 s)"
    "slocks_update f16 (ide_req_update g16 s) = ide_req_update g16 (slocks_update f16 s)"
    "slocks_update f17 (disk_writes_update g17 s) = disk_writes_update g17 (slocks_update f17 s)"
    "slocks_update f18 (havedisk1_update g18 s) = havedisk1_update g18 (slocks_update f18 s)"
  by simp_all

definition NBUF :: nat where "NBUF = 30"
definition BSIZE :: nat where "BSIZE = 512"
definition FSSIZE :: nat where "FSSIZE = 1000"

definition get_buf :: "nat \<Rightarrow> ('z kide_scheme, buf) km" where
  "get_buf b = gets (\<lambda>s. bufs s b)"

definition set_buf :: "nat \<Rightarrow> (buf \<Rightarrow> buf) \<Rightarrow> ('z kide_scheme, unit) km" where
  "set_buf b f = modf (\<lambda>s. s\<lparr>bufs := (bufs s)(b := f (bufs s b))\<rparr>)"

definition idewait :: "bool \<Rightarrow> ('z kide_scheme, int) km" where
  "idewait checkerr = bnd (gets disk_err) (\<lambda>e. ret (if checkerr \<and> e then - 1 else 0))"

definition ideinit :: "('z kide_scheme, unit) km" where
  "ideinit =
     thn (initlock IdeLock ''ide'') (
     bnd (idewait False) (\<lambda>_.
     bnd (gets disk1_there) (\<lambda>h. whn h (modf (\<lambda>s. s\<lparr>havedisk1 := True\<rparr>)))))"

text \<open>
  The transfer of a write starts with the request; the device stores the sector before it
  raises the interrupt, and nothing reads the sector in between.
\<close>

definition idestart :: "nat option \<Rightarrow> ('z kide_scheme, unit) km" where
  "idestart bo =
     (case bo of None \<Rightarrow> panic ''idestart''
      | Some b \<Rightarrow>
        bnd (get_buf b) (\<lambda>x.
        if bblockno x \<ge> FSSIZE then panic ''incorrect blockno''
        else bnd (idewait False) (\<lambda>_.
          let drive = bdev x mod 2; sector = bblockno x * (BSIZE div 512) in
          thn (modf (\<lambda>s. s\<lparr>ide_req := (drive, sector, bdirty x)\<rparr>)) (
          whn (bdirty x) (
            thn (modf (\<lambda>s. s\<lparr>disk := (disk s)(drive := (disk s drive)(sector := bdata x))\<rparr>))
                (modf (\<lambda>s. s\<lparr>disk_writes := disk_writes s @ [(drive, sector, bdata x)]\<rparr>)))))))"

definition ideintr :: "('z kide_scheme, unit) km" where
  "ideintr =
     thn (acquire IdeLock) (
     bnd (gets idequeue) (\<lambda>q.
     case q of
       None \<Rightarrow> release IdeLock
     | Some b \<Rightarrow>
       bnd (get_buf b) (\<lambda>x.
       thn (modf (\<lambda>s. s\<lparr>idequeue := bqnext x\<rparr>)) (
       thn (if bdirty x then ret () else
              bnd (idewait True) (\<lambda>r.
              whn (r \<ge> 0) (bnd (gets (\<lambda>s. disk s (fst (ide_req s)) (fst (snd (ide_req s))))) (\<lambda>d.
                set_buf b (\<lambda>x. x\<lparr>bdata := d\<rparr>))))) (
       thn (set_buf b (\<lambda>x. x\<lparr>bvalid := True\<rparr>)) (
       thn (set_buf b (\<lambda>x. x\<lparr>bdirty := False\<rparr>)) (
       thn (wakeup (ChanBuf b)) (
       bnd (gets idequeue) (\<lambda>q'.
       thn (whn (q' \<noteq> None) (idestart q')) (
       release IdeLock))))))))))"

text \<open>The walk along \<open>qnext\<close> to the last element; a queue has at most NBUF elements.\<close>

primrec queue_last :: "nat \<Rightarrow> nat \<Rightarrow> ('z kide_scheme, nat) km" where
  "queue_last 0 b = (\<lambda>s. Spin)"
| "queue_last (Suc n) b =
     bnd (get_buf b) (\<lambda>x. case bqnext x of None \<Rightarrow> ret b | Some c \<Rightarrow> queue_last n c)"

definition queue_append :: "nat \<Rightarrow> ('z kide_scheme, unit) km" where
  "queue_append b =
     bnd (gets idequeue) (\<lambda>q.
     case q of
       None \<Rightarrow> modf (\<lambda>s. s\<lparr>idequeue := Some b\<rparr>)
     | Some h \<Rightarrow> bnd (queue_last NBUF h) (\<lambda>l. set_buf l (\<lambda>x. x\<lparr>bqnext := Some b\<rparr>)))"

definition iderw_wait :: "nat \<Rightarrow> ('z kide_scheme, unit) km" where
  "iderw_wait b =
     bnd (get_buf b) (\<lambda>x.
     if bvalid x \<and> \<not> bdirty x then release IdeLock
     else sleep (ChanBuf b) IdeLock)"

definition iderw_start :: "nat \<Rightarrow> ('z kide_scheme, unit) km" where
  "iderw_start b =
     bnd (holdingsleep (BufSleep b)) (\<lambda>h.
     if \<not> h then panic ''iderw: buf not locked''
     else bnd (get_buf b) (\<lambda>x.
       if bvalid x \<and> \<not> bdirty x then panic ''iderw: nothing to do''
       else bnd (gets havedisk1) (\<lambda>d1.
         if bdev x \<noteq> 0 \<and> \<not> d1 then panic ''iderw: ide disk 1 not present''
         else thn (acquire IdeLock) (
           thn (set_buf b (\<lambda>x. x\<lparr>bqnext := None\<rparr>)) (
           thn (queue_append b) (
           bnd (gets idequeue) (\<lambda>q. whn (q = Some b) (idestart (Some b)))))))))"

definition iderw_resume :: "nat \<Rightarrow> ('z kide_scheme, unit) km" where
  "iderw_resume b = thn (sleep_resume IdeLock) (iderw_wait b)"

text \<open>
  While a process sleeps in iderw the CPU is in the scheduler with interrupts enabled, and the
  disk interrupts until the process is RUNNABLE again. \<open>disk_idle\<close> is that stretch for one
  process on an otherwise idle machine (at most NBUF requests are queued), from swtch to
  scheduler to swtch back; \<open>iderw\<close> is the call as its caller sees it there.
\<close>

primrec interrupts_until :: "nat \<Rightarrow> nat \<Rightarrow> ('z kide_scheme, unit) km" where
  "interrupts_until 0 p = (\<lambda>s. Spin)"
| "interrupts_until (Suc n) p =
     bnd (get_proc p) (\<lambda>q. if pstate q = RUNNABLE then ret () else thn ideintr (interrupts_until n p))"

definition disk_idle :: "nat \<Rightarrow> ('z kide_scheme, unit) km" where
  "disk_idle p =
     thn scheduler_back (
     thn scheduler_end (
     thn (interrupts_until (Suc NBUF) p) (
     thn scheduler_begin (scheduler_switch p))))"

definition after_sleep :: "('z kide_scheme, unit) km \<Rightarrow> (unit, 'z kide_scheme) outcome \<Rightarrow> (unit, 'z kide_scheme) outcome" where
  "after_sleep k r = (case r of Asleep t \<Rightarrow> k t | _ \<Rightarrow> r)"

definition iderw :: "nat \<Rightarrow> ('z kide_scheme, unit) km" where
  "iderw b s = obind (myproc s) (\<lambda>mp.
     bnd (need ''iderw: no process'' mp) (\<lambda>p t.
       after_sleep (thn (disk_idle p) (iderw_resume b)) (thn (iderw_start b) (iderw_wait b) t)))"

subsection \<open>A disk request from start to end\<close>

lemma get_buf_run [simp]: "get_buf b s = Ret (bufs s b) s"
  by (simp add: get_buf_def)

lemma set_buf_run [simp]: "set_buf b f s = Ret () (s\<lparr>bufs := (bufs s)(b := f (bufs s b))\<rparr>)"
  by (simp add: set_buf_def)

lemma idewait_run [simp]: "idewait c s = Ret (if c \<and> disk_err s then - 1 else 0) s"
  by (simp add: idewait_def)

text \<open>What a request does: a dirty buffer goes to its sector, a clean one is filled from it.\<close>

definition drive_of :: "buf \<Rightarrow> nat" where "drive_of x = bdev x mod 2"

definition req_disk :: "buf \<Rightarrow> (nat \<Rightarrow> nat \<Rightarrow> block) \<Rightarrow> nat \<Rightarrow> nat \<Rightarrow> block" where
  "req_disk x d = (if bdirty x then d(drive_of x := (d (drive_of x))(bblockno x := bdata x)) else d)"

definition req_writes :: "buf \<Rightarrow> (nat \<times> nat \<times> block) list \<Rightarrow> (nat \<times> nat \<times> block) list" where
  "req_writes x ws = (if bdirty x then ws @ [(drive_of x, bblockno x, bdata x)] else ws)"

definition req_buf :: "bool \<Rightarrow> (nat \<Rightarrow> nat \<Rightarrow> block) \<Rightarrow> buf \<Rightarrow> buf" where
  "req_buf e d x = x\<lparr>bqnext := None,
     bdata := (if bdirty x \<or> e then bdata x else d (drive_of x) (bblockno x)),
     bvalid := True, bdirty := False\<rparr>"

lemma idestart_run:
  assumes "bblockno (bufs s b) < FSSIZE"
  shows "idestart (Some b) s = Ret () (let x = bufs s b;
      t = s\<lparr>ide_req := (drive_of x, bblockno x, bdirty x)\<rparr>
    in if bdirty x then t\<lparr>disk := req_disk x (disk s), disk_writes := req_writes x (disk_writes s)\<rparr> else t)"
  using assms by (simp add: idestart_def Let_def req_disk_def req_writes_def drive_of_def BSIZE_def)

definition request_ok :: "nat \<Rightarrow> 'z kide_scheme \<Rightarrow> nat \<Rightarrow> bool" where
  "request_ok p s b \<longleftrightarrow> at_rest p s \<and> slheld p s (BufSleep b) \<and> idequeue s = None \<and>
     \<not> (bvalid (bufs s b) \<and> \<not> bdirty (bufs s b)) \<and> (bdev (bufs s b) = 0 \<or> havedisk1 s) \<and>
     bblockno (bufs s b) < FSSIZE"

text \<open>The state in which the process has issued its request and gone to sleep.\<close>

definition issued :: "nat \<Rightarrow> nat \<Rightarrow> 'z kide_scheme \<Rightarrow> 'z kide_scheme" where
  "issued p b s = (let x = bufs s b in
     s\<lparr>mach := drop_lk IdeLock (grab PtableLock (grab IdeLock (mach s))),
       ptable := (ptable s)(p := asleep_on (ChanBuf b) (intena (my_cpu (mach s))) (ptable s p)),
       bufs := (bufs s)(b := x\<lparr>bqnext := None\<rparr>), idequeue := Some b,
       disk := req_disk x (disk s), ide_req := (drive_of x, bblockno x, bdirty x),
       disk_writes := req_writes x (disk_writes s)\<rparr>)"

lemma iderw_issues:
  assumes "request_ok p s b"
  shows "thn (iderw_start b) (iderw_wait b) s = Asleep (issued p b s)"
proof -
  have r: "at_rest p s" and h: "slheld p s (BufSleep b)" and q: "idequeue s = None"
    and f: "\<not> (bvalid (bufs s b) \<and> \<not> bdirty (bufs s b))" and d: "bdev (bufs s b) = 0 \<or> havedisk1 s"
    and n: "bblockno (bufs s b) < FSSIZE"
    using assms by (auto simp: request_ok_def)
  note a = at_rest_acquire [OF r, of IdeLock]
  let ?x = "(bufs s b)\<lparr>bqnext := None\<rparr>"
  let ?u = "s\<lparr>mach := grab IdeLock (mach s), bufs := (bufs s)(b := ?x), idequeue := Some b\<rparr>"
  let ?v = "?u\<lparr>disk := req_disk (bufs s b) (disk s), ide_req := (drive_of ?x, bblockno ?x, bdirty ?x),
       disk_writes := req_writes (bufs s b) (disk_writes s)\<rparr>"
  have st: "idestart (Some b) ?u = Ret () ?v"
    using n by (subst idestart_run) (auto simp: Let_def req_disk_def req_writes_def drive_of_def)
  have i: "iderw_start b s = Ret () ?v"
    using holdingsleep_run [OF r, of "BufSleep b"] h a q f d st
    by (auto simp: iderw_start_def queue_append_def)
  have w: "iderw_wait b ?v = sleep (ChanBuf b) IdeLock ?v"
  proof -
    have nb: "\<not> (bvalid (bufs ?v b) \<and> \<not> bdirty (bufs ?v b))" using f by simp
    show ?thesis by (simp only: iderw_wait_def bnd_run get_buf_run obind.simps nb if_False)
  qed
  have sl: "sleep (ChanBuf b) IdeLock ?v = (Asleep (?v\<lparr>mach := drop_lk IdeLock (grab PtableLock (mach ?v)),
      ptable := (ptable ?v)(p := asleep_on (ChanBuf b) (intena (my_cpu (mach ?v))) (ptable ?v p))\<rparr>)
      :: (unit, _) outcome)"
    using a at_restD [OF r] by (intro sleep_run) simp_all
  have "thn (iderw_start b) (iderw_wait b) s = Asleep (?v\<lparr>mach := drop_lk IdeLock (grab PtableLock (mach ?v)),
      ptable := (ptable ?v)(p := asleep_on (ChanBuf b) (intena (my_cpu (mach ?v))) (ptable ?v p))\<rparr>)"
    by (simp only: thn_run i obind.simps w sl)
  then show ?thesis by (simp add: issued_def Let_def drive_of_def)
qed

text \<open>Everything of a process except its scheduling state.\<close>

definition proc_core :: "proc \<Rightarrow> proc" where
  "proc_core q = q\<lparr>pstate := UNUSED, chan := None, sched_intena := False\<rparr>"

definition same_core :: "(nat \<Rightarrow> proc) \<Rightarrow> (nat \<Rightarrow> proc) \<Rightarrow> bool" where
  "same_core t t' \<longleftrightarrow> (\<forall>q. proc_core (t' q) = proc_core (t q))"

lemma same_core_refl [simp, intro]: "same_core t t"
  by (simp add: same_core_def)

lemma same_core_trans: "same_core t t' \<Longrightarrow> same_core t' t'' \<Longrightarrow> same_core t t''"
  by (simp add: same_core_def)

lemma same_core_wake [simp, intro]: "same_core t (wake_all ch t)"
  by (simp add: same_core_def wake_all_def proc_core_def)

lemma same_coreD:
  assumes "same_core t t'"
  shows "pid (t' q) = pid (t q)" "kstack (t' q) = kstack (t q)" "pgdir (t' q) = pgdir (t q)"
    "sz (t' q) = sz (t q)" "ofile (t' q) = ofile (t q)" "cwd (t' q) = cwd (t q)"
    "killed (t' q) = killed (t q)" "parent (t' q) = parent (t q)"
proof -
  have e: "proc_core (t' q) = proc_core (t q)" using assms by (simp add: same_core_def)
  show "pid (t' q) = pid (t q)" "kstack (t' q) = kstack (t q)" "pgdir (t' q) = pgdir (t q)"
    "sz (t' q) = sz (t q)" "ofile (t' q) = ofile (t q)" "cwd (t' q) = cwd (t q)"
    "killed (t' q) = killed (t q)" "parent (t' q) = parent (t q)"
    using arg_cong [OF e, of pid] arg_cong [OF e, of kstack] arg_cong [OF e, of pgdir]
      arg_cong [OF e, of sz] arg_cong [OF e, of ofile] arg_cong [OF e, of cwd]
      arg_cong [OF e, of killed] arg_cong [OF e, of parent]
    by (simp_all add: proc_core_def)
qed

lemma ideintr_run:
  assumes "cpu_ok (mach u)" and "\<And>lk. lk_free (mach u) lk" and "idequeue u = Some b"
    and "bqnext (bufs u b) = None"
  shows "ideintr u = Ret () (u\<lparr>ptable := wake_all (Some (ChanBuf b)) (ptable u),
    bufs := (bufs u)(b := (let x = bufs u b in x\<lparr>bdata := (if bdirty x \<or> disk_err u then bdata x
        else disk u (fst (ide_req u)) (fst (snd (ide_req u)))), bvalid := True, bdirty := False\<rparr>)),
    idequeue := None\<rparr>)"
proof -
  have lr: "lock_ready IdeLock (mach u)" using assms by (simp add: lock_ready_def)
  note l = lock_ready_run [OF lr]
  have wr: "lock_ready PtableLock (grab IdeLock (mach u))" using assms l by (simp add: lock_ready_def)
  then have w: "wakeup ch v = Ret () (v\<lparr>ptable := wake_all (Some ch) (ptable v)\<rparr>)"
    if "mach v = grab IdeLock (mach u)" for v :: "'a kide_scheme" and ch
    using that wakeup_run [of v ch] by simp
  show ?thesis
    using l assms(3,4) w
    by (cases "bdirty (bufs u b)"; cases "disk_err u") (simp_all add: ideintr_def Let_def)
qed

text \<open>The round trip of the CPU through the scheduler while the request is served.\<close>

definition served :: "nat \<Rightarrow> nat \<Rightarrow> 'z kide_scheme \<Rightarrow> machine \<Rightarrow> (nat \<Rightarrow> proc) \<Rightarrow> 'z kide_scheme" where
  "served p b s m tb = (let x = bufs s b in
     s\<lparr>mach := m, ptable := tb, bufs := (bufs s)(b := req_buf (disk_err s) (disk s) x),
       idequeue := None, disk := req_disk x (disk s), ide_req := (drive_of x, bblockno x, bdirty x),
       disk_writes := req_writes x (disk_writes s)\<rparr>)"

lemma interrupts_once:
  assumes "cpu_ok (mach u)" and "\<And>lk. lk_free (mach u) lk" and "idequeue u = Some b"
    and "bqnext (bufs u b) = None" and "p < NPROC"
    and "pstate (ptable u p) = SLEEPING" and "chan (ptable u p) = Some (ChanBuf b)"
  shows "interrupts_until (Suc NBUF) p u = ideintr u"
proof -
  have "pstate (wake_all (Some (ChanBuf b)) (ptable u) p) = RUNNABLE"
    using assms(5-7) by (simp add: wake_all_def)
  then show ?thesis
    using ideintr_run [OF assms(1-4)] assms(6) by (simp add: NBUF_def numeral_eq_Suc)
qed

lemma iderw_serves:
  assumes "request_ok p s b"
  shows "\<exists>m tb. thn (disk_idle p) (iderw_resume b) (issued p b s) = Ret () (served p b s m tb) \<and>
    at_rest p (served p b s m tb) \<and> same_core (ptable s) tb"
proof -
  define t where "t = issued p b s"
  have r: "at_rest p s" using assms by (simp add: request_ok_def)
  note a = at_rest_acquire [OF r, of IdeLock] and rd = at_restD [OF r]
  have ks: "kstack (ptable s p) \<noteq> 0" "pgdir (ptable s p) \<noteq> 0" using r by (auto simp: at_rest_def)
  have mt: "mach t = drop_lk IdeLock (grab PtableLock (grab IdeLock (mach s)))"
    by (simp add: t_def issued_def Let_def)
  have tm: "cpu_ok (mach t)" "held (mach t) PtableLock" "ncli (my_cpu (mach t)) = 1"
    "lk \<noteq> PtableLock \<Longrightarrow> lk_free (mach t) lk" for lk
    unfolding mt using a rd by auto
  obtain m1 where m1: "thn scheduler_back scheduler_end t = Ret () (t\<lparr>mach := m1\<rparr>)" "cpu_ok m1"
    "\<And>lk. lk_free m1 lk" "ncli (my_cpu m1) = 0"
    using leave_cpu [OF tm] by blast
  define u where "u = t\<lparr>mach := m1\<rparr>"
  have pt: "ptable u p = asleep_on (ChanBuf b) (intena (my_cpu (mach s))) (ptable s p)"
    by (simp add: u_def t_def issued_def Let_def)
  have un: "idequeue u = Some b" "bqnext (bufs u b) = None" "pstate (ptable u p) = SLEEPING"
    "chan (ptable u p) = Some (ChanBuf b)"
    unfolding pt by (simp_all add: u_def t_def issued_def Let_def asleep_on_def)
  have um: "cpu_ok (mach u)" "\<And>lk. lk_free (mach u) lk" using m1 by (simp_all add: u_def)
  define w where "w = u\<lparr>ptable := wake_all (Some (ChanBuf b)) (ptable u),
    bufs := (bufs u)(b := (let x = bufs u b in x\<lparr>bdata := (if bdirty x \<or> disk_err u then bdata x
        else disk u (fst (ide_req u)) (fst (snd (ide_req u)))), bvalid := True, bdirty := False\<rparr>)),
    idequeue := None\<rparr>"
  have iu: "interrupts_until (Suc NBUF) p u = Ret () w"
    unfolding w_def using interrupts_once [OF um un(1,2) rd(6) un(3,4)] ideintr_run [OF um un(1,2)] by simp
  have wp: "pstate (ptable w p) = RUNNABLE" "kstack (ptable w p) \<noteq> 0" "pgdir (ptable w p) \<noteq> 0"
    using un(3,4) rd(6) ks pt by (simp_all add: w_def) (simp_all add: wake_all_def asleep_on_def)
  have wm: "mach w = m1" by (simp add: w_def u_def)
  obtain m2 where m2: "thn scheduler_begin (scheduler_switch p) w =
      Ret () (w\<lparr>mach := m2, ptable := (ptable w)(p := (ptable w p)\<lparr>pstate := RUNNING\<rparr>)\<rparr>)"
    "cpu_ok m2" "held m2 PtableLock" "ncli (my_cpu m2) = 1" "cur_proc m2 = Some p"
    "\<And>lk. lk \<noteq> PtableLock \<Longrightarrow> lk_free m2 lk"
    using enter_cpu [of w p] m1 wp wm by auto
  define v where "v = w\<lparr>mach := m2, ptable := (ptable w)(p := (ptable w p)\<lparr>pstate := RUNNING\<rparr>)\<rparr>"
  let ?tail = "thn scheduler_begin (scheduler_switch p)"
  have e: "disk_idle p = thn (thn scheduler_back scheduler_end) (thn (interrupts_until (Suc NBUF) p) ?tail)"
    by (simp only: disk_idle_def thn_assoc)
  have "disk_idle p t = obind (thn scheduler_back scheduler_end t)
      (\<lambda>_. thn (interrupts_until (Suc NBUF) p) ?tail)"
    unfolding e by (rule thn_run)
  also have "\<dots> = thn (interrupts_until (Suc NBUF) p) ?tail u"
    by (simp only: m1(1) obind.simps u_def)
  also have "\<dots> = ?tail w"
    by (subst thn_run) (simp only: iu obind.simps)
  also have "\<dots> = Ret () v" unfolding v_def by (rule m2(1))
  finally have idle: "disk_idle p t = Ret () v" .
  obtain m3 where m3: "sleep_resume IdeLock v = Ret () (v\<lparr>mach := grab IdeLock m3,
      ptable := (ptable v)(p := (ptable v p)\<lparr>chan := None\<rparr>)\<rparr>)"
    "cpu_ok m3" "\<And>l. lk_free m3 l" "ncli (my_cpu m3) = 0" "cur_proc m3 = Some p"
    using sleep_resume_rest [of v p IdeLock] m2 by (auto simp: v_def)
  let ?x = "v\<lparr>mach := grab IdeLock m3, ptable := (ptable v)(p := (ptable v p)\<lparr>chan := None\<rparr>)\<rparr>"
  have "iderw_wait b ?x = release IdeLock ?x"
    by (simp add: iderw_wait_def v_def w_def Let_def)
  also have "\<dots> = Ret () (?x\<lparr>mach := m3\<rparr>)"
    using m3 release_run [of ?x IdeLock] cpu_ok_depth [OF m3(2)] by simp
  finally have fin: "thn (disk_idle p) (iderw_resume b) t = Ret () (?x\<lparr>mach := m3\<rparr>)"
    using idle m3(1) by (simp add: iderw_resume_def)
  define tb where "tb = (ptable v)(p := (ptable v p)\<lparr>chan := None\<rparr>)"
  have tb: "same_core (ptable s) tb"
    by (auto simp: same_core_def proc_core_def tb_def v_def w_def u_def t_def issued_def Let_def
        wake_all_def asleep_on_def)
  have x: "?x\<lparr>mach := m3\<rparr> = served p b s m3 tb"
    by (simp add: served_def tb_def v_def w_def u_def t_def issued_def Let_def req_buf_def drive_of_def req_disk_def)
  have "at_rest p (served p b s m3 tb)"
    using m3(2-5) rd(6) same_coreD(2,3) [OF tb, of p] ks
    by (simp add: at_rest_def served_def Let_def) (simp add: tb_def v_def)
  then show ?thesis using fin x tb by (auto simp: t_def)
qed

lemma iderw_run:
  assumes "request_ok p s b"
  shows "\<exists>m tb. iderw b s = Ret () (served p b s m tb) \<and>
    at_rest p (served p b s m tb) \<and> same_core (ptable s) tb"
proof -
  have r: "at_rest p s" using assms by (simp add: request_ok_def)
  then have "iderw b s = thn (disk_idle p) (iderw_resume b) (issued p b s)"
    using at_restD [OF r] iderw_issues [OF assms] by (simp add: iderw_def after_sleep_def)
  then show ?thesis using iderw_serves [OF assms] by metis
qed

text \<open>C20: a disk transfer. On a machine with no other request, iderw of a locked buffer that
  needs one returns, with the buffer valid and clean and the queue empty: a dirty buffer's
  contents are then in its sector, every other sector is unchanged and the device has written
  exactly once; a clean buffer holds its sector's contents if the device reported no error, and
  no sector changed.\<close>

theorem iderw_transfers:
  assumes "request_ok p s b"
  shows "\<exists>t. iderw b s = Ret () t \<and> at_rest p t \<and> idequeue t = None \<and>
    bvalid (bufs t b) \<and> \<not> bdirty (bufs t b) \<and>
    (\<forall>c. c \<noteq> b \<longrightarrow> bufs t c = bufs s c) \<and>
    (let x = bufs s b; d = bdev x mod 2; n = bblockno x in
      if bdirty x then disk t d n = bdata x \<and> bdata (bufs t b) = bdata x \<and>
        (\<forall>d' n'. (d', n') \<noteq> (d, n) \<longrightarrow> disk t d' n' = disk s d' n') \<and>
        disk_writes t = disk_writes s @ [(d, n, bdata x)]
      else disk t = disk s \<and> disk_writes t = disk_writes s \<and>
        (\<not> disk_err s \<longrightarrow> bdata (bufs t b) = disk s d n))"
proof -
  obtain m tb where "iderw b s = Ret () (served p b s m tb)" "at_rest p (served p b s m tb)"
    using iderw_run [OF assms] by blast
  then show ?thesis
    by (intro exI [of _ "served p b s m tb"])
      (auto simp: served_def Let_def req_buf_def req_disk_def req_writes_def drive_of_def)
qed

text \<open>C21: a failed read is not reported. When the device reports an error for a read, iderw
  returns all the same with the buffer marked valid, its contents being whatever the buffer
  held before.\<close>

theorem iderw_read_error:
  assumes "request_ok p s b" and "disk_err s" and "\<not> bdirty (bufs s b)"
  shows "\<exists>t. iderw b s = Ret () t \<and> bvalid (bufs t b) \<and> bdata (bufs t b) = bdata (bufs s b)"
proof -
  obtain m tb where "iderw b s = Ret () (served p b s m tb)"
    using iderw_run [OF assms(1)] by blast
  then show ?thesis
    using assms(2,3) by (intro exI [of _ "served p b s m tb"]) (simp add: served_def Let_def req_buf_def)
qed

subsection \<open>A concrete machine\<close>

text \<open>Process 2 runs and holds the sleep lock of buffer 0, which stands for block 7.\<close>

definition blank_buf :: buf where
  "blank_buf = \<lparr>bvalid = False, bdirty = False, bdev = 0, bblockno = 0, brefcnt = 0, bprev = 0, bnext = 0,
     bqnext = None, bdata = (\<lambda>_. 0)\<rparr>"

definition kide0 :: "bool \<Rightarrow> bool \<Rightarrow> kide" where
  "kide0 dirty err = \<lparr>mach = mach kproc0,
     cons_locking = True, panicked = False, uart_out = [], crt = (\<lambda>_. 0), cga_pos = 0,
     ram = (\<lambda>_. 0), use_lock = True, freelist = 0, kernel_end = 0x80100000,
     kpgdir = 0x80200000, kdata = 0x80108000,
     ptable = (ptable kproc0)(2 := (ptable kproc0 2)\<lparr>kstack := 0x80500000, pgdir := 0x80501000\<rparr>),
     initproc = Some 0, nextpid = 5, trapret_addr = 0x80105000, forkret_addr = 0x80103000,
     slocks = (\<lambda>_. \<lparr>sl_locked = False, sl_name = '''', sl_pid = 0\<rparr>)
       (BufSleep 0 := \<lparr>sl_locked = True, sl_name = '''', sl_pid = 3\<rparr>),
     bufs = (\<lambda>_. blank_buf)(0 := blank_buf\<lparr>bblockno := 7, bdirty := dirty, bdata := (\<lambda>_. 9)\<rparr>),
     idequeue = None, havedisk1 = True, disk = (\<lambda>d n i. of_nat n), ide_req = (0, 0, False),
     disk_err = err, disk1_there = True, disk_writes = []\<rparr>"

lemma kide0_ok: "request_ok 2 (kide0 dirty err) 0"
proof -
  have "mach (kide0 dirty err) = mach kproc0" by (simp add: kide0_def)
  moreover have "pstate (ptable (kide0 dirty err) 2) = RUNNING" "pid (ptable (kide0 dirty err) 2) = 3"
    "kstack (ptable (kide0 dirty err) 2) \<noteq> 0" "pgdir (ptable (kide0 dirty err) 2) \<noteq> 0"
    by (simp_all add: kide0_def kproc0_def)
  ultimately show ?thesis
    using kproc0_mach kproc0_table(3)
    by (simp add: request_ok_def at_rest_def slheld_def) (simp add: kide0_def blank_buf_def FSSIZE_def)
qed

lemma iderw_transfers_witness:
  "(\<exists>t. iderw 0 (kide0 True False) = Ret () t \<and> disk t 0 7 = (\<lambda>_. 9) \<and> disk t 0 8 = (\<lambda>_. 8)) \<and>
   (\<exists>t. iderw 0 (kide0 False False) = Ret () t \<and> bdata (bufs t 0) = (\<lambda>_. 7))"
proof
  show "\<exists>t. iderw 0 (kide0 True False) = Ret () t \<and> disk t 0 7 = (\<lambda>_. 9) \<and> disk t 0 8 = (\<lambda>_. 8)"
    using iderw_transfers [OF kide0_ok [of True False]]
    by (auto simp: Let_def) (auto simp: kide0_def blank_buf_def)
  show "\<exists>t. iderw 0 (kide0 False False) = Ret () t \<and> bdata (bufs t 0) = (\<lambda>_. 7)"
    using iderw_transfers [OF kide0_ok [of False False]]
    by (auto simp: Let_def) (auto simp: kide0_def blank_buf_def)
qed

lemma iderw_read_error_witness:
  "\<exists>t. iderw 0 (kide0 False True) = Ret () t \<and> bvalid (bufs t 0) \<and> bdata (bufs t 0) = (\<lambda>_. 9)"
  using iderw_read_error [OF kide0_ok [of False True]]
  by (auto simp: kide0_def blank_buf_def)

end
