(* ===== verification/Bio.thy ===== *)
theory Bio
  imports Ide
begin

section \<open>The buffer cache (bio.c)\<close>

text \<open>
  The buffers form a ring through \<open>bprev\<close> and \<open>bnext\<close> with \<open>HEAD\<close>, the cache's
  \<open>head\<close>, as its anchor; \<open>head.next\<close> is the most recently used one. The two loops of bget
  walk that ring at most once around.
\<close>

definition HEAD :: nat where "HEAD = NBUF"

definition bound_buf :: "nat \<Rightarrow> ('z kide_scheme, unit) km" where
  "bound_buf b =
     bnd (get_buf HEAD) (\<lambda>h.
     thn (set_buf b (\<lambda>x. x\<lparr>bnext := bnext h\<rparr>)) (
     thn (set_buf b (\<lambda>x. x\<lparr>bprev := HEAD\<rparr>)) (
     thn (initsleeplock (BufSleep b) ''buffer'') (
     bnd (get_buf HEAD) (\<lambda>h.
     thn (set_buf (bnext h) (\<lambda>x. x\<lparr>bprev := b\<rparr>))
         (set_buf HEAD (\<lambda>h. h\<lparr>bnext := b\<rparr>)))))))"

definition binit :: "('z kide_scheme, unit) km" where
  "binit =
     thn (initlock BcacheLock ''bcache'') (
     thn (set_buf HEAD (\<lambda>h. h\<lparr>bprev := HEAD\<rparr>)) (
     thn (set_buf HEAD (\<lambda>h. h\<lparr>bnext := HEAD\<rparr>)) (
     kfor [0..<NBUF] bound_buf)))"

primrec scan_next :: "nat \<Rightarrow> (buf \<Rightarrow> bool) \<Rightarrow> nat \<Rightarrow> ('z kide_scheme, nat option) km" where
  "scan_next 0 P b = (\<lambda>s. Spin)"
| "scan_next (Suc n) P b =
     (if b = HEAD then ret None
      else bnd (get_buf b) (\<lambda>x. if P x then ret (Some b) else scan_next n P (bnext x)))"

primrec scan_prev :: "nat \<Rightarrow> (buf \<Rightarrow> bool) \<Rightarrow> nat \<Rightarrow> ('z kide_scheme, nat option) km" where
  "scan_prev 0 P b = (\<lambda>s. Spin)"
| "scan_prev (Suc n) P b =
     (if b = HEAD then ret None
      else bnd (get_buf b) (\<lambda>x. if P x then ret (Some b) else scan_prev n P (bprev x)))"

definition bget :: "nat \<Rightarrow> nat \<Rightarrow> ('z kide_scheme, nat) km" where
  "bget dev blockno =
     thn (acquire BcacheLock) (
     bnd (get_buf HEAD) (\<lambda>h.
     bnd (scan_next (Suc NBUF) (\<lambda>x. bdev x = dev \<and> bblockno x = blockno) (bnext h)) (\<lambda>r.
     case r of
       Some b \<Rightarrow>
         thn (set_buf b (\<lambda>x. x\<lparr>brefcnt := brefcnt x + 1\<rparr>)) (
         thn (release BcacheLock) (
         thn (acquiresleep (BufSleep b)) (ret b)))
     | None \<Rightarrow>
         bnd (scan_prev (Suc NBUF) (\<lambda>x. brefcnt x = 0 \<and> \<not> bdirty x) (bprev h)) (\<lambda>r.
         case r of
           Some b \<Rightarrow>
             thn (set_buf b (\<lambda>x. x\<lparr>bdev := dev\<rparr>)) (
             thn (set_buf b (\<lambda>x. x\<lparr>bblockno := blockno\<rparr>)) (
             thn (set_buf b (\<lambda>x. x\<lparr>bvalid := False, bdirty := False\<rparr>)) (
             thn (set_buf b (\<lambda>x. x\<lparr>brefcnt := 1\<rparr>)) (
             thn (release BcacheLock) (
             thn (acquiresleep (BufSleep b)) (ret b))))))
         | None \<Rightarrow> panic ''bget: no buffers''))))"

definition bread :: "nat \<Rightarrow> nat \<Rightarrow> ('z kide_scheme, nat) km" where
  "bread dev blockno =
     bnd (bget dev blockno) (\<lambda>b.
     bnd (get_buf b) (\<lambda>x.
     thn (whn (\<not> bvalid x) (iderw b)) (ret b)))"

definition bwrite :: "nat \<Rightarrow> ('z kide_scheme, unit) km" where
  "bwrite b =
     bnd (holdingsleep (BufSleep b)) (\<lambda>h.
     if \<not> h then panic ''bwrite''
     else thn (set_buf b (\<lambda>x. x\<lparr>bdirty := True\<rparr>)) (iderw b))"

definition unlink_buf :: "nat \<Rightarrow> ('z kide_scheme, unit) km" where
  "unlink_buf b =
     bnd (get_buf b) (\<lambda>x. thn (set_buf (bnext x) (\<lambda>y. y\<lparr>bprev := bprev x\<rparr>)) (
     bnd (get_buf b) (\<lambda>x. set_buf (bprev x) (\<lambda>y. y\<lparr>bnext := bnext x\<rparr>))))"

definition link_buf :: "nat \<Rightarrow> ('z kide_scheme, unit) km" where
  "link_buf b =
     bnd (get_buf HEAD) (\<lambda>h. thn (set_buf b (\<lambda>x. x\<lparr>bnext := bnext h\<rparr>)) (
     thn (set_buf b (\<lambda>x. x\<lparr>bprev := HEAD\<rparr>)) (
     bnd (get_buf HEAD) (\<lambda>h. thn (set_buf (bnext h) (\<lambda>y. y\<lparr>bprev := b\<rparr>))
       (set_buf HEAD (\<lambda>h. h\<lparr>bnext := b\<rparr>))))))"

definition brelse :: "nat \<Rightarrow> ('z kide_scheme, unit) km" where
  "brelse b =
     bnd (holdingsleep (BufSleep b)) (\<lambda>h.
     if \<not> h then panic ''brelse''
     else thn (releasesleep (BufSleep b)) (
       thn (acquire BcacheLock) (
       thn (set_buf b (\<lambda>x. x\<lparr>brefcnt := brefcnt x - 1\<rparr>)) (
       bnd (get_buf b) (\<lambda>x.
       thn (whn (brefcnt x = 0) (thn (unlink_buf b) (link_buf b)))
       (release BcacheLock))))))"

subsection \<open>The ring as a list\<close>

text \<open>\<open>seg B a xs b\<close>: following \<open>bnext\<close> from \<open>a\<close> visits \<open>xs\<close> and then \<open>b\<close>, and
  \<open>bprev\<close> leads back the same way.\<close>

fun seg :: "(nat \<Rightarrow> buf) \<Rightarrow> nat \<Rightarrow> nat list \<Rightarrow> nat \<Rightarrow> bool" where
  "seg B a [] b \<longleftrightarrow> bnext (B a) = b \<and> bprev (B b) = a"
| "seg B a (x # xs) b \<longleftrightarrow> bnext (B a) = x \<and> bprev (B x) = a \<and> seg B x xs b"

definition ring :: "(nat \<Rightarrow> buf) \<Rightarrow> nat list \<Rightarrow> bool" where
  "ring B xs \<longleftrightarrow> seg B HEAD xs HEAD \<and> distinct xs \<and> set xs = {..<NBUF}"

lemma seg_append: "seg B a (xs @ y # ys) b \<longleftrightarrow> seg B a xs y \<and> seg B y ys b"
  by (induction xs arbitrary: a) auto

lemma seg_cong:
  assumes "\<And>c. c \<in> insert a (set xs) \<Longrightarrow> bnext (B' c) = bnext (B c)"
    and "\<And>c. c \<in> insert b (set xs) \<Longrightarrow> bprev (B' c) = bprev (B c)"
  shows "seg B' a xs b = seg B a xs b"
  using assms by (induction xs arbitrary: a) auto

lemma ring_links:
  assumes "\<And>c. bnext (B' c) = bnext (B c)" and "\<And>c. bprev (B' c) = bprev (B c)"
  shows "ring B' xs = ring B xs"
  using seg_cong [of HEAD xs B' B HEAD] assms by (simp only: ring_def)

lemma scan_next_run:
  assumes "seg (bufs s) a xs HEAD" and "HEAD \<notin> set xs" and "length xs < n"
  shows "scan_next n P (bnext (bufs s a)) s = Ret (find (\<lambda>b. P (bufs s b)) xs) s"
  using assms
proof (induction xs arbitrary: a n)
  case Nil
  then show ?case by (cases n) auto
next
  case (Cons x xs)
  then obtain k where "n = Suc k" by (cases n) auto
  with Cons show ?case by auto
qed

lemma scan_prev_run:
  assumes "seg (bufs s) HEAD xs b" and "HEAD \<notin> set xs" and "length xs < n"
  shows "scan_prev n P (bprev (bufs s b)) s = Ret (find (\<lambda>b. P (bufs s b)) (rev xs)) s"
  using assms
proof (induction xs arbitrary: b n rule: rev_induct)
  case Nil
  then show ?case by (cases n) auto
next
  case (snoc x xs)
  then obtain k where "n = Suc k" by (cases n) auto
  moreover have "seg (bufs s) HEAD xs x" "bprev (bufs s b) = x"
    using snoc.prems(1) by (auto simp: seg_append)
  ultimately show ?case using snoc by auto
qed

lemma ring_facts:
  assumes "ring B xs"
  shows "HEAD \<notin> set xs" "length xs = NBUF" "seg B HEAD xs HEAD" "distinct xs"
  using assms distinct_card [of xs] by (auto simp: ring_def HEAD_def)

subsection \<open>Moving a buffer to the front\<close>

definition unlink :: "(nat \<Rightarrow> buf) \<Rightarrow> nat \<Rightarrow> nat \<Rightarrow> buf" where
  "unlink B b =
     (let B1 = B(bnext (B b) := (B (bnext (B b)))\<lparr>bprev := bprev (B b)\<rparr>)
      in B1(bprev (B1 b) := (B1 (bprev (B1 b)))\<lparr>bnext := bnext (B1 b)\<rparr>))"

definition link_front :: "(nat \<Rightarrow> buf) \<Rightarrow> nat \<Rightarrow> nat \<Rightarrow> buf" where
  "link_front B b =
     (let B1 = B(b := (B b)\<lparr>bnext := bnext (B HEAD)\<rparr>);
          B2 = B1(b := (B1 b)\<lparr>bprev := HEAD\<rparr>);
          B3 = B2(bnext (B2 HEAD) := (B2 (bnext (B2 HEAD)))\<lparr>bprev := b\<rparr>)
      in B3(HEAD := (B3 HEAD)\<lparr>bnext := b\<rparr>))"

lemma unlink_seg:
  assumes "seg B HEAD (us @ b # vs) HEAD" and "distinct (us @ b # vs)" and "HEAD \<notin> set (us @ b # vs)"
  shows "seg (unlink B b) HEAD (us @ vs) HEAD"
proof -
  have s: "seg B HEAD us b" "seg B b vs HEAD" using assms(1) by (auto simp: seg_append)
  define n where "n = bnext (B b)"
  define q where "q = bprev (B b)"
  have n: "n = (if vs = [] then HEAD else hd vs)" using s(2) by (cases vs) (auto simp: n_def)
  have q: "q = (if us = [] then HEAD else last us)"
  proof (cases us rule: rev_cases)
    case (snoc ws w)
    then show ?thesis using s(1) by (auto simp: q_def seg_append)
  qed (use s(1) in \<open>auto simp: q_def\<close>)
  have ne: "n \<noteq> b" "q \<noteq> b" using assms(2,3) n q by (auto split: if_splits)
  have u: "bnext (unlink B b c) = (if c = q then n else bnext (B c))"
    "bprev (unlink B b c) = (if c = n then q else bprev (B c))" for c
    using ne by (auto simp: unlink_def Let_def n_def q_def)
  have "seg (unlink B b) HEAD (us @ vs) HEAD"
  proof (cases us rule: rev_cases)
    case Nil
    then have "q = HEAD" using q by simp
    show ?thesis
    proof (cases vs)
      case Nil
      then show ?thesis using \<open>us = []\<close> n q by (simp add: u)
    next
      case (Cons v ws)
      have "seg (unlink B b) v ws HEAD = seg B v ws HEAD"
        using assms(2,3) Cons n \<open>q = HEAD\<close> by (intro seg_cong) (auto simp: u)
      then show ?thesis using s(2) Cons n q \<open>us = []\<close> by (simp add: u)
    qed
  next
    case (snoc ws w)
    then have qw: "q = w" using q by simp
    have sw: "seg B HEAD ws w" using s(1) snoc by (simp add: seg_append)
    have "seg (unlink B b) HEAD ws w = seg B HEAD ws w"
      using assms(2,3) snoc n qw by (intro seg_cong) (auto simp: u split: if_splits)
    moreover have "seg (unlink B b) w vs HEAD"
    proof (cases vs)
      case Nil
      then show ?thesis using n qw by (simp add: u)
    next
      case (Cons v zs)
      have "seg (unlink B b) v zs HEAD = seg B v zs HEAD"
        using assms(2,3) snoc Cons n qw by (intro seg_cong) (auto simp: u)
      then show ?thesis using s(2) Cons n qw by (simp add: u)
    qed
    ultimately show ?thesis using sw snoc by (simp add: seg_append)
  qed
  then show ?thesis .
qed

lemma link_front_seg:
  assumes "seg B HEAD xs HEAD" and "b \<notin> set xs" and "b \<noteq> HEAD" and "distinct xs" and "HEAD \<notin> set xs"
  shows "seg (link_front B b) HEAD (b # xs) HEAD"
proof -
  define n where "n = bnext (B HEAD)"
  have n: "n = (if xs = [] then HEAD else hd xs)" using assms(1) by (cases xs) (auto simp: n_def)
  have nb: "n \<noteq> b" using n assms(2,3) by (auto split: if_splits)
  have u: "bnext (link_front B b c) = (if c = HEAD then b else if c = b then n else bnext (B c))"
    "bprev (link_front B b c) = (if c = n then b else if c = b then HEAD else bprev (B c))" for c
    using nb assms(3) by (auto simp: link_front_def Let_def n_def)
  show ?thesis
  proof (cases xs)
    case Nil
    then show ?thesis using n nb assms(3) by (simp add: u)
  next
    case (Cons x ys)
    have "seg (link_front B b) x ys HEAD = seg B x ys HEAD"
      using assms(2-5) Cons n by (intro seg_cong) (auto simp: u)
    then show ?thesis using assms Cons n nb by (auto simp: u)
  qed
qed

lemma move_front_ring:
  assumes "ring B xs" and "b < NBUF"
  shows "ring (link_front (unlink B b) b) (b # remove1 b xs)"
proof -
  note f = ring_facts [OF assms(1)]
  have "b \<in> set xs" using assms by (auto simp: ring_def)
  then obtain us vs where xs: "xs = us @ b # vs" "b \<notin> set us" by (meson split_list_first)
  have r: "remove1 b xs = us @ vs" using xs by (simp add: remove1_append)
  have "seg (unlink B b) HEAD (us @ vs) HEAD" using f xs by (intro unlink_seg) auto
  then have "seg (link_front (unlink B b) b) HEAD (b # us @ vs) HEAD"
    using f xs assms(2) by (intro link_front_seg) (auto simp: HEAD_def)
  moreover have "distinct (b # us @ vs)" "set (b # us @ vs) = {..<NBUF}"
    using assms(1) xs by (auto simp: ring_def)
  ultimately show ?thesis by (simp add: ring_def r)
qed

subsection \<open>The cache of one process at rest\<close>

text \<open>
  The kernel keeps its file system on device 1. \<open>bufs_ok H B D\<close>: the buffers \<open>B\<close> are a
  cache of the sectors \<open>D\<close> of that device in which the buffers \<open>H\<close> are in use.
  \<open>cache_ok p H s\<close>: process \<open>p\<close> runs and holds the sleep locks of exactly the buffers
  \<open>H\<close>, no other buffer is in use and no request is under way. \<open>seen s n\<close> is what a process
  that reads block \<open>n\<close> gets.
\<close>

definition bcore :: "buf \<Rightarrow> buf" where
  "bcore x = x\<lparr>brefcnt := 0, bprev := 0, bnext := 0\<rparr>"

definition holds :: "(nat \<Rightarrow> buf) \<Rightarrow> nat \<Rightarrow> nat \<Rightarrow> bool" where
  "holds B b n \<longleftrightarrow> b < NBUF \<and> bdev (B b) = 1 \<and> bblockno (B b) = n"

definition dirties :: "(nat \<Rightarrow> buf) \<Rightarrow> nat set" where
  "dirties B = {b. b < NBUF \<and> bdirty (B b)}"

definition pins :: "(nat \<Rightarrow> buf) \<Rightarrow> nat set" where
  "pins B = (\<lambda>b. bblockno (B b)) ` dirties B"

definition bufs_ok :: "nat set \<Rightarrow> (nat \<Rightarrow> buf) \<Rightarrow> (nat \<Rightarrow> block) \<Rightarrow> bool" where
  "bufs_ok H B D \<longleftrightarrow> H \<subseteq> {..<NBUF} \<and> (\<exists>xs. ring B xs) \<and>
     (\<forall>b<NBUF. brefcnt (B b) = (if b \<in> H then 1 else 0) \<and> (bdirty (B b) \<longrightarrow> bvalid (B b)) \<and>
       (bvalid (B b) \<longrightarrow> bdev (B b) = 1 \<and> bblockno (B b) < FSSIZE) \<and> (b \<in> H \<longrightarrow> bvalid (B b)) \<and>
       (b \<notin> H \<and> bvalid (B b) \<and> \<not> bdirty (B b) \<longrightarrow> bdata (B b) = D (bblockno (B b)))) \<and>
     (\<forall>b c n. holds B b n \<and> holds B c n \<longrightarrow> b = c)"

definition locks_ok :: "nat \<Rightarrow> nat set \<Rightarrow> 'z kide_scheme \<Rightarrow> bool" where
  "locks_ok p H s \<longleftrightarrow> at_rest p s \<and> idequeue s = None \<and> \<not> disk_err s \<and> havedisk1 s \<and>
     (\<forall>b<NBUF. sl_locked (slocks s (BufSleep b)) = (b \<in> H)) \<and>
     (\<forall>b\<in>H. sl_pid (slocks s (BufSleep b)) = pid (ptable s p))"

definition cache_ok :: "nat \<Rightarrow> nat set \<Rightarrow> 'z kide_scheme \<Rightarrow> bool" where
  "cache_ok p H s \<longleftrightarrow> locks_ok p H s \<and> bufs_ok H (bufs s) (disk s 1)"

definition sees :: "(nat \<Rightarrow> buf) \<Rightarrow> (nat \<Rightarrow> block) \<Rightarrow> nat \<Rightarrow> block" where
  "sees B D n = (case find (\<lambda>b. bdev (B b) = 1 \<and> bblockno (B b) = n \<and> bvalid (B b)) [0..<NBUF] of
     Some b \<Rightarrow> bdata (B b) | None \<Rightarrow> D n)"

definition seen :: "'z kide_scheme \<Rightarrow> nat \<Rightarrow> block" where
  "seen s = sees (bufs s) (disk s 1)"

text \<open>What lies outside the reach of these operations, and the facts of a process they leave alone.\<close>

definition outside :: "'z kide_scheme \<Rightarrow> machine \<Rightarrow> (nat \<Rightarrow> proc) \<Rightarrow> (sleepid \<Rightarrow> sleeplock) \<Rightarrow>
    (nat \<Rightarrow> buf) \<Rightarrow> nat option \<Rightarrow> (nat \<Rightarrow> nat \<Rightarrow> block) \<Rightarrow> nat \<times> nat \<times> bool \<Rightarrow>
    (nat \<times> nat \<times> block) list \<Rightarrow> 'z kide_scheme" where
  "outside s m tb sl B q d r ws = s\<lparr>mach := m, ptable := tb, slocks := sl, bufs := B,
     idequeue := q, disk := d, ide_req := r, disk_writes := ws\<rparr>"

definition bframe :: "'z kide_scheme \<Rightarrow> 'z kide_scheme \<Rightarrow> bool" where
  "bframe s t \<longleftrightarrow> outside t = outside s \<and> same_core (ptable s) (ptable t) \<and>
     (\<forall>i. slocks t (InodeSleep i) = slocks s (InodeSleep i))"

lemma bcoreD:
  assumes "bcore x = bcore y"
  shows "bvalid x = bvalid y" "bdirty x = bdirty y" "bdev x = bdev y" "bblockno x = bblockno y"
    "bqnext x = bqnext y" "bdata x = bdata y"
  using arg_cong [OF assms, of bvalid] arg_cong [OF assms, of bdirty] arg_cong [OF assms, of bdev]
    arg_cong [OF assms, of bblockno] arg_cong [OF assms, of bqnext] arg_cong [OF assms, of bdata]
  by (simp_all add: bcore_def)

lemma bcore_upd [simp]:
  "bcore (x\<lparr>brefcnt := r\<rparr>) = bcore x" "bcore (x\<lparr>bprev := a\<rparr>) = bcore x" "bcore (x\<lparr>bnext := c\<rparr>) = bcore x"
  by (simp_all add: bcore_def)

lemma bframe_refl [simp, intro]: "bframe s s"
  by (simp add: bframe_def)

lemma bframe_trans: "bframe s t \<Longrightarrow> bframe t u \<Longrightarrow> bframe s u"
  unfolding bframe_def using same_core_trans by metis

lemma bframe_step:
  assumes "outside t = outside s" and "same_core (ptable s) (ptable t)"
    and "\<And>i. slocks t (InodeSleep i) = slocks s (InodeSleep i)"
  shows "bframe s t"
  using assms by (simp add: bframe_def)

lemma outside_upd [simp]:
  "outside (s\<lparr>mach := m\<rparr>) = outside s" "outside (s\<lparr>ptable := tb\<rparr>) = outside s"
  "outside (s\<lparr>slocks := sl\<rparr>) = outside s" "outside (s\<lparr>bufs := B\<rparr>) = outside s"
  "outside (s\<lparr>idequeue := q\<rparr>) = outside s" "outside (s\<lparr>disk := d\<rparr>) = outside s"
  "outside (s\<lparr>ide_req := r\<rparr>) = outside s" "outside (s\<lparr>disk_writes := ws\<rparr>) = outside s"
  by (simp_all add: outside_def fun_eq_iff)

lemma bframe_more:
  assumes "bframe s t"
  shows "kide.more t = kide.more s"
proof -
  have "outside t = outside s" using assms by (simp add: bframe_def)
  then have "outside t m tb sl B q d r ws = outside s m tb sl B q d r ws" for m tb sl B q d r ws by simp
  from arg_cong [OF this, of kide.more] show ?thesis by (simp add: outside_def)
qed

lemma locks_okD:
  assumes "locks_ok p H s"
  shows "at_rest p s" "idequeue s = None" "\<not> disk_err s" "havedisk1 s"
    "b < NBUF \<Longrightarrow> sl_locked (slocks s (BufSleep b)) = (b \<in> H)"
    "b \<in> H \<Longrightarrow> sl_pid (slocks s (BufSleep b)) = pid (ptable s p)"
  using assms by (auto simp: locks_ok_def)

lemma cache_okD:
  assumes "cache_ok p H s"
  shows "locks_ok p H s" "at_rest p s" "bufs_ok H (bufs s) (disk s 1)"
  using assms by (auto simp: cache_ok_def locks_ok_def)

lemma bufs_okD:
  assumes "bufs_ok H B D"
  shows "b \<in> H \<Longrightarrow> b < NBUF" "b < NBUF \<Longrightarrow> brefcnt (B b) = (if b \<in> H then 1 else 0)"
    "b < NBUF \<Longrightarrow> bdirty (B b) \<Longrightarrow> bvalid (B b)" "b \<in> H \<Longrightarrow> bvalid (B b)"
    "b < NBUF \<Longrightarrow> bvalid (B b) \<Longrightarrow> bdev (B b) = 1 \<and> bblockno (B b) < FSSIZE"
    "b < NBUF \<Longrightarrow> b \<notin> H \<Longrightarrow> bvalid (B b) \<Longrightarrow> \<not> bdirty (B b) \<Longrightarrow> bdata (B b) = D (bblockno (B b))"
    "holds B b n \<Longrightarrow> holds B c n \<Longrightarrow> b = c"
  using assms unfolding bufs_ok_def by (blast | simp)+

lemma finite_small [simp]: "finite H" if "H \<subseteq> {..<NBUF}" for H :: "nat set"
  using that by (rule finite_subset) simp

lemma dirties_small: "dirties B \<subseteq> {..<NBUF}"
  by (auto simp: dirties_def)

text \<open>A lock taken and given back around updates that leave the machine alone.\<close>

lemma at_rest_release:
  assumes "at_rest p s"
  shows "release lk (s\<lparr>mach := grab lk (mach s), bufs := B\<rparr>) = Ret () (s\<lparr>bufs := B\<rparr>)"
  using at_rest_acquire [OF assms, of lk] by simp

lemma scan_next_cong:
  assumes "bufs t = bufs s" and "seg (bufs s) a xs HEAD" and "HEAD \<notin> set xs" and "length xs < n"
  shows "scan_next n P (bnext (bufs s a)) t = Ret (find (\<lambda>b. P (bufs s b)) xs) t"
  using scan_next_run [of t a xs n P] assms by simp

lemma scan_prev_cong:
  assumes "bufs t = bufs s" and "seg (bufs s) HEAD xs b" and "HEAD \<notin> set xs" and "length xs < n"
  shows "scan_prev n P (bprev (bufs s b)) t = Ret (find (\<lambda>b. P (bufs s b)) (rev xs)) t"
  using scan_prev_run [of t xs b n P] assms by simp

text \<open>Once bget has chosen and marked buffer \<open>b\<close>: unlock the cache, lock the buffer.\<close>

definition locked_buf :: "nat \<Rightarrow> nat \<Rightarrow> buf \<Rightarrow> 'z kide_scheme \<Rightarrow> 'z kide_scheme" where
  "locked_buf p b x s = s\<lparr>slocks := (slocks s)(BufSleep b :=
       (slocks s (BufSleep b))\<lparr>sl_locked := True, sl_pid := pid (ptable s p)\<rparr>),
     bufs := (bufs s)(b := x)\<rparr>"

lemma at_rest_bufs [simp]: "at_rest p (s\<lparr>bufs := B\<rparr>) = at_rest p s" "at_rest p (s\<lparr>slocks := L\<rparr>) = at_rest p s"
  by (simp_all add: at_rest_def)

lemma bget_locks:
  assumes "at_rest p s" and "\<not> sl_locked (slocks s (BufSleep b))"
  shows "release BcacheLock (s\<lparr>mach := grab BcacheLock (mach s), bufs := (bufs s)(b := x)\<rparr>) =
      Ret () (s\<lparr>bufs := (bufs s)(b := x)\<rparr>)"
    and "acquiresleep (BufSleep b) (s\<lparr>bufs := (bufs s)(b := x)\<rparr>) = Ret () (locked_buf p b x s)"
  using at_rest_release [OF assms(1)] acquiresleep_run [of p "s\<lparr>bufs := (bufs s)(b := x)\<rparr>" "BufSleep b"] assms
  by (simp_all add: locked_buf_def)

lemma bget_hit:
  assumes "at_rest p s" and "ring (bufs s) xs"
    and "find (\<lambda>b. bdev (bufs s b) = dev \<and> bblockno (bufs s b) = n) xs = Some b"
    and "\<not> sl_locked (slocks s (BufSleep b))"
  shows "bget dev n s = Ret b (locked_buf p b ((bufs s b)\<lparr>brefcnt := brefcnt (bufs s b) + 1\<rparr>) s)"
proof -
  note f = ring_facts [OF assms(2)] and a = at_rest_acquire(1) [OF assms(1), of BcacheLock]
  let ?t = "s\<lparr>mach := grab BcacheLock (mach s)\<rparr>"
  have sc: "scan_next (Suc NBUF) (\<lambda>x. bdev x = dev \<and> bblockno x = n) (bnext (bufs s HEAD)) ?t = Ret (Some b) ?t"
    using scan_next_cong [of ?t s HEAD xs "Suc NBUF" "\<lambda>x. bdev x = dev \<and> bblockno x = n"] f assms(3)
    by (simp add: HEAD_def)
  show ?thesis
    using a sc bget_locks [OF assms(1,4)] by (simp add: bget_def del: scan_next.simps)
qed

lemma bget_miss:
  assumes "at_rest p s" and "ring (bufs s) xs"
    and "find (\<lambda>b. bdev (bufs s b) = dev \<and> bblockno (bufs s b) = n) xs = None"
    and "find (\<lambda>b. brefcnt (bufs s b) = 0 \<and> \<not> bdirty (bufs s b)) (rev xs) = Some b"
    and "\<not> sl_locked (slocks s (BufSleep b))"
  shows "bget dev n s = Ret b (locked_buf p b
    ((bufs s b)\<lparr>bdev := dev, bblockno := n, bvalid := False, bdirty := False, brefcnt := 1\<rparr>) s)"
proof -
  note f = ring_facts [OF assms(2)] and a = at_rest_acquire(1) [OF assms(1), of BcacheLock]
  let ?t = "s\<lparr>mach := grab BcacheLock (mach s)\<rparr>"
  have sc: "scan_next (Suc NBUF) (\<lambda>x. bdev x = dev \<and> bblockno x = n) (bnext (bufs s HEAD)) ?t = Ret None ?t"
    using scan_next_cong [of ?t s HEAD xs "Suc NBUF" "\<lambda>x. bdev x = dev \<and> bblockno x = n"] f assms(3)
    by (simp add: HEAD_def)
  have sp: "scan_prev (Suc NBUF) (\<lambda>x. brefcnt x = 0 \<and> \<not> bdirty x) (bprev (bufs s HEAD)) ?t = Ret (Some b) ?t"
    using scan_prev_cong [of ?t s xs HEAD "Suc NBUF" "\<lambda>x. brefcnt x = 0 \<and> \<not> bdirty x"] f assms(4)
    by (simp add: HEAD_def)
  show ?thesis
    using a sc sp bget_locks [OF assms(1,5)]
    by (simp add: bget_def del: scan_next.simps scan_prev.simps)
qed

lemma sees_hit:
  assumes "bufs_ok H B D" and "holds B b n" and "bvalid (B b)"
  shows "sees B D n = bdata (B b)"
proof (cases "find (\<lambda>b. bdev (B b) = 1 \<and> bblockno (B b) = n \<and> bvalid (B b)) [0..<NBUF]")
  case None
  then show ?thesis using assms(2,3) by (auto simp: find_upt_None holds_def)
next
  case (Some c)
  then have "holds B c n" by (auto simp: find_upt_Some holds_def)
  then have "c = b" using bufs_okD(7) [OF assms(1) _ assms(2)] by simp
  then show ?thesis using Some by (simp add: sees_def)
qed

lemma sees_miss:
  assumes "\<And>b. holds B b n \<Longrightarrow> \<not> bvalid (B b)"
  shows "sees B D n = D n"
proof -
  have "find (\<lambda>b. bdev (B b) = 1 \<and> bblockno (B b) = n \<and> bvalid (B b)) [0..<NBUF] = None"
    using assms by (auto simp: find_upt_None holds_def)
  then show ?thesis by (simp add: sees_def)
qed

lemma holds_upd: "holds (B(b := x)) c n \<longleftrightarrow> (if c = b then b < NBUF \<and> bdev x = 1 \<and> bblockno x = n else holds B c n)"
  by (auto simp: holds_def)

lemma ring_upd:
  assumes "ring B xs" and "bnext x = bnext (B b)" and "bprev x = bprev (B b)"
  shows "ring (B(b := x)) xs"
  using assms(1) ring_links [of "B(b := x)" B xs] assms(2,3) by simp

text \<open>A buffer taken for block \<open>n\<close>: it stood for that block, or no buffer did.\<close>

lemma bufs_ok_take:
  assumes ok: "bufs_ok H B D" and b: "b < NBUF" "b \<notin> H" and n: "n < FSSIZE"
    and own: "holds B b n \<or> (\<forall>c. \<not> holds B c n) \<and> \<not> bdirty (B b)"
    and x: "bnext x = bnext (B b)" "bprev x = bprev (B b)" "brefcnt x = 1" "bvalid x" "bdev x = 1" "bblockno x = n"
      "bdata x = sees B D n"
  shows "bufs_ok (insert b H) (B(b := x)) D" and "sees (B(b := x)) D = sees B D"
proof -
  have others: "holds B c n \<Longrightarrow> c = b" for c using own bufs_okD(7) [OF ok] by blast
  obtain xs where xs: "ring B xs" using ok by (auto simp: bufs_ok_def)
  have rg: "\<exists>xs. ring (B(b := x)) xs" using ring_upd [OF xs x(1,2)] by blast
  have uq: "c = d" if "holds (B(b := x)) c m" "holds (B(b := x)) d m" for c d m
    using that others bufs_okD(7) [OF ok, of c m d] x(6) by (auto simp: holds_upd split: if_splits)
  have "H \<subseteq> {..<NBUF}" using ok by (simp add: bufs_ok_def)
  then show ok': "bufs_ok (insert b H) (B(b := x)) D"
    unfolding bufs_ok_def using rg uq b n x bufs_okD(2-6) [OF ok]
    by (intro conjI allI impI) (auto split: if_splits)
  show "sees (B(b := x)) D = sees B D"
  proof
    fix m
    show "sees (B(b := x)) D m = sees B D m"
    proof (cases "m = n")
      case True
      then show ?thesis using sees_hit [OF ok', of b n] b x by (simp add: holds_upd)
    next
      case False
      show ?thesis
      proof (cases "\<exists>c. c \<noteq> b \<and> holds B c m \<and> bvalid (B c)")
        case True
        then obtain c where c: "c \<noteq> b" "holds B c m" "bvalid (B c)" by blast
        then have "holds (B(b := x)) c m" by (simp add: holds_upd)
        then show ?thesis using sees_hit [OF ok', of c m] sees_hit [OF ok c(2,3)] c by simp
      next
        case none: False
        then have "sees (B(b := x)) D m = D m" using False x by (intro sees_miss) (auto simp: holds_upd)
        moreover have "sees B D m = D m"
        proof (cases "holds B b m \<and> bvalid (B b)")
          case True
          then have "\<not> bdirty (B b)" using own False by (auto simp: holds_def)
          then show ?thesis using sees_hit [OF ok, of b m] True bufs_okD(6) [OF ok b] by (simp add: holds_def)
        qed (use none in \<open>intro sees_miss, auto\<close>)
        ultimately show ?thesis by simp
      qed
    qed
  qed
qed

text \<open>Between two held buffers only the data and the dirty mark of one changes.\<close>

lemma bufs_ok_put:
  assumes ok: "bufs_ok H B D" and b: "b \<in> H"
    and x: "bcore x = bcore ((B b)\<lparr>bdata := bdata x, bdirty := bdirty x, bqnext := bqnext x\<rparr>)"
      "bnext x = bnext (B b)" "bprev x = bprev (B b)" "brefcnt x = brefcnt (B b)"
    and d: "\<And>m. m \<noteq> bblockno (B b) \<Longrightarrow> D' m = D m"
  shows "bufs_ok H (B(b := x)) D'" and "sees (B(b := x)) D' = (sees B D)(bblockno (B b) := bdata x)"
proof -
  note xf = bcoreD [OF x(1)]
  have bn: "b < NBUF" "bvalid (B b)" "bdev (B b) = 1" using bufs_okD(1,4,5) [OF ok, of b] b by auto
  have x': "bvalid x" "bdev x = 1" "bblockno x = bblockno (B b)" using xf bn by auto
  obtain xs where xs: "ring B xs" using ok by (auto simp: bufs_ok_def)
  have rg: "\<exists>xs. ring (B(b := x)) xs" using ring_upd [OF xs x(2,3)] by blast
  have hu: "holds (B(b := x)) c m = holds B c m" for c m using x' bn by (auto simp: holds_def)
  have num: "bblockno (B c) \<noteq> bblockno (B b)" if "c \<noteq> b" "c < NBUF" "bdev (B c) = 1" for c
    using that bufs_okD(7) [OF ok, of c "bblockno (B c)" b] bn by (auto simp: holds_def)
  have H: "H \<subseteq> {..<NBUF}" using ok by (simp add: bufs_ok_def)
  show ok': "bufs_ok H (B(b := x)) D'"
    unfolding bufs_ok_def hu
  proof (intro conjI allI impI)
    fix c assume "c < NBUF" "c \<notin> H \<and> bvalid ((B(b := x)) c) \<and> \<not> bdirty ((B(b := x)) c)"
    then show "bdata ((B(b := x)) c) = D' (bblockno ((B(b := x)) c))"
      using b num [of c] bufs_okD(5,6) [OF ok, of c] d by auto
  qed (use H rg b x' bn x(4) bufs_okD(2-5,7) [OF ok] in \<open>auto split: if_splits\<close>)
  show "sees (B(b := x)) D' = (sees B D)(bblockno (B b) := bdata x)"
  proof
    fix m
    show "sees (B(b := x)) D' m = ((sees B D)(bblockno (B b) := bdata x)) m"
    proof (cases "\<exists>c. holds B c m \<and> bvalid (B c)")
      case True
      then obtain c where c: "holds B c m" "bvalid (B c)" by blast
      then have "holds (B(b := x)) c m" "bvalid ((B(b := x)) c)" using hu x' by auto
      then have "sees (B(b := x)) D' m = bdata ((B(b := x)) c)" by (rule sees_hit [OF ok'])
      then show ?thesis using sees_hit [OF ok c] c num [of c] by (auto simp: holds_def)
    next
      case False
      then have m: "m \<noteq> bblockno (B b)" using bn by (auto simp: holds_def)
      have "sees (B(b := x)) D' m = D' m" "sees B D m = D m"
        using False x' bn by (auto intro!: sees_miss simp: hu split: if_splits)
      then show ?thesis using m d by simp
    qed
  qed
qed

subsection \<open>The operations on a cache in order\<close>

lemma locks_ok_take:
  assumes "locks_ok p H s" and "b < NBUF"
  shows "locks_ok p (insert b H) (locked_buf p b x s)"
  using assms by (auto simp: locks_ok_def locked_buf_def)

lemma locked_buf_fields [simp]:
  "bufs (locked_buf p b x s) = (bufs s)(b := x)" "disk (locked_buf p b x s) = disk s"
  "disk_writes (locked_buf p b x s) = disk_writes s" "disk_err (locked_buf p b x s) = disk_err s"
  "ptable (locked_buf p b x s) = ptable s" "havedisk1 (locked_buf p b x s) = havedisk1 s"
  "outside (locked_buf p b x s) = outside s"
  by (simp_all add: locked_buf_def)

lemma served_fields [simp]:
  "bufs (served p b s m tb) = (bufs s)(b := req_buf (disk_err s) (disk s) (bufs s b))"
  "disk (served p b s m tb) = req_disk (bufs s b) (disk s)"
  "disk_writes (served p b s m tb) = req_writes (bufs s b) (disk_writes s)"
  "ptable (served p b s m tb) = tb" "slocks (served p b s m tb) = slocks s"
  "idequeue (served p b s m tb) = None" "disk_err (served p b s m tb) = disk_err s"
  "havedisk1 (served p b s m tb) = havedisk1 s" "outside (served p b s m tb) = outside s"
  by (simp_all add: served_def Let_def)

lemma locks_ok_served:
  assumes "locks_ok p H s" and "at_rest p (served p b s m tb)" and "same_core (ptable s) tb"
  shows "locks_ok p H (served p b s m tb)"
  using assms same_coreD(1) [OF assms(3)] by (simp add: locks_ok_def)

lemma inode_locks [simp]:
  "slocks (locked_buf p b x s) (InodeSleep i) = slocks s (InodeSleep i)"
  by (simp add: locked_buf_def)

lemma locks_ok_request:
  assumes "locks_ok p H s" and "b \<in> H" and "b < NBUF" and "\<not> bvalid (bufs s b) \<or> bdirty (bufs s b)"
    and "bblockno (bufs s b) < FSSIZE"
  shows "request_ok p s b"
  using assms(2-5) locks_okD(1-4) [OF assms(1)] locks_okD(5,6) [OF assms(1), of b]
  by (auto simp: request_ok_def slheld_def)

lemma find_SomeD: "find P xs = Some x \<Longrightarrow> x \<in> set xs \<and> P x"
  by (induction xs) (auto split: if_splits)

text \<open>bget, for a block that is not in use, when some buffer is neither in use nor dirty.\<close>

lemma bget_run:
  assumes ok: "cache_ok p H s" and n: "\<And>b. b \<in> H \<Longrightarrow> bblockno (bufs s b) \<noteq> n"
    and room: "(\<exists>c. holds (bufs s) c n) \<or> card (H \<union> dirties (bufs s)) < NBUF"
  shows "\<exists>b x. bget 1 n s = Ret b (locked_buf p b x s) \<and> b < NBUF \<and> b \<notin> H \<and> brefcnt x = 1 \<and>
    bnext x = bnext (bufs s b) \<and> bprev x = bprev (bufs s b) \<and> bdev x = 1 \<and> bblockno x = n \<and>
    (holds (bufs s) b n \<and> bcore x = bcore (bufs s b) \<or>
     (\<forall>c. \<not> holds (bufs s) c n) \<and> \<not> bdirty (bufs s b) \<and> \<not> bvalid x \<and> \<not> bdirty x)"
proof -
  note r = cache_okD(2) [OF ok] and bo = cache_okD(3) [OF ok] and lo = cache_okD(1) [OF ok]
  obtain xs where xs: "ring (bufs s) xs" using bo by (auto simp: bufs_ok_def)
  have set: "set xs = {..<NBUF}" using xs by (simp add: ring_def)
  have unl: "\<not> sl_locked (slocks s (BufSleep b))" if "b < NBUF" "b \<notin> H" for b
    using locks_okD(5) [OF lo that(1)] that(2) by simp
  show ?thesis
  proof (cases "find (\<lambda>b. bdev (bufs s b) = 1 \<and> bblockno (bufs s b) = n) xs")
    case (Some b)
    have b: "b < NBUF" "holds (bufs s) b n" using set find_SomeD [OF Some] by (auto simp: holds_def)
    then have "b \<notin> H" using n by (auto simp: holds_def)
    then show ?thesis
      using bget_hit [OF r xs Some unl [OF b(1)]] b bufs_okD(2) [OF bo b(1)]
      by (intro exI [of _ b] exI [of _ "(bufs s b)\<lparr>brefcnt := brefcnt (bufs s b) + 1\<rparr>"]) (simp add: holds_def)
  next
    case None
    then have none: "\<not> holds (bufs s) c n" for c using set by (auto simp: find_None_iff holds_def)
    have "\<exists>b<NBUF. b \<notin> H \<union> dirties (bufs s)"
    proof (rule ccontr)
      assume "\<not> ?thesis"
      then have "{..<NBUF} \<subseteq> H \<union> dirties (bufs s)" by auto
      then have "card {..<NBUF} \<le> card (H \<union> dirties (bufs s))"
        using bo dirties_small [of "bufs s"] by (intro card_mono) (auto simp: bufs_ok_def)
      then show False using room none by simp
    qed
    then have "find (\<lambda>b. brefcnt (bufs s b) = 0 \<and> \<not> bdirty (bufs s b)) (rev xs) \<noteq> None"
      using set bufs_okD(2) [OF bo] by (auto simp: find_None_iff dirties_def)
    then obtain b where f: "find (\<lambda>b. brefcnt (bufs s b) = 0 \<and> \<not> bdirty (bufs s b)) (rev xs) = Some b" by blast
    have "b \<in> set xs" "brefcnt (bufs s b) = 0" "\<not> bdirty (bufs s b)"
      using find_SomeD [OF f] by simp_all
    note fb = this
    have bn: "b < NBUF" using fb(1) unfolding set by simp
    have "b \<notin> H" using bufs_okD(2) [OF bo bn] fb(2) by (cases "b \<in> H") simp_all
    note b = bn this fb(3)
    show ?thesis
      using bget_miss [OF r xs None f unl [OF b(1,2)]] b none
      by (intro exI [of _ b] exI [of _ "(bufs s b)\<lparr>bdev := 1, bblockno := n, bvalid := False, bdirty := False, brefcnt := 1\<rparr>"]) simp
  qed
qed

lemma bread_run:
  assumes ok: "cache_ok p H s" and n: "\<And>b. b \<in> H \<Longrightarrow> bblockno (bufs s b) \<noteq> n" "n < FSSIZE"
    and room: "(\<exists>c. holds (bufs s) c n) \<or> card (H \<union> dirties (bufs s)) < NBUF"
  shows "\<exists>b t. bread 1 n s = Ret b t \<and> cache_ok p (insert b H) t \<and> b < NBUF \<and> b \<notin> H \<and>
    bblockno (bufs t b) = n \<and> bdata (bufs t b) = seen s n \<and> seen t = seen s \<and> disk t = disk s \<and>
    (bdirty (bufs t b) \<or> seen s n = disk s 1 n) \<and> disk_writes t = disk_writes s \<and> bframe s t \<and> dirties (bufs t) = dirties (bufs s) \<and>
    pins (bufs t) = pins (bufs s) \<and> (\<forall>c. c \<noteq> b \<longrightarrow> bufs t c = bufs s c)"
proof -
  note r = cache_okD(2) [OF ok] and bo = cache_okD(3) [OF ok] and lo = cache_okD(1) [OF ok]
  obtain b x where g: "bget 1 n s = Ret b (locked_buf p b x s)" "b < NBUF" "b \<notin> H"
    and x: "brefcnt x = 1" "bnext x = bnext (bufs s b)" "bprev x = bprev (bufs s b)" "bdev x = 1" "bblockno x = n"
    and own: "holds (bufs s) b n \<and> bcore x = bcore (bufs s b) \<or>
     (\<forall>c. \<not> holds (bufs s) c n) \<and> \<not> bdirty (bufs s b) \<and> \<not> bvalid x \<and> \<not> bdirty x"
    using bget_run [OF ok n(1) room] by blast
  have own': "holds (bufs s) b n \<or> (\<forall>c. \<not> holds (bufs s) c n) \<and> \<not> bdirty (bufs s b)" using own by blast
  have dx: "bdirty x = bdirty (bufs s b)" using own bcoreD(2) by blast
  then have di: "dirties ((bufs s)(b := y)) = dirties (bufs s)" if "bdirty y = bdirty (bufs s b)" for y
    using that by (auto simp: dirties_def)
  have pi: "pins ((bufs s)(b := y)) = pins (bufs s)" if "bdirty y = bdirty (bufs s b)" "bblockno y = n" for y
  proof -
    have "bblockno (bufs s b) = n" if "bdirty (bufs s b)" using own' that by (auto simp: holds_def)
    then show ?thesis
      unfolding pins_def di [OF that(1)] using that(2) by (intro image_cong) (auto simp: dirties_def)
  qed
  let ?u = "locked_buf p b x s"
  have lu: "locks_ok p (insert b H) ?u" using lo g(2) by (rule locks_ok_take)
  show ?thesis
  proof (cases "bvalid x")
    case True
    then have h: "holds (bufs s) b n" "bcore x = bcore (bufs s b)" using own by auto
    have "bvalid (bufs s b)" using bcoreD(1) [OF h(2)] True by simp
    then have "bdata x = seen s n" using sees_hit [OF bo h(1)] bcoreD(6) [OF h(2)] by (simp add: seen_def)
    with bufs_ok_take [OF bo g(2,3) n(2) own' x(2,3,1) True x(4,5)]
    have "bufs_ok (insert b H) ((bufs s)(b := x)) (disk s 1)" "seen ?u = seen s"
      by (simp_all add: seen_def)
    moreover have "bdirty x \<or> seen s n = disk s 1 n"
      using \<open>bdata x = seen s n\<close> bufs_okD(6) [OF bo g(2,3) \<open>bvalid (bufs s b)\<close>] dx bcoreD(6) [OF h(2)] h(1)
      by (auto simp: holds_def)
    ultimately show ?thesis
      using g True lu x di [OF dx] pi [OF dx x(5)] \<open>bdata x = seen s n\<close>
      by (intro exI [of _ b] exI [of _ ?u]) (simp add: bread_def cache_ok_def bframe_def)
  next
    case False
    have nd: "\<not> bdirty x"
    proof
      assume "bdirty x"
      then have "bvalid (bufs s b)" "holds (bufs s) b n" "bcore x = bcore (bufs s b)"
        using dx own bufs_okD(3) [OF bo g(2)] by auto
      then show False using False bcoreD(1) by blast
    qed
    have "request_ok p ?u b"
      using locks_ok_request [OF lu, of b] g(2) False x(5) n(2) by simp
    then obtain m tb where io: "iderw b ?u = Ret () (served p b ?u m tb)"
      "at_rest p (served p b ?u m tb)" "same_core (ptable ?u) tb"
      using iderw_run by blast
    let ?t = "served p b ?u m tb"
    let ?y = "req_buf (disk_err s) (disk s) x"
    have miss: "seen s n = disk s 1 n"
      unfolding seen_def
    proof (rule sees_miss)
      fix c assume "holds (bufs s) c n"
      then have "holds (bufs s) b n" "c = b" "bcore x = bcore (bufs s b)"
        using own bufs_okD(7) [OF bo, of c n b] by auto
      then show "\<not> bvalid (bufs s c)" using False bcoreD(1) by blast
    qed
    have y: "brefcnt ?y = 1" "bnext ?y = bnext (bufs s b)" "bprev ?y = bprev (bufs s b)" "bvalid ?y"
      "bdev ?y = 1" "bblockno ?y = n" "bdata ?y = seen s n" "bdirty ?y = bdirty (bufs s b)"
      using x nd dx miss locks_okD(3) [OF lo] by (simp_all add: req_buf_def drive_of_def)
    have rd: "req_disk x (disk s) = disk s" "req_writes x (disk_writes s) = disk_writes s"
      using nd by (simp_all add: req_disk_def req_writes_def)
    have "bufs_ok (insert b H) ((bufs s)(b := ?y)) (disk s 1)" "sees ((bufs s)(b := ?y)) (disk s 1) = seen s"
      using bufs_ok_take [OF bo g(2,3) n(2) own' y(2,3,1,4,5,6)] y(7) by (simp_all add: seen_def)
    moreover have "locks_ok p (insert b H) ?t" using locks_ok_served [OF lu io(2)] io(3) by simp
    ultimately show ?thesis
      using g(1,2,3) io(1,3) False y rd di [OF y(8)] pi [OF y(8,6)] miss
      by (intro exI [of _ b] exI [of _ ?t]) (simp add: bread_def cache_ok_def bframe_def seen_def)
  qed
qed

text \<open>Storing into the data of a buffer in use, or marking it dirty, as log_write does.\<close>

lemma cache_put:
  assumes ok: "cache_ok p H s" and b: "b \<in> H"
    and x: "x = (bufs s b)\<lparr>bdata := d, bdirty := v\<rparr>"
  shows "cache_ok p H (s\<lparr>bufs := (bufs s)(b := x)\<rparr>)"
    and "seen (s\<lparr>bufs := (bufs s)(b := x)\<rparr>) = (seen s)(bblockno (bufs s b) := d)"
proof -
  have y: "bcore x = bcore ((bufs s b)\<lparr>bdata := bdata x, bdirty := bdirty x, bqnext := bqnext x\<rparr>)"
    "bnext x = bnext (bufs s b)" "bprev x = bprev (bufs s b)" "brefcnt x = brefcnt (bufs s b)"
    using x by (simp_all add: bcore_def)
  have l: "locks_ok p H (s\<lparr>bufs := (bufs s)(b := x)\<rparr>)"
    using cache_okD(1) [OF ok] by (simp add: locks_ok_def)
  have "bufs_ok H ((bufs s)(b := x)) (disk s 1)"
    "sees ((bufs s)(b := x)) (disk s 1) = (sees (bufs s) (disk s 1))(bblockno (bufs s b) := bdata x)"
    using bufs_ok_put [OF cache_okD(3) [OF ok] b y, of "disk s 1"] by blast+
  then show "cache_ok p H (s\<lparr>bufs := (bufs s)(b := x)\<rparr>)"
    "seen (s\<lparr>bufs := (bufs s)(b := x)\<rparr>) = (seen s)(bblockno (bufs s b) := d)"
    using l x by (simp_all add: cache_ok_def seen_def)
qed

lemma bwrite_run:
  assumes ok: "cache_ok p H s" and b: "b \<in> H"
  shows "\<exists>t. bwrite b s = Ret () t \<and> cache_ok p H t \<and> seen t = seen s \<and>
    disk t 1 = (disk s 1)(bblockno (bufs s b) := bdata (bufs s b)) \<and>
    disk_writes t = disk_writes s @ [(1, bblockno (bufs s b), bdata (bufs s b))] \<and>
    bframe s t \<and> dirties (bufs t) = dirties (bufs s) - {b} \<and>
    pins (bufs t) = pins (bufs s) - {bblockno (bufs s b)} \<and> bcore (bufs t b) =
      bcore ((bufs s b)\<lparr>bdirty := False, bqnext := None\<rparr>) \<and> (\<forall>c. c \<noteq> b \<longrightarrow> bufs t c = bufs s c)"
proof -
  note r = cache_okD(2) [OF ok] and bo = cache_okD(3) [OF ok] and lo = cache_okD(1) [OF ok]
  have bn: "b < NBUF" "bvalid (bufs s b)" "bdev (bufs s b) = 1" "bblockno (bufs s b) < FSSIZE"
    using bufs_okD(1,4) [OF bo, of b] bufs_okD(5) [OF bo, of b] b by auto
  have h: "holdingsleep (BufSleep b) s = Ret True s"
    using holdingsleep_run [OF r, of "BufSleep b"] locks_okD(5,6) [OF lo, of b] b bn(1) by (simp add: slheld_def)
  let ?u = "s\<lparr>bufs := (bufs s)(b := (bufs s b)\<lparr>bdirty := True\<rparr>)\<rparr>"
  have lu: "locks_ok p H ?u" using lo by (simp add: locks_ok_def)
  have "request_ok p ?u b" using locks_ok_request [OF lu b bn(1)] bn(4) by simp
  then obtain m tb where io: "iderw b ?u = Ret () (served p b ?u m tb)"
    "at_rest p (served p b ?u m tb)" "same_core (ptable ?u) tb"
    using iderw_run by blast
  let ?t = "served p b ?u m tb"
  let ?y = "(bufs s b)\<lparr>bqnext := None, bvalid := True, bdirty := False\<rparr>"
  have y: "bufs ?t = (bufs s)(b := ?y)" by (simp add: req_buf_def)
  have y': "bcore ?y = bcore ((bufs s b)\<lparr>bdata := bdata ?y, bdirty := bdirty ?y, bqnext := bqnext ?y\<rparr>)"
    "bnext ?y = bnext (bufs s b)" "bprev ?y = bprev (bufs s b)" "brefcnt ?y = brefcnt (bufs s b)"
    using bn(2) by (simp_all add: bcore_def)
  have dk: "disk ?t 1 = (disk s 1)(bblockno (bufs s b) := bdata (bufs s b))"
    using bn(3) by (simp add: req_disk_def drive_of_def)
  have "bufs_ok H (bufs ?t) (disk ?t 1)"
    "sees (bufs ?t) (disk ?t 1) = (sees (bufs s) (disk s 1))(bblockno (bufs s b) := bdata (bufs s b))"
    using bufs_ok_put [OF bo b y', of "disk ?t 1"] dk unfolding y by simp_all
  moreover have "sees (bufs s) (disk s 1) (bblockno (bufs s b)) = bdata (bufs s b)"
    using bn by (intro sees_hit [OF bo]) (simp_all add: holds_def)
  moreover have "locks_ok p H ?t" using locks_ok_served [OF lu io(2)] io(3) by simp
  moreover have "bwrite b s = Ret () ?t" using h io(1) by (simp add: bwrite_def)
  moreover have dt: "dirties (bufs ?t) = dirties (bufs s) - {b}" unfolding y by (auto simp: dirties_def)
  moreover have "pins (bufs ?t) = pins (bufs s) - {bblockno (bufs s b)}"
  proof -
    have "bblockno (bufs s c) \<noteq> bblockno (bufs s b)" if "c \<in> dirties (bufs s)" "c \<noteq> b" for c
      using that bufs_okD(3,5) [OF bo, of c] bufs_okD(7) [OF bo, of c "bblockno (bufs s b)" b] bn
      by (auto simp: dirties_def holds_def)
    then show ?thesis unfolding pins_def dt unfolding y by auto
  qed
  moreover have "bframe s ?t" using io(3) by (simp add: bframe_def)
  moreover have "disk_writes ?t = disk_writes s @ [(1, bblockno (bufs s b), bdata (bufs s b))]"
    using bn(3) by (simp add: req_writes_def drive_of_def)
  moreover have "bcore ?y = bcore ((bufs s b)\<lparr>bdirty := False, bqnext := None\<rparr>)"
    using bn(2) by (simp add: bcore_def)
  ultimately show ?thesis
    using dk y by (intro exI [of _ ?t]) (simp add: cache_ok_def seen_def fun_upd_idem)
qed

text \<open>The stores of brelse into the ring, and the state it leaves.\<close>

definition to_front :: "(nat \<Rightarrow> buf) \<Rightarrow> nat \<Rightarrow> nat \<Rightarrow> buf" where
  "to_front B b = link_front (unlink (B(b := (B b)\<lparr>brefcnt := brefcnt (B b) - 1\<rparr>)) b) b"

lemma unlink_buf_run: "unlink_buf b s = Ret () (s\<lparr>bufs := unlink (bufs s) b\<rparr>)"
  by (simp add: unlink_buf_def unlink_def Let_def del: fun_upd_apply)

lemma link_buf_run: "link_buf b s = Ret () (s\<lparr>bufs := link_front (bufs s) b\<rparr>)"
  by (simp add: link_buf_def link_front_def Let_def del: fun_upd_apply)

lemma upd_core:
  "bcore ((B(a := (B a)\<lparr>bprev := v\<rparr>)) c) = bcore (B c)" "bcore ((B(a := (B a)\<lparr>bnext := v\<rparr>)) c) = bcore (B c)"
  "bcore ((B(a := (B a)\<lparr>brefcnt := v\<rparr>)) c) = bcore (B c)"
  "brefcnt ((B(a := (B a)\<lparr>bprev := v\<rparr>)) c) = brefcnt (B c)" "brefcnt ((B(a := (B a)\<lparr>bnext := v\<rparr>)) c) = brefcnt (B c)"
  by simp_all

lemma unlink_core: "bcore (unlink B b c) = bcore (B c)" "brefcnt (unlink B b c) = brefcnt (B c)"
  unfolding unlink_def Let_def by (simp_all only: upd_core)

lemma link_front_core: "bcore (link_front B b c) = bcore (B c)" "brefcnt (link_front B b c) = brefcnt (B c)"
  unfolding link_front_def Let_def by (simp_all only: upd_core)

lemma to_front_core: "bcore (to_front B b c) = bcore (B c)"
  unfolding to_front_def by (simp only: unlink_core link_front_core upd_core)

lemma to_front_refcnt: "brefcnt (to_front B b c) = (if c = b then brefcnt (B b) - 1 else brefcnt (B c))"
  by (simp add: to_front_def unlink_core link_front_core)

lemma brelse_state:
  assumes "at_rest p s" and "slheld p s (BufSleep b)" and "brefcnt (bufs s b) = 1"
  shows "brelse b s = Ret () (s\<lparr>ptable := wake_all (Some (ChanSleep (BufSleep b))) (ptable s),
    slocks := (slocks s)(BufSleep b := (slocks s (BufSleep b))\<lparr>sl_locked := False, sl_pid := 0\<rparr>),
    bufs := to_front (bufs s) b\<rparr>)"
proof -
  have h: "holdingsleep (BufSleep b) s = Ret True s"
    using holdingsleep_run [OF assms(1), of "BufSleep b"] assms(2) by simp
  let ?u = "s\<lparr>ptable := wake_all (Some (ChanSleep (BufSleep b))) (ptable s),
    slocks := (slocks s)(BufSleep b := (slocks s (BufSleep b))\<lparr>sl_locked := False, sl_pid := 0\<rparr>)\<rparr>"
  have u: "at_rest p ?u" using assms(1) by (simp add: at_rest_def)
  define v where "v = ?u"
  note a = at_rest_acquire(1) [OF u [folded v_def], of BcacheLock]
    and rl = at_rest_release [OF u [folded v_def], of BcacheLock]
  have bv: "bufs v = bufs s" by (simp add: v_def)
  let ?w = "v\<lparr>mach := grab BcacheLock (mach v)\<rparr>"
  let ?B = "(bufs s)(b := (bufs s b)\<lparr>brefcnt := brefcnt (bufs s b) - 1\<rparr>)"
  have st: "set_buf b (\<lambda>x. x\<lparr>brefcnt := brefcnt x - 1\<rparr>) ?w = Ret () (?w\<lparr>bufs := ?B\<rparr>)"
    by (simp add: bv)
  have mid: "thn (unlink_buf b) (link_buf b) (?w\<lparr>bufs := ?B\<rparr>) = Ret () (?w\<lparr>bufs := to_front (bufs s) b\<rparr>)"
    by (simp add: unlink_buf_run link_buf_run to_front_def del: fun_upd_apply)
  have z: "brefcnt (?B b) = 0" using assms(3) by simp
  have g: "get_buf b (?w\<lparr>bufs := ?B\<rparr>) = Ret (?B b) (?w\<lparr>bufs := ?B\<rparr>)" by simp
  have rs: "releasesleep (BufSleep b) s = Ret () v"
    using releasesleep_run [OF assms(1)] by (simp add: v_def)
  have "brelse b s = Ret () (v\<lparr>bufs := to_front (bufs s) b\<rparr>)"
    by (simp only: brelse_def bnd_run thn_run [of "releasesleep c" for c] thn_run [of "acquire c" for c]
        thn_run [of "set_buf c f" for c f] thn_run [of "whn c f" for c f] h rs a st g obind.simps
        whn_run z mid rl if_True if_False simp_thms)
  then show ?thesis by (simp add: v_def)
qed

lemma bufs_ok_release:
  assumes ok: "bufs_ok H B D" and b: "b \<in> H" and clean: "bdirty (B b) \<or> bdata (B b) = D (bblockno (B b))"
  shows "bufs_ok (H - {b}) (to_front B b) D" and "sees (to_front B b) D = sees B D"
    and "dirties (to_front B b) = dirties B"
proof -
  note f = bcoreD [OF to_front_core]
  obtain xs where xs: "ring B xs" using ok by (auto simp: bufs_ok_def)
  have bn: "b < NBUF" using bufs_okD(1) [OF ok b] .
  have "ring (B(b := (B b)\<lparr>brefcnt := brefcnt (B b) - 1\<rparr>)) xs" using xs by (rule ring_upd) simp_all
  then have rg: "\<exists>xs. ring (to_front B b) xs" unfolding to_front_def using move_front_ring bn by blast
  have hu: "holds (to_front B b) c n = holds B c n" for c n by (simp add: holds_def f)
  have H: "H \<subseteq> {..<NBUF}" using ok by (simp add: bufs_ok_def)
  show "bufs_ok (H - {b}) (to_front B b) D"
    unfolding bufs_ok_def hu f
  proof (intro conjI allI impI)
    fix c assume c: "c < NBUF"
    show "brefcnt (to_front B b c) = (if c \<in> H - {b} then 1 else 0)"
      using bufs_okD(2) [OF ok c] b by (cases "c = b") (simp_all add: to_front_refcnt)
    show "bdirty (B c) \<Longrightarrow> bvalid (B c)" using bufs_okD(3) [OF ok c] .
    show "bvalid (B c) \<Longrightarrow> bdev (B c) = 1" "bvalid (B c) \<Longrightarrow> bblockno (B c) < FSSIZE"
      using bufs_okD(5) [OF ok c] by simp_all
    show "c \<in> H - {b} \<Longrightarrow> bvalid (B c)" using bufs_okD(4) [OF ok, of c] by simp
    show "c \<notin> H - {b} \<and> bvalid (B c) \<and> \<not> bdirty (B c) \<Longrightarrow> bdata (B c) = D (bblockno (B c))"
      using bufs_okD(6) [OF ok c] clean by (cases "c = b") auto
  next
    fix c d n assume "holds B c n \<and> holds B d n"
    then show "c = d" using bufs_okD(7) [OF ok] by blast
  qed (use H rg bufs_okD(7) [OF ok] in auto)
  show "sees (to_front B b) D = sees B D" by (rule ext) (simp add: sees_def f split: option.split)
  show "dirties (to_front B b) = dirties B" by (simp add: dirties_def f)
qed

lemma brelse_run:
  assumes ok: "cache_ok p H s" and b: "b \<in> H"
    and clean: "bdirty (bufs s b) \<or> bdata (bufs s b) = disk s 1 (bblockno (bufs s b))"
  shows "\<exists>t. brelse b s = Ret () t \<and> cache_ok p (H - {b}) t \<and> seen t = seen s \<and> disk t = disk s \<and>
    disk_writes t = disk_writes s \<and> bframe s t \<and> dirties (bufs t) = dirties (bufs s) \<and>
    pins (bufs t) = pins (bufs s) \<and> (\<forall>c. bcore (bufs t c) = bcore (bufs s c))"
proof -
  note r = cache_okD(2) [OF ok] and bo = cache_okD(3) [OF ok] and lo = cache_okD(1) [OF ok]
  have bn: "b < NBUF" "brefcnt (bufs s b) = 1" using bufs_okD(1,2) [OF bo, of b] b by auto
  have sl: "slheld p s (BufSleep b)" using locks_okD(5,6) [OF lo, of b] b bn(1) by (simp add: slheld_def)
  let ?t = "s\<lparr>ptable := wake_all (Some (ChanSleep (BufSleep b))) (ptable s),
    slocks := (slocks s)(BufSleep b := (slocks s (BufSleep b))\<lparr>sl_locked := False, sl_pid := 0\<rparr>),
    bufs := to_front (bufs s) b\<rparr>"
  have rt: "at_rest p ?t" using r by (simp add: at_rest_def)
  have "locks_ok p (H - {b}) ?t"
    using lo rt b bn(1) by (auto simp: locks_ok_def)
  then show ?thesis
    using brelse_state [OF r sl bn(2)] bufs_ok_release [OF bo b clean] to_front_core [of "bufs s" b]
    by (intro exI [of _ ?t]) (simp add: cache_ok_def seen_def bframe_def pins_def bcoreD(4) [OF to_front_core])
qed

subsection \<open>The cache after binit\<close>

definition fresh_slock :: "string \<Rightarrow> sleeplock" where
  "fresh_slock nm = \<lparr>sl_locked = False, sl_name = nm, sl_pid = 0\<rparr>"

lemma initsleeplock_run:
  "\<exists>m. initsleeplock lk nm s = Ret () (s\<lparr>mach := m, slocks := (slocks s)(lk := fresh_slock nm)\<rparr>)"
proof -
  have "(l :: sleeplock)\<lparr>sl_name := nm, sl_locked := False, sl_pid := 0\<rparr> = fresh_slock nm" for l
    by (simp add: fresh_slock_def)
  then show ?thesis
    by (auto simp: initsleeplock_def initlock_def set_slock_def set_lock_def)
qed

lemma bound_buf_run:
  "\<exists>m. bound_buf b s = Ret () (s\<lparr>mach := m, slocks := (slocks s)(BufSleep b := fresh_slock ''buffer''),
     bufs := link_front (bufs s) b\<rparr>)"
proof -
  define B where "B = (bufs s)(b := (bufs s b)\<lparr>bnext := bnext (bufs s HEAD)\<rparr>)"
  define C where "C = B(b := (B b)\<lparr>bprev := HEAD\<rparr>)"
  have lf: "link_front (bufs s) b = (C(bnext (C HEAD) := (C (bnext (C HEAD)))\<lparr>bprev := b\<rparr>))(HEAD :=
      ((C(bnext (C HEAD) := (C (bnext (C HEAD)))\<lparr>bprev := b\<rparr>)) HEAD)\<lparr>bnext := b\<rparr>)"
    by (simp add: link_front_def Let_def B_def C_def del: fun_upd_apply)
  obtain m where m: "initsleeplock (BufSleep b) ''buffer'' (s\<lparr>bufs := C\<rparr>) =
      Ret () (s\<lparr>mach := m, slocks := (slocks s)(BufSleep b := fresh_slock ''buffer''), bufs := C\<rparr>)"
    using initsleeplock_run [of "BufSleep b" "''buffer''" "s\<lparr>bufs := C\<rparr>"] by auto
  have "bound_buf b s = thn (set_buf b (\<lambda>x. x\<lparr>bprev := HEAD\<rparr>)) (
     thn (initsleeplock (BufSleep b) ''buffer'') (
     bnd (get_buf HEAD) (\<lambda>h.
     thn (set_buf (bnext h) (\<lambda>x. x\<lparr>bprev := b\<rparr>))
         (set_buf HEAD (\<lambda>h. h\<lparr>bnext := b\<rparr>))))) (s\<lparr>bufs := B\<rparr>)"
    by (simp add: bound_buf_def B_def del: fun_upd_apply)
  also have "\<dots> = Ret () (s\<lparr>mach := m, slocks := (slocks s)(BufSleep b := fresh_slock ''buffer''),
     bufs := link_front (bufs s) b\<rparr>)"
    using m by (simp add: lf C_def del: fun_upd_apply)
  finally show ?thesis by blast
qed

lemma bound_bufs_run:
  assumes "n \<le> NBUF" and "bnext (bufs s HEAD) = HEAD" and "bprev (bufs s HEAD) = HEAD"
  shows "\<exists>t. kfor [0..<n] bound_buf s = Ret () t \<and> seg (bufs t) HEAD (rev [0..<n]) HEAD \<and>
    outside t = outside s \<and> ptable t = ptable s \<and> disk t = disk s \<and> idequeue t = idequeue s \<and>
    disk_writes t = disk_writes s \<and> (\<forall>c. bcore (bufs t c) = bcore (bufs s c) \<and> brefcnt (bufs t c) = brefcnt (bufs s c)) \<and>
    (\<forall>c<n. slocks t (BufSleep c) = fresh_slock ''buffer'')"
  using assms(1)
proof (induction n)
  case 0
  then show ?case using assms(2,3) by simp
next
  case (Suc n)
  then obtain t where t: "kfor [0..<n] bound_buf s = Ret () t" "seg (bufs t) HEAD (rev [0..<n]) HEAD"
    "outside t = outside s" "ptable t = ptable s" "disk t = disk s" "idequeue t = idequeue s"
    "disk_writes t = disk_writes s"
    "\<And>c. bcore (bufs t c) = bcore (bufs s c)" "\<And>c. brefcnt (bufs t c) = brefcnt (bufs s c)"
    "\<And>c. c < n \<Longrightarrow> slocks t (BufSleep c) = fresh_slock ''buffer''"
    by auto
  obtain m where m: "bound_buf n t = Ret () (t\<lparr>mach := m, slocks := (slocks t)(BufSleep n := fresh_slock ''buffer''),
     bufs := link_front (bufs t) n\<rparr>)" using bound_buf_run by blast
  have "seg (link_front (bufs t) n) HEAD (n # rev [0..<n]) HEAD"
    using t(2) Suc.prems by (intro link_front_seg) (auto simp: HEAD_def)
  then show ?case
    using kfor_snoc [of "[0..<n]" n bound_buf s] t m by (auto simp: link_front_core less_Suc_eq)
qed

lemma binit_ring:
  "\<exists>t. binit s = Ret () t \<and> ring (bufs t) (rev [0..<NBUF]) \<and> disk t = disk s \<and>
    (\<forall>b<NBUF. bcore (bufs t b) = bcore (bufs s b) \<and> brefcnt (bufs t b) = brefcnt (bufs s b) \<and>
      \<not> sl_locked (slocks t (BufSleep b)))"
proof -
  define u where "u = s\<lparr>mach := (mach s)\<lparr>locks := (locks (mach s))(BcacheLock :=
      \<lparr>lname = ''bcache'', locked = False, lcpu = None\<rparr>)\<rparr>,
    bufs := (bufs s)(HEAD := (bufs s HEAD)\<lparr>bprev := HEAD, bnext := HEAD\<rparr>)\<rparr>"
  have u: "binit s = kfor [0..<NBUF] bound_buf u"
    by (simp add: binit_def u_def initlock_def set_lock_def)
  obtain t where t: "kfor [0..<NBUF] bound_buf u = Ret () t" "seg (bufs t) HEAD (rev [0..<NBUF]) HEAD"
    "disk t = disk u" "\<And>c. bcore (bufs t c) = bcore (bufs u c)" "\<And>c. brefcnt (bufs t c) = brefcnt (bufs u c)"
    "\<And>c. c < NBUF \<Longrightarrow> slocks t (BufSleep c) = fresh_slock ''buffer''"
    using bound_bufs_run [of NBUF u] by (auto simp: u_def)
  have same: "bufs u c = bufs s c" if "c < NBUF" for c using that by (simp add: u_def HEAD_def)
  have d: "disk u = disk s" by (simp add: u_def)
  show ?thesis unfolding u
    by (rule exI [of _ t]) (use t same d in \<open>auto simp: ring_def fresh_slock_def\<close>)
qed

subsection \<open>Reading and writing blocks\<close>

text \<open>What bread, a store into the data, bwrite and brelse do in sequence.\<close>

definition update_block :: "nat \<Rightarrow> (block \<Rightarrow> block) \<Rightarrow> ('z kide_scheme, unit) km" where
  "update_block n f =
     bnd (bread 1 n) (\<lambda>b.
     thn (set_buf b (\<lambda>x. x\<lparr>bdata := f (bdata x)\<rparr>)) (
     thn (bwrite b) (brelse b)))"

definition write_block :: "nat \<Rightarrow> block \<Rightarrow> ('z kide_scheme, unit) km" where
  "write_block n d = update_block n (\<lambda>_. d)"

definition read_block :: "nat \<Rightarrow> ('z kide_scheme, block) km" where
  "read_block n = bnd (bread 1 n) (\<lambda>b. bnd (get_buf b) (\<lambda>x. thn (brelse b) (ret (bdata x))))"

lemma update_block_run:
  assumes ok: "cache_ok p H s" and n: "\<And>b. b \<in> H \<Longrightarrow> bblockno (bufs s b) \<noteq> n" "n < FSSIZE"
    and room: "card (H \<union> dirties (bufs s)) < NBUF"
  shows "\<exists>t. update_block n f s = Ret () t \<and> cache_ok p H t \<and> seen t = (seen s)(n := f (seen s n)) \<and>
    disk t 1 = (disk s 1)(n := f (seen s n)) \<and> disk_writes t = disk_writes s @ [(1, n, f (seen s n))] \<and>
    pins (bufs t) = pins (bufs s) - {n} \<and> bframe s t"
proof -
  define d where "d = f (seen s n)"
  obtain b u where u: "bread 1 n s = Ret b u" "cache_ok p (insert b H) u" "b < NBUF" "b \<notin> H"
    "bblockno (bufs u b) = n" "seen u = seen s" "disk u = disk s" "disk_writes u = disk_writes s" "bframe s u"
    "bdata (bufs u b) = seen s n" "pins (bufs u) = pins (bufs s)"
    using bread_run [OF ok n disjI2 [OF room]] by blast
  let ?x = "(bufs u b)\<lparr>bdata := d\<rparr>"
  let ?v = "u\<lparr>bufs := (bufs u)(b := ?x)\<rparr>"
  have v: "cache_ok p (insert b H) ?v" "seen ?v = (seen u)(n := d)"
    using cache_put [OF u(2), where b = b and x = ?x and d = d and v = "bdirty (bufs u b)"] u(5) by simp_all
  have pv: "pins (bufs ?v) = pins (bufs u)" by (auto simp: pins_def dirties_def image_iff)
  have st: "set_buf b (\<lambda>x. x\<lparr>bdata := f (bdata x)\<rparr>) u = Ret () ?v" using u(10) by (simp add: d_def)
  obtain w where w: "bwrite b ?v = Ret () w" "cache_ok p (insert b H) w" "seen w = seen ?v"
    "disk w 1 = (disk ?v 1)(n := d)" "disk_writes w = disk_writes ?v @ [(1, n, d)]" "bframe ?v w"
    "bcore (bufs w b) = bcore (?x\<lparr>bdirty := False, bqnext := None\<rparr>)"
    "pins (bufs w) = pins (bufs ?v) - {n}"
    using bwrite_run [OF v(1), of b] u(5) by auto
  have wb: "bblockno (bufs w b) = n" "bdata (bufs w b) = d"
    using bcoreD(4,6) [OF w(7)] u(5) by simp_all
  obtain t where t: "brelse b w = Ret () t" "cache_ok p (insert b H - {b}) t" "seen t = seen w"
    "disk t = disk w" "disk_writes t = disk_writes w" "bframe w t" "pins (bufs t) = pins (bufs w)"
    using brelse_run [OF w(2), of b] wb w(4) by auto
  have fr: "bframe s t"
    using u(9) w(6) t(6) by (auto simp: bframe_def intro: same_core_trans)
  have "insert b H - {b} = H" using u(4) by auto
  then show ?thesis
    using u v(2) w t fr pv st by (intro exI [of _ t]) (simp add: update_block_def d_def [symmetric] del: set_buf_run)
qed

lemmas write_block_run = update_block_run [where f = "\<lambda>_. d" for d, folded write_block_def]


lemma read_block_run:
  assumes ok: "cache_ok p H s" and n: "\<And>b. b \<in> H \<Longrightarrow> bblockno (bufs s b) \<noteq> n" "n < FSSIZE"
    and room: "card (H \<union> dirties (bufs s)) < NBUF"
  shows "\<exists>t. read_block n s = Ret (seen s n) t \<and> cache_ok p H t \<and> seen t = seen s \<and> disk t = disk s \<and>
    disk_writes t = disk_writes s \<and> dirties (bufs t) = dirties (bufs s) \<and> bframe s t"
proof -
  obtain b u where u: "bread 1 n s = Ret b u" "cache_ok p (insert b H) u" "b < NBUF" "b \<notin> H"
    "bblockno (bufs u b) = n" "bdata (bufs u b) = seen s n" "seen u = seen s" "disk u = disk s"
    "disk_writes u = disk_writes s" "bframe s u" "dirties (bufs u) = dirties (bufs s)" "bdirty (bufs u b) \<or> seen s n = disk s 1 n"
    using bread_run [OF ok n disjI2 [OF room]] by blast
  have cl: "bdirty (bufs u b) \<or> bdata (bufs u b) = disk u 1 (bblockno (bufs u b))" using u by auto
  obtain t where t: "brelse b u = Ret () t" "cache_ok p (insert b H - {b}) t" "seen t = seen u"
    "disk t = disk u" "disk_writes t = disk_writes u" "bframe u t" "dirties (bufs t) = dirties (bufs u)"
    using brelse_run [OF u(2) _ cl] by auto
  have "insert b H - {b} = H" using u(4) by auto
  moreover have "bframe s t" using u(10) t(6) by (rule bframe_trans)
  ultimately show ?thesis
    using u t by (intro exI [of _ t]) (simp add: read_block_def)
qed

text \<open>
  C3. The cache is coherent. In a machine at rest with an idle, working disk and some buffer to
  spare, reading a block returns its latest contents and disturbs nothing; writing it through the
  cache makes the new contents what every later read returns and what the sector holds, in
  exactly one write of the device, and no other block changes.
\<close>

theorem cache_coherent:
  assumes "cache_ok p {} s" and "n < FSSIZE" and "card (dirties (bufs s)) < NBUF"
  shows "(\<exists>t. write_block n d s = Ret () t \<and> cache_ok p {} t \<and> seen t = (seen s)(n := d) \<and>
    disk t 1 = (disk s 1)(n := d) \<and> disk_writes t = disk_writes s @ [(1, n, d)]) \<and>
    (\<exists>t. read_block n s = Ret (seen s n) t \<and> cache_ok p {} t \<and> seen t = seen s \<and> disk t = disk s \<and>
    disk_writes t = disk_writes s)"
  using write_block_run [OF assms(1) _ assms(2), of d] read_block_run [OF assms(1) _ assms(2)] assms(3)
  by (auto simp del: One_nat_def)

subsection \<open>A concrete cache\<close>

text \<open>Process 2 runs; the buffers are in the order binit gives them and all unused.\<close>

definition bufs0 :: "nat \<Rightarrow> buf" where
  "bufs0 b = blank_buf\<lparr>
     bnext := (if b = 0 then HEAD else b - 1),
     bprev := (if b = HEAD then 0 else b + 1)\<rparr>"

definition kbio0 :: kide where
  "kbio0 = (kide0 False False)\<lparr>slocks := (\<lambda>_. fresh_slock ''buffer''), bufs := bufs0\<rparr>"

lemma seg_down: "k \<le> NBUF \<Longrightarrow> seg bufs0 k (rev [0..<k]) HEAD"
  by (induction k) (auto simp: bufs0_def HEAD_def blank_buf_def)

lemma bufs0_ring: "ring bufs0 (rev [0..<NBUF])"
  using seg_down [of NBUF] by (auto simp: ring_def HEAD_def)

lemma bufs0_ok: "bufs_ok {} bufs0 D" "dirties bufs0 = {}"
proof -
  have f: "bdev (bufs0 b) = 0" "\<not> bvalid (bufs0 b)" "\<not> bdirty (bufs0 b)" "brefcnt (bufs0 b) = 0" for b
    by (simp_all add: bufs0_def blank_buf_def)
  then show "dirties bufs0 = {}" by (simp add: dirties_def)
  show "bufs_ok {} bufs0 D" unfolding bufs_ok_def using f bufs0_ring by (auto simp: holds_def)
qed

lemma kbio0_ok: "cache_ok 2 {} kbio0" "dirties (bufs kbio0) = {}" "disk kbio0 1 n = (\<lambda>_. of_nat n)"
  "disk_writes kbio0 = []" "bufs kbio0 = bufs0"
proof -
  have r: "at_rest 2 kbio0"
    using kide0_ok [of False False] by (simp add: request_ok_def at_rest_def kbio0_def)
  then show "cache_ok 2 {} kbio0"
    using bufs0_ok(1) by (simp add: cache_ok_def locks_ok_def) (simp add: kbio0_def kide0_def fresh_slock_def)
qed (simp_all add: kbio0_def bufs0_ok kide0_def)

lemma cache_coherent_witness:
  "(\<exists>t. write_block 7 (\<lambda>_. 9) kbio0 = Ret () t \<and> disk_writes t = [(1, 7, \<lambda>_. 9)]) \<and>
   (\<exists>u. read_block 7 kbio0 = Ret (\<lambda>_. 7) u)"
proof -
  have "seen kbio0 7 = (\<lambda>_. 7)"
    unfolding seen_def kbio0_ok(5)
    by (subst sees_miss) (simp_all add: bufs0_def blank_buf_def holds_def kbio0_ok(3) [of 7, simplified])
  then show ?thesis
    using cache_coherent [OF kbio0_ok(1), of 7 "\<lambda>_. 9"] kbio0_ok(2,4) by (auto simp: FSSIZE_def NBUF_def)
qed

end
