(* ===== verification/Log.thy ===== *)
theory Log
  imports Bio
begin

section \<open>The write-ahead log (log.c)\<close>

text \<open>
  The log occupies the blocks from \<open>lgstart\<close> on device 1: a header block, then the copies of the
  logged blocks. The C integers of \<open>struct log\<close> are kept as numbers; the logged block numbers
  \<open>lhblock\<close> are words, as they come from the disk.
\<close>

subsection \<open>Words in a block\<close>

definition get32 :: "block \<Rightarrow> nat \<Rightarrow> u32" where
  "get32 d i = ucast (d i) OR push_bit 8 (ucast (d (i + 1))) OR
     push_bit 16 (ucast (d (i + 2))) OR push_bit 24 (ucast (d (i + 3)))"

definition put32 :: "block \<Rightarrow> nat \<Rightarrow> u32 \<Rightarrow> block" where
  "put32 d i v = d(i := ucast v, i + 1 := ucast (drop_bit 8 v),
     i + 2 := ucast (drop_bit 16 v), i + 3 := ucast (drop_bit 24 v))"

lemma get32_put32: "get32 (put32 d i v) i = v"
proof -
  have "get32 (put32 d i v) i = ld32 (st32 (\<lambda>_. 0) 0 v) 0"
    by (simp add: get32_def put32_def ld32_def st32_def)
  then show ?thesis by (simp add: ld32_st32_same)
qed

lemma put32_other: "j < i \<or> i + 4 \<le> j \<Longrightarrow> put32 d i v j = d j"
  by (auto simp: put32_def)

lemma get32_other: "j + 4 \<le> i \<or> i + 4 \<le> j \<Longrightarrow> get32 (put32 d i v) j = get32 d j"
  by (auto simp: get32_def put32_other)

subsection \<open>State and operations\<close>

definition MAXOPBLOCKS :: nat where "MAXOPBLOCKS = 10"
definition LOGSIZE :: nat where "LOGSIZE = MAXOPBLOCKS * 3"

record superblock =
  sb_size :: u32
  sb_nblocks :: u32
  sb_ninodes :: u32
  sb_nlog :: u32
  sb_logstart :: u32
  sb_inodestart :: u32
  sb_bmapstart :: u32

record klog = kide +
  lgstart :: nat
  lgsize :: nat
  lgoutstanding :: int
  lgcommitting :: bool
  lgdev :: nat
  lhn :: int
  lhblock :: "nat \<Rightarrow> u32"

text \<open>readsb (fs.c): the superblock is block 1.\<close>

definition superblock_at :: "block \<Rightarrow> superblock" where
  "superblock_at d = \<lparr>sb_size = get32 d 0, sb_nblocks = get32 d 4, sb_ninodes = get32 d 8,
     sb_nlog = get32 d 12, sb_logstart = get32 d 16, sb_inodestart = get32 d 20, sb_bmapstart = get32 d 24\<rparr>"

definition readsb :: "nat \<Rightarrow> ('z kide_scheme, superblock) km" where
  "readsb dev =
     bnd (bread dev 1) (\<lambda>b.
     bnd (get_buf b) (\<lambda>x.
     thn (brelse b) (ret (superblock_at (bdata x)))))"

text \<open>memmove of a whole block, and what write_log and install_trans do with their two buffers.\<close>

definition copy_buf :: "nat \<Rightarrow> nat \<Rightarrow> ('z kide_scheme, unit) km" where
  "copy_buf dst src = bnd (get_buf src) (\<lambda>x. set_buf dst (\<lambda>y. y\<lparr>bdata := bdata x\<rparr>))"

definition write_copy :: "nat \<Rightarrow> nat \<Rightarrow> ('z kide_scheme, unit) km" where
  "write_copy dst src =
     thn (copy_buf dst src) (
     thn (bwrite dst) (
     thn (brelse src) (brelse dst)))"

definition install_one :: "nat \<Rightarrow> ('z klog_scheme, unit) km" where
  "install_one tail =
     bnd (gets (\<lambda>s. (lgdev s, lgstart s, unat (lhblock s tail)))) (\<lambda>(dev, start, n).
     bnd (bread dev (start + tail + 1)) (\<lambda>lbuf.
     bnd (bread dev n) (\<lambda>dbuf.
     write_copy dbuf lbuf)))"

definition install_trans :: "('z klog_scheme, unit) km" where
  "install_trans = bnd (gets lhn) (\<lambda>n. kfor [0..<nat n] install_one)"

text \<open>The loop of read_head stores past the array when the header names more than LOGSIZE blocks.\<close>

definition read_head :: "('z klog_scheme, unit) km" where
  "read_head =
     bnd (gets (\<lambda>s. (lgdev s, lgstart s))) (\<lambda>(dev, start).
     bnd (bread dev start) (\<lambda>b.
     bnd (get_buf b) (\<lambda>x.
     thn (modf (\<lambda>s. s\<lparr>lhn := sint (get32 (bdata x) 0)\<rparr>)) (
     bnd (gets lhn) (\<lambda>n.
     thn (kfor [0..<nat n] (\<lambda>i.
       if i \<ge> LOGSIZE then fault ''read_head: store past log.lh.block''
       else modf (\<lambda>s. s\<lparr>lhblock := (lhblock s)(i := get32 (bdata x) (4 + 4 * i))\<rparr>))) (
     brelse b))))))"

fun put_head :: "int \<Rightarrow> (nat \<Rightarrow> u32) \<Rightarrow> block \<Rightarrow> block" where
  "put_head n bl d = fold (\<lambda>i d. put32 d (4 + 4 * i) (bl i)) [0..<nat n] (put32 d 0 (word_of_int n))"

definition write_head :: "('z klog_scheme, unit) km" where
  "write_head =
     bnd (gets (\<lambda>s. (lgdev s, lgstart s, lhn s, lhblock s))) (\<lambda>(dev, start, n, bl).
     bnd (bread dev start) (\<lambda>b.
     thn (set_buf b (\<lambda>x. x\<lparr>bdata := put_head n bl (bdata x)\<rparr>)) (
     thn (bwrite b) (brelse b))))"

definition recover_from_log :: "('z klog_scheme, unit) km" where
  "recover_from_log =
     thn read_head (
     thn install_trans (
     thn (modf (\<lambda>s. s\<lparr>lhn := 0\<rparr>)) write_head))"

definition initlog :: "nat \<Rightarrow> ('z klog_scheme, unit) km" where
  "initlog dev =
     (if 4 + 4 * LOGSIZE \<ge> BSIZE then panic ''initlog: too big logheader''
      else thn (initlock LogLock ''log'') (
        bnd (readsb dev) (\<lambda>sb.
        thn (modf (\<lambda>s. s\<lparr>lgstart := unat (sb_logstart sb)\<rparr>)) (
        thn (modf (\<lambda>s. s\<lparr>lgsize := unat (sb_nlog sb)\<rparr>)) (
        thn (modf (\<lambda>s. s\<lparr>lgdev := dev\<rparr>)) recover_from_log)))))"

text \<open>begin_op either returns or goes to sleep on the log; \<open>begin_op_resume\<close> is the rest after
  a wakeup.\<close>

definition begin_op_loop :: "('z klog_scheme, unit) km" where
  "begin_op_loop =
     bnd (gets (\<lambda>s. (lgcommitting s, lhn s, lgoutstanding s))) (\<lambda>(committing, n, out).
     if committing then sleep ChanLog LogLock
     else if n + (out + 1) * int MAXOPBLOCKS > int LOGSIZE then sleep ChanLog LogLock
     else thn (modf (\<lambda>s. s\<lparr>lgoutstanding := lgoutstanding s + 1\<rparr>)) (release LogLock))"

definition begin_op :: "('z klog_scheme, unit) km" where
  "begin_op = thn (acquire LogLock) begin_op_loop"

definition begin_op_resume :: "('z klog_scheme, unit) km" where
  "begin_op_resume = thn (sleep_resume LogLock) begin_op_loop"

definition write_log_one :: "nat \<Rightarrow> ('z klog_scheme, unit) km" where
  "write_log_one tail =
     bnd (gets (\<lambda>s. (lgdev s, lgstart s, unat (lhblock s tail)))) (\<lambda>(dev, start, n).
     bnd (bread dev (start + tail + 1)) (\<lambda>to_b.
     bnd (bread dev n) (\<lambda>from_b.
     write_copy to_b from_b)))"

definition write_log :: "('z klog_scheme, unit) km" where
  "write_log = bnd (gets lhn) (\<lambda>n. kfor [0..<nat n] write_log_one)"

definition commit :: "('z klog_scheme, unit) km" where
  "commit =
     bnd (gets lhn) (\<lambda>n.
     whn (n > 0) (
       thn write_log (
       thn write_head (
       thn install_trans (
       thn (modf (\<lambda>s. s\<lparr>lhn := 0\<rparr>)) write_head)))))"

definition end_op :: "('z klog_scheme, unit) km" where
  "end_op =
     thn (acquire LogLock) (
     thn (modf (\<lambda>s. s\<lparr>lgoutstanding := lgoutstanding s - 1\<rparr>)) (
     bnd (gets (\<lambda>s. (lgcommitting s, lgoutstanding s))) (\<lambda>(committing, out).
     if committing then panic ''log.committing''
     else if out = 0 then
       thn (modf (\<lambda>s. s\<lparr>lgcommitting := True\<rparr>)) (
       thn (release LogLock) (
       thn commit (
       thn (acquire LogLock) (
       thn (modf (\<lambda>s. s\<lparr>lgcommitting := False\<rparr>)) (
       thn (wakeup ChanLog) (release LogLock))))))
     else thn (wakeup ChanLog) (release LogLock))))"

text \<open>The index at which log_write records block \<open>w\<close>: its own, or the first free one.\<close>

definition log_slot :: "int \<Rightarrow> (nat \<Rightarrow> u32) \<Rightarrow> u32 \<Rightarrow> nat" where
  "log_slot n bl w = (case find (\<lambda>i. bl i = w) [0..<nat n] of Some i \<Rightarrow> i | None \<Rightarrow> nat n)"

definition log_write :: "nat \<Rightarrow> ('z klog_scheme, unit) km" where
  "log_write b =
     bnd (gets (\<lambda>s. (lhn s, lgsize s, lgoutstanding s))) (\<lambda>(n, sz, out).
     if n \<ge> int LOGSIZE \<or> n \<ge> int sz - 1 then panic ''too big a transaction''
     else if out < 1 then panic ''log_write outside of trans''
     else thn (acquire LogLock) (
       bnd (get_buf b) (\<lambda>x.
       bnd (gets (\<lambda>s. log_slot (lhn s) (lhblock s) (of_nat (bblockno x)))) (\<lambda>i.
       thn (modf (\<lambda>s. s\<lparr>lhblock := (lhblock s)(i := of_nat (bblockno x))\<rparr>)) (
       thn (modf (\<lambda>s. if int i = lhn s then s\<lparr>lhn := lhn s + 1\<rparr> else s)) (
       thn (set_buf b (\<lambda>x. x\<lparr>bdirty := True\<rparr>)) (release LogLock)))))))"

subsection \<open>What the layers below leave alone\<close>

lemma log_frame:
  fixes s t :: "'z klog_scheme"
  assumes "bframe s t"
  shows "lgstart t = lgstart s" "lgsize t = lgsize s" "lgoutstanding t = lgoutstanding s"
    "lgcommitting t = lgcommitting s" "lgdev t = lgdev s" "lhn t = lhn s" "lhblock t = lhblock s"
    "klog.more t = klog.more s"
proof -
  have o: "outside t = outside s" using assms by (simp add: bframe_def)
  have e: "outside t m tb sl B q d r ws = outside s m tb sl B q d r ws" for m tb sl B q d r ws
    by (simp only: o)
  note a = arg_cong [OF e]
  show "lgstart t = lgstart s" "lgsize t = lgsize s" "lgoutstanding t = lgoutstanding s"
    "lgcommitting t = lgcommitting s" "lgdev t = lgdev s" "lhn t = lhn s" "lhblock t = lhblock s"
    "klog.more t = klog.more s"
    using a [of lgstart] a [of lgsize] a [of lgoutstanding] a [of lgcommitting] a [of lgdev] a [of lhn]
      a [of lhblock] a [of klog.more]
    by (simp_all add: outside_def)
qed

lemma cache_ok_log [simp]:
  fixes s :: "'z klog_scheme"
  shows "cache_ok p H (s\<lparr>lhn := n\<rparr>) = cache_ok p H s" "cache_ok p H (s\<lparr>lhblock := bl\<rparr>) = cache_ok p H s"
    "cache_ok p H (s\<lparr>lgoutstanding := k\<rparr>) = cache_ok p H s" "cache_ok p H (s\<lparr>lgcommitting := c\<rparr>) = cache_ok p H s"
    "seen (s\<lparr>lhn := n\<rparr>) = seen s" "seen (s\<lparr>lhblock := bl\<rparr>) = seen s"
    "seen (s\<lparr>lgoutstanding := k\<rparr>) = seen s" "seen (s\<lparr>lgcommitting := c\<rparr>) = seen s"
  by (simp_all add: cache_ok_def locks_ok_def at_rest_def seen_def)

definition put_blocks :: "(nat \<times> block) list \<Rightarrow> (nat \<Rightarrow> block) \<Rightarrow> nat \<Rightarrow> block" where
  "put_blocks ws D = fold (\<lambda>(n, d) D. D(n := d)) ws D"

text \<open>\<open>did ws s t\<close>: from \<open>s\<close> to \<open>t\<close> the device has written exactly the blocks \<open>ws\<close>, in order.\<close>

definition did :: "(nat \<times> block) list \<Rightarrow> 'z kide_scheme \<Rightarrow> 'z kide_scheme \<Rightarrow> bool" where
  "did ws s t \<longleftrightarrow> disk t 1 = put_blocks ws (disk s 1) \<and> disk_writes t = disk_writes s @ map (Pair 1) ws"

lemma put_blocks_simps [simp]:
  "put_blocks [] D = D" "put_blocks (w # ws) D = put_blocks ws (D(fst w := snd w))"
  "put_blocks (us @ ws) D = put_blocks ws (put_blocks us D)"
  by (simp_all add: put_blocks_def split: prod.split)

lemma did_Nil: "disk t = disk s \<Longrightarrow> disk_writes t = disk_writes s \<Longrightarrow> did [] s t"
  by (simp add: did_def)

lemma did_trans: "did us s t \<Longrightarrow> did ws t u \<Longrightarrow> did (us @ ws) s u"
  by (simp add: did_def)

lemma did_log [simp]:
  fixes s t :: "'z klog_scheme"
  shows "did ws (s\<lparr>lhn := n\<rparr>) t = did ws s t" "did ws s (t\<lparr>lhn := n\<rparr>) = did ws s t"
    "did ws (s\<lparr>lhblock := bl\<rparr>) t = did ws s t" "did ws s (t\<lparr>lhblock := bl\<rparr>) = did ws s t"
  by (simp_all add: did_def)

lemma pins_holds:
  assumes "bufs_ok H B D" and "n \<in> pins B"
  shows "\<exists>b. holds B b n"
  using assms bufs_okD(3,5) [OF assms(1)] by (force simp: pins_def dirties_def holds_def)

lemma card_pins:
  assumes "bufs_ok H B D"
  shows "card (dirties B) = card (pins B)"
proof -
  have "inj_on (\<lambda>b. bblockno (B b)) (dirties B)"
  proof (rule inj_onI)
    fix b c assume "b \<in> dirties B" "c \<in> dirties B" "bblockno (B b) = bblockno (B c)"
    then show "b = c"
      using bufs_okD(3,5) [OF assms, of b] bufs_okD(3,5) [OF assms, of c]
        bufs_okD(7) [OF assms, of b "bblockno (B c)" c] by (auto simp: dirties_def holds_def)
  qed
  then show ?thesis by (simp add: pins_def card_image)
qed

lemma clean_buf:
  assumes "n \<notin> pins B" and "b < NBUF" and "bblockno (B b) = n"
  shows "\<not> bdirty (B b)"
  using assms by (auto simp: pins_def dirties_def)

text \<open>Two different blocks read one after the other, the second of which may be pinned.\<close>

lemma bread_two_run:
  assumes ok: "cache_ok p {} s" and ac: "a \<noteq> c" "a < FSSIZE" "c < FSSIZE"
    and room: "card (pins (bufs s)) < NBUF" "c \<in> pins (bufs s) \<or> card (pins (bufs s)) + 1 < NBUF"
  shows "\<exists>x y t u. bread 1 a s = Ret x t \<and> bread 1 c t = Ret y u \<and> cache_ok p {x, y} u \<and> x \<noteq> y \<and>
    bblockno (bufs u x) = a \<and> bblockno (bufs u y) = c \<and> bdata (bufs u x) = seen s a \<and>
    bdata (bufs u y) = seen s c \<and> seen u = seen s \<and> did [] s u \<and> disk u 1 = disk s 1 \<and> bframe s u \<and>
    pins (bufs u) = pins (bufs s) \<and> bframe s t \<and>
    (bdirty (bufs u x) \<or> seen s a = disk s 1 a) \<and> (bdirty (bufs u y) \<or> seen s c = disk s 1 c)"
proof -
  have cd: "card (dirties (bufs s)) = card (pins (bufs s))" using card_pins [OF cache_okD(3) [OF ok]] .
  obtain x t where t: "bread 1 a s = Ret x t" "cache_ok p {x} t" "x < NBUF" "bblockno (bufs t x) = a"
    "bdata (bufs t x) = seen s a" "seen t = seen s" "disk t = disk s"
    "bdirty (bufs t x) \<or> seen s a = disk s 1 a" "disk_writes t = disk_writes s"
    "bframe s t" "dirties (bufs t) = dirties (bufs s)" "pins (bufs t) = pins (bufs s)"
    using bread_run [OF ok _ ac(2)] room(1) cd by auto
  have fin: "finite (dirties (bufs t))" using dirties_small by (rule finite_small)
  have "(\<exists>b. holds (bufs t) b c) \<or> card ({x} \<union> dirties (bufs t)) < NBUF"
  proof (cases "c \<in> pins (bufs s)")
    case True
    then show ?thesis using pins_holds [OF cache_okD(3) [OF t(2)]] t(12) by simp
  next
    case False
    have "card ({x} \<union> dirties (bufs t)) \<le> card {x} + card (dirties (bufs t))" by (rule card_Un_le)
    then show ?thesis using room(2) False t(11) cd by simp
  qed
  then obtain y u where u: "bread 1 c t = Ret y u" "cache_ok p (insert y {x}) u" "y < NBUF" "y \<noteq> x"
    "bblockno (bufs u y) = c" "bdata (bufs u y) = seen t c" "seen u = seen t" "disk u = disk t"
    "bdirty (bufs u y) \<or> seen t c = disk t 1 c" "disk_writes u = disk_writes t"
    "bframe t u" "pins (bufs u) = pins (bufs t)" "\<And>d. d \<noteq> y \<Longrightarrow> bufs u d = bufs t d"
    using bread_run [OF t(2) _ ac(3)] t(4) ac(1) by auto
  have "bframe s u" using t(10) u(11) by (rule bframe_trans)
  moreover have "bufs u x = bufs t x" using u(13) [of x] u(4) by simp
  moreover have "did [] s u" using t u by (intro did_Nil) simp_all
  ultimately show ?thesis
    using t u by (intro exI [of _ x] exI [of _ y] exI [of _ t] exI [of _ u]) (simp add: insert_commute)
qed

lemma write_copy_run:
  assumes ok: "cache_ok p {f, b} s" and fb: "f \<noteq> b"
    and cl: "bdirty (bufs s f) \<or> bdata (bufs s f) = disk s 1 (bblockno (bufs s f))"
  shows "\<exists>t. write_copy b f s = Ret () t \<and> cache_ok p {} t \<and> did [(bblockno (bufs s b), bdata (bufs s f))] s t \<and>
    seen t = (seen s)(bblockno (bufs s b) := bdata (bufs s f)) \<and>
    pins (bufs t) = pins (bufs s) - {bblockno (bufs s b)} \<and> bframe s t"
proof -
  let ?n = "bblockno (bufs s b)" and ?d = "bdata (bufs s f)"
  let ?x = "(bufs s b)\<lparr>bdata := ?d\<rparr>"
  let ?v = "s\<lparr>bufs := (bufs s)(b := ?x)\<rparr>"
  have num: "bblockno (bufs s f) \<noteq> ?n"
    using bufs_okD(1,4) [OF cache_okD(3) [OF ok], of b] bufs_okD(1,4) [OF cache_okD(3) [OF ok], of f]
      bufs_okD(5) [OF cache_okD(3) [OF ok], of b] bufs_okD(5) [OF cache_okD(3) [OF ok], of f]
      bufs_okD(7) [OF cache_okD(3) [OF ok], of f ?n b] fb
    by (auto simp: holds_def)
  have v: "cache_ok p {f, b} ?v" "seen ?v = (seen s)(?n := ?d)"
    using cache_put [OF ok, where b = b and x = ?x and d = ?d and v = "bdirty (bufs s b)"] by simp_all
  have pv: "pins (bufs ?v) = pins (bufs s)" by (auto simp: pins_def dirties_def image_iff)
  obtain w where w: "bwrite b ?v = Ret () w" "cache_ok p {f, b} w" "seen w = seen ?v"
    "disk w 1 = (disk s 1)(?n := ?d)" "disk_writes w = disk_writes s @ [(1, ?n, ?d)]" "bframe ?v w"
    "pins (bufs w) = pins (bufs ?v) - {?n}"
    "bcore (bufs w b) = bcore (?x\<lparr>bdirty := False, bqnext := None\<rparr>)" "bufs w f = bufs s f"
    using bwrite_run [OF v(1), of b] fb by auto
  have wb: "bblockno (bufs w b) = ?n" "bdata (bufs w b) = ?d" using bcoreD(4,6) [OF w(8)] by simp_all
  have cf: "bdirty (bufs w f) \<or> bdata (bufs w f) = disk w 1 (bblockno (bufs w f))"
    using cl num w(4,9) by simp
  obtain r where r: "brelse f w = Ret () r" "cache_ok p ({f, b} - {f}) r" "seen r = seen w" "disk r = disk w"
    "disk_writes r = disk_writes w" "bframe w r" "pins (bufs r) = pins (bufs w)" "\<And>c. bcore (bufs r c) = bcore (bufs w c)"
    using brelse_run [OF w(2) _ cf] by auto
  have hb: "{f, b} - {f} = {b}" using fb by auto
  have cb: "bdirty (bufs r b) \<or> bdata (bufs r b) = disk r 1 (bblockno (bufs r b))"
    using bcoreD(4,6) [OF r(8) [of b]] wb w(4) r(4) by simp
  obtain t where t: "brelse b r = Ret () t" "cache_ok p ({f, b} - {f} - {b}) t" "seen t = seen r" "disk t = disk r"
    "disk_writes t = disk_writes r" "bframe r t" "pins (bufs t) = pins (bufs r)"
    using brelse_run [OF r(2) _ cb] fb by auto
  have "bframe s t" using w(6) r(6) t(6) by (auto simp: bframe_def intro: same_core_trans)
  moreover have "write_copy b f s = Ret () t" using w(1) r(1) t(1) by (simp add: write_copy_def copy_buf_def)
  moreover have "cache_ok p {} t" using t(2) hb by simp
  ultimately show ?thesis
    using w r t v(2) pv by (intro exI [of _ t]) (simp add: did_def)
qed

subsection \<open>The header block\<close>

lemma put_head_fold:
  assumes "k \<le> n"
  shows "get32 (fold (\<lambda>i d. put32 d (4 + 4 * i) (bl i)) [0..<k] d) 0 = get32 d 0 \<and>
    (\<forall>i<k. get32 (fold (\<lambda>i d. put32 d (4 + 4 * i) (bl i)) [0..<k] d) (4 + 4 * i) = bl i)"
  using assms
proof (induction k)
  case (Suc k)
  then have IH: "get32 (fold (\<lambda>i d. put32 d (4 + 4 * i) (bl i)) [0..<k] d) 0 = get32 d 0"
    "\<And>i. i < k \<Longrightarrow> get32 (fold (\<lambda>i d. put32 d (4 + 4 * i) (bl i)) [0..<k] d) (4 + 4 * i) = bl i"
    by auto
  show ?case
  proof (intro conjI allI impI)
    show "get32 (fold (\<lambda>i d. put32 d (4 + 4 * i) (bl i)) [0..<Suc k] d) 0 = get32 d 0"
      using IH(1) by (simp add: get32_other)
    fix i assume "i < Suc k"
    then show "get32 (fold (\<lambda>i d. put32 d (4 + 4 * i) (bl i)) [0..<Suc k] d) (4 + 4 * i) = bl i"
      using IH(2) [of i] by (cases "i = k") (simp_all add: get32_put32 get32_other)
  qed
qed simp

lemma get32_put_head:
  "get32 (put_head n bl d) 0 = word_of_int n"
  "i < nat n \<Longrightarrow> get32 (put_head n bl d) (4 + 4 * i) = bl i"
  using put_head_fold [of "nat n" "nat n" bl "put32 d 0 (word_of_int n)"] by (simp_all add: get32_put32)

lemma sint_word_small: "0 \<le> n \<Longrightarrow> n < 2 ^ 31 \<Longrightarrow> sint (word_of_int n :: u32) = n"
  by transfer (simp add: signed_take_bit_int_eq_self)

subsection \<open>Copying to the log and back\<close>

text \<open>The home of the \<open>i\<close>th logged block, and what a log must satisfy: it fits the device, and the
  logged blocks are different blocks outside it.\<close>

definition home :: "'z klog_scheme \<Rightarrow> nat \<Rightarrow> nat" where
  "home s i = unat (lhblock s i)"

definition in_log :: "'z klog_scheme \<Rightarrow> nat set" where
  "in_log s = {lgstart s ..< lgstart s + lgsize s}"

definition log_ok :: "'z klog_scheme \<Rightarrow> bool" where
  "log_ok s \<longleftrightarrow> lgdev s = 1 \<and> 0 \<le> lhn s \<and> nat (lhn s) < lgsize s \<and> lgsize s \<le> LOGSIZE \<and>
     lgstart s + lgsize s \<le> FSSIZE \<and> inj_on (home s) {..<nat (lhn s)} \<and>
     (\<forall>i<nat (lhn s). home s i < FSSIZE \<and> home s i \<notin> in_log s)"

lemma log_okD:
  assumes "log_ok s"
  shows "lgdev s = 1" "0 \<le> lhn s" "nat (lhn s) < lgsize s" "lgsize s \<le> LOGSIZE" "nat (lhn s) < NBUF"
    "lgstart s + lgsize s \<le> FSSIZE" "inj_on (home s) {..<nat (lhn s)}" "lhn s < 2 ^ 31"
    "i < nat (lhn s) \<Longrightarrow> home s i < FSSIZE" "i < nat (lhn s) \<Longrightarrow> home s i \<notin> in_log s"
    "i \<le> nat (lhn s) \<Longrightarrow> lgstart s + i \<in> in_log s" "i \<le> nat (lhn s) \<Longrightarrow> lgstart s + i < FSSIZE"
  using assms by (auto simp: log_ok_def in_log_def LOGSIZE_def MAXOPBLOCKS_def NBUF_def)

lemma log_ok_frame:
  fixes s t :: "'z klog_scheme"
  assumes "bframe s t"
  shows "log_ok t = log_ok s" "home t = home s" "in_log t = in_log s"
proof -
  show h: "home t = home s" using log_frame [OF assms] by (simp add: home_def fun_eq_iff)
  show i: "in_log t = in_log s" using log_frame [OF assms] by (simp add: in_log_def)
  show "log_ok t = log_ok s" unfolding log_ok_def h i using log_frame [OF assms] by simp
qed

lemma put_blocks_other: "n \<notin> fst ` set ws \<Longrightarrow> put_blocks ws D n = D n"
  by (induction ws arbitrary: D) auto

definition to_log :: "'z klog_scheme \<Rightarrow> nat \<Rightarrow> (nat \<Rightarrow> block) \<Rightarrow> (nat \<times> block) list" where
  "to_log s k v = map (\<lambda>i. (lgstart s + i + 1, v i)) [0..<k]"

definition to_home :: "'z klog_scheme \<Rightarrow> nat \<Rightarrow> (nat \<Rightarrow> block) \<Rightarrow> (nat \<times> block) list" where
  "to_home s k v = map (\<lambda>i. (home s i, v i)) [0..<k]"

lemma to_log_Suc: "to_log s (Suc k) v = to_log s k v @ [(lgstart s + k + 1, v k)]"
  by (simp add: to_log_def)

lemma to_home_Suc: "to_home s (Suc k) v = to_home s k v @ [(home s k, v k)]"
  by (simp add: to_home_def)

lemma to_log_blocks:
  "m \<notin> in_log s \<Longrightarrow> k < lgsize s \<Longrightarrow> put_blocks (to_log s k v) D m = D m"
  "put_blocks (to_log s k v) D (lgstart s) = D (lgstart s)"
  by (rule put_blocks_other, auto simp: to_log_def in_log_def)+

lemma card_image_small: "card (f ` {..<k}) \<le> k"
  using card_image_le [of "{..<k}" f] by simp

lemma write_log_run:
  fixes s :: "'z klog_scheme"
  assumes ok: "cache_ok p {} s" and lok: "log_ok s" and pin: "pins (bufs s) = home s ` {..<nat (lhn s)}"
    and k: "k \<le> nat (lhn s)"
  shows "\<exists>t. kfor [0..<k] write_log_one s = Ret () t \<and> cache_ok p {} t \<and>
    did (to_log s k (\<lambda>i. seen s (home s i))) s t \<and>
    seen t = put_blocks (to_log s k (\<lambda>i. seen s (home s i))) (seen s) \<and>
    pins (bufs t) = pins (bufs s) \<and> bframe s t"
  using k
proof (induction k)
  case 0
  then show ?case using ok by (simp add: to_log_def did_Nil)
next
  case (Suc k)
  let ?v = "\<lambda>i. seen s (home s i)"
  obtain t where t: "kfor [0..<k] write_log_one s = Ret () t" "cache_ok p {} t"
    "did (to_log s k ?v) s t" "seen t = put_blocks (to_log s k ?v) (seen s)"
    "pins (bufs t) = pins (bufs s)" "bframe s t"
    using Suc by auto
  note L = log_okD [OF lok] and F = log_frame [OF t(6)] log_ok_frame [OF t(6)]
  have kn: "k < nat (lhn s)" using Suc.prems by simp
  let ?a = "lgstart s + k + 1"
  have a: "?a \<in> in_log s" "?a < FSSIZE" using L(11) [of "Suc k"] L(12) [of "Suc k"] kn by simp_all
  have hk: "home s k \<notin> in_log s" "home s k < FSSIZE" using L(9,10) [OF kn] by simp_all
  have pa: "?a \<notin> pins (bufs s)" using L(10) a(1) unfolding pin by auto
  have cp: "card (pins (bufs t)) < NBUF" using card_image_small [of "home s" "nat (lhn s)"] L(5) t(5) pin by simp
  have ac: "?a \<noteq> home s k" using a hk by metis
  have "home s k \<in> pins (bufs t)" using kn pin t(5) by simp
  then obtain x y t1 u where u: "bread 1 ?a t = Ret x t1" "bread 1 (home s k) t1 = Ret y u" "cache_ok p {x, y} u"
    "x \<noteq> y" "bblockno (bufs u x) = ?a" "bdata (bufs u y) = seen t (home s k)" "seen u = seen t"
    "did [] t u" "disk u 1 = disk t 1" "bframe t u" "pins (bufs u) = pins (bufs t)" "bframe t t1"
    "bblockno (bufs u y) = home s k" "bdirty (bufs u y) \<or> seen t (home s k) = disk t 1 (home s k)"
    using bread_two_run [OF t(2) ac a(2) hk(2) cp] by blast
  have cy: "bdirty (bufs u y) \<or> bdata (bufs u y) = disk u 1 (bblockno (bufs u y))" using u by simp
  have sk: "seen t (home s k) = ?v k" unfolding t(4) using hk(1) L(3) kn by (intro to_log_blocks) simp_all
  obtain w where w: "write_copy x y u = Ret () w" "cache_ok p {} w" "did [(?a, ?v k)] u w"
    "seen w = (seen u)(?a := ?v k)" "pins (bufs w) = pins (bufs u) - {?a}" "bframe u w"
    using write_copy_run [OF u(3)[unfolded insert_commute [of x y]] not_sym [OF u(4)] cy] u(5,6) sk by auto
  have one: "write_log_one k t = Ret () w"
    using u(1,2) w(1) F L(1) by (simp add: write_log_one_def home_def)
  have fr: "bframe s w" using t(6) u(10) w(6) bframe_trans by blast
  have d: "did (to_log s (Suc k) ?v) s w"
    using did_trans [OF t(3) did_trans [OF u(8) w(3)]] by (simp add: to_log_Suc)
  show ?case
    using kfor_snoc [of "[0..<k]" k write_log_one s] t one w u fr d pa
    by (intro exI [of _ w]) (simp add: to_log_Suc)
qed

lemma install_run:
  fixes s :: "'z klog_scheme"
  assumes ok: "cache_ok p {} s" and lok: "log_ok s"
    and pin: "pins (bufs s) = {} \<or> pins (bufs s) = home s ` {..<nat (lhn s)}"
    and k: "k \<le> nat (lhn s)"
  shows "\<exists>t. kfor [0..<k] install_one s = Ret () t \<and> cache_ok p {} t \<and>
    did (to_home s k (\<lambda>i. seen s (lgstart s + i + 1))) s t \<and>
    seen t = put_blocks (to_home s k (\<lambda>i. seen s (lgstart s + i + 1))) (seen s) \<and>
    pins (bufs t) = pins (bufs s) - home s ` {..<k} \<and> bframe s t"
  using k
proof (induction k)
  case 0
  then show ?case using ok by (simp add: to_home_def did_Nil)
next
  case (Suc k)
  let ?v = "\<lambda>i. seen s (lgstart s + i + 1)"
  obtain t where t: "kfor [0..<k] install_one s = Ret () t" "cache_ok p {} t"
    "did (to_home s k ?v) s t" "seen t = put_blocks (to_home s k ?v) (seen s)"
    "pins (bufs t) = pins (bufs s) - home s ` {..<k}" "bframe s t"
    using Suc by auto
  note L = log_okD [OF lok] and F = log_frame [OF t(6)] log_ok_frame [OF t(6)]
  have kn: "k < nat (lhn s)" using Suc.prems by simp
  let ?a = "lgstart s + k + 1"
  have a: "?a \<in> in_log s" "?a < FSSIZE" using L(11) [of "Suc k"] L(12) [of "Suc k"] kn by simp_all
  have hk: "home s k \<notin> in_log s" "home s k < FSSIZE" using L(9,10) [OF kn] by simp_all
  have pa: "?a \<notin> pins (bufs t)" using L(10) a(1) pin unfolding t(5) by auto
  have fin: "finite (pins (bufs s))" using pin by auto
  have cs: "card (pins (bufs s)) < NBUF"
    using card_image_small [of "home s" "nat (lhn s)"] L(5) pin by (auto simp: NBUF_def)
  then have cp: "card (pins (bufs t)) < NBUF"
    using card_mono [OF fin, of "pins (bufs t)"] t(5) by auto
  have room: "home s k \<in> pins (bufs t) \<or> card (pins (bufs t)) + 1 < NBUF"
  proof (cases "pins (bufs s) = {}")
    case False
    then have "home s k \<in> pins (bufs s)" using pin kn by simp
    moreover have "home s k \<notin> home s ` {..<k}" using inj_onD [OF L(7), of k] kn by force
    ultimately show ?thesis using t(5) by simp
  qed (simp add: t(5) NBUF_def)
  have ac: "?a \<noteq> home s k" using a hk by metis
  obtain x y t1 u where u: "bread 1 ?a t = Ret x t1" "bread 1 (home s k) t1 = Ret y u" "cache_ok p {x, y} u"
    "x \<noteq> y" "bblockno (bufs u x) = ?a" "bdata (bufs u x) = seen t ?a" "seen u = seen t"
    "did [] t u" "disk u 1 = disk t 1" "bframe t u" "pins (bufs u) = pins (bufs t)" "bframe t t1"
    "bblockno (bufs u y) = home s k" "bdirty (bufs u x) \<or> seen t ?a = disk t 1 ?a"
    using bread_two_run [OF t(2) ac a(2) hk(2) cp room] by blast
  have cx: "bdirty (bufs u x) \<or> bdata (bufs u x) = disk u 1 (bblockno (bufs u x))" using u by simp
  have sk: "seen t ?a = ?v k" unfolding t(4)
    using L(10) a(1) kn by (intro put_blocks_other) (auto simp: to_home_def)
  obtain w where w: "write_copy y x u = Ret () w" "cache_ok p {} w" "did [(home s k, ?v k)] u w"
    "seen w = (seen u)(home s k := ?v k)" "pins (bufs w) = pins (bufs u) - {home s k}" "bframe u w"
    using write_copy_run [OF u(3,4) cx] u(6,13) sk by auto
  have one: "install_one k t = Ret () w"
    using u(1,2) w(1) F L(1) by (simp add: install_one_def home_def)
  have fr: "bframe s w" using t(6) u(10) w(6) bframe_trans by blast
  have d: "did (to_home s (Suc k) ?v) s w"
    using did_trans [OF t(3) did_trans [OF u(8) w(3)]] by (simp add: to_home_Suc)
  have "pins (bufs w) = pins (bufs s) - home s ` {..<Suc k}" using w(5) u(11) t(5) by (auto simp: lessThan_Suc)
  then show ?case
    using kfor_snoc [of "[0..<k]" k install_one s] t one w u fr d
    by (intro exI [of _ w]) (simp add: to_home_Suc)
qed

definition head_write :: "'z klog_scheme \<Rightarrow> int \<Rightarrow> block \<Rightarrow> nat \<times> block" where
  "head_write s n d = (lgstart s, put_head n (lhblock s) d)"

lemma write_head_run:
  fixes s :: "'z klog_scheme"
  assumes ok: "cache_ok p {} s" and lok: "lgdev s = 1" "lgstart s < FSSIZE"
    and pin: "card (pins (bufs s)) < NBUF" "lgstart s \<notin> pins (bufs s)"
  shows "\<exists>t. write_head s = Ret () t \<and> cache_ok p {} t \<and>
    did [head_write s (lhn s) (seen s (lgstart s))] s t \<and>
    seen t = put_blocks [head_write s (lhn s) (seen s (lgstart s))] (seen s) \<and>
    pins (bufs t) = pins (bufs s) \<and> bframe s t"
proof -
  have wh: "write_head s = update_block (lgstart s) (put_head (lhn s) (lhblock s)) s"
    using lok(1) by (simp add: write_head_def update_block_def del: put_head.simps)
  have room: "card ({} \<union> dirties (bufs s)) < NBUF" using pin(1) card_pins [OF cache_okD(3) [OF ok]] by simp
  obtain t where t: "update_block (lgstart s) (put_head (lhn s) (lhblock s)) s = Ret () t" "cache_ok p {} t"
    "seen t = (seen s)(lgstart s := put_head (lhn s) (lhblock s) (seen s (lgstart s)))"
    "disk t 1 = (disk s 1)(lgstart s := put_head (lhn s) (lhblock s) (seen s (lgstart s)))"
    "disk_writes t = disk_writes s @ [(1, lgstart s, put_head (lhn s) (lhblock s) (seen s (lgstart s)))]"
    "pins (bufs t) = pins (bufs s) - {lgstart s}" "bframe s t"
    using update_block_run [OF ok _ lok(2) room, of "put_head (lhn s) (lhblock s)"] by auto
  then show ?thesis unfolding wh
    using pin(2) by (intro exI [of _ t]) (simp add: did_def head_write_def del: put_head.simps)
qed

subsection \<open>commit\<close>

definition commit_writes :: "'z klog_scheme \<Rightarrow> (nat \<times> block) list" where
  "commit_writes s =
     (let n = nat (lhn s); v = (\<lambda>i. seen s (home s i)); h = seen s (lgstart s) in
      to_log s n v @ [head_write s (lhn s) h] @ to_home s n v @
      [head_write s 0 (put_head (lhn s) (lhblock s) h)])"

lemma put_to_log:
  "i < k \<Longrightarrow> put_blocks (to_log s k v) D (lgstart s + i + 1) = v i"
proof (induction k)
  case (Suc k)
  then show ?case by (cases "i = k") (auto simp: to_log_Suc)
qed simp

lemma to_frame:
  assumes "bframe s t" and "\<And>i. i < k \<Longrightarrow> w i = v i"
  shows "to_log t k w = to_log s k v" "to_home t k w = to_home s k v"
  using log_frame [OF assms(1)] log_ok_frame [OF assms(1)] assms(2) by (auto simp: to_log_def to_home_def)

lemma bframe_lhn:
  fixes s t :: "'z klog_scheme"
  assumes "bframe s t"
  shows "bframe (s\<lparr>lhn := n\<rparr>) (t\<lparr>lhn := n\<rparr>)"
proof -
  have "outside (r\<lparr>lhn := n\<rparr>) m tb sl B q d x ws = (outside r m tb sl B q d x ws)\<lparr>lhn := n\<rparr>"
    for r :: "'z klog_scheme" and m tb sl B q d x ws
    by (simp add: outside_def)
  then show ?thesis using assms by (simp add: bframe_def fun_eq_iff)
qed

lemma commit_run:
  fixes s :: "'z klog_scheme"
  assumes ok: "cache_ok p {} s" and lok: "log_ok s" and pin: "pins (bufs s) = home s ` {..<nat (lhn s)}"
    and pos: "0 < lhn s"
  shows "\<exists>t. commit s = Ret () t \<and> cache_ok p {} t \<and> did (commit_writes s) s t \<and>
    seen t = put_blocks (commit_writes s) (seen s) \<and> pins (bufs t) = {} \<and> bframe (s\<lparr>lhn := 0\<rparr>) t"
proof -
  let ?n = "nat (lhn s)" and ?v = "\<lambda>i. seen s (home s i)" and ?st = "lgstart s"
  note L = log_okD [OF lok]
  have stl: "?st \<in> in_log s" "?st < FSSIZE" using L(11) [of 0] L(12) [of 0] by simp_all
  have sp: "?st \<notin> pins (bufs s)" using L(10) stl(1) unfolding pin by auto
  have cp: "card (pins (bufs s)) < NBUF" unfolding pin using card_image_small [of "home s" ?n] L(5) by simp
  obtain a where a: "write_log s = Ret () a" "cache_ok p {} a" "did (to_log s ?n ?v) s a"
    "seen a = put_blocks (to_log s ?n ?v) (seen s)" "pins (bufs a) = pins (bufs s)" "bframe s a"
    using write_log_run [OF ok lok pin order_refl] by (auto simp: write_log_def)
  note Fa = log_frame [OF a(6)]
  have sa: "seen a ?st = seen s ?st" by (simp only: a(4) to_log_blocks(2))
  let ?h = "head_write s (lhn s) (seen s ?st)"
  obtain b where b: "write_head a = Ret () b" "cache_ok p {} b" "did [?h] a b" "seen b = put_blocks [?h] (seen a)"
    "pins (bufs b) = pins (bufs s)" "bframe a b"
    using write_head_run [OF a(2), unfolded Fa a(5), OF L(1) stl(2) cp sp] sa
    by (auto simp: head_write_def Fa simp del: put_head.simps)
  have sb: "bframe s b" using a(6) b(6) by (rule bframe_trans)
  note Fb = log_frame [OF sb] log_ok_frame [OF sb]
  have vb: "seen b (lgstart b + i + 1) = ?v i" if "i < ?n" for i
    using put_to_log [OF that, of s ?v] Fb b(4) a(4) by (simp add: head_write_def)
  obtain c where c: "install_trans b = Ret () c" "cache_ok p {} c" "did (to_home s ?n ?v) b c"
    "seen c = put_blocks (to_home s ?n ?v) (seen b)" "pins (bufs c) = {}" "bframe b c"
    using install_run [OF b(2), unfolded Fb, of ?n] lok pin b(5) a(5) to_frame(2) [OF sb vb]
    by (auto simp: install_trans_def Fb)
  have sc: "bframe s c" using sb c(6) by (rule bframe_trans)
  note Fc = log_frame [OF sc]
  have hc: "seen c ?st = put_head (lhn s) (lhblock s) (seen s ?st)"
  proof -
    have "seen c ?st = seen b ?st" unfolding c(4)
      using L(10) stl(1) by (intro put_blocks_other) (auto simp: to_home_def)
    then show ?thesis by (simp add: b(4) head_write_def del: put_head.simps)
  qed
  let ?c = "c\<lparr>lhn := 0\<rparr>"
  let ?z = "head_write s 0 (put_head (lhn s) (lhblock s) (seen s ?st))"
  have "\<exists>d. write_head ?c = Ret () d \<and> cache_ok p {} d \<and> did [head_write ?c (lhn ?c) (seen ?c (lgstart ?c))] ?c d \<and>
    seen d = put_blocks [head_write ?c (lhn ?c) (seen ?c (lgstart ?c))] (seen ?c) \<and>
    pins (bufs d) = pins (bufs ?c) \<and> bframe ?c d"
    using c(2,5) Fc L(1) stl(2) by (intro write_head_run) (simp_all add: NBUF_def)
  then obtain d where d: "write_head ?c = Ret () d" "cache_ok p {} d" "did [?z] c d" "seen d = put_blocks [?z] (seen c)"
    "pins (bufs d) = {}" "bframe ?c d"
    using Fc hc c(5) by (auto simp: head_write_def simp del: put_head.simps put_blocks_simps(2))
  have "commit s = Ret () d"
    using pos a(1) b(1) c(1) d(1) by (simp add: commit_def)
  moreover have "did (commit_writes s) s d"
    using did_trans [OF a(3) did_trans [OF b(3) did_trans [OF c(3) d(3)]]]
    by (simp add: commit_writes_def Let_def del: put_head.simps)
  moreover have "seen d = put_blocks (commit_writes s) (seen s)"
    using a(4) b(4) c(4) d(4) by (simp add: commit_writes_def Let_def del: put_head.simps)
  moreover have "bframe (s\<lparr>lhn := 0\<rparr>) d" using bframe_lhn [OF sc] d(6) by (rule bframe_trans)
  ultimately show ?thesis using d(2,5) by blast
qed

subsection \<open>Recovery\<close>

text \<open>\<open>booted p st lz s\<close>: process \<open>p\<close> runs on a machine whose buffers hold no block yet and whose
  log has been told its place.\<close>

definition booted :: "nat \<Rightarrow> nat \<Rightarrow> nat \<Rightarrow> 'z klog_scheme \<Rightarrow> bool" where
  "booted p st lz s \<longleftrightarrow> cache_ok p {} s \<and> (\<forall>b<NBUF. \<not> bvalid (bufs s b)) \<and> lgdev s = 1 \<and>
     lgstart s = st \<and> lgsize s = lz"

lemma booted_facts:
  assumes "booted p st lz s"
  shows "cache_ok p {} s" "seen s = disk s 1" "pins (bufs s) = {}"
proof -
  show ok: "cache_ok p {} s" using assms by (simp add: booted_def)
  have v: "\<not> bvalid (bufs s b)" if "b < NBUF" for b using assms that by (simp add: booted_def)
  show "seen s = disk s 1" unfolding seen_def using v by (intro ext sees_miss) (auto simp: holds_def)
  show "pins (bufs s) = {}" using v bufs_okD(3) [OF cache_okD(3) [OF ok]] by (auto simp: pins_def dirties_def)
qed

lemma read_entries:
  fixes s :: "'z klog_scheme"
  assumes "k \<le> LOGSIZE"
  shows "kfor [0..<k] (\<lambda>i. if i \<ge> LOGSIZE then fault e
      else modf (\<lambda>s. s\<lparr>lhblock := (lhblock s)(i := f i)\<rparr>)) s =
    Ret () (s\<lparr>lhblock := (\<lambda>i. if i < k then f i else lhblock s i)\<rparr>)"
  using assms
proof (induction k)
  case (Suc k)
  have "(\<lambda>i. if i < k then f i else lhblock s i)(k := f k) = (\<lambda>i. if i < Suc k then f i else lhblock s i)"
    by (auto simp: fun_eq_iff less_Suc_eq)
  then show ?case using Suc kfor_snoc [of "[0..<k]" k _ s] by simp
qed simp

lemma read_head_run:
  fixes s :: "'z klog_scheme"
  assumes b: "booted p st lz s" and st: "st < FSSIZE"
    and n: "n = sint (get32 (disk s 1 st) 0)" "nat n \<le> LOGSIZE"
  shows "\<exists>t. read_head s = Ret () t \<and> cache_ok p {} t \<and> did [] s t \<and> seen t = disk s 1 \<and> pins (bufs t) = {} \<and>
    lhn t = n \<and> (\<forall>i<nat n. lhblock t i = get32 (disk s 1 st) (4 + 4 * i)) \<and>
    lgdev t = 1 \<and> lgstart t = st \<and> lgsize t = lz"
proof -
  note B = booted_facts [OF b]
  have lg: "lgdev s = 1" "lgstart s = st" "lgsize s = lz" using b by (simp_all add: booted_def)
  have dz: "dirties (bufs s) = {}" using B(3) by (simp add: pins_def)
  obtain x u where u: "bread 1 st s = Ret x u" "cache_ok p {x} u" "bdata (bufs u x) = disk s 1 st" "bblockno (bufs u x) = st"
    "seen u = seen s" "disk u = disk s" "disk_writes u = disk_writes s" "bframe s u" "pins (bufs u) = pins (bufs s)"
    "dirties (bufs u) = dirties (bufs s)"
    using bread_run [OF B(1) _ st] dz B(2) by (auto simp: NBUF_def)
  note F = log_frame [OF u(8)]
  let ?f = "\<lambda>i. get32 (disk s 1 st) (4 + 4 * i)"
  let ?v = "u\<lparr>lhn := n, lhblock := (\<lambda>i. if i < nat n then ?f i else lhblock u i)\<rparr>"
  have ok: "cache_ok p {x} ?v" using u(2) by simp
  have "\<exists>t. brelse x ?v = Ret () t \<and> cache_ok p ({x} - {x}) t \<and> seen t = seen ?v \<and> disk t = disk ?v \<and>
    disk_writes t = disk_writes ?v \<and> bframe ?v t \<and> dirties (bufs t) = dirties (bufs ?v) \<and>
    pins (bufs t) = pins (bufs ?v) \<and> (\<forall>c. bcore (bufs t c) = bcore (bufs ?v c))"
    using u(3,4,6) by (intro brelse_run [OF ok]) simp_all
  then obtain t where t: "brelse x ?v = Ret () t" "cache_ok p {} t" "seen t = seen u" "disk t = disk u"
    "disk_writes t = disk_writes u" "bframe ?v t" "pins (bufs t) = pins (bufs u)"
    by auto
  have sn: "sint (get32 (bdata (bufs u x)) 0) = n" using u(3) n(1) by simp
  have rd: "kfor [0..<nat n] (\<lambda>i. if i \<ge> LOGSIZE then fault e
      else modf (\<lambda>s. s\<lparr>lhblock := (lhblock s)(i := get32 (bdata (bufs u x)) (4 + 4 * i))\<rparr>)) (u\<lparr>lhn := n\<rparr>) = Ret () ?v" for e
    unfolding u(3) using read_entries [OF n(2), where f = ?f and s = "u\<lparr>lhn := n\<rparr>"] by (simp cong: if_cong)
  have "read_head s = Ret () t"
    using lg u(1) t(1) by (simp add: read_head_def sn rd del: One_nat_def)
  then show ?thesis
    using t u lg F log_frame [OF t(6)] B by (intro exI [of _ t]) (simp add: did_def)
qed

text \<open>What recovery writes, from what it finds on the disk.\<close>

definition logged :: "nat \<Rightarrow> (nat \<Rightarrow> block) \<Rightarrow> nat \<Rightarrow> (nat \<times> block) list" where
  "logged st D k = map (\<lambda>i. (unat (get32 (D st) (4 + 4 * i)), D (st + i + 1))) [0..<k]"

definition recover_writes :: "nat \<Rightarrow> (nat \<Rightarrow> block) \<Rightarrow> (nat \<times> block) list" where
  "recover_writes st D = logged st D (nat (sint (get32 (D st) 0))) @ [(st, put32 (D st) 0 0)]"

definition disk_ok :: "nat \<Rightarrow> nat \<Rightarrow> (nat \<Rightarrow> block) \<Rightarrow> bool" where
  "disk_ok st lz D \<longleftrightarrow> (let n = sint (get32 (D st) 0) in
     0 \<le> n \<and> nat n < lz \<and> lz \<le> LOGSIZE \<and> st + lz \<le> FSSIZE \<and>
     inj_on (\<lambda>i. unat (get32 (D st) (4 + 4 * i))) {..<nat n} \<and>
     (\<forall>i<nat n. unat (get32 (D st) (4 + 4 * i)) < FSSIZE \<and> unat (get32 (D st) (4 + 4 * i)) \<notin> {st ..< st + lz}))"

lemma recover_run:
  fixes s :: "'z klog_scheme"
  assumes b: "booted p st lz s" and d: "disk_ok st lz (disk s 1)"
  shows "\<exists>t. recover_from_log s = Ret () t \<and> cache_ok p {} t \<and> did (recover_writes st (disk s 1)) s t \<and>
    seen t = put_blocks (recover_writes st (disk s 1)) (disk s 1) \<and> pins (bufs t) = {} \<and> lhn t = 0 \<and>
    lgdev t = 1 \<and> lgstart t = st \<and> lgsize t = lz"
proof -
  let ?D = "disk s 1"
  define n where "n = sint (get32 (?D st) 0)"
  have st: "st < FSSIZE" "nat n \<le> LOGSIZE" using d by (auto simp: disk_ok_def Let_def n_def)
  obtain a where a: "read_head s = Ret () a" "cache_ok p {} a" "did [] s a" "seen a = ?D" "pins (bufs a) = {}"
    "lhn a = n" "\<And>i. i < nat n \<Longrightarrow> lhblock a i = get32 (?D st) (4 + 4 * i)"
    "lgdev a = 1" "lgstart a = st" "lgsize a = lz"
    using read_head_run [OF b st(1) n_def st(2)] by auto
  have h: "home a i = unat (get32 (?D st) (4 + 4 * i))" if "i < nat n" for i
    using a(7) [OF that] by (simp add: home_def)
  have dd: "0 \<le> n" "nat n < lz" "lz \<le> LOGSIZE" "st + lz \<le> FSSIZE"
    "inj_on (\<lambda>i. unat (get32 (?D st) (4 + 4 * i))) {..<nat n}"
    "\<And>i. i < nat n \<Longrightarrow> unat (get32 (?D st) (4 + 4 * i)) < FSSIZE \<and> unat (get32 (?D st) (4 + 4 * i)) \<notin> {st ..< st + lz}"
    using d unfolding disk_ok_def Let_def n_def [symmetric] by blast+
  have "inj_on (home a) {..<nat n} = inj_on (\<lambda>i. unat (get32 (?D st) (4 + 4 * i))) {..<nat n}"
    using h by (intro inj_on_cong) simp
  then have lok: "log_ok a"
    unfolding log_ok_def a(6,8-10) in_log_def using dd h by simp
  have th: "to_home a (nat n) (\<lambda>i. ?D (st + i + 1)) = logged st ?D (nat n)"
    using h by (simp add: to_home_def logged_def)
  obtain c where c: "install_trans a = Ret () c" "cache_ok p {} c" "did (logged st ?D (nat n)) a c"
    "seen c = put_blocks (logged st ?D (nat n)) ?D" "pins (bufs c) = {}" "bframe a c"
    using install_run [OF a(2) lok disjI1 [OF a(5)] order_refl] a th by (auto simp: install_trans_def)
  note F = log_frame [OF c(6)]
  have hc: "seen c st = ?D st"
    unfolding c(4) using dd(2,6) by (intro put_blocks_other) (fastforce simp: logged_def)
  let ?c = "c\<lparr>lhn := 0\<rparr>"
  have "\<exists>e. write_head ?c = Ret () e \<and> cache_ok p {} e \<and> did [head_write ?c (lhn ?c) (seen ?c (lgstart ?c))] ?c e \<and>
    seen e = put_blocks [head_write ?c (lhn ?c) (seen ?c (lgstart ?c))] (seen ?c) \<and>
    pins (bufs e) = pins (bufs ?c) \<and> bframe ?c e"
    using c(2,5) F a(8,9) st(1) by (intro write_head_run) (simp_all add: NBUF_def)
  moreover have "head_write ?c (lhn ?c) (seen ?c (lgstart ?c)) = (st, put32 (?D st) 0 0)"
    using F a(9) hc by (simp add: head_write_def)
  ultimately obtain e where e: "write_head ?c = Ret () e" "cache_ok p {} e" "did [(st, put32 (?D st) 0 0)] c e"
    "seen e = put_blocks [(st, put32 (?D st) 0 0)] (seen c)" "pins (bufs e) = {}" "bframe ?c e"
    using c(5) by auto
  have "recover_from_log s = Ret () e" using a(1) c(1) e(1) by (simp add: recover_from_log_def)
  moreover have "did (recover_writes st ?D) s e"
    using did_trans [OF a(3) did_trans [OF c(3) e(3)]] by (simp add: recover_writes_def n_def)
  moreover have "seen e = put_blocks (recover_writes st ?D) ?D"
    using e(4) c(4) by (simp add: recover_writes_def n_def)
  ultimately show ?thesis using e(2,5) log_frame [OF e(6)] F a(8-10) by (intro exI [of _ e]) simp
qed

subsection \<open>Crashes\<close>

text \<open>The disk if the machine stops after the first \<open>k\<close> writes of a commit.\<close>

definition crashed :: "nat \<Rightarrow> 'z klog_scheme \<Rightarrow> nat \<Rightarrow> block" where
  "crashed k s = put_blocks (take k (commit_writes s)) (disk s 1)"

lemma take_to_log: "take j (to_log s n v) = to_log s (min j n) v"
  by (simp add: to_log_def take_map min_def)

lemma take_to_home: "take j (to_home s n v) = to_home s (min j n) v"
  by (simp add: to_home_def take_map min_def)

lemma put_to_home:
  assumes "inj_on (home s) {..<n}" and "k \<le> n" and "i < n"
  shows "put_blocks (to_home s k v) D (home s i) = (if i < k then v i else D (home s i))"
  using assms(2)
proof (induction k)
  case (Suc k)
  then have "home s i = home s k \<longleftrightarrow> i = k" using inj_on_eq_iff [OF assms(1), of i k] assms(3) by simp
  then show ?case using Suc by (auto simp: to_home_Suc)
qed (simp add: to_home_def)

text \<open>The three stages of a commit: the log is being filled, the header stands, the header is erased.\<close>

lemma crash_stages:
  fixes s :: "'z klog_scheme"
  assumes lok: "log_ok s" and pos: "0 < lhn s"
  defines "n \<equiv> nat (lhn s)" and "v \<equiv> (\<lambda>i. seen s (home s i))" and "h \<equiv> seen s (lgstart s)"
  obtains (filling) j where "j \<le> n" "k \<le> n" "crashed k s = put_blocks (to_log s j v) (disk s 1)"
    | (committed) j where "j \<le> n" "k \<le> 2 * n + 1"
      "crashed k s = put_blocks (to_home s j v)
         ((put_blocks (to_log s n v) (disk s 1))(lgstart s := put_head (lhn s) (lhblock s) h))"
    | (erased) "crashed k s = (put_blocks (to_home s n v)
         ((put_blocks (to_log s n v) (disk s 1))(lgstart s := put_head (lhn s) (lhblock s) h)))
         (lgstart s := put_head 0 (lhblock s) (put_head (lhn s) (lhblock s) h))"
proof -
  have cw: "commit_writes s = to_log s n v @ [(lgstart s, put_head (lhn s) (lhblock s) h)] @ to_home s n v @
      [(lgstart s, put_head 0 (lhblock s) (put_head (lhn s) (lhblock s) h))]"
    by (simp add: commit_writes_def Let_def head_write_def n_def v_def h_def)
  have len: "List.length (to_log s n v) = n" "List.length (to_home s n v) = n"
    by (simp_all add: to_log_def to_home_def)
  consider "k \<le> n" | "n < k" "k \<le> 2 * n + 1" | "2 * n + 1 < k" by linarith
  then show ?thesis
  proof cases
    case 1
    then have "crashed k s = put_blocks (to_log s k v) (disk s 1)"
      using len by (simp add: crashed_def cw take_to_log min_def)
    then show ?thesis using filling 1 by blast
  next
    case 2
    define j where "j = k - n - 1"
    have k: "k - n = Suc j" "j \<le> n" using 2 by (simp_all add: j_def)
    have "crashed k s = put_blocks (to_home s j v)
         ((put_blocks (to_log s n v) (disk s 1))(lgstart s := put_head (lhn s) (lhblock s) h))"
      using len k 2 by (simp add: crashed_def cw take_to_log take_to_home min_def del: put_head.simps)
    then show ?thesis using committed k(2) 2(2) by blast
  next
    case 3
    then have "take k (commit_writes s) = commit_writes s" using len by (simp add: cw)
    then show ?thesis using erased by (simp add: crashed_def cw del: put_head.simps)
  qed
qed

lemma put_head_zero [simp]: "put_head 0 bl d = put32 d 0 0"
  by simp

lemma home_blocks_log:
  assumes "log_ok s" and "j \<le> nat (lhn s)" and "m \<in> in_log s"
  shows "put_blocks (to_home s j v) D m = D m"
  using assms log_okD(10) [OF assms(1)] by (intro put_blocks_other) (fastforce simp: to_home_def)

text \<open>After a crash the disk is fit for recovery, and recovery gives every block outside the log its
  contents from before the transaction, or gives every such block its contents from after it.\<close>

lemma crash_recovers:
  fixes s :: "'z klog_scheme" and k :: nat
  assumes lok: "log_ok s" and pos: "0 < lhn s"
    and h0: "sint (get32 (disk s 1 (lgstart s)) 0) = 0"
    and old: "\<And>m. m \<notin> in_log s \<Longrightarrow> m \<notin> home s ` {..<nat (lhn s)} \<Longrightarrow> seen s m = disk s 1 m"
  defines "D \<equiv> crashed k s"
  defines "R \<equiv> put_blocks (recover_writes (lgstart s) D) D"
  shows "disk_ok (lgstart s) (lgsize s) D"
    and "(\<forall>m. m \<notin> in_log s \<longrightarrow> R m = disk s 1 m) \<or> (\<forall>m. m \<notin> in_log s \<longrightarrow> R m = seen s m)"
    and "k \<ge> List.length (commit_writes s) \<Longrightarrow> \<forall>m. m \<notin> in_log s \<longrightarrow> R m = seen s m"
proof -
  let ?n = "nat (lhn s)" and ?v = "\<lambda>i. seen s (home s i)" and ?st = "lgstart s"
  let ?h = "put_head (lhn s) (lhblock s) (seen s ?st)"
  note L = log_okD [OF lok]
  have sl: "?st \<in> in_log s" using L(11) [of 0] by simp
  have len: "List.length (commit_writes s) = 2 * ?n + 2"
    by (simp add: commit_writes_def Let_def to_log_def to_home_def)
  have hd: "sint (get32 ?h 0) = lhn s" "\<And>i. i < ?n \<Longrightarrow> unat (get32 ?h (4 + 4 * i)) = home s i"
    using L(2,8) by (simp_all only: get32_put_head sint_word_small home_def)
  have idle: "disk_ok ?st (lgsize s) D \<and> (\<forall>m. m \<notin> in_log s \<longrightarrow> R m = D m)"
    if z: "sint (get32 (D ?st) 0) = 0"
    using z L(3,4,6) sl by (auto simp: disk_ok_def R_def recover_writes_def logged_def Let_def)
  have new: "put_blocks (to_home s ?n ?v) E m = seen s m"
    if "m \<notin> in_log s" "\<And>m. m \<notin> in_log s \<Longrightarrow> E m = disk s 1 m" for E m
  proof (cases "m \<in> home s ` {..<?n}")
    case True
    then show ?thesis using put_to_home [OF L(7) order_refl, of _ ?v E] by auto
  next
    case False
    then have "put_blocks (to_home s ?n ?v) E m = E m" by (intro put_blocks_other) (auto simp: to_home_def)
    then show ?thesis using that old [OF that(1) False] by simp
  qed
  let ?E = "(put_blocks (to_log s ?n ?v) (disk s 1))(?st := ?h)"
  have E: "?E m = disk s 1 m" if "m \<notin> in_log s" for m
    using that sl L(3) to_log_blocks(1) [of m s ?n ?v "disk s 1"] by (auto simp del: put_head.simps)
  have all: "disk_ok ?st (lgsize s) D \<and>
     ((\<forall>m. m \<notin> in_log s \<longrightarrow> R m = disk s 1 m) \<and> k < List.length (commit_writes s) \<or> (\<forall>m. m \<notin> in_log s \<longrightarrow> R m = seen s m))"
    using lok pos
  proof (cases rule: crash_stages [where k = k])
    case (filling j)
    then have D: "D ?st = disk s 1 ?st" "\<And>m. m \<notin> in_log s \<Longrightarrow> D m = disk s 1 m"
      using to_log_blocks(2) to_log_blocks(1) [of _ s j] L(3) filling unfolding D_def by simp_all
    then show ?thesis using idle h0 filling(2) len by auto
  next
    case erased
    have "D ?st = put32 ?h 0 0" unfolding D_def erased by (simp del: put_head.simps(1))
    then have "sint (get32 (D ?st) 0) = 0" by (simp only: get32_put32) simp
    moreover have "D m = seen s m" if "m \<notin> in_log s" for m
      using new [OF that, of ?E] E that sl unfolding D_def erased by (auto simp del: put_head.simps(1))
    ultimately show ?thesis using idle by auto
  next
    case (committed j)
    have DL: "D m = ?E m" if "m \<in> in_log s" for m
      unfolding D_def committed(3) using home_blocks_log [OF lok committed(1) that] by simp
    have Dst: "D ?st = ?h" using DL [OF sl] by simp
    have Dv: "D (?st + i + 1) = ?v i" if "i < ?n" for i
      using DL [of "?st + i + 1"] L(11) [of "Suc i"] that put_to_log [OF that, of s ?v] by (simp del: put_head.simps)
    have lg: "logged ?st D ?n = to_home s ?n ?v"
      unfolding logged_def to_home_def Dst using hd(2) Dv by (intro map_cong) (auto simp del: put_head.simps)
    have "disk_ok ?st (lgsize s) D"
      unfolding disk_ok_def Let_def Dst hd(1) using L hd(2) inj_on_cong [of "{..<?n}" "\<lambda>i. unat (get32 ?h (4 + 4 * i))" "home s"]
      by (auto simp: in_log_def simp del: put_head.simps)
    moreover have "R m = seen s m" if "m \<notin> in_log s" for m
    proof -
      have "R m = put_blocks (to_home s ?n ?v) D m"
        unfolding R_def recover_writes_def Dst hd(1) lg using that sl by auto
      also have "\<dots> = put_blocks (to_home s ?n ?v) (put_blocks (to_home s j ?v) ?E) m"
        unfolding D_def committed(3) ..
      also have "\<dots> = seen s m"
      proof (cases "m \<in> home s ` {..<?n}")
        case True
        then show ?thesis using put_to_home [OF L(7) order_refl, of _ ?v] by auto
      next
        case False
        then have o: "put_blocks (to_home s i ?v) F m = F m" if "i \<le> ?n" for i F
          using that by (intro put_blocks_other) (auto simp: to_home_def)
        show ?thesis unfolding o [OF order_refl] o [OF committed(1)] using E [OF that] old [OF that False] by simp
      qed
      finally show ?thesis .
    qed
    ultimately show ?thesis by blast
  qed
  then show "disk_ok (lgstart s) (lgsize s) D"
    "(\<forall>m. m \<notin> in_log s \<longrightarrow> R m = disk s 1 m) \<or> (\<forall>m. m \<notin> in_log s \<longrightarrow> R m = seen s m)"
    by blast+
  show "\<forall>m. m \<notin> in_log s \<longrightarrow> R m = seen s m" if "k \<ge> List.length (commit_writes s)"
    using all that by auto
qed

lemma seen_clean:
  assumes "cache_ok p {} s" and "n \<notin> pins (bufs s)"
  shows "seen s n = disk s 1 n"
proof (cases "\<exists>b. holds (bufs s) b n \<and> bvalid (bufs s b)")
  case True
  then obtain b where b: "holds (bufs s) b n" "bvalid (bufs s b)" by blast
  then have "b < NBUF" "bblockno (bufs s b) = n" by (simp_all add: holds_def)
  then show ?thesis
    using sees_hit [OF cache_okD(3) [OF assms(1)] b] bufs_okD(6) [OF cache_okD(3) [OF assms(1)], of b] b(2)
      clean_buf [OF assms(2)] by (simp add: seen_def)
next
  case False
  then show ?thesis unfolding seen_def by (intro sees_miss) blast
qed

lemma commit_blocks:
  assumes lok: "log_ok s" and m: "m \<notin> in_log s"
    and E: "\<And>m. m \<notin> in_log s \<Longrightarrow> m \<notin> home s ` {..<nat (lhn s)} \<Longrightarrow> E m = seen s m"
  shows "put_blocks (commit_writes s) E m = seen s m"
proof -
  let ?st = "lgstart s" and ?n = "nat (lhn s)"
  note L = log_okD [OF lok]
  have ms: "m \<noteq> ?st" using m L(11) [of 0] by auto
  let ?F = "(put_blocks (to_log s ?n (\<lambda>i. seen s (home s i))) E)(?st := put_head (lhn s) (lhblock s) (seen s ?st))"
  have "put_blocks (commit_writes s) E m = put_blocks (to_home s ?n (\<lambda>i. seen s (home s i))) ?F m"
    using ms by (simp add: commit_writes_def Let_def head_write_def del: put_head.simps)
  also have "\<dots> = seen s m"
  proof (cases "m \<in> home s ` {..<?n}")
    case True
    then show ?thesis using put_to_home [OF L(7) order_refl] by auto
  next
    case False
    then have "put_blocks (to_home s ?n (\<lambda>i. seen s (home s i))) ?F m = ?F m"
      by (intro put_blocks_other) (auto simp: to_home_def)
    then show ?thesis using ms to_log_blocks(1) [OF m L(3)] E [OF m False] by (simp del: put_head.simps)
  qed
  finally show ?thesis .
qed

text \<open>The state in which end_op calls commit: the pinned buffers are the logged blocks, and the
  header on the disk is that of an empty log.\<close>

definition committing :: "nat \<Rightarrow> 'z klog_scheme \<Rightarrow> bool" where
  "committing p s \<longleftrightarrow> cache_ok p {} s \<and> log_ok s \<and> 0 < lhn s \<and> pins (bufs s) = home s ` {..<nat (lhn s)} \<and>
     get32 (disk s 1 (lgstart s)) 0 = 0"

text \<open>
  C1. A commit is atomic. It writes the logged blocks to the log, the header, the blocks to their
  homes and an empty header, in this order and nothing else, and leaves every block outside the log
  on the disk as readers saw it. If the machine stops after any number of these writes and boots
  again from that disk, recovery returns with every block outside the log as it was on the disk
  before the commit, or with every such block as the transaction left it.
\<close>

theorem commit_is_atomic:
  assumes "committing p s"
  shows "(\<exists>t. commit s = Ret () t \<and> cache_ok p {} t \<and> lhn t = 0 \<and> pins (bufs t) = {} \<and>
      disk_writes t = disk_writes s @ map (Pair 1) (commit_writes s) \<and>
      (\<forall>m. m \<notin> in_log s \<longrightarrow> disk t 1 m = seen s m \<and> seen t m = seen s m)) \<and>
    (\<forall>k q r. booted q (lgstart s) (lgsize s) r \<and> disk r 1 = crashed k s \<longrightarrow>
      (\<exists>t. recover_from_log r = Ret () t \<and> cache_ok q {} t \<and>
        ((\<forall>m. m \<notin> in_log s \<longrightarrow> disk t 1 m = disk s 1 m) \<or> (\<forall>m. m \<notin> in_log s \<longrightarrow> disk t 1 m = seen s m))))"
proof
  have c: "cache_ok p {} s" "log_ok s" "0 < lhn s" "pins (bufs s) = home s ` {..<nat (lhn s)}"
    "sint (get32 (disk s 1 (lgstart s)) 0) = 0"
    using assms by (simp_all add: committing_def)
  have old: "seen s m = disk s 1 m" if "m \<notin> in_log s" "m \<notin> home s ` {..<nat (lhn s)}" for m
    using seen_clean [OF c(1)] that c(4) by simp
  note R = crash_recovers [OF c(2,3,5) old]
  obtain t where t: "commit s = Ret () t" "cache_ok p {} t" "did (commit_writes s) s t"
    "seen t = put_blocks (commit_writes s) (seen s)" "pins (bufs t) = {}" "bframe (s\<lparr>lhn := 0\<rparr>) t"
    using commit_run [OF c(1,2,4,3)] by blast
  note new = commit_blocks [OF c(2)]
  let ?st = "lgstart s"
  have "disk t 1 m = seen s m \<and> seen t m = seen s m" if "m \<notin> in_log s" for m
    using new [OF that, of "disk s 1"] new [OF that, of "seen s"] old t(3,4) by (simp add: did_def)
  then show "\<exists>t. commit s = Ret () t \<and> cache_ok p {} t \<and> lhn t = 0 \<and> pins (bufs t) = {} \<and>
      disk_writes t = disk_writes s @ map (Pair 1) (commit_writes s) \<and>
      (\<forall>m. m \<notin> in_log s \<longrightarrow> disk t 1 m = seen s m \<and> seen t m = seen s m)"
    using t log_frame [OF t(6)] by (intro exI [of _ t]) (simp add: did_def)
  show "\<forall>k q r. booted q (lgstart s) (lgsize s) r \<and> disk r 1 = crashed k s \<longrightarrow>
      (\<exists>t. recover_from_log r = Ret () t \<and> cache_ok q {} t \<and>
        ((\<forall>m. m \<notin> in_log s \<longrightarrow> disk t 1 m = disk s 1 m) \<or> (\<forall>m. m \<notin> in_log s \<longrightarrow> disk t 1 m = seen s m)))"
  proof (intro allI impI)
    fix k q r
    assume r: "booted q (lgstart s) (lgsize s) r \<and> disk r 1 = crashed k s"
    then obtain u where u: "recover_from_log r = Ret () u" "cache_ok q {} u"
      "did (recover_writes ?st (disk r 1)) r u"
      using recover_run [of q ?st "lgsize s" r] R(1) [of k] by auto
    then show "\<exists>t. recover_from_log r = Ret () t \<and> cache_ok q {} t \<and>
        ((\<forall>m. m \<notin> in_log s \<longrightarrow> disk t 1 m = disk s 1 m) \<or> (\<forall>m. m \<notin> in_log s \<longrightarrow> disk t 1 m = seen s m))"
      using R(2) [of k] r by (intro exI [of _ u]) (simp add: did_def)
  qed
qed

subsection \<open>A concrete transaction\<close>

text \<open>Block 100 has been changed in buffer 0 and logged; the log lies at blocks 256 to 285.\<close>

definition bufs1 :: "nat \<Rightarrow> buf" where
  "bufs1 = bufs0(0 := (bufs0 0)\<lparr>bvalid := True, bdirty := True, bdev := 1, bblockno := 100, bdata := (\<lambda>_. 9)\<rparr>)"

definition klog0 :: "int \<Rightarrow> (nat \<Rightarrow> buf) \<Rightarrow> klog" where
  "klog0 n B = kide.extend (kbio0\<lparr>bufs := B\<rparr>) (klog.fields 256 LOGSIZE 1 True 1 n (\<lambda>_. 100))"

lemma klog0_fields [simp]:
  "bufs (klog0 n B) = B" "disk (klog0 n B) = disk kbio0" "disk_writes (klog0 n B) = []"
  "mach (klog0 n B) = mach kbio0" "ptable (klog0 n B) = ptable kbio0" "slocks (klog0 n B) = slocks kbio0"
  "idequeue (klog0 n B) = idequeue kbio0" "disk_err (klog0 n B) = disk_err kbio0"
  "havedisk1 (klog0 n B) = havedisk1 kbio0"
  "lgstart (klog0 n B) = 256" "lgsize (klog0 n B) = LOGSIZE" "lgdev (klog0 n B) = 1" "lhn (klog0 n B) = n"
  "lhblock (klog0 n B) i = 100"
  by (simp_all add: klog0_def kide.defs klog.defs kbio0_ok(4))

lemma klog0_locks: "locks_ok 2 {} (klog0 n B)"
  using cache_okD(1) [OF kbio0_ok(1)] by (simp add: locks_ok_def at_rest_def)

lemma bufs1_ok: "bufs_ok {} bufs1 D" "pins bufs1 = {100}"
proof -
  have f: "bdev (bufs0 b) = 0" "\<not> bvalid (bufs0 b)" "\<not> bdirty (bufs0 b)" "brefcnt (bufs0 b) = 0" for b
    by (simp_all add: bufs0_def blank_buf_def)
  have r: "ring bufs1 (rev [0..<NBUF])"
    unfolding bufs1_def by (rule ring_upd [OF bufs0_ring]) simp_all
  show "bufs_ok {} bufs1 D" unfolding bufs_ok_def
  proof (intro conjI allI impI)
    show "\<exists>xs. ring bufs1 xs" using r by blast
  qed (use f in \<open>auto simp: bufs1_def holds_def FSSIZE_def split: if_splits\<close>)
  have "dirties bufs1 = {0}" using f by (auto simp: dirties_def bufs1_def NBUF_def)
  then show "pins bufs1 = {100}" by (simp add: pins_def bufs1_def)
qed

lemma klog0_committing: "committing 2 (klog0 1 bufs1)"
proof -
  have h: "home (klog0 1 bufs1) i = 100" for i by (simp add: home_def)
  have "(of_nat 256 :: u8) = 0" by code_simp
  then have z: "disk kbio0 1 256 = (\<lambda>_. 0)" by (simp only: kbio0_ok(3))
  have "log_ok (klog0 1 bufs1)"
    by (simp add: log_ok_def h in_log_def LOGSIZE_def MAXOPBLOCKS_def FSSIZE_def inj_on_def)
  then show ?thesis
    using klog0_locks bufs1_ok z by (simp add: committing_def cache_ok_def h get32_def lessThan_Suc del: One_nat_def)
qed

lemma klog0_booted: "booted 2 256 LOGSIZE (klog0 0 bufs0)"
  using klog0_locks bufs0_ok by (simp add: booted_def cache_ok_def) (simp add: bufs0_def blank_buf_def)

lemma commit_is_atomic_witness:
  "(\<exists>t. commit (klog0 1 bufs1) = Ret () t \<and> disk t 1 100 = (\<lambda>_. 9) \<and> disk t 1 101 = (\<lambda>_. 101)) \<and>
   (\<exists>t. recover_from_log (klog0 0 bufs0) = Ret () t \<and> disk t 1 101 = (\<lambda>_. 101))"
proof -
  let ?s = "klog0 1 bufs1"
  note A = commit_is_atomic [OF klog0_committing]
  have d: "disk kbio0 1 m = (\<lambda>_. of_nat m)" for m by (rule kbio0_ok(3))
  have ok: "cache_ok 2 {} ?s" using klog0_committing by (simp add: committing_def)
  have "holds (bufs ?s) 0 100" "bvalid (bufs ?s 0)" "bdata (bufs ?s 0) = (\<lambda>_. 9)"
    by (simp_all add: bufs1_def holds_def NBUF_def)
  then have s100: "seen ?s 100 = (\<lambda>_. 9)" using sees_hit [OF cache_okD(3) [OF ok], of 0 100] by (simp add: seen_def)
  have s101: "seen ?s 101 = (\<lambda>_. 101)" using seen_clean [OF ok, of 101] bufs1_ok(2) d by (simp del: One_nat_def)
  have nl: "100 \<notin> in_log ?s" "101 \<notin> in_log ?s" by (simp_all add: in_log_def)
  have b: "booted 2 (lgstart ?s) (lgsize ?s) (klog0 0 bufs0) \<and> disk (klog0 0 bufs0) 1 = crashed 0 ?s"
    using klog0_booted by (simp add: crashed_def)
  obtain t where t: "recover_from_log (klog0 0 bufs0) = Ret () t"
    "(\<forall>m. m \<notin> in_log ?s \<longrightarrow> disk t 1 m = disk ?s 1 m) \<or> (\<forall>m. m \<notin> in_log ?s \<longrightarrow> disk t 1 m = seen ?s m)"
    using conjunct2 [OF A] b by blast
  have "disk t 1 101 = (\<lambda>_. 101)" using t(2) nl(2) s101 d [of 101] by (auto simp del: One_nat_def)
  moreover obtain u where "commit ?s = Ret () u" "\<And>m. m \<notin> in_log ?s \<Longrightarrow> disk u 1 m = seen ?s m"
    using conjunct1 [OF A] by blast
  ultimately show ?thesis using t(1) nl s100 s101 by (auto simp del: One_nat_def)
qed

lemma restart_blocks:
  assumes "disk_ok st n D" and "E = put_blocks (take k (recover_writes st D)) D"
  shows "disk_ok st n E \<and> (\<forall>m. m \<notin> {st ..< st + n} \<longrightarrow>
      put_blocks (recover_writes st E) E m = put_blocks (recover_writes st D) D m) \<and>
    disk_ok st n (put_blocks (recover_writes st E) E)"
proof -
  define h where "h = nat (sint (get32 (D st) 0))"
  define hm where "hm = (\<lambda>i. unat (get32 (D st) (4 + 4 * i)))"
  have ok: "h < n" "inj_on hm {..<h}" "\<And>i. i < h \<Longrightarrow> hm i < FSSIZE" "\<And>i. i < h \<Longrightarrow> hm i \<notin> {st ..< st + n}"
    "n \<le> LOGSIZE" "st + n \<le> FSSIZE" "0 \<le> sint (get32 (D st) 0)"
    using assms(1) by (simp_all add: disk_ok_def Let_def h_def hm_def)
  have lg: "logged st D j = map (\<lambda>i. (hm i, D (st + i + 1))) [0..<j]" for j by (simp add: logged_def hm_def)
  have out: "put_blocks (logged st D j) F m = F m" if "m \<notin> hm ` {..<j}" for j F m
    using that by (intro put_blocks_other) (auto simp: lg)
  have at: "put_blocks (logged st D j) F (hm i) = (if i < j then D (st + i + 1) else F (hm i))"
    if "j \<le> h" "i < h" for j i F
    using that(1)
  proof (induction j)
    case (Suc j)
    then have "hm i = hm j \<longleftrightarrow> i = j" using inj_on_eq_iff [OF ok(2), of i j] that(2) by simp
    then show ?case using Suc by (auto simp: lg)
  qed (simp add: lg)
  have inlog: "put_blocks (logged st D j) F m = F m" if "j \<le> h" "m \<in> {st ..< st + n}" for j F m
    using that ok(4) by (intro out) fastforce
  have zero: "disk_ok st n F" if "get32 (F st) 0 = 0" for F
    using that ok by (simp add: disk_ok_def Let_def)
  have rw: "recover_writes st D = logged st D h @ [(st, put32 (D st) 0 0)]" by (simp add: recover_writes_def h_def)
  have full: "put_blocks (recover_writes st D) F m = put_blocks (logged st D h) F m" if "m \<notin> {st ..< st + n}" for F m
    using that ok(1) by (auto simp: rw)
  have "disk_ok st n E \<and> (\<forall>m. m \<notin> {st ..< st + n} \<longrightarrow>
      put_blocks (recover_writes st E) E m = put_blocks (recover_writes st D) D m)"
  proof (cases "k \<le> h")
    case True
    have Ek: "E = put_blocks (logged st D k) D"
      using True assms(2) by (simp add: rw lg take_map min_def)
    then have same: "E m = D m" if "m \<in> {st ..< st + n}" for m using inlog [OF True that] by simp
    have "recover_writes st E = recover_writes st D"
    proof -
      have "E st = D st" using same [of st] ok(1) by simp
      moreover have "E (st + i + 1) = D (st + i + 1)" if "i < h" for i using same [of "st + i + 1"] that ok(1) by simp
      ultimately show ?thesis by (auto simp: recover_writes_def logged_def h_def)
    qed
    moreover have "put_blocks (recover_writes st D) E m = put_blocks (recover_writes st D) D m"
      if m: "m \<notin> {st ..< st + n}" for m
    proof (cases "m \<in> hm ` {..<h}")
      case True
      then show ?thesis unfolding full [OF m] using at [OF order_refl] by auto
    next
      case False
      then have "m \<notin> hm ` {..<k}" using \<open>k \<le> h\<close> by auto
      then show ?thesis unfolding full [OF m] using out False Ek by simp
    qed
    moreover have "disk_ok st n E"
      using assms(1) same [of st] ok(1) by (simp add: disk_ok_def)
    ultimately show ?thesis by simp
  next
    case False
    then have E: "E = (put_blocks (logged st D h) D)(st := put32 (D st) 0 0)"
      using assms(2) by (simp add: rw lg)
    then have z: "get32 (E st) 0 = 0" by (simp add: get32_put32)
    then have "recover_writes st E = [(st, put32 (E st) 0 0)]" by (simp add: recover_writes_def logged_def)
    then show ?thesis using zero [of E] z full ok(1) E by auto
  qed
  moreover have "get32 (put_blocks (recover_writes st E) E st) 0 = 0"
    by (simp add: recover_writes_def get32_put32)
  ultimately show ?thesis using zero by blast
qed

text \<open>The blocks that the header on the disk names, and what is on the disk after recovery.\<close>

definition logged_at :: "nat \<Rightarrow> (nat \<Rightarrow> block) \<Rightarrow> nat \<Rightarrow> nat" where
  "logged_at st D i = unat (get32 (D st) (4 + 4 * i))"

definition log_count :: "nat \<Rightarrow> (nat \<Rightarrow> block) \<Rightarrow> nat" where
  "log_count st D = nat (sint (get32 (D st) 0))"

lemma recovered_blocks:
  assumes "disk_ok st n D"
  shows "i < log_count st D \<Longrightarrow> put_blocks (recover_writes st D) D (logged_at st D i) = D (st + i + 1)"
    and "m \<notin> {st ..< st + n} \<Longrightarrow> m \<notin> logged_at st D ` {..<log_count st D} \<Longrightarrow>
      put_blocks (recover_writes st D) D m = D m"
proof -
  let ?h = "log_count st D"
  have ok: "?h < n" "inj_on (logged_at st D) {..<?h}" "\<And>i. i < ?h \<Longrightarrow> logged_at st D i \<notin> {st ..< st + n}"
    using assms by (simp_all add: disk_ok_def Let_def log_count_def logged_at_def [abs_def])
  have lg: "logged st D j = map (\<lambda>i. (logged_at st D i, D (st + i + 1))) [0..<j]" for j
    by (simp add: logged_def logged_at_def)
  have rw: "recover_writes st D = logged st D ?h @ [(st, put32 (D st) 0 0)]"
    by (simp add: recover_writes_def log_count_def)
  have at: "put_blocks (logged st D j) F (logged_at st D i) = (if i < j then D (st + i + 1) else F (logged_at st D i))"
    if "j \<le> ?h" "i < ?h" for j i F
    using that(1)
  proof (induction j)
    case (Suc j)
    then have "logged_at st D i = logged_at st D j \<longleftrightarrow> i = j" using inj_on_eq_iff [OF ok(2), of i j] that(2) by simp
    then show ?case using Suc by (auto simp: lg)
  qed (simp add: lg)
  show "put_blocks (recover_writes st D) D (logged_at st D i) = D (st + i + 1)" if "i < ?h" for i
    using at [OF order_refl that, of D] that ok(1) ok(3) [OF that] by (auto simp: rw)
  show "put_blocks (recover_writes st D) D m = D m"
    if "m \<notin> {st ..< st + n}" "m \<notin> logged_at st D ` {..<?h}" for m
    using that ok(1) by (intro put_blocks_other) (auto simp: rw lg)
qed

text \<open>
  C2. Recovery gives every block that the header on the disk names the contents of its copy in the
  log, leaves every other block outside the log alone and writes an empty header. It may itself be
  interrupted: if the machine stops after any number of the writes that it has made, in the order
  in which it made them, and boots again from that disk, then recovery returns once more with the
  same contents in every block outside the log.
\<close>

theorem recovery_restarts:
  assumes "booted p st n r" and "disk_ok st n (disk r 1)"
  shows "\<exists>t ws. recover_from_log r = Ret () t \<and> cache_ok p {} t \<and>
    disk_writes t = disk_writes r @ map (Pair 1) ws \<and> disk t 1 = put_blocks ws (disk r 1) \<and>
    get32 (disk t 1 st) 0 = 0 \<and>
    (\<forall>i<log_count st (disk r 1). disk t 1 (logged_at st (disk r 1) i) = disk r 1 (st + i + 1)) \<and>
    (\<forall>m. m \<notin> {st ..< st + n} \<and> m \<notin> logged_at st (disk r 1) ` {..<log_count st (disk r 1)} \<longrightarrow>
      disk t 1 m = disk r 1 m) \<and>
    (\<forall>k q s. booted q st n s \<and> disk s 1 = put_blocks (take k ws) (disk r 1) \<longrightarrow>
      (\<exists>u. recover_from_log s = Ret () u \<and> cache_ok q {} u \<and> disk_ok st n (disk u 1) \<and>
        (\<forall>m. m \<notin> {st ..< st + n} \<longrightarrow> disk u 1 m = disk t 1 m)))"
proof -
  let ?D = "disk r 1" and ?ws = "recover_writes st (disk r 1)"
  obtain t where t: "recover_from_log r = Ret () t" "cache_ok p {} t" "did ?ws r t"
    using recover_run [OF assms] by blast
  have dt: "disk t 1 = put_blocks ?ws ?D" using t(3) by (simp add: did_def)
  have again: "\<exists>u. recover_from_log s = Ret () u \<and> cache_ok q {} u \<and> disk_ok st n (disk u 1) \<and>
      (\<forall>m. m \<notin> {st ..< st + n} \<longrightarrow> disk u 1 m = disk t 1 m)"
    if s: "booted q st n s" "disk s 1 = put_blocks (take k ?ws) ?D" for k q s
  proof -
    note E = restart_blocks [OF assms(2) s(2)]
    obtain u where "recover_from_log s = Ret () u" "cache_ok q {} u" "did (recover_writes st (disk s 1)) s u"
      using recover_run [OF s(1)] E by blast
    then show ?thesis using E dt by (intro exI [of _ u]) (simp add: did_def)
  qed
  have w: "disk_writes t = disk_writes r @ map (Pair 1) ?ws" using t(3) by (simp add: did_def)
  have z: "get32 (disk t 1 st) 0 = 0" unfolding dt by (simp add: recover_writes_def get32_put32)
  note R = recovered_blocks [OF assms(2), folded dt]
  show ?thesis
  proof (rule exI [of _ t], rule exI [of _ ?ws], intro conjI allI impI)
    fix k q s
    assume "booted q st n s \<and> disk s 1 = put_blocks (take k ?ws) ?D"
    then show "\<exists>u. recover_from_log s = Ret () u \<and> cache_ok q {} u \<and> disk_ok st n (disk u 1) \<and>
      (\<forall>m. m \<notin> {st ..< st + n} \<longrightarrow> disk u 1 m = disk t 1 m)" using again by blast
  next
    fix i assume "i < log_count st ?D"
    then show "disk t 1 (logged_at st ?D i) = ?D (st + i + 1)" by (rule R(1))
  next
    fix m assume "m \<notin> {st ..< st + n} \<and> m \<notin> logged_at st ?D ` {..<log_count st ?D}"
    then show "disk t 1 m = ?D m" using R(2) by blast
  qed (rule t(1) t(2) w dt z)+
qed

text \<open>A disk whose log holds one committed block, that of block 100, and the same disk after the first write of recovery.\<close>

definition disk1 :: "nat \<Rightarrow> block" where
  "disk1 = (\<lambda>n i. of_nat n)(256 := (\<lambda>i. if i = 0 then 1 else if i = 4 then 100 else 0), 257 := (\<lambda>i. 7))"

definition klog1 :: "(nat \<Rightarrow> block) \<Rightarrow> klog" where
  "klog1 D = (klog0 0 bufs0)\<lparr>disk := (disk kbio0)(1 := D)\<rparr>"

lemma klog1_booted: "booted 2 256 LOGSIZE (klog1 D)" "disk (klog1 D) 1 = D" "disk_writes (klog1 D) = []"
proof -
  have "cache_ok 2 {} (klog1 D)"
    using klog0_booted bufs0_ok(1) by (simp add: booted_def cache_ok_def locks_ok_def at_rest_def klog1_def)
  then show "booted 2 256 LOGSIZE (klog1 D)" using klog0_booted by (simp add: booted_def klog1_def)
  show "disk (klog1 D) 1 = D" "disk_writes (klog1 D) = []" by (simp_all add: klog1_def)
qed

lemma disk1_entries: "get32 (disk1 256) 0 = 1" "get32 (disk1 256) 4 = 100"
proof -
  have d: "disk1 256 = (\<lambda>i. if i = 0 then 1 else if i = 4 then 100 else 0)" by (simp add: disk1_def)
  show "get32 (disk1 256) 0 = 1" "get32 (disk1 256) 4 = 100" unfolding d by code_simp+
qed

lemma disk1_log: "log_count 256 disk1 = 1" "logged_at 256 disk1 0 = 100" "disk_ok 256 LOGSIZE disk1"
proof -
  have one: "{..<Suc 0} = {0}" by auto
  have e: "unat (get32 (disk1 256) (4 + 4 * 0)) = 100" using disk1_entries(2) by simp
  have s: "sint (1 :: u32) = 1" and n: "nat 1 = Suc 0" by simp_all
  show "log_count 256 disk1 = 1" by (simp add: log_count_def disk1_entries(1))
  show "logged_at 256 disk1 0 = 100" using e by (simp add: logged_at_def)
  have b: "(100::nat) < FSSIZE" "(100::nat) \<notin> {256 ..< 256 + LOGSIZE}" "256 + LOGSIZE \<le> FSSIZE" "1 < LOGSIZE"
    by (simp_all add: LOGSIZE_def MAXOPBLOCKS_def FSSIZE_def)
  show "disk_ok 256 LOGSIZE disk1"
    unfolding disk_ok_def disk1_entries(1) Let_def s n one
  proof (intro conjI allI impI)
    fix i :: nat assume "i < Suc 0"
    then have "i = 0" by simp
    then show "unat (get32 (disk1 256) (4 + 4 * i)) < FSSIZE" "unat (get32 (disk1 256) (4 + 4 * i)) \<notin> {256 ..< 256 + LOGSIZE}"
      using e b(1,2) by (simp_all only: not_False_eq_True)
  qed (use b(3,4) in simp_all)
qed

lemma recovery_restarts_witness:
  "\<exists>t ws u. recover_from_log (klog1 disk1) = Ret () t \<and> disk t 1 100 = (\<lambda>_. 7) \<and> disk t 1 101 = (\<lambda>_. 101) \<and>
    disk_writes t = map (Pair 1) ws \<and>
    recover_from_log (klog1 (put_blocks (take 1 ws) disk1)) = Ret () u \<and> disk u 1 100 = (\<lambda>_. 7)"
proof -
  note B = klog1_booted [of disk1]
  have ok: "disk_ok 256 LOGSIZE (disk (klog1 disk1) 1)" using B(2) disk1_log(3) by simp
  obtain t ws where t: "recover_from_log (klog1 disk1) = Ret () t" "disk_writes t = disk_writes (klog1 disk1) @ map (Pair 1) ws"
    and old: "\<forall>i<log_count 256 disk1. disk t 1 (logged_at 256 disk1 i) = disk1 (256 + i + 1)"
    and out: "\<forall>m. m \<notin> {256 ..< 256 + LOGSIZE} \<and> m \<notin> logged_at 256 disk1 ` {..<log_count 256 disk1} \<longrightarrow>
      disk t 1 m = disk1 m"
    and again: "\<forall>k q (s :: klog). booted q 256 LOGSIZE s \<and> disk s 1 = put_blocks (take k ws) disk1 \<longrightarrow>
      (\<exists>u. recover_from_log s = Ret () u \<and> cache_ok q {} u \<and> disk_ok 256 LOGSIZE (disk u 1) \<and>
        (\<forall>m. m \<notin> {256 ..< 256 + LOGSIZE} \<longrightarrow> disk u 1 m = disk t 1 m))"
    using recovery_restarts [OF B(1) ok] unfolding B(2) by (elim exE conjE) (rule that; assumption)
  obtain u where u: "recover_from_log (klog1 (put_blocks (take 1 ws) disk1)) = Ret () u"
    "\<forall>m. m \<notin> {256 ..< 256 + LOGSIZE} \<longrightarrow> disk u 1 m = disk t 1 m"
    using again [rule_format, of 2 "klog1 (put_blocks (take 1 ws) disk1)" 1] klog1_booted by blast
  have nl: "100 \<notin> {256 ..< 256 + LOGSIZE}" by simp
  have d1: "disk1 257 = (\<lambda>_. 7)" "disk1 101 = (\<lambda>_. 101)" by (simp_all add: disk1_def)
  have "disk t 1 100 = disk1 (256 + 0 + 1)"
    using old [rule_format, of 0] unfolding disk1_log(1,2) by simp
  then have a: "disk t 1 100 = (\<lambda>_. 7)" using d1(1) by simp
  moreover have "disk u 1 100 = (\<lambda>_. 7)" using u(2) [rule_format, OF nl] a by (simp only:)
  moreover have "disk t 1 101 = (\<lambda>_. 101)"
  proof -
    have "{..<1 :: nat} = {0}" by auto
    then have "101 \<notin> logged_at 256 disk1 ` {..<log_count 256 disk1}" unfolding disk1_log(1) by (simp add: disk1_log(2))
    then show ?thesis using out [rule_format, of 101] d1(2) by simp
  qed
  ultimately show ?thesis using t u(1) B(3) by (intro exI conjI) (assumption | simp)+
qed

subsection \<open>Admission of operations\<close>

lemma log_update_order [simp]:
  fixes s :: "'z klog_scheme"
  shows
    "mach_update f1 (lgoutstanding_update g1 s) = lgoutstanding_update g1 (mach_update f1 s)"
    "mach_update f2 (lgcommitting_update g2 s) = lgcommitting_update g2 (mach_update f2 s)"
    "mach_update f3 (lhn_update g3 s) = lhn_update g3 (mach_update f3 s)"
    "mach_update f4 (lhblock_update g4 s) = lhblock_update g4 (mach_update f4 s)"
    "bufs_update f5 (lhn_update g5 s) = lhn_update g5 (bufs_update f5 s)"
    "bufs_update f6 (lhblock_update g6 s) = lhblock_update g6 (bufs_update f6 s)"
    "ptable_update f7 (lgoutstanding_update g7 s) = lgoutstanding_update g7 (ptable_update f7 s)"
    "ptable_update f8 (lgcommitting_update g8 s) = lgcommitting_update g8 (ptable_update f8 s)"
  by simp_all

lemma at_rest_log [simp]:
  fixes s :: "'z klog_scheme"
  shows "at_rest p (s\<lparr>lgoutstanding := k\<rparr>) = at_rest p s" "at_rest p (s\<lparr>lgcommitting := c\<rparr>) = at_rest p s"
    "at_rest p (s\<lparr>lhn := n\<rparr>) = at_rest p s" "at_rest p (s\<lparr>lhblock := bl\<rparr>) = at_rest p s"
  by (simp_all add: at_rest_def)

text \<open>An operation is admitted when no commit is under way and the log has room for the blocks
  that it and the operations under way may write; otherwise its process goes to sleep.\<close>

lemma begin_op_run:
  fixes s :: "'z klog_scheme"
  assumes "at_rest p s" and "\<not> lgcommitting s" and "lhn s + (lgoutstanding s + 1) * int MAXOPBLOCKS \<le> int LOGSIZE"
  shows "begin_op s = Ret () (s\<lparr>lgoutstanding := lgoutstanding s + 1\<rparr>)"
  using at_rest_acquire [OF assms(1), of LogLock] assms(2,3)
  by (simp add: begin_op_def begin_op_loop_def)

lemma begin_op_waits:
  fixes s :: "'z klog_scheme"
  assumes "at_rest p s" and "lgcommitting s \<or> lhn s + (lgoutstanding s + 1) * int MAXOPBLOCKS > int LOGSIZE"
  shows "\<exists>t. begin_op s = Asleep t \<and> lgoutstanding t = lgoutstanding s \<and> pstate (ptable t p) = SLEEPING \<and>
    chan (ptable t p) = Some ChanLog"
proof -
  note r = at_rest_acquire [OF assms(1), of LogLock]
  let ?g = "s\<lparr>mach := grab LogLock (mach s)\<rparr>"
  have "sleep ChanLog LogLock ?g = (Asleep (?g\<lparr>mach := drop_lk LogLock (grab PtableLock (mach ?g)),
      ptable := (ptable ?g)(p := asleep_on ChanLog (intena (my_cpu (mach ?g))) (ptable ?g p))\<rparr>) :: (unit, _) outcome)"
    using r at_restD [OF assms(1)] by (intro sleep_run) simp_all
  then show ?thesis using r assms(2) by (auto simp: begin_op_def begin_op_loop_def asleep_on_def)
qed

lemma log_write_run:
  fixes s :: "'z klog_scheme"
  assumes "at_rest p s" and "lhn s < int LOGSIZE" and "lhn s < int (lgsize s) - 1" and "1 \<le> lgoutstanding s"
  shows "log_write b s = (let x = bufs s b; w = of_nat (bblockno x); i = log_slot (lhn s) (lhblock s) w in
    Ret () (s\<lparr>bufs := (bufs s)(b := x\<lparr>bdirty := True\<rparr>), lhn := (if int i = lhn s then lhn s + 1 else lhn s),
      lhblock := (lhblock s)(i := w)\<rparr>))"
  using at_rest_acquire [OF assms(1), of LogLock] at_rest_release [of p _ LogLock] assms
  by (simp add: log_write_def Let_def)

lemma log_writes_run:
  fixes u :: "'z klog_scheme"
  assumes u: "at_rest p u" "lgsize u = LOGSIZE" "1 \<le> lgoutstanding u" "lhn u = 0"
    and w: "inj_on (\<lambda>b. of_nat (bblockno (bufs u b)) :: u32) {..<LOGSIZE}" and k: "k < LOGSIZE"
  shows "\<exists>v. kfor [0..<k] log_write u = Ret () v \<and> at_rest p v \<and> lgsize v = LOGSIZE \<and> 1 \<le> lgoutstanding v \<and>
    lhn v = int k \<and> (\<forall>i<k. lhblock v i = of_nat (bblockno (bufs u i))) \<and>
    (\<forall>b. bblockno (bufs v b) = bblockno (bufs u b))"
  using k
proof (induction k)
  case 0
  then show ?case using u by simp
next
  case (Suc k)
  then obtain v where v: "kfor [0..<k] log_write u = Ret () v" "at_rest p v" "lgsize v = LOGSIZE"
    "1 \<le> lgoutstanding v" "lhn v = int k" "\<And>i. i < k \<Longrightarrow> lhblock v i = of_nat (bblockno (bufs u i))"
    "\<And>b. bblockno (bufs v b) = bblockno (bufs u b)"
    by auto
  have "find (\<lambda>i. lhblock v i = of_nat (bblockno (bufs v k))) [0..<k] = None"
    using v(6,7) inj_onD [OF w, of _ k] Suc.prems by (fastforce simp: find_upt_None)
  then have "log_slot (lhn v) (lhblock v) (of_nat (bblockno (bufs v k))) = k"
    using v(5) by (simp add: log_slot_def)
  moreover have "lhn v < int LOGSIZE" "lhn v < int (lgsize v) - 1" using v(3,5) Suc.prems by simp_all
  ultimately have "log_write k v = Ret () (v\<lparr>bufs := (bufs v)(k := (bufs v k)\<lparr>bdirty := True\<rparr>), lhn := int k + 1,
      lhblock := (lhblock v)(k := of_nat (bblockno (bufs v k)))\<rparr>)"
    using log_write_run [OF v(2) _ _ v(4), of k] v(5) by (simp add: Let_def)
  then show ?case
    using v kfor_snoc [of "[0..<k]" k log_write u] by (auto simp: less_Suc_eq)
qed

text \<open>
  C4. The reservation of begin_op can exceed the log. mkfs makes a log of LOGSIZE blocks, of which
  one is the header. In an empty log of this size three operations are admitted and a fourth would
  wait; if the three change LOGSIZE different blocks in all, MAXOPBLOCKS each, then log_write
  accepts all but the last of them and panics at the last.
\<close>

theorem reservation_exceeds_log:
  assumes "at_rest p s" and "\<not> lgcommitting s" and "lgoutstanding s = 0" and "lhn s = 0" and "lgsize s = LOGSIZE"
    and "inj_on (\<lambda>b. of_nat (bblockno (bufs s b)) :: u32) {..<LOGSIZE}"
  shows "\<exists>u. thn begin_op (thn begin_op begin_op) s = Ret () u \<and> lgoutstanding u = 3 \<and>
    (\<exists>t. begin_op u = Asleep t) \<and>
    (\<exists>v. kfor [0..<LOGSIZE - 1] log_write u = Ret () v \<and> log_write (LOGSIZE - 1) v = Panic ''too big a transaction'')"
proof -
  let ?u = "s\<lparr>lgoutstanding := 3\<rparr>"
  have b: "thn begin_op (thn begin_op begin_op) s = Ret () ?u"
    using assms(1-4) by (simp add: begin_op_run [of p] LOGSIZE_def MAXOPBLOCKS_def)
  have f: "\<exists>t. begin_op ?u = Asleep t"
    using begin_op_waits [of p ?u] assms(1,4) by (auto simp: LOGSIZE_def MAXOPBLOCKS_def)
  have "LOGSIZE - 1 < LOGSIZE" by (simp add: LOGSIZE_def MAXOPBLOCKS_def)
  then obtain v where v: "kfor [0..<LOGSIZE - 1] log_write ?u = Ret () v" "lgsize v = LOGSIZE" "lhn v = int (LOGSIZE - 1)"
    using log_writes_run [of p ?u "LOGSIZE - 1"] assms by auto
  have "log_write (LOGSIZE - 1) v = Panic ''too big a transaction''"
    using v(2,3) by (simp add: log_write_def LOGSIZE_def MAXOPBLOCKS_def)
  then show ?thesis using b f v(1) by (intro exI [of _ ?u]) auto
qed

definition bufs2 :: "nat \<Rightarrow> buf" where
  "bufs2 b = (bufs0 b)\<lparr>bblockno := 100 + b\<rparr>"

lemma reservation_exceeds_log_witness:
  "\<exists>u v. thn begin_op (thn begin_op begin_op) (klog0 0 bufs2\<lparr>lgoutstanding := 0, lgcommitting := False\<rparr>) = Ret () u \<and>
    kfor [0..<29] log_write u = Ret () v \<and> log_write 29 v = Panic ''too big a transaction''"
proof -
  let ?s = "klog0 0 bufs2\<lparr>lgoutstanding := 0, lgcommitting := False\<rparr>"
  have i: "inj_on (\<lambda>b. of_nat (bblockno (bufs ?s b)) :: u32) {..<LOGSIZE}"
  proof (rule inj_onI)
    fix a b assume a: "a \<in> {..<LOGSIZE}" "b \<in> {..<LOGSIZE}"
      and e: "(of_nat (bblockno (bufs ?s a)) :: u32) = of_nat (bblockno (bufs ?s b))"
    have "bblockno (bufs ?s a) = bblockno (bufs ?s b)"
      using a by (intro of_nat_u32_inj [OF _ _ e]) (simp_all add: bufs2_def LOGSIZE_def MAXOPBLOCKS_def)
    then show "a = b" by (simp add: bufs2_def)
  qed
  have r: "at_rest 2 ?s" using locks_okD(1) [OF klog0_locks] by simp
  show ?thesis
    using reservation_exceeds_log [OF r _ _ _ _ i] by (auto simp: LOGSIZE_def MAXOPBLOCKS_def)
qed

text \<open>end_op of the last operation under way commits, outside the lock.\<close>

lemma end_op_last:
  fixes s :: "'z klog_scheme"
  assumes "at_rest p s" and "\<not> lgcommitting s" and "lgoutstanding s = 1"
  shows "end_op s = obind (commit (s\<lparr>lgoutstanding := 0, lgcommitting := True\<rparr>))
    (\<lambda>_. thn (acquire LogLock) (thn (modf (\<lambda>s. s\<lparr>lgcommitting := False\<rparr>)) (thn (wakeup ChanLog) (release LogLock))))"
  using at_rest_acquire [OF assms(1), of LogLock] assms(2,3) by (simp add: end_op_def)

lemma end_op_finish:
  fixes s :: "'z klog_scheme"
  assumes "at_rest p s"
  shows "thn (acquire LogLock) (thn (modf (\<lambda>s. s\<lparr>lgcommitting := False\<rparr>)) (thn (wakeup ChanLog) (release LogLock))) s =
    Ret () (s\<lparr>ptable := wake_all (Some ChanLog) (ptable s), lgcommitting := False\<rparr>)"
proof -
  note a = at_rest_acquire [OF assms, of LogLock]
  have "lock_ready PtableLock (grab LogLock (mach s))"
    using a at_restD [OF assms] by (simp add: lock_ready_def)
  then show ?thesis using a wakeup_run [of "s\<lparr>mach := grab LogLock (mach s), lgcommitting := False\<rparr>" ChanLog]
    by simp
qed

end
