(* ===== verification/Pipe.thy ===== *)
theory Pipe
  imports Log
begin

section \<open>Pipes (pipe.c)\<close>

text \<open>
  A pipe is named by the address of its page. Its fields are kept in \<open>pipes\<close> instead of the
  bytes of that page. The bytes a process writes are an argument, those it reads are part of the
  result, and \<open>pipe_left\<close> is the local state of a pipewrite that sleeps: the bytes it has
  still to write. pipealloc, which needs the file table, is in theory File.
\<close>

record pipe =
  pdata :: "nat \<Rightarrow> u8"
  nread :: u32
  nwrite :: u32
  readopen :: bool
  writeopen :: bool

record kpipe = klog +
  pipes :: "u32 \<Rightarrow> pipe"
  pipe_left :: "nat \<Rightarrow> u8 list"

lemma kpipe_update_order [simp]:
  fixes s :: "'z kpipe_scheme"
  shows
    "mach_update f1 (pipes_update g1 s) = pipes_update g1 (mach_update f1 s)"
    "mach_update f2 (pipe_left_update g2 s) = pipe_left_update g2 (mach_update f2 s)"
    "ptable_update f3 (pipes_update g3 s) = pipes_update g3 (ptable_update f3 s)"
    "ptable_update f4 (pipe_left_update g4 s) = pipe_left_update g4 (ptable_update f4 s)"
  by simp_all

definition PIPESIZE :: nat where "PIPESIZE = 512"

definition get_pipe :: "u32 \<Rightarrow> ('z kpipe_scheme, pipe) km" where
  "get_pipe p = gets (\<lambda>s. pipes s p)"

definition set_pipe :: "u32 \<Rightarrow> (pipe \<Rightarrow> pipe) \<Rightarrow> ('z kpipe_scheme, unit) km" where
  "set_pipe p f = modf (\<lambda>s. s\<lparr>pipes := (pipes s)(p := f (pipes s p))\<rparr>)"

definition self :: "('z kproc_scheme, nat) km" where
  "self = bnd myproc (\<lambda>mp. need ''no process'' mp)"

definition i_am_killed :: "('z kproc_scheme, bool) km" where
  "i_am_killed = bnd self (\<lambda>c. bnd (get_proc c) (\<lambda>r. ret (killed r)))"

definition pipeclose :: "u32 \<Rightarrow> bool \<Rightarrow> ('z kpipe_scheme, unit) km" where
  "pipeclose p wr =
     thn (acquire (PipeLock p)) (
     thn (if wr then thn (set_pipe p (\<lambda>q. q\<lparr>writeopen := False\<rparr>)) (wakeup (ChanRead p))
          else thn (set_pipe p (\<lambda>q. q\<lparr>readopen := False\<rparr>)) (wakeup (ChanWrite p))) (
     bnd (get_pipe p) (\<lambda>q.
     if \<not> readopen q \<and> \<not> writeopen q then thn (release (PipeLock p)) (kfree p)
     else release (PipeLock p))))"

definition pipe_put :: "u8 \<Rightarrow> pipe \<Rightarrow> pipe" where
  "pipe_put c q = q\<lparr>pdata := (pdata q)(unat (nwrite q) mod PIPESIZE := c), nwrite := nwrite q + 1\<rparr>"

primrec pipewrite_loop :: "u32 \<Rightarrow> int \<Rightarrow> u8 list \<Rightarrow> ('z kpipe_scheme, int) km" where
  "pipewrite_loop p n [] = thn (wakeup (ChanRead p)) (thn (release (PipeLock p)) (ret n))"
| "pipewrite_loop p n (c # cs) =
     bnd (get_pipe p) (\<lambda>q.
     if nwrite q = nread q + of_nat PIPESIZE then
       bnd (if \<not> readopen q then ret True else i_am_killed) (\<lambda>stop.
       if stop then thn (release (PipeLock p)) (ret (- 1))
       else thn (wakeup (ChanRead p)) (
         bnd self (\<lambda>me.
         thn (modf (\<lambda>s. s\<lparr>pipe_left := (pipe_left s)(me := c # cs)\<rparr>))
           (sleep (ChanWrite p) (PipeLock p)))))
     else thn (set_pipe p (pipe_put c)) (pipewrite_loop p n cs))"

definition pipewrite :: "u32 \<Rightarrow> u8 list \<Rightarrow> ('z kpipe_scheme, int) km" where
  "pipewrite p bs = thn (acquire (PipeLock p)) (pipewrite_loop p (int (length bs)) bs)"

definition pipewrite_resume :: "u32 \<Rightarrow> int \<Rightarrow> ('z kpipe_scheme, int) km" where
  "pipewrite_resume p n =
     thn (sleep_resume (PipeLock p)) (
     bnd self (\<lambda>me. bnd (gets (\<lambda>s. pipe_left s me)) (pipewrite_loop p n)))"

text \<open>The copying loop of piperead: the byte taken and the pipe after it, at most \<open>n\<close> times.\<close>

primrec pipe_take :: "nat \<Rightarrow> pipe \<Rightarrow> u8 list \<times> pipe" where
  "pipe_take 0 q = ([], q)"
| "pipe_take (Suc n) q =
     (if nread q = nwrite q then ([], q)
      else (case pipe_take n (q\<lparr>nread := nread q + 1\<rparr>) of (bs, r) \<Rightarrow>
        (pdata q (unat (nread q) mod PIPESIZE) # bs, r)))"

definition piperead_loop :: "u32 \<Rightarrow> nat \<Rightarrow> ('z kpipe_scheme, int \<times> u8 list) km" where
  "piperead_loop p n =
     bnd (get_pipe p) (\<lambda>q.
     if nread q = nwrite q \<and> writeopen q then
       bnd i_am_killed (\<lambda>k.
       if k then thn (release (PipeLock p)) (ret (- 1, []))
       else sleep (ChanRead p) (PipeLock p))
     else (case pipe_take n q of (bs, r) \<Rightarrow>
       thn (set_pipe p (\<lambda>_. r)) (
       thn (wakeup (ChanWrite p)) (
       thn (release (PipeLock p)) (ret (int (length bs), bs))))))"

definition piperead :: "u32 \<Rightarrow> nat \<Rightarrow> ('z kpipe_scheme, int \<times> u8 list) km" where
  "piperead p n = thn (acquire (PipeLock p)) (piperead_loop p n)"

definition piperead_resume :: "u32 \<Rightarrow> nat \<Rightarrow> ('z kpipe_scheme, int \<times> u8 list) km" where
  "piperead_resume p n = thn (sleep_resume (PipeLock p)) (piperead_loop p n)"

subsection \<open>The queue in a pipe\<close>

text \<open>The counters run modulo \<open>2 ^ 32\<close>, of which PIPESIZE is a divisor, so a slot survives their
  wrap-around.\<close>

definition pipe_len :: "pipe \<Rightarrow> nat" where
  "pipe_len q = unat (nwrite q - nread q)"

definition pipe_ok :: "pipe \<Rightarrow> bool" where
  "pipe_ok q \<longleftrightarrow> pipe_len q \<le> PIPESIZE"

definition buffered :: "pipe \<Rightarrow> u8 list" where
  "buffered q = map (\<lambda>i. pdata q ((unat (nread q) + i) mod PIPESIZE)) [0..<pipe_len q]"

lemma pipe_slot: "unat (x + of_nat i :: u32) mod PIPESIZE = (unat x + i) mod PIPESIZE"
proof -
  have "unat (x + of_nat i :: u32) = (unat x + i) mod 2 ^ 32"
    by (simp add: unat_word_ariths unat_of_nat mod_add_right_eq)
  moreover have "PIPESIZE dvd 2 ^ 32" by (simp add: PIPESIZE_def)
  ultimately show ?thesis by (simp add: mod_mod_cancel)
qed

lemma length_buffered [simp]: "length (buffered q) = pipe_len q"
  by (simp add: buffered_def)

lemma pipe_full: "pipe_ok q \<Longrightarrow> nwrite q = nread q + of_nat PIPESIZE \<longleftrightarrow> pipe_len q = PIPESIZE"
proof -
  have "nwrite q = nread q + of_nat PIPESIZE \<longleftrightarrow> nwrite q - nread q = of_nat PIPESIZE"
    by (simp add: diff_eq_eq add.commute)
  also have "\<dots> \<longleftrightarrow> pipe_len q = PIPESIZE"
  proof
    assume "nwrite q - nread q = of_nat PIPESIZE"
    then show "pipe_len q = PIPESIZE" by (simp add: pipe_len_def PIPESIZE_def)
  next
    assume "pipe_len q = PIPESIZE"
    then have "of_nat (unat (nwrite q - nread q)) = (of_nat PIPESIZE :: u32)" by (simp add: pipe_len_def)
    then show "nwrite q - nread q = of_nat PIPESIZE" by simp
  qed
  finally show ?thesis .
qed

lemma pipe_empty: "nread q = nwrite q \<longleftrightarrow> buffered q = []"
proof -
  have "buffered q = [] \<longleftrightarrow> pipe_len q = 0" by (metis length_0_conv length_buffered)
  also have "\<dots> \<longleftrightarrow> nwrite q - nread q = 0" by (simp add: pipe_len_def unat_eq_0)
  finally show ?thesis by auto
qed

lemma pipe_put_ok:
  assumes "pipe_len q < PIPESIZE"
  shows "pipe_ok (pipe_put c q)" "buffered (pipe_put c q) = buffered q @ [c]"
    "pipe_len (pipe_put c q) = Suc (pipe_len q)"
proof -
  have "unat (nwrite q - nread q + 1) = unat (nwrite q - nread q) + unat (1 :: u32)"
    using assms by (intro unat_less_add) (simp add: pipe_len_def PIPESIZE_def)
  then show l: "pipe_len (pipe_put c q) = Suc (pipe_len q)"
    by (simp add: pipe_len_def pipe_put_def algebra_simps)
  then show "pipe_ok (pipe_put c q)" using assms by (simp add: pipe_ok_def)
  have w: "unat (nwrite q) mod PIPESIZE = (unat (nread q) + pipe_len q) mod PIPESIZE"
    using pipe_slot [of "nread q" "pipe_len q"] by (simp add: pipe_len_def)
  have ne: "(unat (nread q) + i) mod PIPESIZE \<noteq> (unat (nread q) + pipe_len q) mod PIPESIZE" if "i < pipe_len q" for i
    using that assms by (rule mod_shift_neq)
  show "buffered (pipe_put c q) = buffered q @ [c]"
    unfolding buffered_def l using ne w by (simp add: pipe_put_def)
qed

lemma pipe_take_run:
  "pipe_take n q = (take n (buffered q), q\<lparr>nread := nread q + of_nat (min n (pipe_len q))\<rparr>)"
proof (induction n arbitrary: q)
  case (Suc n)
  show ?case
  proof (cases "nread q = nwrite q")
    case True
    then show ?thesis using pipe_empty [of q] by (simp add: pipe_len_def)
  next
    case False
    let ?r = "q\<lparr>nread := nread q + 1\<rparr>"
    have "0 < unat (nwrite q - nread q)" using False by (simp add: unat_gt_0)
    then have l: "pipe_len q = Suc (pipe_len ?r)"
      using unat_pred [of "nwrite q - nread q"] False by (simp add: pipe_len_def diff_diff_eq [symmetric])
    have s: "(unat (nread q + 1) + i) mod PIPESIZE = (unat (nread q) + Suc i) mod PIPESIZE" for i
      using pipe_slot [of "nread q + 1" i] pipe_slot [of "nread q" "Suc i"] by (simp add: add.assoc)
    have "buffered q = pdata q (unat (nread q) mod PIPESIZE) # buffered ?r"
      unfolding buffered_def l by (simp add: upt_conv_Cons map_Suc_upt [symmetric] s del: upt_Suc)
    then show ?thesis using False Suc [of ?r] l by (simp add: add.assoc)
  qed
qed simp

subsection \<open>The operations\<close>

lemma pipe_state [simp]:
  "get_pipe p s = Ret (pipes s p) s"
  "set_pipe p f s = Ret () (s\<lparr>pipes := (pipes s)(p := f (pipes s p))\<rparr>)"
  by (simp_all add: get_pipe_def set_pipe_def)

lemma self_run: "cpu_ok (mach s) \<Longrightarrow> cur_proc (mach s) = Some me \<Longrightarrow> self s = Ret me s"
  by (simp add: self_def)

lemma i_am_killed_run:
  "cpu_ok (mach s) \<Longrightarrow> cur_proc (mach s) = Some me \<Longrightarrow> i_am_killed s = Ret (killed (ptable s me)) s"
  by (simp add: i_am_killed_def self_run [of s me])

lemma pipe_put_fields [simp]: "readopen (pipe_put c q) = readopen q" "writeopen (pipe_put c q) = writeopen q"
  by (simp_all add: pipe_put_def)

lemma pipe_puts_ok:
  assumes "pipe_len q + length bs \<le> PIPESIZE"
  shows "buffered (fold pipe_put bs q) = buffered q @ bs \<and> pipe_ok (fold pipe_put bs q) \<and>
    pipe_len (fold pipe_put bs q) = pipe_len q + length bs \<and> readopen (fold pipe_put bs q) = readopen q"
  using assms
proof (induction bs arbitrary: q)
  case Nil
  then show ?case by (simp add: pipe_ok_def)
next
  case (Cons c bs)
  have "pipe_len q < PIPESIZE" using Cons.prems by simp
  note P = pipe_put_ok [OF this, of c]
  show ?case using Cons.IH [of "pipe_put c q"] Cons.prems P by simp
qed

text \<open>A process that holds the pipe's lock and no other.\<close>

definition piping :: "nat \<Rightarrow> u32 \<Rightarrow> 'z kpipe_scheme \<Rightarrow> 'z kpipe_scheme \<Rightarrow> bool" where
  "piping me p s u \<longleftrightarrow> at_rest me s \<and> mach u = grab (PipeLock p) (mach s)"

lemma pipingD:
  assumes "piping me p s u"
  shows "cpu_ok (mach u)" "held (mach u) (PipeLock p)" "0 < ncli (my_cpu (mach u))" "drop_lk (PipeLock p) (mach u) = mach s"
    "cur_proc (mach u) = Some me" "lock_ready PtableLock (mach u)" "ncli (my_cpu (mach u)) = 1" "lk_free (mach u) PtableLock"
  using at_rest_acquire [of me s "PipeLock p"] at_restD [of me s] assms
  by (simp_all add: piping_def lock_ready_def)

lemma piping_upd [simp]:
  "piping me p s (u\<lparr>pipes := P\<rparr>) = piping me p s u" "piping me p s (u\<lparr>pipe_left := L\<rparr>) = piping me p s u"
  "piping me p s (u\<lparr>ptable := T\<rparr>) = piping me p s u"
  by (simp_all add: piping_def)

lemma same_pipes [simp]: "(u :: 'z kpipe_scheme)\<lparr>pipes := (pipes u)(p := pipes u p)\<rparr> = u"
  by (simp del: fun_upd_apply)

definition wake_readers :: "u32 \<Rightarrow> 'z kpipe_scheme \<Rightarrow> 'z kpipe_scheme" where
  "wake_readers p u = u\<lparr>ptable := wake_all (Some (ChanRead p)) (ptable u)\<rparr>"

lemma piping_ops:
  assumes "piping me p s u"
  shows "wakeup ch u = Ret () (u\<lparr>ptable := wake_all (Some ch) (ptable u)\<rparr>)"
    and "release (PipeLock p) u = Ret () (u\<lparr>mach := mach s\<rparr>)"
    and "i_am_killed u = Ret (killed (ptable u me)) u" and "self u = Ret me u"
    and "sleep ch (PipeLock p) u = Asleep (u\<lparr>mach := drop_lk (PipeLock p) (grab PtableLock (mach u)),
      ptable := (ptable u)(me := asleep_on ch (intena (my_cpu (mach u))) (ptable u me))\<rparr>)"
  using pipingD [OF assms] wakeup_run [of u ch] i_am_killed_run [of u me] self_run [of u me]
    sleep_run [of u me "PipeLock p" ch]
  by simp_all

lemma pipewrite_loop_run:
  assumes "piping me p s u" and "pipe_ok (pipes u p)"
  shows "pipewrite_loop p n bs u =
    (let q = pipes u p; room = PIPESIZE - pipe_len q;
         v = u\<lparr>pipes := (pipes u)(p := fold pipe_put (take room bs) q)\<rparr> in
     if length bs \<le> room then Ret n (wake_readers p v\<lparr>mach := mach s\<rparr>)
     else if \<not> readopen q \<or> killed (ptable u me) then Ret (- 1) (v\<lparr>mach := mach s\<rparr>)
     else sleep (ChanWrite p) (PipeLock p) (wake_readers p v\<lparr>pipe_left := (pipe_left u)(me := drop room bs)\<rparr>))"
  using assms
proof (induction bs arbitrary: u)
  case Nil
  then show ?case using piping_ops [of me p s u] piping_ops [of me p s "wake_readers p u"]
    by (simp add: wake_readers_def Let_def del: fun_upd_apply)
next
  case (Cons c bs)
  let ?q = "pipes u p"
  note F = pipe_full [OF Cons.prems(2)]
  show ?case
  proof (cases "pipe_len ?q = PIPESIZE")
    case True
    have k: "killed (wake_all ch t me) = killed (t me)" for ch t by (simp add: wake_all_def)
    show ?thesis
      using True F piping_ops [OF Cons.prems(1)] piping_ops [of me p s "wake_readers p u"] Cons.prems(1)
      by (auto simp: wake_readers_def Let_def k simp del: fun_upd_apply)
  next
    case False
    then have lt: "pipe_len ?q < PIPESIZE" using Cons.prems(2) by (simp add: pipe_ok_def)
    note P = pipe_put_ok [OF lt, of c]
    have r: "PIPESIZE - pipe_len ?q = Suc (PIPESIZE - pipe_len (pipe_put c ?q))" using P(3) lt by simp
    show ?thesis
      using False F Cons.IH [of "u\<lparr>pipes := (pipes u)(p := pipe_put c ?q)\<rparr>"] Cons.prems(1) P(1) r
      by (simp add: Let_def wake_readers_def fun_upd_upd fun_upd_same del: fun_upd_apply)
  qed
qed

lemma wake_all_killed [simp]: "killed (wake_all ch t i) = killed (t i)"
  by (simp add: wake_all_def)

lemma piping_start:
  assumes "at_rest me s"
  shows "acquire (PipeLock p) s = Ret () (s\<lparr>mach := grab (PipeLock p) (mach s)\<rparr>)"
    and "piping me p s (s\<lparr>mach := grab (PipeLock p) (mach s)\<rparr>)"
  using at_rest_acquire [OF assms, of "PipeLock p"] assms by (simp_all add: piping_def)

text \<open>Everything but the pipe's lock, the pipe itself and the process table is as it was.\<close>

definition slept :: "nat \<Rightarrow> chan \<Rightarrow> u32 \<Rightarrow> 'z kpipe_scheme \<Rightarrow> bool" where
  "slept me ch p t \<longleftrightarrow> pstate (ptable t me) = SLEEPING \<and> chan (ptable t me) = Some ch \<and> lk_free (mach t) (PipeLock p)"

lemma sleep_slept:
  assumes "piping me p s u"
  shows "\<exists>m j. sleep ch (PipeLock p) u = Asleep (u\<lparr>mach := m, ptable := (ptable u)(me := asleep_on ch j (ptable u me))\<rparr>) \<and>
    slept me ch p (u\<lparr>mach := m, ptable := (ptable u)(me := asleep_on ch j (ptable u me))\<rparr>)"
  by (intro exI conjI, rule piping_ops(5) [OF assms]) (simp add: slept_def asleep_on_def drop_lk_def lk_free_def)

lemma pipewrite_appends:
  fixes s :: "'z kpipe_scheme"
  assumes "at_rest me s" and "pipe_ok (pipes s p)"
  defines "q \<equiv> pipes s p" and "room \<equiv> PIPESIZE - pipe_len (pipes s p)"
  shows "if length bs \<le> room then \<exists>t. pipewrite p bs s = Ret (int (length bs)) t \<and> mach t = mach s \<and>
      pipe_ok (pipes t p) \<and> buffered (pipes t p) = buffered q @ bs \<and> ptable t = wake_all (Some (ChanRead p)) (ptable s)
    else if \<not> readopen q \<or> killed (ptable s me) then \<exists>t. pipewrite p bs s = Ret (- 1) t \<and> mach t = mach s \<and>
      pipe_ok (pipes t p) \<and> buffered (pipes t p) = buffered q @ take room bs \<and> ptable t = ptable s
    else \<exists>t. pipewrite p bs s = Asleep t \<and> slept me (ChanWrite p) p t \<and> pipe_left t me = drop room bs \<and>
      pipe_ok (pipes t p) \<and> buffered (pipes t p) = buffered q @ take room bs \<and>
      (\<forall>i. i \<noteq> me \<longrightarrow> ptable t i = wake_all (Some (ChanRead p)) (ptable s) i)"
proof -
  let ?u = "s\<lparr>mach := grab (PipeLock p) (mach s)\<rparr>"
  note st = piping_start [OF assms(1), of p]
  have len: "pipe_len q + length (take room bs) \<le> PIPESIZE"
    using assms(2) by (simp add: q_def room_def pipe_ok_def)
  note P = pipe_puts_ok [OF len]
  have run: "pipewrite p bs s = pipewrite_loop p (int (length bs)) bs ?u"
    using st(1) by (simp add: pipewrite_def)
  note L = pipewrite_loop_run [OF st(2), of "int (length bs)" bs]
  show ?thesis
  proof (cases "length bs \<le> room \<or> \<not> readopen q \<or> killed (ptable s me)")
    case True
    then show ?thesis using L P assms(2) unfolding run
      by (auto simp: Let_def q_def room_def wake_readers_def)
  next
    case False
    let ?v = "wake_readers p (?u\<lparr>pipes := (pipes s)(p := fold pipe_put (take room bs) q)\<rparr>)
      \<lparr>pipe_left := (pipe_left s)(me := drop room bs)\<rparr>"
    have "piping me p s ?v" using st(2) by (simp add: wake_readers_def piping_def)
    from sleep_slept [OF this, of "ChanWrite p"] obtain m j where
      sl: "sleep (ChanWrite p) (PipeLock p) ?v =
        (Asleep (?v\<lparr>mach := m, ptable := (ptable ?v)(me := asleep_on (ChanWrite p) j (ptable ?v me))\<rparr>) :: (int, _) outcome)"
        "slept me (ChanWrite p) p (?v\<lparr>mach := m, ptable := (ptable ?v)(me := asleep_on (ChanWrite p) j (ptable ?v me))\<rparr>)"
      by blast
    have "pipewrite p bs s = sleep (ChanWrite p) (PipeLock p) ?v"
      using L assms(2) False unfolding run by (simp add: Let_def q_def room_def wake_readers_def)
    then show ?thesis using False P sl by (simp add: wake_readers_def)
  qed
qed

lemma pipe_len_empty: "buffered q = [] \<longleftrightarrow> pipe_len q = 0"
  by (metis length_0_conv length_buffered)

lemma buffered_drop:
  assumes "k \<le> pipe_len q"
  shows "buffered (q\<lparr>nread := nread q + of_nat k\<rparr>) = drop k (buffered q)"
    and "pipe_len (q\<lparr>nread := nread q + of_nat k\<rparr>) = pipe_len q - k"
proof -
  have le: "(of_nat k :: u32) \<le> nwrite q - nread q" and k: "unat (of_nat k :: u32) = k"
    using assms unat_u32_less [of "nwrite q - nread q"]
    by (simp_all add: pipe_len_def word_le_nat_alt unat_of_nat)
  have "unat (nwrite q - nread q - of_nat k) = unat (nwrite q - nread q) - k"
    using unat_sub [OF le] k by simp
  then show l: "pipe_len (q\<lparr>nread := nread q + of_nat k\<rparr>) = pipe_len q - k"
    by (simp add: pipe_len_def diff_diff_eq)
  have s: "(unat (nread q + of_nat k) + i) mod PIPESIZE = (unat (nread q) + (k + i)) mod PIPESIZE" for i
    using pipe_slot [of "nread q + of_nat k" i] pipe_slot [of "nread q" "k + i"] by (simp add: add.assoc)
  show "buffered (q\<lparr>nread := nread q + of_nat k\<rparr>) = drop k (buffered q)"
  proof (rule nth_equalityI)
    fix i assume "i < length (buffered (q\<lparr>nread := nread q + of_nat k\<rparr>))"
    then have i: "i < pipe_len q - k" "k + i < pipe_len q" by (simp_all add: l)
    have "buffered q ! (k + i) = pdata q ((unat (nread q) + (k + i)) mod PIPESIZE)"
      unfolding buffered_def using i(2) by simp
    then show "buffered (q\<lparr>nread := nread q + of_nat k\<rparr>) ! i = drop k (buffered q) ! i"
      using i by (simp add: assms nth_drop) (simp add: buffered_def l s)
  qed (simp add: l)
qed

lemma piperead_takes:
  fixes s :: "'z kpipe_scheme"
  assumes "at_rest me s" and "pipe_ok (pipes s p)"
  defines "q \<equiv> pipes s p"
  shows "if buffered q \<noteq> [] \<or> \<not> writeopen q then
      \<exists>t. piperead p n s = Ret (int (min n (pipe_len q)), take n (buffered q)) t \<and> mach t = mach s \<and>
      pipe_ok (pipes t p) \<and> buffered (pipes t p) = drop n (buffered q) \<and>
      ptable t = wake_all (Some (ChanWrite p)) (ptable s)
    else if killed (ptable s me) then piperead p n s = Ret (- 1, []) s
    else \<exists>t. piperead p n s = Asleep t \<and> slept me (ChanRead p) p t \<and> pipes t = pipes s"
proof -
  let ?u = "s\<lparr>mach := grab (PipeLock p) (mach s)\<rparr>"
  note st = piping_start [OF assms(1), of p]
  have run: "piperead p n s = piperead_loop p n ?u" using st(1) by (simp add: piperead_def)
  note ops = piping_ops [OF st(2)]
  show ?thesis
  proof (cases "buffered q \<noteq> [] \<or> \<not> writeopen q")
    case True
    let ?k = "min n (pipe_len q)"
    let ?v = "?u\<lparr>pipes := (pipes s)(p := q\<lparr>nread := nread q + of_nat ?k\<rparr>)\<rparr>"
    let ?w = "?v\<lparr>ptable := wake_all (Some (ChanWrite p)) (ptable s)\<rparr>"
    have v: "piping me p s ?v" "piping me p s ?w" using st(2) by simp_all
    have c: "\<not> (nread q = nwrite q \<and> writeopen q)" using True pipe_empty [of q] by blast
    have "piperead p n s = Ret (int (length (take n (buffered q))), take n (buffered q)) (?w\<lparr>mach := mach s\<rparr>)"
      unfolding run piperead_loop_def
      using c piping_ops(1) [OF v(1), of "ChanWrite p"] piping_ops(2) [OF v(2)]
      by (auto simp: pipe_take_run q_def min.commute simp del: fun_upd_apply)
    then show ?thesis
      using True assms(2) buffered_drop [of ?k q] drop_all [of "buffered q" n]
      by (auto simp: q_def pipe_ok_def min_def)
  next
    case False
    then show ?thesis
      unfolding run piperead_loop_def using ops pipe_empty [of q] sleep_slept [OF st(2), of "ChanRead p"]
      by (auto simp: q_def)
  qed
qed

text \<open>Claim C10. A pipe is a queue of at most PIPESIZE bytes. A write appends its bytes when they
  fit; otherwise it appends what fits and, with a reader left and not killed, wakes the readers
  and sleeps with the rest, or answers -1. A read takes the oldest bytes, up to as many as asked
  for, and wakes the writers; on an empty pipe it returns nothing when no writer is left, answers
  -1 when killed and sleeps otherwise. The counters may wrap around.\<close>

theorem pipe_is_fifo:
  fixes s :: "'z kpipe_scheme"
  assumes "at_rest me s" and "pipe_ok (pipes s p)"
  shows "(let q = pipes s p; room = PIPESIZE - pipe_len q in
    if length bs \<le> room then \<exists>t. pipewrite p bs s = Ret (int (length bs)) t \<and> mach t = mach s \<and>
      pipe_ok (pipes t p) \<and> buffered (pipes t p) = buffered q @ bs \<and> ptable t = wake_all (Some (ChanRead p)) (ptable s)
    else if \<not> readopen q \<or> killed (ptable s me) then \<exists>t. pipewrite p bs s = Ret (- 1) t \<and> mach t = mach s \<and>
      pipe_ok (pipes t p) \<and> buffered (pipes t p) = buffered q @ take room bs \<and> ptable t = ptable s
    else \<exists>t. pipewrite p bs s = Asleep t \<and> slept me (ChanWrite p) p t \<and> pipe_left t me = drop room bs \<and>
      pipe_ok (pipes t p) \<and> buffered (pipes t p) = buffered q @ take room bs \<and>
      (\<forall>i. i \<noteq> me \<longrightarrow> ptable t i = wake_all (Some (ChanRead p)) (ptable s) i)) \<and>
   (let q = pipes s p in
    if buffered q \<noteq> [] \<or> \<not> writeopen q then
      \<exists>t. piperead p n s = Ret (int (min n (pipe_len q)), take n (buffered q)) t \<and> mach t = mach s \<and>
      pipe_ok (pipes t p) \<and> buffered (pipes t p) = drop n (buffered q) \<and>
      ptable t = wake_all (Some (ChanWrite p)) (ptable s)
    else if killed (ptable s me) then piperead p n s = Ret (- 1, []) s
    else \<exists>t. piperead p n s = Asleep t \<and> slept me (ChanRead p) p t \<and> pipes t = pipes s)"
  unfolding Let_def using pipewrite_appends [OF assms, of bs] piperead_takes [OF assms, of n] by (rule conjI)

text \<open>A pipe about to wrap its counters, which holds two bytes.\<close>

definition kpipe0 :: kpipe where
  "kpipe0 = klog.extend (klog0 0 bufs0)
     (kpipe.fields (\<lambda>_. \<lparr>pdata = (\<lambda>i. of_nat i), nread = 4294967295, nwrite = 1, readopen = True, writeopen = True\<rparr>) (\<lambda>_. []))"

lemma kpipe0_ok: "at_rest 2 kpipe0" "pipe_ok (pipes kpipe0 p)" "buffered (pipes kpipe0 p) = [255, 0]"
  "pipe_len (pipes kpipe0 p) = 2"
proof -
  have m: "mach kpipe0 = mach kbio0" "ptable kpipe0 = ptable kbio0" by (simp_all add: kpipe0_def klog.defs)
  show "at_rest 2 kpipe0" using kbio0_ok(1) unfolding at_rest_def m by (auto simp: cache_ok_def locks_ok_def at_rest_def)
  have q: "pipes kpipe0 p = \<lparr>pdata = (\<lambda>i. of_nat i), nread = 4294967295, nwrite = 1, readopen = True, writeopen = True\<rparr>"
    by (simp add: kpipe0_def klog.defs kpipe.defs)
  show l: "pipe_len (pipes kpipe0 p) = 2" by (simp add: q pipe_len_def)
  then show "pipe_ok (pipes kpipe0 p)" by (simp add: pipe_ok_def PIPESIZE_def)
  show "buffered (pipes kpipe0 p) = [255, 0]" unfolding buffered_def l
    by (simp add: q PIPESIZE_def upt_rec)
qed

lemma pipe_is_fifo_witness:
  "(\<exists>t. pipewrite 4096 [7] kpipe0 = Ret 1 t \<and> buffered (pipes t 4096) = [255, 0, 7]) \<and>
   (\<exists>t. piperead 4096 1 kpipe0 = Ret (1, [255]) t \<and> buffered (pipes t 4096) = [0])"
  using pipe_is_fifo [OF kpipe0_ok(1,2), of 4096 "[7]" 1] kpipe0_ok(3,4) [of 4096]
  by (auto simp: Let_def PIPESIZE_def)

end
