(* ===== verification/Inode.thy ===== *)
theory Inode
  imports Pipe
begin

section \<open>Blocks and inodes of the file system (fs.c, file.h, fs.h)\<close>

text \<open>
  The in-memory inodes are the entries of \<open>icache.inode\<close>, named by their index. The fields
  of an inode keep their C widths; a device number is a number, as in the buffer cache. An array of
  \<open>uint\<close> in a block is read with \<open>get32\<close> and written with \<open>put32\<close>. The table \<open>devsw\<close>
  of device functions is an argument of readi and writei. A read gives back the bytes it copied, a
  write takes the bytes of its source; a C \<open>int\<close> result of -1 is the number -1.
\<close>

definition NDIRECT :: nat where "NDIRECT = 12"
definition NINDIRECT :: nat where "NINDIRECT = BSIZE div 4"
definition MAXFILE :: nat where "MAXFILE = NDIRECT + NINDIRECT"
definition NINODE :: nat where "NINODE = 50"
definition NDEV :: nat where "NDEV = 10"
definition DINODE :: nat where "DINODE = 64"
definition IPB :: nat where "IPB = BSIZE div DINODE"
definition BPB :: nat where "BPB = BSIZE * 8"
definition T_DIR :: u16 where "T_DIR = 1"
definition T_FILE :: u16 where "T_FILE = 2"
definition T_DEV :: u16 where "T_DEV = 3"

record dinode =
  dtype :: u16
  dmajor :: u16
  dminor :: u16
  dnlink :: u16
  dsize :: u32
  daddrs :: "nat \<Rightarrow> u32"

record inode =
  idev :: nat
  inum :: u32
  iref :: int
  ivalid :: bool
  itype :: u16
  major :: u16
  minor :: u16
  nlink :: u16
  isize :: u32
  addrs :: "nat \<Rightarrow> u32"

record kfs = kpipe +
  sb :: superblock
  inodes :: "nat \<Rightarrow> inode"

lemma kfs_update_order [simp]:
  fixes s :: "'z kfs_scheme"
  shows
    "mach_update f1 (inodes_update g1 s) = inodes_update g1 (mach_update f1 s)"
    "ptable_update f2 (inodes_update g2 s) = inodes_update g2 (ptable_update f2 s)"
    "slocks_update f3 (inodes_update g3 s) = inodes_update g3 (slocks_update f3 s)"
    "bufs_update f4 (inodes_update g4 s) = inodes_update g4 (bufs_update f4 s)"
    "idequeue_update f5 (inodes_update g5 s) = inodes_update g5 (idequeue_update f5 s)"
    "disk_update f6 (inodes_update g6 s) = inodes_update g6 (disk_update f6 s)"
    "ide_req_update f7 (inodes_update g7 s) = inodes_update g7 (ide_req_update f7 s)"
    "disk_writes_update f8 (inodes_update g8 s) = inodes_update g8 (disk_writes_update f8 s)"
    "lhn_update f9 (inodes_update g9 s) = inodes_update g9 (lhn_update f9 s)"
    "lhblock_update f10 (inodes_update g10 s) = inodes_update g10 (lhblock_update f10 s)"
  by simp_all

definition get_inode :: "nat \<Rightarrow> ('z kfs_scheme, inode) km" where
  "get_inode i = gets (\<lambda>s. inodes s i)"

definition set_inode :: "nat \<Rightarrow> (inode \<Rightarrow> inode) \<Rightarrow> ('z kfs_scheme, unit) km" where
  "set_inode i f = modf (\<lambda>s. s\<lparr>inodes := (inodes s)(i := f (inodes s i))\<rparr>)"

definition set_data :: "nat \<Rightarrow> (block \<Rightarrow> block) \<Rightarrow> ('z kide_scheme, unit) km" where
  "set_data b f = set_buf b (\<lambda>x. x\<lparr>bdata := f (bdata x)\<rparr>)"

definition get_data :: "nat \<Rightarrow> ('z kide_scheme, block) km" where
  "get_data b = bnd (get_buf b) (\<lambda>x. ret (bdata x))"

subsection \<open>Layout of the disk\<close>

definition IBLOCK :: "superblock \<Rightarrow> u32 \<Rightarrow> nat" where
  "IBLOCK sp i = unat (i div of_nat IPB + sb_inodestart sp)"

definition BBLOCK :: "superblock \<Rightarrow> nat \<Rightarrow> nat" where
  "BBLOCK sp b = unat (of_nat (b div BPB) + sb_bmapstart sp)"

definition get16 :: "block \<Rightarrow> nat \<Rightarrow> u16" where
  "get16 d i = ucast (d i) OR push_bit 8 (ucast (d (i + 1)))"

definition put16 :: "block \<Rightarrow> nat \<Rightarrow> u16 \<Rightarrow> block" where
  "put16 d i v = d(i := ucast v, i + 1 := ucast (drop_bit 8 v))"

definition get_addrs :: "block \<Rightarrow> nat \<Rightarrow> nat \<Rightarrow> u32" where
  "get_addrs d i k = (if k \<le> NDIRECT then get32 d (i + 4 * k) else 0)"

definition put_addrs :: "nat \<Rightarrow> (nat \<Rightarrow> u32) \<Rightarrow> block \<Rightarrow> block" where
  "put_addrs i a d = fold (\<lambda>k d. put32 d (i + 4 * k) (a k)) [0..<NDIRECT + 1] d"

definition get_dinode :: "block \<Rightarrow> nat \<Rightarrow> dinode" where
  "get_dinode d i = \<lparr>dtype = get16 d i, dmajor = get16 d (i + 2), dminor = get16 d (i + 4),
     dnlink = get16 d (i + 6), dsize = get32 d (i + 8), daddrs = get_addrs d (i + 12)\<rparr>"

definition put_dinode :: "nat \<Rightarrow> dinode \<Rightarrow> block \<Rightarrow> block" where
  "put_dinode i v d = put_addrs (i + 12) (daddrs v) (
     put32 (put16 (put16 (put16 (put16 d i (dtype v)) (i + 2) (dmajor v)) (i + 4) (dminor v))
       (i + 6) (dnlink v)) (i + 8) (dsize v))"

definition dslot :: "u32 \<Rightarrow> nat" where
  "dslot i = unat (i mod of_nat IPB) * DINODE"

subsection \<open>Blocks\<close>

definition bzero :: "nat \<Rightarrow> nat \<Rightarrow> ('z klog_scheme, unit) km" where
  "bzero dev bno =
     bnd (bread dev bno) (\<lambda>b.
     thn (set_data b (\<lambda>_ _. 0)) (
     thn (log_write b) (brelse b)))"

definition bit_of :: "nat \<Rightarrow> u8" where
  "bit_of bi = push_bit (bi mod 8) 1"

text \<open>The inner loop of balloc looks for a clear bit among the blocks from \<open>b\<close> on.\<close>

definition free_bit :: "block \<Rightarrow> nat \<Rightarrow> nat \<Rightarrow> nat option" where
  "free_bit d b n = find (\<lambda>bi. d (bi div 8) AND bit_of bi = 0) (takeWhile (\<lambda>bi. b + bi < n) [0..<BPB])"

primrec balloc_loop :: "nat \<Rightarrow> nat list \<Rightarrow> ('z kfs_scheme, u32) km" where
  "balloc_loop dev [] = panic ''balloc: out of blocks''"
| "balloc_loop dev (b # bs) =
     (if b \<ge> 2 ^ 31 then fault ''balloc: int overflow''
      else bnd (gets sb) (\<lambda>sp.
        bnd (bread dev (BBLOCK sp b)) (\<lambda>x.
        bnd (get_data x) (\<lambda>d.
        case free_bit d b (unat (sb_size sp)) of
          Some bi \<Rightarrow>
            thn (set_data x (\<lambda>d. d(bi div 8 := d (bi div 8) OR bit_of bi))) (
            thn (log_write x) (
            thn (brelse x) (
            thn (bzero dev (b + bi)) (
            ret (of_nat (b + bi))))))
        | None \<Rightarrow> thn (brelse x) (balloc_loop dev bs)))))"

definition balloc :: "nat \<Rightarrow> ('z kfs_scheme, u32) km" where
  "balloc dev =
     bnd (gets (\<lambda>s. unat (sb_size (sb s)))) (\<lambda>n.
     balloc_loop dev (map (\<lambda>k. k * BPB) [0..<(n + BPB - 1) div BPB]))"

definition bfree :: "nat \<Rightarrow> u32 \<Rightarrow> ('z kfs_scheme, unit) km" where
  "bfree dev b =
     bnd (gets sb) (\<lambda>sp.
     bnd (bread dev (BBLOCK sp (unat b))) (\<lambda>x.
     bnd (get_data x) (\<lambda>d.
     let bi = unat b mod BPB in
     if d (bi div 8) AND bit_of bi = 0 then panic ''freeing free block''
     else thn (set_data x (\<lambda>d. d(bi div 8 := d (bi div 8) AND NOT (bit_of bi)))) (
       thn (log_write x) (brelse x)))))"

subsection \<open>Inodes\<close>

definition initinode :: "nat \<Rightarrow> ('z kfs_scheme, unit) km" where
  "initinode i = initsleeplock (InodeSleep i) ''inode''"

definition iinit :: "nat \<Rightarrow> ('z kfs_scheme, unit) km" where
  "iinit dev =
     thn (initlock IcacheLock ''icache'') (
     thn (kfor [0..<NINODE] initinode) (
     bnd (readsb dev) (\<lambda>sp.
     thn (modf (\<lambda>s. s\<lparr>sb := sp\<rparr>)) (
     cprintf (''sb: size %d nblocks %d ninodes %d nlog %d logstart %d inodestart %d bmap start %d'' @ [CHR 0x0A])
       [FInt (sb_size sp), FInt (sb_nblocks sp), FInt (sb_ninodes sp), FInt (sb_nlog sp),
        FInt (sb_logstart sp), FInt (sb_inodestart sp), FInt (sb_bmapstart sp)]))))"

text \<open>The loop of iget ends at the cached inode; \<open>empty\<close> is the first entry it saw that is not in use.\<close>

definition iget :: "nat \<Rightarrow> u32 \<Rightarrow> ('z kfs_scheme, nat) km" where
  "iget dev n =
     thn (acquire IcacheLock) (
     bnd (gets inodes) (\<lambda>t.
     case find (\<lambda>i. iref (t i) > 0 \<and> idev (t i) = dev \<and> inum (t i) = n) [0..<NINODE] of
       Some i \<Rightarrow>
         thn (set_inode i (\<lambda>p. p\<lparr>iref := iref p + 1\<rparr>)) (
         thn (release IcacheLock) (ret i))
     | None \<Rightarrow>
         (case find (\<lambda>i. iref (t i) = 0) [0..<NINODE] of
            None \<Rightarrow> panic ''iget: no inodes''
          | Some i \<Rightarrow>
              thn (set_inode i (\<lambda>p. p\<lparr>idev := dev\<rparr>)) (
              thn (set_inode i (\<lambda>p. p\<lparr>inum := n\<rparr>)) (
              thn (set_inode i (\<lambda>p. p\<lparr>iref := 1\<rparr>)) (
              thn (set_inode i (\<lambda>p. p\<lparr>ivalid := False\<rparr>)) (
              thn (release IcacheLock) (ret i))))))))"

primrec ialloc_loop :: "nat \<Rightarrow> u16 \<Rightarrow> nat list \<Rightarrow> ('z kfs_scheme, nat) km" where
  "ialloc_loop dev ty [] = panic ''ialloc: no inodes''"
| "ialloc_loop dev ty (n # ns) =
     (if n \<ge> 2 ^ 31 then fault ''ialloc: int overflow''
      else bnd (gets sb) (\<lambda>sp.
        bnd (bread dev (IBLOCK sp (of_nat n))) (\<lambda>b.
        bnd (get_data b) (\<lambda>d.
        if dtype (get_dinode d (dslot (of_nat n))) = 0 then
          thn (set_data b (put_dinode (dslot (of_nat n))
            \<lparr>dtype = ty, dmajor = 0, dminor = 0, dnlink = 0, dsize = 0, daddrs = (\<lambda>_. 0)\<rparr>)) (
          thn (log_write b) (
          thn (brelse b) (iget dev (of_nat n))))
        else thn (brelse b) (ialloc_loop dev ty ns)))))"

definition ialloc :: "nat \<Rightarrow> u16 \<Rightarrow> ('z kfs_scheme, nat) km" where
  "ialloc dev ty = bnd (gets (\<lambda>s. unat (sb_ninodes (sb s)))) (\<lambda>n. ialloc_loop dev ty [1..<n])"

definition to_dinode :: "inode \<Rightarrow> dinode" where
  "to_dinode p = \<lparr>dtype = itype p, dmajor = major p, dminor = minor p, dnlink = nlink p,
     dsize = isize p, daddrs = addrs p\<rparr>"

definition of_dinode :: "dinode \<Rightarrow> inode \<Rightarrow> inode" where
  "of_dinode v p = p\<lparr>itype := dtype v, major := dmajor v, minor := dminor v, nlink := dnlink v,
     isize := dsize v, addrs := daddrs v\<rparr>"

definition iupdate :: "nat \<Rightarrow> ('z kfs_scheme, unit) km" where
  "iupdate i =
     bnd (gets sb) (\<lambda>sp.
     bnd (get_inode i) (\<lambda>p.
     bnd (bread (idev p) (IBLOCK sp (inum p))) (\<lambda>b.
     thn (set_data b (put_dinode (dslot (inum p)) (to_dinode p))) (
     thn (log_write b) (brelse b)))))"

definition idup :: "nat \<Rightarrow> ('z kfs_scheme, nat) km" where
  "idup i =
     thn (acquire IcacheLock) (
     thn (set_inode i (\<lambda>p. p\<lparr>iref := iref p + 1\<rparr>)) (
     thn (release IcacheLock) (ret i)))"

text \<open>The part of ilock that runs once the inode's lock is taken, also after sleep.\<close>

definition ilock_load :: "nat \<Rightarrow> ('z kfs_scheme, unit) km" where
  "ilock_load i =
     bnd (get_inode i) (\<lambda>p.
     whn (\<not> ivalid p) (
       bnd (gets sb) (\<lambda>sp.
       bnd (bread (idev p) (IBLOCK sp (inum p))) (\<lambda>b.
       bnd (get_data b) (\<lambda>d.
       thn (set_inode i (of_dinode (get_dinode d (dslot (inum p))))) (
       thn (brelse b) (
       thn (set_inode i (\<lambda>p. p\<lparr>ivalid := True\<rparr>)) (
       bnd (get_inode i) (\<lambda>p. whn (itype p = 0) (panic ''ilock: no type''))))))))))"

definition ilock :: "nat \<Rightarrow> ('z kfs_scheme, unit) km" where
  "ilock i =
     bnd (get_inode i) (\<lambda>p.
     if iref p < 1 then panic ''ilock''
     else thn (acquiresleep (InodeSleep i)) (ilock_load i))"

definition ilock_resume :: "nat \<Rightarrow> ('z kfs_scheme, unit) km" where
  "ilock_resume i = thn (acquiresleep_resume (InodeSleep i)) (ilock_load i)"

definition iunlock :: "nat \<Rightarrow> ('z kfs_scheme, unit) km" where
  "iunlock i =
     bnd (holdingsleep (InodeSleep i)) (\<lambda>h.
     bnd (get_inode i) (\<lambda>p.
     if \<not> h \<or> iref p < 1 then panic ''iunlock''
     else releasesleep (InodeSleep i)))"

subsection \<open>The blocks of a file\<close>

definition bmap :: "nat \<Rightarrow> u32 \<Rightarrow> ('z kfs_scheme, u32) km" where
  "bmap i bn =
     bnd (get_inode i) (\<lambda>p.
     if bn < of_nat NDIRECT then
       (if addrs p (unat bn) = 0 then
          bnd (balloc (idev p)) (\<lambda>a.
          thn (set_inode i (\<lambda>p. p\<lparr>addrs := (addrs p)(unat bn := a)\<rparr>)) (ret a))
        else ret (addrs p (unat bn)))
     else let k = bn - of_nat NDIRECT in
     if k < of_nat NINDIRECT then
       bnd (if addrs p NDIRECT = 0 then
              bnd (balloc (idev p)) (\<lambda>a.
              thn (set_inode i (\<lambda>p. p\<lparr>addrs := (addrs p)(NDIRECT := a)\<rparr>)) (ret a))
            else ret (addrs p NDIRECT)) (\<lambda>a.
       bnd (bread (idev p) (unat a)) (\<lambda>b.
       bnd (get_data b) (\<lambda>d.
       let c = get32 d (4 * unat k) in
       bnd (if c = 0 then
              bnd (balloc (idev p)) (\<lambda>c.
              thn (set_data b (\<lambda>d. put32 d (4 * unat k) c)) (
              thn (log_write b) (ret c)))
            else ret c) (\<lambda>c.
       thn (brelse b) (ret c)))))
     else panic ''bmap: out of range'')"

definition free_direct :: "nat \<Rightarrow> nat \<Rightarrow> ('z kfs_scheme, unit) km" where
  "free_direct i k =
     bnd (get_inode i) (\<lambda>p.
     whn (addrs p k \<noteq> 0) (
       thn (bfree (idev p) (addrs p k))
         (set_inode i (\<lambda>p. p\<lparr>addrs := (addrs p)(k := 0)\<rparr>))))"

definition free_indirect :: "nat \<Rightarrow> nat \<Rightarrow> nat \<Rightarrow> ('z kfs_scheme, unit) km" where
  "free_indirect i b j =
     bnd (get_inode i) (\<lambda>p.
     bnd (get_data b) (\<lambda>d.
     whn (get32 d (4 * j) \<noteq> 0) (bfree (idev p) (get32 d (4 * j)))))"

definition itrunc :: "nat \<Rightarrow> ('z kfs_scheme, unit) km" where
  "itrunc i =
     thn (kfor [0..<NDIRECT] (free_direct i)) (
     thn (bnd (get_inode i) (\<lambda>p.
       whn (addrs p NDIRECT \<noteq> 0) (
         bnd (bread (idev p) (unat (addrs p NDIRECT))) (\<lambda>b.
         thn (kfor [0..<NINDIRECT] (free_indirect i b)) (
         thn (brelse b) (
         thn (bfree (idev p) (addrs p NDIRECT)) (
         set_inode i (\<lambda>p. p\<lparr>addrs := (addrs p)(NDIRECT := 0)\<rparr>)))))))) (
     thn (set_inode i (\<lambda>p. p\<lparr>isize := 0\<rparr>)) (iupdate i)))"

text \<open>The part of iput that runs once the inode's lock is taken.\<close>

definition iput_locked :: "nat \<Rightarrow> ('z kfs_scheme, unit) km" where
  "iput_locked i =
     thn (bnd (get_inode i) (\<lambda>p.
       whn (ivalid p \<and> nlink p = 0) (
         thn (acquire IcacheLock) (
         bnd (get_inode i) (\<lambda>p.
         thn (release IcacheLock) (
         whn (iref p = 1) (
           thn (itrunc i) (
           thn (set_inode i (\<lambda>p. p\<lparr>itype := 0\<rparr>)) (
           thn (iupdate i) (
           set_inode i (\<lambda>p. p\<lparr>ivalid := False\<rparr>))))))))))) (
     thn (releasesleep (InodeSleep i)) (
     thn (acquire IcacheLock) (
     thn (set_inode i (\<lambda>p. p\<lparr>iref := iref p - 1\<rparr>)) (release IcacheLock))))"

definition iput :: "nat \<Rightarrow> ('z kfs_scheme, unit) km" where
  "iput i = thn (acquiresleep (InodeSleep i)) (iput_locked i)"

definition iput_resume :: "nat \<Rightarrow> ('z kfs_scheme, unit) km" where
  "iput_resume i = thn (acquiresleep_resume (InodeSleep i)) (iput_locked i)"

definition iunlockput :: "nat \<Rightarrow> ('z kfs_scheme, unit) km" where
  "iunlockput i = thn (iunlock i) (iput i)"

subsection \<open>Reading and writing\<close>

record stat =
  st_type :: u16
  st_dev :: nat
  st_ino :: u32
  st_nlink :: u16
  st_size :: u32

definition stati :: "nat \<Rightarrow> ('z kfs_scheme, stat) km" where
  "stati i =
     bnd (get_inode i) (\<lambda>p.
     ret \<lparr>st_type = itype p, st_dev = idev p, st_ino = inum p, st_nlink = nlink p, st_size = isize p\<rparr>)"

text \<open>A table of device functions: the read and the write function of each major number.\<close>

type_synonym 's dev_read = "nat \<Rightarrow> u32 \<Rightarrow> ('s, int \<times> u8 list) km"
type_synonym 's dev_write = "nat \<Rightarrow> u8 list \<Rightarrow> ('s, int) km"
type_synonym 's devsw = "nat \<Rightarrow> 's dev_read option \<times> 's dev_write option"

definition chunk :: "nat \<Rightarrow> nat \<Rightarrow> nat" where
  "chunk off left = min left (BSIZE - off mod BSIZE)"

lemma chunk_pos: "left \<noteq> 0 \<Longrightarrow> 0 < chunk off left"
  by (simp add: chunk_def BSIZE_def)

function readi_loop :: "nat \<Rightarrow> nat \<Rightarrow> nat \<Rightarrow> ('z kfs_scheme, u8 list) km" where
  "readi_loop i off left =
     (if left = 0 then ret []
      else bnd (get_inode i) (\<lambda>p.
        bnd (bmap i (of_nat (off div BSIZE))) (\<lambda>a.
        bnd (bread (idev p) (unat a)) (\<lambda>b.
        bnd (get_data b) (\<lambda>d.
        thn (brelse b) (
        bnd (readi_loop i (off + chunk off left) (left - chunk off left)) (\<lambda>bs.
        ret (map d [off mod BSIZE ..< off mod BSIZE + chunk off left] @ bs))))))))"
  by pat_completeness auto
termination by (relation "measure (\<lambda>(i, off, left). left)") (auto simp: chunk_pos)

declare readi_loop.simps [simp del]

definition readi :: "('z kfs_scheme) devsw \<Rightarrow> nat \<Rightarrow> u32 \<Rightarrow> u32 \<Rightarrow> ('z kfs_scheme, int \<times> u8 list) km" where
  "readi dsw i off n =
     bnd (get_inode i) (\<lambda>p.
     if itype p = T_DEV then
       (if sint (major p) < 0 \<or> sint (major p) \<ge> int NDEV then ret (- 1, [])
        else case fst (dsw (unat (major p))) of
          None \<Rightarrow> ret (- 1, [])
        | Some f \<Rightarrow> f i n)
     else if off > isize p \<or> off + n < off then ret (- 1, [])
     else let n = (if off + n > isize p then isize p - off else n) in
       bnd (readi_loop i (unat off) (unat n)) (\<lambda>bs. ret (sint n, bs)))"

function writei_loop :: "nat \<Rightarrow> nat \<Rightarrow> u8 list \<Rightarrow> ('z kfs_scheme, unit) km" where
  "writei_loop i off bs =
     (if bs = [] then ret ()
      else bnd (get_inode i) (\<lambda>p.
        bnd (bmap i (of_nat (off div BSIZE))) (\<lambda>a.
        bnd (bread (idev p) (unat a)) (\<lambda>b.
        let m = chunk off (length bs) in
        thn (set_data b (\<lambda>d j. if off mod BSIZE \<le> j \<and> j < off mod BSIZE + m then bs ! (j - off mod BSIZE) else d j)) (
        thn (log_write b) (
        thn (brelse b) (
        writei_loop i (off + chunk off (length bs)) (drop (chunk off (length bs)) bs))))))))"
  by pat_completeness auto
termination by (relation "measure (\<lambda>(i, off, bs). length bs)") (auto simp: chunk_pos)

declare writei_loop.simps [simp del]

definition writei :: "('z kfs_scheme) devsw \<Rightarrow> nat \<Rightarrow> u8 list \<Rightarrow> u32 \<Rightarrow> ('z kfs_scheme, int) km" where
  "writei dsw i bs off =
     bnd (get_inode i) (\<lambda>p.
     let n = of_nat (length bs) in
     if itype p = T_DEV then
       (if sint (major p) < 0 \<or> sint (major p) \<ge> int NDEV then ret (- 1)
        else case snd (dsw (unat (major p))) of
          None \<Rightarrow> ret (- 1)
        | Some f \<Rightarrow> f i bs)
     else if off > isize p \<or> off + n < off then ret (- 1)
     else if off + n > of_nat (MAXFILE * BSIZE) then ret (- 1)
     else thn (writei_loop i (unat off) bs) (
       bnd (get_inode i) (\<lambda>p.
       thn (whn (n > 0 \<and> off + n > isize p) (
         thn (set_inode i (\<lambda>p. p\<lparr>isize := off + n\<rparr>)) (iupdate i)))
       (ret (sint n)))))"

end
