(* ===== verification/Dir.thy ===== *)
theory Dir
  imports Inode
begin

section \<open>Directories and paths (fs.c)\<close>

text \<open>
  A directory entry is 16 bytes: the inode number, then the name, which has a terminator only if it
  is shorter than DIRSIZ. A C string is the list of its bytes without the terminator; \<open>carr\<close> is
  the array it occupies. The buffer \<open>name\<close> of a path element is read only up to its terminator or
  DIRSIZ bytes, and holds that prefix here.
\<close>

definition DIRSIZ :: nat where "DIRSIZ = 14"
definition DIRENT :: nat where "DIRENT = 16"
definition ROOTDEV :: nat where "ROOTDEV = 1"
definition ROOTINO :: u32 where "ROOTINO = 1"
definition SLASH :: u8 where "SLASH = 47"

definition carr :: "u8 list \<Rightarrow> nat \<Rightarrow> u8" where
  "carr xs i = (if i < length xs then xs ! i else 0)"

fun strncmp_arr :: "(nat \<Rightarrow> u8) \<Rightarrow> (nat \<Rightarrow> u8) \<Rightarrow> nat \<Rightarrow> nat \<Rightarrow> int" where
  "strncmp_arr p q i 0 = 0"
| "strncmp_arr p q i (Suc n) =
     (if p i \<noteq> 0 \<and> p i = q i then strncmp_arr p q (Suc i) n else uint (p i) - uint (q i))"

definition namecmp :: "(nat \<Rightarrow> u8) \<Rightarrow> (nat \<Rightarrow> u8) \<Rightarrow> int" where
  "namecmp s t = strncmp_arr s t 0 DIRSIZ"

definition de_inum :: "u8 list \<Rightarrow> u16" where
  "de_inum bs = ucast (bs ! 0) OR push_bit 8 (ucast (bs ! 1))"

definition de_name :: "u8 list \<Rightarrow> nat \<Rightarrow> u8" where
  "de_name bs j = bs ! (2 + j)"

text \<open>The bytes of an entry after strncpy of the name, which pads with zeroes, and the store of the number.\<close>

definition mk_dirent :: "u8 list \<Rightarrow> u16 \<Rightarrow> u8 list" where
  "mk_dirent name n = [ucast n, ucast (drop_bit 8 n)] @ map (carr name) [0..<DIRSIZ]"

definition dir_offsets :: "u32 \<Rightarrow> nat list" where
  "dir_offsets w = map (\<lambda>k. k * DIRENT) [0..<(unat w + DIRENT - 1) div DIRENT]"

text \<open>readi of one entry; its loop condition has read \<open>dp->size\<close>, which readi does not change.\<close>

definition read_dirent :: "('z kfs_scheme) devsw \<Rightarrow> string \<Rightarrow> nat \<Rightarrow> nat \<Rightarrow> ('z kfs_scheme, u8 list) km" where
  "read_dirent dsw msg dp off =
     bnd (readi dsw dp (of_nat off) (of_nat DIRENT)) (\<lambda>(r, bs).
     if r \<noteq> int DIRENT then panic msg else ret bs)"

primrec dirlookup_loop :: "('z kfs_scheme) devsw \<Rightarrow> nat \<Rightarrow> u8 list \<Rightarrow> nat list \<Rightarrow> ('z kfs_scheme, (nat \<times> u32) option) km" where
  "dirlookup_loop dsw dp name [] = ret None"
| "dirlookup_loop dsw dp name (off # offs) =
     bnd (read_dirent dsw ''dirlookup read'' dp off) (\<lambda>de.
     if de_inum de = 0 then dirlookup_loop dsw dp name offs
     else if namecmp (carr name) (de_name de) = 0 then
       bnd (get_inode dp) (\<lambda>p.
       bnd (iget (idev p) (ucast (de_inum de))) (\<lambda>i.
       ret (Some (i, of_nat off))))
     else dirlookup_loop dsw dp name offs)"

definition dirlookup :: "('z kfs_scheme) devsw \<Rightarrow> nat \<Rightarrow> u8 list \<Rightarrow> ('z kfs_scheme, (nat \<times> u32) option) km" where
  "dirlookup dsw dp name =
     bnd (get_inode dp) (\<lambda>p.
     if itype p \<noteq> T_DIR then panic ''dirlookup not DIR''
     else dirlookup_loop dsw dp name (dir_offsets (isize p)))"

text \<open>The loop of dirlink ends at a free entry or behind the last one.\<close>

primrec free_dirent :: "('z kfs_scheme) devsw \<Rightarrow> nat \<Rightarrow> nat list \<Rightarrow> nat \<Rightarrow> ('z kfs_scheme, nat) km" where
  "free_dirent dsw dp [] behind = ret behind"
| "free_dirent dsw dp (off # offs) behind =
     bnd (read_dirent dsw ''dirlink read'' dp off) (\<lambda>de.
     if de_inum de = 0 then ret off else free_dirent dsw dp offs behind)"

definition dirlink :: "('z kfs_scheme) devsw \<Rightarrow> nat \<Rightarrow> u8 list \<Rightarrow> u32 \<Rightarrow> ('z kfs_scheme, int) km" where
  "dirlink dsw dp name n =
     bnd (dirlookup dsw dp name) (\<lambda>r.
     case r of
       Some (i, _) \<Rightarrow> thn (iput i) (ret (- 1))
     | None \<Rightarrow>
         bnd (get_inode dp) (\<lambda>p.
         bnd (free_dirent dsw dp (dir_offsets (isize p)) (DIRENT * ((unat (isize p) + DIRENT - 1) div DIRENT))) (\<lambda>off.
         bnd (writei dsw dp (mk_dirent name (ucast n)) (of_nat off)) (\<lambda>r.
         if r \<noteq> int DIRENT then panic ''dirlink'' else ret 0))))"

subsection \<open>Paths\<close>

definition skip_slashes :: "u8 list \<Rightarrow> u8 list" where
  "skip_slashes = dropWhile (\<lambda>c. c = SLASH)"

definition skipelem :: "u8 list \<Rightarrow> (u8 list \<times> u8 list) option" where
  "skipelem path =
     (let s = skip_slashes path in
      if s = [] then None
      else let el = takeWhile (\<lambda>c. c \<noteq> SLASH) s in
        Some (if length el \<ge> DIRSIZ then take DIRSIZ el else el,
          skip_slashes (dropWhile (\<lambda>c. c \<noteq> SLASH) s)))"

lemma skipelem_shorter:
  assumes "skipelem path = Some (name, rest)"
  shows "length rest < length path"
proof -
  let ?s = "skip_slashes path"
  have s: "?s \<noteq> []" "rest = skip_slashes (dropWhile (\<lambda>c. c \<noteq> SLASH) ?s)"
    using assms by (auto simp: skipelem_def Let_def split: if_splits)
  have "hd ?s \<noteq> SLASH" using s(1) hd_dropWhile [of "\<lambda>c. c = SLASH" path] by (simp add: skip_slashes_def)
  then have "length (dropWhile (\<lambda>c. c \<noteq> SLASH) ?s) < length ?s"
    using s(1) by (cases ?s) (simp_all add: le_imp_less_Suc length_dropWhile_le)
  moreover have "length ?s \<le> length path" by (simp add: skip_slashes_def length_dropWhile_le)
  moreover have "length rest \<le> length (dropWhile (\<lambda>c. c \<noteq> SLASH) ?s)"
    unfolding s(2) by (simp add: skip_slashes_def length_dropWhile_le)
  ultimately show ?thesis by linarith
qed

text \<open>The loop of namex, from inode \<open>i\<close>; \<open>None\<close> is the null pointer, the name is the last one copied.\<close>

function namex_loop :: "('z kfs_scheme) devsw \<Rightarrow> bool \<Rightarrow> nat \<Rightarrow> u8 list \<Rightarrow> u8 list \<Rightarrow> ('z kfs_scheme, (nat \<times> u8 list) option) km" where
  "namex_loop dsw par i path nm =
     (case skipelem path of
        None \<Rightarrow> if par then thn (iput i) (ret None) else ret (Some (i, nm))
      | Some (name, rest) \<Rightarrow>
          thn (ilock i) (
          bnd (get_inode i) (\<lambda>p.
          if itype p \<noteq> T_DIR then thn (iunlockput i) (ret None)
          else if par \<and> rest = [] then thn (iunlock i) (ret (Some (i, name)))
          else bnd (dirlookup dsw i name) (\<lambda>r.
            case r of
              None \<Rightarrow> thn (iunlockput i) (ret None)
            | Some (nx, _) \<Rightarrow> thn (iunlockput i) (namex_loop dsw par nx rest name)))))"
  by pat_completeness auto
termination by (relation "measure (\<lambda>(dsw, par, i, path, nm). length path)") (auto dest: skipelem_shorter)

declare namex_loop.simps [simp del]

definition my_cwd :: "('z kfs_scheme, nat) km" where
  "my_cwd = bnd self (\<lambda>c. bnd (get_proc c) (\<lambda>r. need ''no current directory'' (cwd r)))"

definition namex :: "('z kfs_scheme) devsw \<Rightarrow> u8 list \<Rightarrow> bool \<Rightarrow> ('z kfs_scheme, (nat \<times> u8 list) option) km" where
  "namex dsw path par =
     bnd (if path \<noteq> [] \<and> hd path = SLASH then iget ROOTDEV ROOTINO else bnd my_cwd idup) (\<lambda>i.
     namex_loop dsw par i path [])"

definition namei :: "('z kfs_scheme) devsw \<Rightarrow> u8 list \<Rightarrow> ('z kfs_scheme, nat option) km" where
  "namei dsw path = bnd (namex dsw path False) (\<lambda>r. ret (map_option fst r))"

definition nameiparent :: "('z kfs_scheme) devsw \<Rightarrow> u8 list \<Rightarrow> ('z kfs_scheme, (nat \<times> u8 list) option) km" where
  "nameiparent dsw path = namex dsw path True"

end
