(* ===== verification/File.thy ===== *)
theory File
  imports Dir
begin

section \<open>Open files (file.c, file.h, pipealloc of pipe.c)\<close>

text \<open>
  An open file is an index in \<open>ftable.file\<close>. fileread and filewrite are called by the system
  calls with a size that argptr has checked not to be negative. The channel of a sleep inside one
  of these operations ends it as \<open>Asleep\<close>.
\<close>

datatype fdtype = FD_NONE | FD_PIPE | FD_INODE

record file_rec =
  ftype :: fdtype
  fref :: int
  readable :: bool
  writable :: bool
  fpipe :: u32
  fip :: nat
  foff :: u32

record kfile = kfs +
  files :: "nat \<Rightarrow> file_rec"

definition NFILE :: nat where "NFILE = 100"

definition get_file :: "nat \<Rightarrow> ('z kfile_scheme, file_rec) km" where
  "get_file f = gets (\<lambda>s. files s f)"

definition set_file :: "nat \<Rightarrow> (file_rec \<Rightarrow> file_rec) \<Rightarrow> ('z kfile_scheme, unit) km" where
  "set_file f g = modf (\<lambda>s. s\<lparr>files := (files s)(f := g (files s f))\<rparr>)"

definition fileinit :: "('z kfile_scheme, unit) km" where
  "fileinit = initlock FtableLock ''ftable''"

definition filealloc :: "('z kfile_scheme, nat option) km" where
  "filealloc =
     thn (acquire FtableLock) (
     bnd (gets files) (\<lambda>t.
     case find (\<lambda>f. fref (t f) = 0) [0..<NFILE] of
       Some f \<Rightarrow>
         thn (set_file f (\<lambda>x. x\<lparr>fref := 1\<rparr>)) (
         thn (release FtableLock) (ret (Some f)))
     | None \<Rightarrow> thn (release FtableLock) (ret None)))"

definition filedup :: "nat \<Rightarrow> ('z kfile_scheme, nat) km" where
  "filedup f =
     thn (acquire FtableLock) (
     bnd (get_file f) (\<lambda>x.
     if fref x < 1 then panic ''filedup''
     else thn (set_file f (\<lambda>x. x\<lparr>fref := fref x + 1\<rparr>)) (
       thn (release FtableLock) (ret f))))"

definition fileclose :: "nat \<Rightarrow> ('z kfile_scheme, unit) km" where
  "fileclose f =
     thn (acquire FtableLock) (
     bnd (get_file f) (\<lambda>x.
     if fref x < 1 then panic ''fileclose''
     else thn (set_file f (\<lambda>x. x\<lparr>fref := fref x - 1\<rparr>)) (
       bnd (get_file f) (\<lambda>ff.
       if fref ff > 0 then release FtableLock
       else thn (set_file f (\<lambda>x. x\<lparr>fref := 0\<rparr>)) (
         thn (set_file f (\<lambda>x. x\<lparr>ftype := FD_NONE\<rparr>)) (
         thn (release FtableLock) (
         case ftype ff of
           FD_PIPE \<Rightarrow> pipeclose (fpipe ff) (writable ff)
         | FD_INODE \<Rightarrow> thn begin_op (thn (iput (fip ff)) end_op)
         | FD_NONE \<Rightarrow> ret ())))))))"

definition filestat :: "nat \<Rightarrow> ('z kfile_scheme, stat option) km" where
  "filestat f =
     bnd (get_file f) (\<lambda>x.
     if ftype x = FD_INODE then
       thn (ilock (fip x)) (
       bnd (stati (fip x)) (\<lambda>st.
       thn (iunlock (fip x)) (ret (Some st))))
     else ret None)"

definition fileread :: "('z kfile_scheme) devsw \<Rightarrow> nat \<Rightarrow> nat \<Rightarrow> ('z kfile_scheme, int \<times> u8 list) km" where
  "fileread dsw f n =
     bnd (get_file f) (\<lambda>x.
     if \<not> readable x then ret (- 1, [])
     else case ftype x of
       FD_PIPE \<Rightarrow> piperead (fpipe x) n
     | FD_INODE \<Rightarrow>
         thn (ilock (fip x)) (
         bnd (readi dsw (fip x) (foff x) (of_nat n)) (\<lambda>(r, bs).
         thn (whn (r > 0) (set_file f (\<lambda>x. x\<lparr>foff := foff x + of_int r\<rparr>))) (
         thn (iunlock (fip x)) (ret (r, bs)))))
     | FD_NONE \<Rightarrow> panic ''fileread'')"

definition WMAX :: nat where "WMAX = ((MAXOPBLOCKS - 1 - 1 - 2) div 2) * 512"

lemma WMAX_pos: "0 < WMAX"
  by (simp add: WMAX_def MAXOPBLOCKS_def)

text \<open>The loop of filewrite over the bytes still to write; it answers whether all were written.\<close>

function filewrite_loop :: "('z kfile_scheme) devsw \<Rightarrow> nat \<Rightarrow> u8 list \<Rightarrow> ('z kfile_scheme, bool) km" where
  "filewrite_loop dsw f bs =
     (if bs = [] then ret True
      else let n1 = min WMAX (length bs) in
        thn begin_op (
        bnd (get_file f) (\<lambda>x.
        thn (ilock (fip x)) (
        bnd (writei dsw (fip x) (take n1 bs) (foff x)) (\<lambda>r.
        thn (whn (r > 0) (set_file f (\<lambda>x. x\<lparr>foff := foff x + of_int r\<rparr>))) (
        thn (iunlock (fip x)) (
        thn end_op (
        if r < 0 then ret False
        else if r \<noteq> int n1 then panic ''short filewrite''
        else filewrite_loop dsw f (drop (min WMAX (length bs)) bs)))))))))"
  by pat_completeness auto
termination by (relation "measure (\<lambda>(dsw, f, bs). length bs)") (auto simp: WMAX_pos)

declare filewrite_loop.simps [simp del]

definition filewrite :: "('z kfile_scheme) devsw \<Rightarrow> nat \<Rightarrow> u8 list \<Rightarrow> ('z kfile_scheme, int) km" where
  "filewrite dsw f bs =
     bnd (get_file f) (\<lambda>x.
     if \<not> writable x then ret (- 1)
     else case ftype x of
       FD_PIPE \<Rightarrow> pipewrite (fpipe x) bs
     | FD_INODE \<Rightarrow> bnd (filewrite_loop dsw f bs) (\<lambda>ok. ret (if ok then int (length bs) else - 1))
     | FD_NONE \<Rightarrow> panic ''filewrite'')"

subsection \<open>Pipes as files\<close>

definition close_if :: "nat option \<Rightarrow> ('z kfile_scheme, unit) km" where
  "close_if fo = (case fo of None \<Rightarrow> ret () | Some f \<Rightarrow> fileclose f)"

definition pipe_bad :: "nat option \<Rightarrow> nat option \<Rightarrow> ('z kfile_scheme, (nat \<times> nat) option) km" where
  "pipe_bad f0 f1 = thn (close_if f0) (thn (close_if f1) (ret None))"

definition pipealloc :: "('z kfile_scheme, (nat \<times> nat) option) km" where
  "pipealloc =
     bnd filealloc (\<lambda>r0.
     case r0 of None \<Rightarrow> pipe_bad None None
     | Some f0 \<Rightarrow>
       bnd filealloc (\<lambda>r1.
       case r1 of None \<Rightarrow> pipe_bad (Some f0) None
       | Some f1 \<Rightarrow>
         bnd kalloc (\<lambda>p.
         if p = 0 then pipe_bad (Some f0) (Some f1)
         else
           thn (set_pipe p (\<lambda>q. q\<lparr>readopen := True\<rparr>)) (
           thn (set_pipe p (\<lambda>q. q\<lparr>writeopen := True\<rparr>)) (
           thn (set_pipe p (\<lambda>q. q\<lparr>nwrite := 0\<rparr>)) (
           thn (set_pipe p (\<lambda>q. q\<lparr>nread := 0\<rparr>)) (
           thn (initlock (PipeLock p) ''pipe'') (
           thn (set_file f0 (\<lambda>x. x\<lparr>ftype := FD_PIPE, readable := True, writable := False, fpipe := p\<rparr>)) (
           thn (set_file f1 (\<lambda>x. x\<lparr>ftype := FD_PIPE, readable := False, writable := True, fpipe := p\<rparr>))
           (ret (Some (f0, f1)))))))))))) "

end
