(* ===== verification/Keyboard.thy ===== *)
theory Keyboard
  imports Kernel_Prelude
begin

section \<open>Keyboard (kbd.c, kbd.h)\<close>

text \<open>
  The controller holds the scan codes \<open>kpending\<close> that have arrived and not been read; the
  status port shows whether there is one. The tables of kbd.h give the code of a key's character,
  0 where there is none.
\<close>

record kbd =
  kshift :: u32
  kpending :: "u8 list"

definition KSHIFT :: u32 where "KSHIFT = 1"
definition KCTL :: u32 where "KCTL = 2"
definition CAPSLOCK :: u32 where "CAPSLOCK = 8"
definition E0ESC :: u32 where "E0ESC = 64"

definition tab :: "u8 list \<Rightarrow> (nat \<times> u8) list \<Rightarrow> u8 \<Rightarrow> u8" where
  "tab xs ys i =
     (if unat i < length xs then xs ! unat i
      else case map_of ys (unat i) of Some v \<Rightarrow> v | None \<Rightarrow> 0)"

definition shiftcode :: "u8 \<Rightarrow> u8" where
  "shiftcode = tab [] [(0x1D, 2), (0x2A, 1), (0x36, 1), (0x38, 4), (0x9D, 2), (0xB8, 4)]"

definition togglecode :: "u8 \<Rightarrow> u8" where
  "togglecode = tab [] [(0x3A, 8), (0x45, 16), (0x46, 32)]"

text \<open>The keys that normalmap and shiftmap have behind a prefix.\<close>

definition keypad :: "(nat \<times> u8) list" where
  "keypad =
     [(0x9C, 10), (0xB5, 47), (0xC8, 226), (0xD0, 227), (0xC9, 230), (0xD1, 231), (0xCB, 228), (0xCD, 229), (0x97, 224), (0xCF, 225), (0xD2, 232), (0xD3, 233)]"

definition normalmap :: "u8 \<Rightarrow> u8" where
  "normalmap = tab
    [0, 27, 49, 50, 51, 52, 53, 54, 55, 56, 57, 48, 45, 61, 8, 9,
     113, 119, 101, 114, 116, 121, 117, 105, 111, 112, 91, 93, 10, 0, 97, 115,
     100, 102, 103, 104, 106, 107, 108, 59, 39, 96, 0, 92, 122, 120, 99, 118,
     98, 110, 109, 44, 46, 47, 0, 42, 0, 32, 0, 0, 0, 0, 0, 0,
     0, 0, 0, 0, 0, 0, 0, 55, 56, 57, 45, 52, 53, 54, 43, 49,
     50, 51, 48, 46, 0, 0, 0, 0]
     keypad"

definition shiftmap :: "u8 \<Rightarrow> u8" where
  "shiftmap = tab
    [0, 27, 33, 64, 35, 36, 37, 94, 38, 42, 40, 41, 95, 43, 8, 9,
     81, 87, 69, 82, 84, 89, 85, 73, 79, 80, 123, 125, 10, 0, 65, 83,
     68, 70, 71, 72, 74, 75, 76, 58, 34, 126, 0, 124, 90, 88, 67, 86,
     66, 78, 77, 60, 62, 63, 0, 42, 0, 32, 0, 0, 0, 0, 0, 0,
     0, 0, 0, 0, 0, 0, 0, 55, 56, 57, 45, 52, 53, 54, 43, 49,
     50, 51, 48, 46, 0, 0, 0, 0]
     keypad"

definition ctlmap :: "u8 \<Rightarrow> u8" where
  "ctlmap = tab
    [0, 0, 0, 0, 0, 0, 0, 0, 0, 0, 0, 0, 0, 0, 0, 0,
     17, 23, 5, 18, 20, 25, 21, 9, 15, 16, 0, 0, 13, 0, 1, 19,
     4, 6, 7, 8, 10, 11, 12, 0, 0, 0, 0, 28, 26, 24, 3, 22,
     2, 14, 13, 0, 0, 239, 0, 0]
     [(0x9C, 13), (0xB5, 239), (0xC8, 226), (0xD0, 227), (0xC9, 230), (0xD1, 231), (0xCB, 228), (0xCD, 229), (0x97, 224), (0xCF, 225), (0xD2, 232), (0xD3, 233)]"

definition charcode :: "u32 \<Rightarrow> u8 \<Rightarrow> u8" where
  "charcode i = (if i = 0 then normalmap else if i = 1 then shiftmap else ctlmap)"

text \<open>One call: the character, 0 for none, -1 when no scan code is pending.\<close>

definition kbdgetc :: "kbd \<Rightarrow> int \<times> kbd" where
  "kbdgetc k =
     (case kpending k of
        [] \<Rightarrow> (- 1, k)
      | code # codes \<Rightarrow>
        let k = k\<lparr>kpending := codes\<rparr>; sh = kshift k in
        if code = 0xE0 then (0, k\<lparr>kshift := sh OR E0ESC\<rparr>)
        else if code AND 0x80 \<noteq> 0 then
          let key = (if sh AND E0ESC \<noteq> 0 then code else code AND 0x7F) in
          (0, k\<lparr>kshift := sh AND NOT (ucast (shiftcode key) OR E0ESC)\<rparr>)
        else
          let key = (if sh AND E0ESC \<noteq> 0 then code OR 0x80 else code);
              sh = (if sh AND E0ESC \<noteq> 0 then sh AND NOT E0ESC else sh);
              sh = sh OR ucast (shiftcode key);
              sh = xor sh (ucast (togglecode key));
              c = uint (charcode (sh AND (KCTL OR KSHIFT)) key);
              c = (if sh AND CAPSLOCK = 0 then c
                   else if 97 \<le> c \<and> c \<le> 122 then c - 32
                   else if 65 \<le> c \<and> c \<le> 90 then c + 32
                   else c) in
          (c, k\<lparr>kshift := sh\<rparr>))"

lemma kbdgetc_reads: "fst (kbdgetc k) \<ge> 0 \<Longrightarrow> length (kpending (snd (kbdgetc k))) < length (kpending k)"
  by (auto simp: kbdgetc_def Let_def split: list.splits)

text \<open>The characters of successive calls, up to the first -1.\<close>

function kbd_chars :: "kbd \<Rightarrow> int list \<times> kbd" where
  "kbd_chars k =
     (if fst (kbdgetc k) < 0 then ([], snd (kbdgetc k))
      else case kbd_chars (snd (kbdgetc k)) of (cs, k') \<Rightarrow> (fst (kbdgetc k) # cs, k'))"
  by pat_completeness auto
termination by (relation "measure (\<lambda>k. length (kpending k))") (use kbdgetc_reads in auto)

declare kbd_chars.simps [simp del]

end
