(* ===== verification/Console_In.thy ===== *)
theory Console_In
  imports File Keyboard
begin

section \<open>Console input (console.c: consoleintr, consoleread, consolewrite; uart.c)\<close>

text \<open>
  \<open>ibuf\<close>, \<open>ir\<close>, \<open>iw\<close>, \<open>ie\<close> are the fields buf, r, w, e of \<open>input\<close>. consoleintr
  takes the characters that its argument getc returns before a negative number. The character
  codes are numbers; a buffer entry is a byte. \<open>cons_left\<close> is the local state of a consoleread
  that sleeps: the bytes still wanted and those it has stored.
\<close>

record kinput = kfile +
  ibuf :: "nat \<Rightarrow> u8"
  ir :: u32
  iw :: u32
  ie :: u32
  kb :: kbd
  uart_there :: bool
  uart_in :: "u8 list"
  cons_left :: "nat \<Rightarrow> nat \<times> u8 list"

definition INPUT_BUF :: nat where "INPUT_BUF = 128"

definition kill_line_body :: "('z kinput_scheme, unit) km" where
  "kill_line_body = thn (modf (\<lambda>s. s\<lparr>ie := ie s - 1\<rparr>)) (consputc BACKSPACE)"

text \<open>The loop of control-U stops at \<open>input.w\<close> or behind a line end. Its first argument bounds
  the steps by the distance to \<open>input.w\<close>.\<close>

primrec kill_line :: "nat \<Rightarrow> ('z kinput_scheme, unit) km" where
  "kill_line 0 = ret ()"
| "kill_line (Suc n) =
     bnd (gets (\<lambda>s. ie s \<noteq> iw s \<and> ibuf s (unat (ie s - 1) mod INPUT_BUF) \<noteq> 10)) (\<lambda>go.
     whn go (thn kill_line_body (kill_line n)))"

definition input_char :: "nat \<Rightarrow> ('z kinput_scheme, unit) km" where
  "input_char c0 =
     bnd (gets (\<lambda>s. ie s - ir s < of_nat INPUT_BUF)) (\<lambda>room.
     whn (c0 \<noteq> 0 \<and> room) (
       let c = (if c0 = 13 then 10 else c0) in
       thn (modf (\<lambda>s. s\<lparr>ibuf := (ibuf s)(unat (ie s) mod INPUT_BUF := of_nat c), ie := ie s + 1\<rparr>)) (
       thn (consputc c) (
       bnd (gets (\<lambda>s. c = 10 \<or> c = 4 \<or> ie s = ir s + of_nat INPUT_BUF)) (\<lambda>full.
       whn full (
         thn (modf (\<lambda>s. s\<lparr>iw := ie s\<rparr>)) (wakeup ChanCons)))))))"

definition console_key :: "nat \<Rightarrow> ('z kinput_scheme, unit) km" where
  "console_key c =
     (if c = 16 then ret ()
      else if c = 21 then bnd (gets (\<lambda>s. unat (ie s - iw s))) kill_line
      else if c = 8 \<or> c = 127 then
        bnd (gets (\<lambda>s. ie s \<noteq> iw s)) (\<lambda>go. whn go kill_line_body)
      else input_char c)"

definition consoleintr :: "nat list \<Rightarrow> ('z kinput_scheme, unit) km" where
  "consoleintr cs =
     thn (acquire ConsLock) (
     thn (kfor cs console_key) (
     thn (release ConsLock) (
     whn (16 \<in> set cs) procdump)))"

definition kbdintr :: "('z kinput_scheme, unit) km" where
  "kbdintr =
     bnd (gets (\<lambda>s. kbd_chars (kb s))) (\<lambda>(cs, k).
     thn (modf (\<lambda>s. s\<lparr>kb := k\<rparr>)) (consoleintr (map nat cs)))"

definition uartintr :: "('z kinput_scheme, unit) km" where
  "uartintr =
     bnd (gets (\<lambda>s. (uart_there s, uart_in s))) (\<lambda>(there, bs).
     if \<not> there then consoleintr []
     else thn (modf (\<lambda>s. s\<lparr>uart_in := []\<rparr>)) (consoleintr (map unat bs)))"

subsection \<open>Reading and writing\<close>

text \<open>What follows the loop of consoleread: \<open>k\<close> bytes are still wanted.\<close>

definition consoleread_end :: "nat \<Rightarrow> int \<Rightarrow> u8 list \<Rightarrow> ('z kinput_scheme, int \<times> u8 list) km" where
  "consoleread_end i r acc = thn (release ConsLock) (thn (ilock i) (ret (r, acc)))"

primrec consoleread_loop :: "nat \<Rightarrow> nat \<Rightarrow> nat \<Rightarrow> u8 list \<Rightarrow> ('z kinput_scheme, int \<times> u8 list) km" where
  "consoleread_loop i target 0 acc = consoleread_end i (int target) acc"
| "consoleread_loop i target (Suc n) acc =
     bnd (gets (\<lambda>s. ir s = iw s)) (\<lambda>empty.
     if empty then
       bnd i_am_killed (\<lambda>k.
       if k then consoleread_end i (- 1) acc
       else bnd self (\<lambda>me.
         thn (modf (\<lambda>s. s\<lparr>cons_left := (cons_left s)(me := (Suc n, acc))\<rparr>))
           (sleep ChanCons ConsLock)))
     else
       bnd (gets (\<lambda>s. ibuf s (unat (ir s) mod INPUT_BUF))) (\<lambda>c.
       thn (modf (\<lambda>s. s\<lparr>ir := ir s + 1\<rparr>)) (
       if c = 4 then
         thn (whn (Suc n < target) (modf (\<lambda>s. s\<lparr>ir := ir s - 1\<rparr>)))
           (consoleread_end i (int target - int (Suc n)) acc)
       else if c = 10 then consoleread_end i (int target - int n) (acc @ [c])
       else consoleread_loop i target n (acc @ [c]))))"

definition consoleread :: "nat \<Rightarrow> u32 \<Rightarrow> ('z kinput_scheme, int \<times> u8 list) km" where
  "consoleread i n =
     thn (iunlock i) (
     thn (acquire ConsLock) (
     if sint n \<le> 0 then consoleread_end i 0 []
     else consoleread_loop i (unat n) (unat n) []))"

definition consoleread_resume :: "nat \<Rightarrow> u32 \<Rightarrow> ('z kinput_scheme, int \<times> u8 list) km" where
  "consoleread_resume i n =
     thn (sleep_resume ConsLock) (
     bnd self (\<lambda>me.
     bnd (gets (\<lambda>s. cons_left s me)) (\<lambda>(k, acc). consoleread_loop i (unat n) k acc)))"

definition consolewrite :: "nat \<Rightarrow> u8 list \<Rightarrow> ('z kinput_scheme, int) km" where
  "consolewrite i bs =
     thn (iunlock i) (
     thn (acquire ConsLock) (
     thn (kfor bs (\<lambda>c. consputc (unat c))) (
     thn (release ConsLock) (
     thn (ilock i) (ret (int (length bs)))))))"

text \<open>The table of device functions that consoleinit fills, and its other effects; the interrupt
  controller is outside the model.\<close>

definition CONSOLE :: nat where "CONSOLE = 1"

definition console_devsw :: "('z kinput_scheme) devsw" where
  "console_devsw m = (if m = CONSOLE then (Some consoleread, Some consolewrite) else (None, None))"

definition consoleinit :: "('z kinput_scheme, unit) km" where
  "consoleinit = thn (initlock ConsLock ''console'') (modf (\<lambda>s. s\<lparr>cons_locking := True\<rparr>))"

end
