(* ===== verification/Sysfile.thy ===== *)
theory Sysfile
  imports Console_In
begin

section \<open>System call arguments and the file system calls (syscall.c, sysfile.c)\<close>

text \<open>
  The kernel reads and writes user memory through the page directory of the current process, byte
  by byte; a page that is not mapped is a page fault in the kernel, a \<open>Fault\<close>. A system call that
  writes user bytes fetches them all before it uses the first, one that reads stores them all at
  the end. The fields of the trap frame are words of \<open>ram\<close> at their offset from \<open>tf\<close>.
\<close>

definition O_WRONLY :: u32 where "O_WRONLY = 1"
definition O_RDWR :: u32 where "O_RDWR = 2"
definition O_CREATE :: u32 where "O_CREATE = 0x200"
definition TF_EAX :: u32 where "TF_EAX = 28"
definition TF_TRAPNO :: u32 where "TF_TRAPNO = 48"
definition TF_EIP :: u32 where "TF_EIP = 56"
definition TF_CS :: u32 where "TF_CS = 60"
definition TF_ESP :: u32 where "TF_ESP = 68"

definition curproc :: "('z kproc_scheme, proc) km" where
  "curproc = bnd self get_proc"

definition upd_curproc :: "(proc \<Rightarrow> proc) \<Rightarrow> ('z kproc_scheme, unit) km" where
  "upd_curproc f = bnd self (\<lambda>c. set_proc c f)"

subsection \<open>User memory\<close>

definition uaddr :: "mem \<Rightarrow> u32 \<Rightarrow> u32 \<Rightarrow> u32 option" where
  "uaddr m d va = map_option (\<lambda>e. P2V (PTE_ADDR e) + (va AND 0xFFF)) (hw_walk m d va)"

definition uload :: "u32 \<Rightarrow> ('z kproc_scheme, u8) km" where
  "uload va =
     bnd curproc (\<lambda>p.
     bnd (gets ram) (\<lambda>m.
     case uaddr m (pgdir p) va of None \<Rightarrow> fault ''page fault in the kernel'' | Some a \<Rightarrow> ret (m a)))"

definition ustore :: "u32 \<Rightarrow> u8 \<Rightarrow> ('z kproc_scheme, unit) km" where
  "ustore va b =
     bnd curproc (\<lambda>p.
     bnd (gets ram) (\<lambda>m.
     case hw_walk m (pgdir p) va of None \<Rightarrow> fault ''page fault in the kernel''
     | Some e \<Rightarrow>
       if e AND PTE_W = 0 then fault ''page fault in the kernel''
       else modf (\<lambda>s. s\<lparr>ram := (ram s)(P2V (PTE_ADDR e) + (va AND 0xFFF) := b)\<rparr>)))"

primrec uloads :: "u32 \<Rightarrow> nat \<Rightarrow> ('z kproc_scheme, u8 list) km" where
  "uloads va 0 = ret []"
| "uloads va (Suc n) = bnd (uload va) (\<lambda>b. bnd (uloads (va + 1) n) (\<lambda>bs. ret (b # bs)))"

primrec ustores :: "u32 \<Rightarrow> u8 list \<Rightarrow> ('z kproc_scheme, unit) km" where
  "ustores va [] = ret ()"
| "ustores va (b # bs) = thn (ustore va b) (ustores (va + 1) bs)"

definition bytes32 :: "u32 \<Rightarrow> u8 list" where
  "bytes32 w = [ucast w, ucast (drop_bit 8 w), ucast (drop_bit 16 w), ucast (drop_bit 24 w)]"

definition bytes16 :: "u16 \<Rightarrow> u8 list" where
  "bytes16 w = [ucast w, ucast (drop_bit 8 w)]"

subsection \<open>Arguments\<close>

definition fetchint :: "u32 \<Rightarrow> ('z kproc_scheme, u32 option) km" where
  "fetchint a =
     bnd curproc (\<lambda>p.
     if a \<ge> sz p \<or> a + 4 > sz p then ret None
     else bnd (uloads a 4) (\<lambda>bs. ret (Some (get32 (carr bs) 0))))"

primrec fetchstr_loop :: "nat \<Rightarrow> u32 \<Rightarrow> ('z kproc_scheme, u8 list option) km" where
  "fetchstr_loop 0 a = ret None"
| "fetchstr_loop (Suc n) a =
     bnd (uload a) (\<lambda>b.
     if b = 0 then ret (Some [])
     else bnd (fetchstr_loop n (a + 1)) (\<lambda>r. ret (map_option (Cons b) r)))"

definition fetchstr :: "u32 \<Rightarrow> ('z kproc_scheme, u8 list option) km" where
  "fetchstr a =
     bnd curproc (\<lambda>p.
     if a \<ge> sz p then ret None else fetchstr_loop (unat (sz p - a)) a)"

definition argint :: "nat \<Rightarrow> ('z kproc_scheme, u32 option) km" where
  "argint n =
     bnd curproc (\<lambda>p.
     bnd (rd32 (tf p + TF_ESP)) (\<lambda>esp. fetchint (esp + 4 + 4 * of_nat n)))"

definition argptr :: "nat \<Rightarrow> int \<Rightarrow> ('z kproc_scheme, u32 option) km" where
  "argptr n k =
     bnd curproc (\<lambda>p.
     bnd (argint n) (\<lambda>r.
     case r of None \<Rightarrow> ret None
     | Some i \<Rightarrow>
       if k < 0 \<or> i \<ge> sz p \<or> i + of_int k > sz p then ret None else ret (Some i)))"

definition argstr :: "nat \<Rightarrow> ('z kproc_scheme, u8 list option) km" where
  "argstr n = bnd (argint n) (\<lambda>r. case r of None \<Rightarrow> ret None | Some a \<Rightarrow> fetchstr a)"

definition argfd :: "nat \<Rightarrow> ('z kproc_scheme, (nat \<times> nat) option) km" where
  "argfd n =
     bnd (argint n) (\<lambda>r.
     case r of None \<Rightarrow> ret None
     | Some w \<Rightarrow>
       if sint w < 0 \<or> sint w \<ge> int NOFILE then ret None
       else bnd curproc (\<lambda>p. ret (map_option (Pair (unat w)) (ofile p (unat w)))))"

definition fdalloc :: "nat \<Rightarrow> ('z kproc_scheme, nat option) km" where
  "fdalloc f =
     bnd curproc (\<lambda>p.
     case find (\<lambda>fd. ofile p fd = None) [0..<NOFILE] of
       None \<Rightarrow> ret None
     | Some fd \<Rightarrow> thn (upd_curproc (\<lambda>q. q\<lparr>ofile := (ofile q)(fd := Some f)\<rparr>)) (ret (Some fd)))"

definition or_fail :: "('s, 'a option) km \<Rightarrow> ('a \<Rightarrow> ('s, int) km) \<Rightarrow> ('s, int) km" where
  "or_fail m k = bnd m (\<lambda>r. case r of None \<Rightarrow> ret (- 1) | Some x \<Rightarrow> k x)"

subsection \<open>Calls on open files\<close>

definition sys_dup :: "('z kinput_scheme, int) km" where
  "sys_dup =
     or_fail (argfd 0) (\<lambda>(_, f).
     or_fail (fdalloc f) (\<lambda>fd.
     thn (filedup f) (ret (int fd))))"

definition sys_read :: "('z kinput_scheme, int) km" where
  "sys_read =
     or_fail (argfd 0) (\<lambda>(_, f).
     or_fail (argint 2) (\<lambda>n.
     or_fail (argptr 1 (sint n)) (\<lambda>p.
     bnd (fileread console_devsw f (unat n)) (\<lambda>(r, bs). thn (ustores p bs) (ret r)))))"

definition sys_write :: "('z kinput_scheme, int) km" where
  "sys_write =
     or_fail (argfd 0) (\<lambda>(_, f).
     or_fail (argint 2) (\<lambda>n.
     or_fail (argptr 1 (sint n)) (\<lambda>p.
     bnd (uloads p (unat n)) (\<lambda>bs. filewrite console_devsw f bs))))"

definition sys_close :: "('z kinput_scheme, int) km" where
  "sys_close =
     or_fail (argfd 0) (\<lambda>(fd, f).
     thn (upd_curproc (\<lambda>q. q\<lparr>ofile := (ofile q)(fd := None)\<rparr>)) (
     thn (fileclose f) (ret 0)))"

text \<open>The stores into a user's \<open>struct stat\<close>; its padding is left alone.\<close>

definition put_stat :: "u32 \<Rightarrow> stat \<Rightarrow> ('z kproc_scheme, unit) km" where
  "put_stat p st =
     thn (ustores p (bytes16 (st_type st))) (
     thn (ustores (p + 4) (bytes32 (of_nat (st_dev st)))) (
     thn (ustores (p + 8) (bytes32 (st_ino st))) (
     thn (ustores (p + 12) (bytes16 (st_nlink st)))
       (ustores (p + 16) (bytes32 (st_size st))))))"

definition sys_fstat :: "('z kinput_scheme, int) km" where
  "sys_fstat =
     or_fail (argfd 0) (\<lambda>(_, f).
     or_fail (argptr 1 20) (\<lambda>p.
     or_fail (filestat f) (\<lambda>st. thn (put_stat p st) (ret 0))))"

definition sys_pipe :: "('z kinput_scheme, int) km" where
  "sys_pipe =
     or_fail (argptr 0 8) (\<lambda>fd.
     or_fail pipealloc (\<lambda>(rf, wf).
     bnd (fdalloc rf) (\<lambda>r0.
     bnd (case r0 of None \<Rightarrow> ret None | Some _ \<Rightarrow> fdalloc wf) (\<lambda>r1.
     case (r0, r1) of
       (Some fd0, Some fd1) \<Rightarrow>
         thn (ustores fd (bytes32 (of_nat fd0))) (
         thn (ustores (fd + 4) (bytes32 (of_nat fd1))) (ret 0))
     | _ \<Rightarrow>
         thn (case r0 of None \<Rightarrow> ret ()
              | Some fd0 \<Rightarrow> upd_curproc (\<lambda>q. q\<lparr>ofile := (ofile q)(fd0 := None)\<rparr>)) (
         thn (fileclose rf) (
         thn (fileclose wf) (ret (- 1))))))))"

subsection \<open>Calls on directories\<close>

text \<open>Every call below that has begun an operation of the log ends it on each of its ways out.\<close>

definition end_with :: "int \<Rightarrow> ('z klog_scheme, int) km" where
  "end_with r = thn end_op (ret r)"

definition add_link :: "nat \<Rightarrow> u16 \<Rightarrow> ('z kfs_scheme, unit) km" where
  "add_link i d = thn (set_inode i (\<lambda>p. p\<lparr>nlink := nlink p + d\<rparr>)) (iupdate i)"

definition link_bad :: "nat \<Rightarrow> ('z kinput_scheme, int) km" where
  "link_bad i = thn (ilock i) (thn (add_link i (- 1)) (thn (iunlockput i) (end_with (- 1))))"

definition sys_link :: "('z kinput_scheme, int) km" where
  "sys_link =
     or_fail (argstr 0) (\<lambda>old.
     or_fail (argstr 1) (\<lambda>new.
     thn begin_op (
     bnd (namei console_devsw old) (\<lambda>r.
     case r of None \<Rightarrow> end_with (- 1)
     | Some i \<Rightarrow>
       thn (ilock i) (
       bnd (get_inode i) (\<lambda>p.
       if itype p = T_DIR then thn (iunlockput i) (end_with (- 1))
       else
         thn (add_link i 1) (
         thn (iunlock i) (
         bnd (nameiparent console_devsw new) (\<lambda>r.
         case r of None \<Rightarrow> link_bad i
         | Some (dp, name) \<Rightarrow>
           thn (ilock dp) (
           bnd (gets (\<lambda>s. (inodes s dp, inodes s i))) (\<lambda>(d, p).
           bnd (if idev d \<noteq> idev p then ret True
                else bnd (dirlink console_devsw dp name (inum p)) (\<lambda>r. ret (r < 0))) (\<lambda>bad.
           if bad then thn (iunlockput dp) (link_bad i)
           else thn (iunlockput dp) (thn (iput i) (end_with 0))))))))))))))"

text \<open>The loop of isdirempty, over the offsets behind those of . and ..\<close>

primrec isdirempty_loop :: "nat \<Rightarrow> nat list \<Rightarrow> ('z kinput_scheme, bool) km" where
  "isdirempty_loop dp [] = ret True"
| "isdirempty_loop dp (off # offs) =
     bnd (read_dirent console_devsw ''isdirempty: readi'' dp off) (\<lambda>de.
     if de_inum de \<noteq> 0 then ret False else isdirempty_loop dp offs)"

definition isdirempty :: "nat \<Rightarrow> ('z kinput_scheme, bool) km" where
  "isdirempty dp = bnd (get_inode dp) (\<lambda>p. isdirempty_loop dp (drop 2 (dir_offsets (isize p))))"

definition DOT :: "u8 list" where "DOT = [46]"
definition DOTDOT :: "u8 list" where "DOTDOT = [46, 46]"

definition unlink_bad :: "nat \<Rightarrow> ('z kinput_scheme, int) km" where
  "unlink_bad dp = thn (iunlockput dp) (end_with (- 1))"

definition sys_unlink :: "('z kinput_scheme, int) km" where
  "sys_unlink =
     or_fail (argstr 0) (\<lambda>path.
     thn begin_op (
     bnd (nameiparent console_devsw path) (\<lambda>r.
     case r of None \<Rightarrow> end_with (- 1)
     | Some (dp, name) \<Rightarrow>
       thn (ilock dp) (
       if namecmp (carr name) (carr DOT) = 0 \<or> namecmp (carr name) (carr DOTDOT) = 0 then unlink_bad dp
       else bnd (dirlookup console_devsw dp name) (\<lambda>r.
       case r of None \<Rightarrow> unlink_bad dp
       | Some (i, off) \<Rightarrow>
         thn (ilock i) (
         bnd (get_inode i) (\<lambda>p.
         if sint (nlink p) < 1 then panic ''unlink: nlink < 1''
         else bnd (if itype p = T_DIR then isdirempty i else ret True) (\<lambda>empty.
         if \<not> empty then thn (iunlockput i) (unlink_bad dp)
         else bnd (writei console_devsw dp (replicate DIRENT 0) off) (\<lambda>r.
         if r \<noteq> int DIRENT then panic ''unlink: writei''
         else bnd (get_inode i) (\<lambda>p.
           thn (whn (itype p = T_DIR) (add_link dp (- 1))) (
           thn (iunlockput dp) (
           thn (add_link i (- 1)) (
           thn (iunlockput i) (end_with 0))))))))))))))"

definition create :: "u8 list \<Rightarrow> u16 \<Rightarrow> u16 \<Rightarrow> u16 \<Rightarrow> ('z kinput_scheme, nat option) km" where
  "create path ty maj mnr =
     bnd (nameiparent console_devsw path) (\<lambda>r.
     case r of None \<Rightarrow> ret None
     | Some (dp, name) \<Rightarrow>
       thn (ilock dp) (
       bnd (dirlookup console_devsw dp name) (\<lambda>r.
       case r of
         Some (i, _) \<Rightarrow>
           thn (iunlockput dp) (
           thn (ilock i) (
           bnd (get_inode i) (\<lambda>p.
           if ty = T_FILE \<and> itype p = T_FILE then ret (Some i)
           else thn (iunlockput i) (ret None))))
       | None \<Rightarrow>
           bnd (get_inode dp) (\<lambda>d.
           bnd (ialloc (idev d) ty) (\<lambda>i.
           thn (ilock i) (
           thn (set_inode i (\<lambda>p. p\<lparr>major := maj, minor := mnr, nlink := 1\<rparr>)) (
           thn (iupdate i) (
           thn (whn (ty = T_DIR) (
             thn (add_link dp 1) (
             bnd (gets (\<lambda>s. (inodes s i, inodes s dp))) (\<lambda>(p, d).
             bnd (dirlink console_devsw i DOT (inum p)) (\<lambda>r.
             if r < 0 then panic ''create dots''
             else bnd (dirlink console_devsw i DOTDOT (inum d)) (\<lambda>r.
               whn (r < 0) (panic ''create dots''))))))) (
           bnd (get_inode i) (\<lambda>p.
           bnd (dirlink console_devsw dp name (inum p)) (\<lambda>r.
           if r < 0 then panic ''create: dirlink''
           else thn (iunlockput dp) (ret (Some i)))))))))))))"

text \<open>The part of open that finds or makes the inode and leaves it locked.\<close>

definition open_inode :: "u8 list \<Rightarrow> u32 \<Rightarrow> ('z kinput_scheme, nat option) km" where
  "open_inode path omode =
     (if omode AND O_CREATE \<noteq> 0 then create path T_FILE 0 0
      else bnd (namei console_devsw path) (\<lambda>r.
        case r of None \<Rightarrow> ret None
        | Some i \<Rightarrow>
          thn (ilock i) (
          bnd (get_inode i) (\<lambda>p.
          if itype p = T_DIR \<and> omode \<noteq> 0 then thn (iunlockput i) (ret None)
          else ret (Some i)))))"

definition sys_open :: "('z kinput_scheme, int) km" where
  "sys_open =
     or_fail (argstr 0) (\<lambda>path.
     or_fail (argint 1) (\<lambda>omode.
     thn begin_op (
     bnd (open_inode path omode) (\<lambda>r.
     case r of None \<Rightarrow> end_with (- 1)
     | Some i \<Rightarrow>
       bnd filealloc (\<lambda>fo.
       bnd (case fo of None \<Rightarrow> ret None | Some f \<Rightarrow> fdalloc f) (\<lambda>fdo.
       case (fo, fdo) of
         (Some f, Some fd) \<Rightarrow>
           thn (iunlock i) (
           thn end_op (
           thn (set_file f (\<lambda>x. x\<lparr>ftype := FD_INODE, fip := i, foff := 0,
             readable := (omode AND O_WRONLY = 0), writable := (omode AND O_WRONLY \<noteq> 0 \<or> omode AND O_RDWR \<noteq> 0)\<rparr>))
           (ret (int fd))))
       | _ \<Rightarrow> thn (close_if fo) (thn (iunlockput i) (end_with (- 1)))))))))"

definition make_node :: "('z kinput_scheme, nat option) km \<Rightarrow> ('z kinput_scheme, int) km" where
  "make_node m =
     bnd m (\<lambda>r. case r of None \<Rightarrow> end_with (- 1) | Some i \<Rightarrow> thn (iunlockput i) (end_with 0))"

definition sys_mkdir :: "('z kinput_scheme, int) km" where
  "sys_mkdir =
     thn begin_op (
     make_node (bnd (argstr 0) (\<lambda>r. case r of None \<Rightarrow> ret None | Some path \<Rightarrow> create path T_DIR 0 0)))"

definition sys_mknod :: "('z kinput_scheme, int) km" where
  "sys_mknod =
     thn begin_op (
     make_node (bnd (argstr 0) (\<lambda>r0. case r0 of None \<Rightarrow> ret None | Some path \<Rightarrow>
       bnd (argint 1) (\<lambda>r1. case r1 of None \<Rightarrow> ret None | Some maj \<Rightarrow>
       bnd (argint 2) (\<lambda>r2. case r2 of None \<Rightarrow> ret None | Some mnr \<Rightarrow>
       create path T_DEV (ucast maj) (ucast mnr))))))"

definition sys_chdir :: "('z kinput_scheme, int) km" where
  "sys_chdir =
     thn begin_op (
     bnd (bnd (argstr 0) (\<lambda>r. case r of None \<Rightarrow> ret None | Some path \<Rightarrow> namei console_devsw path)) (\<lambda>r.
     case r of None \<Rightarrow> end_with (- 1)
     | Some i \<Rightarrow>
       thn (ilock i) (
       bnd (get_inode i) (\<lambda>p.
       if itype p \<noteq> T_DIR then thn (iunlockput i) (end_with (- 1))
       else
         thn (iunlock i) (
         bnd my_cwd (\<lambda>c.
         thn (iput c) (
         thn end_op (
         thn (upd_curproc (\<lambda>q. q\<lparr>cwd := Some i\<rparr>)) (ret 0)))))))))"

end
