(* ===== verification/Exec.thy ===== *)
theory Exec
  imports Sysfile
begin

section \<open>Program loading (exec.c, elf.h, loaduvm of vm.c, sys_exec)\<close>

text \<open>
  The argument strings of exec live in the memory of the process that calls it; the model passes
  their bytes. Addresses and sizes are words and wrap around as in the code.
\<close>

definition ELF_MAGIC :: u32 where "ELF_MAGIC = 0x464C457F"
definition ELFHDR :: nat where "ELFHDR = 52"
definition PROGHDR :: nat where "PROGHDR = 32"
definition MAXARG :: nat where "MAXARG = 32"

record elfhdr =
  eh_magic :: u32
  eh_entry :: u32
  eh_phoff :: u32
  eh_phnum :: u16

record proghdr =
  ph_type :: u32
  ph_off :: u32
  ph_vaddr :: u32
  ph_filesz :: u32
  ph_memsz :: u32

definition elfhdr_of :: "u8 list \<Rightarrow> elfhdr" where
  "elfhdr_of bs = \<lparr>eh_magic = get32 (carr bs) 0, eh_entry = get32 (carr bs) 24,
     eh_phoff = get32 (carr bs) 28, eh_phnum = get16 (carr bs) 44\<rparr>"

definition proghdr_of :: "u8 list \<Rightarrow> proghdr" where
  "proghdr_of bs = \<lparr>ph_type = get32 (carr bs) 0, ph_off = get32 (carr bs) 4, ph_vaddr = get32 (carr bs) 8,
     ph_filesz = get32 (carr bs) 16, ph_memsz = get32 (carr bs) 20\<rparr>"

definition store_bytes :: "u32 \<Rightarrow> u8 list \<Rightarrow> mem \<Rightarrow> mem" where
  "store_bytes a bs m = fold (\<lambda>(k, b) m. m(a + of_nat k := b)) (enumerate 0 bs) m"

text \<open>The offsets \<open>i\<close> of loaduvm; for a size in the last page the sum \<open>i + PGSIZE\<close> wraps and
  the loop does not end.\<close>

primrec loaduvm_loop :: "u32 \<Rightarrow> u32 \<Rightarrow> nat \<Rightarrow> u32 \<Rightarrow> u32 \<Rightarrow> nat list \<Rightarrow> ('z kinput_scheme, int) km" where
  "loaduvm_loop d a ip offs len [] = (if unat len > 2 ^ 32 - PGSIZE then (\<lambda>s. Spin) else ret 0)"
| "loaduvm_loop d a ip offs len (i # is) =
     bnd (walkpgdir d (a + of_nat i) False) (\<lambda>pte.
     if pte = 0 then panic ''loaduvm: address should exist''
     else bnd (rd32 pte) (\<lambda>e.
       let n = min (unat len - i) PGSIZE in
       bnd (readi console_devsw ip (offs + of_nat i) (of_nat n)) (\<lambda>(r, bs).
       thn (modf (\<lambda>s. s\<lparr>ram := store_bytes (P2V (PTE_ADDR e)) bs (ram s)\<rparr>)) (
       if r \<noteq> int n then ret (- 1) else loaduvm_loop d a ip offs len is))))"

definition loaduvm :: "u32 \<Rightarrow> u32 \<Rightarrow> nat \<Rightarrow> u32 \<Rightarrow> u32 \<Rightarrow> ('z kinput_scheme, int) km" where
  "loaduvm d a ip offs len =
     (if unat a mod PGSIZE \<noteq> 0 then panic ''loaduvm: addr must be page aligned''
      else loaduvm_loop d a ip offs len (map (\<lambda>k. k * PGSIZE) [0..<(unat len + PGSIZE - 1) div PGSIZE]))"

text \<open>copyout (vm.c) of bytes that are given.\<close>

function copyout_bytes :: "u32 \<Rightarrow> u32 \<Rightarrow> u8 list \<Rightarrow> ('z kmem_scheme, int) km" where
  "copyout_bytes d va bs =
     (if bs = [] then ret 0
      else bnd (uva2ka d (PGROUNDDOWN va)) (\<lambda>pa0.
        if pa0 = 0 then ret (- 1)
        else
          thn (modf (\<lambda>s. s\<lparr>ram := store_bytes (pa0 + (va - PGROUNDDOWN va)) (take (page_room va (length bs)) bs) (ram s)\<rparr>))
            (copyout_bytes d (PGROUNDDOWN va + of_nat PGSIZE) (drop (page_room va (length bs)) bs))))"
  by pat_completeness auto
termination
  by (relation "measure (\<lambda>(d, va, bs). length bs)") (use page_room_pos in auto)

declare copyout_bytes.simps [simp del]

text \<open>The loop over the program headers: the new size, or \<open>None\<close> for \<open>goto bad\<close>.\<close>

primrec load_segments :: "u32 \<Rightarrow> nat \<Rightarrow> u32 list \<Rightarrow> u32 \<Rightarrow> ('z kinput_scheme, u32 option) km" where
  "load_segments d ip [] z = ret (Some z)"
| "load_segments d ip (off # offs) z =
     bnd (readi console_devsw ip off (of_nat PROGHDR)) (\<lambda>(r, bs).
     let ph = proghdr_of bs in
     if r \<noteq> int PROGHDR then ret None
     else if ph_type ph \<noteq> 1 then load_segments d ip offs z
     else if ph_memsz ph < ph_filesz ph then ret None
     else if ph_vaddr ph + ph_memsz ph < ph_vaddr ph then ret None
     else bnd (allocuvm d z (ph_vaddr ph + ph_memsz ph)) (\<lambda>z.
       if z = 0 then ret None
       else if unat (ph_vaddr ph) mod PGSIZE \<noteq> 0 then ret None
       else bnd (loaduvm d (ph_vaddr ph) ip (ph_off ph) (ph_filesz ph)) (\<lambda>r.
         if r < 0 then ret None else load_segments d ip offs z)))"

text \<open>The loop that pushes the argument strings: the stack pointer and the addresses of the strings.\<close>

primrec push_args :: "u32 \<Rightarrow> nat \<Rightarrow> u8 list list \<Rightarrow> u32 \<Rightarrow> ('z kmem_scheme, (u32 \<times> u32 list) option) km" where
  "push_args d argc [] sp = ret (Some (sp, []))"
| "push_args d argc (x # xs) sp =
     (if argc \<ge> MAXARG then ret None
      else let sp = (sp - of_nat (length x + 1)) AND NOT 3 in
        bnd (copyout_bytes d sp (x @ [0])) (\<lambda>r.
        if r < 0 then ret None
        else bnd (push_args d (Suc argc) xs sp) (\<lambda>q.
          ret (map_option (\<lambda>(sp', ps). (sp', sp # ps)) q))))"

definition base_name :: "u8 list \<Rightarrow> u8 list" where
  "base_name path = rev (takeWhile (\<lambda>c. c \<noteq> SLASH) (rev path))"

definition to_name :: "u8 list \<Rightarrow> string" where
  "to_name xs = take 15 (map (\<lambda>x. char_of (unat x)) xs)"

definition exec_bad :: "u32 \<Rightarrow> nat option \<Rightarrow> ('z kinput_scheme, int) km" where
  "exec_bad d ipo =
     thn (whn (d \<noteq> 0) (freevm d)) (
     case ipo of None \<Rightarrow> ret (- 1) | Some i \<Rightarrow> thn (iunlockput i) (end_with (- 1)))"

text \<open>From the user stack on: the inode has been released.\<close>

definition exec_stack :: "u32 \<Rightarrow> u32 \<Rightarrow> u32 \<Rightarrow> u8 list \<Rightarrow> u8 list list \<Rightarrow> ('z kinput_scheme, int) km" where
  "exec_stack d z entry path args =
     (let z = PGROUNDUP z in
      bnd (allocuvm d z (z + 2 * of_nat PGSIZE)) (\<lambda>z.
      if z = 0 then exec_bad d None
      else
        thn (clearpteu d (z - 2 * of_nat PGSIZE)) (
        bnd (push_args d 0 args z) (\<lambda>q.
        case q of None \<Rightarrow> exec_bad d None
        | Some (sp, ps) \<Rightarrow>
          let argc = length ps;
              words = [0xffffffff, of_nat argc, sp - of_nat (argc + 1) * 4] @ ps @ [0];
              sp = sp - of_nat (3 + argc + 1) * 4 in
          bnd (copyout_bytes d sp (concat (map bytes32 words))) (\<lambda>r.
          if r < 0 then exec_bad d None
          else
            bnd curproc (\<lambda>old.
            thn (upd_curproc (\<lambda>p. p\<lparr>pname := to_name (base_name path)\<rparr>)) (
            thn (upd_curproc (\<lambda>p. p\<lparr>pgdir := d\<rparr>)) (
            thn (upd_curproc (\<lambda>p. p\<lparr>sz := z\<rparr>)) (
            thn (wr32 (tf old + TF_EIP) entry) (
            thn (wr32 (tf old + TF_ESP) sp) (
            thn (switchuvm (Some (kstack old, d))) (
            thn (freevm (pgdir old)) (ret 0)))))))))))))"

definition exec :: "u8 list \<Rightarrow> u8 list list \<Rightarrow> ('z kinput_scheme, int) km" where
  "exec path args =
     thn begin_op (
     bnd (namei console_devsw path) (\<lambda>r.
     case r of None \<Rightarrow> thn end_op (thn (cprintf (''exec: fail'' @ [CHR 0x0A]) []) (ret (- 1)))
     | Some i \<Rightarrow>
       thn (ilock i) (
       bnd (readi console_devsw i 0 (of_nat ELFHDR)) (\<lambda>(r, bs).
       let eh = elfhdr_of bs in
       if r \<noteq> int ELFHDR then exec_bad 0 (Some i)
       else if eh_magic eh \<noteq> ELF_MAGIC then exec_bad 0 (Some i)
       else bnd setupkvm (\<lambda>d.
         if d = 0 then exec_bad 0 (Some i)
         else bnd (load_segments d i (map (\<lambda>k. eh_phoff eh + of_nat (k * PROGHDR)) [0..<unat (eh_phnum eh)]) 0) (\<lambda>q.
           case q of None \<Rightarrow> exec_bad d (Some i)
           | Some z \<Rightarrow>
             thn (iunlockput i) (
             thn end_op (exec_stack d z (eh_entry eh) path args))))))))"

primrec fetch_args :: "u32 \<Rightarrow> nat list \<Rightarrow> ('z kproc_scheme, u8 list list option) km" where
  "fetch_args u [] = ret None"
| "fetch_args u (i # is) =
     bnd (fetchint (u + 4 * of_nat i)) (\<lambda>r.
     case r of None \<Rightarrow> ret None
     | Some a \<Rightarrow>
       if a = 0 then ret (Some [])
       else bnd (fetchstr a) (\<lambda>r.
         case r of None \<Rightarrow> ret None
         | Some x \<Rightarrow> bnd (fetch_args u is) (\<lambda>q. ret (map_option (Cons x) q))))"

definition sys_exec :: "('z kinput_scheme, int) km" where
  "sys_exec =
     or_fail (argstr 0) (\<lambda>path.
     or_fail (argint 1) (\<lambda>u.
     or_fail (fetch_args u [0..<MAXARG]) (\<lambda>args.
     exec path args)))"

end
