(* ===== verification/Syscall.thy ===== *)
theory Syscall
  imports Exec
begin

section \<open>Processes with their files, system calls and traps (proc.c, sysproc.c, syscall.c, trap.c)\<close>

text \<open>
  \<open>first_ret\<close> is the static variable of forkret and \<open>tick_from\<close> the local state of a
  sys_sleep that sleeps. The image of the first process is generated by the build: its address and
  size are arguments of userinit. The end of an interrupt (lapiceoi) is outside the model.
\<close>

record ksys = kinput +
  ticks :: u32
  first_ret :: bool
  tick_from :: "nat \<Rightarrow> u32"

definition wr16 :: "u32 \<Rightarrow> u16 \<Rightarrow> ('z kmem_scheme, unit) km" where
  "wr16 a v = modf (\<lambda>s. s\<lparr>ram := (ram s)(a := ucast v, a + 1 := ucast (drop_bit 8 v))\<rparr>)"

subsection \<open>fork, exit, userinit and forkret (proc.c)\<close>

definition copy_file :: "nat \<Rightarrow> nat \<Rightarrow> nat \<Rightarrow> ('z kfile_scheme, unit) km" where
  "copy_file cur np fd =
     bnd (get_proc cur) (\<lambda>p.
     case ofile p fd of
       None \<Rightarrow> ret ()
     | Some f \<Rightarrow> bnd (filedup f) (\<lambda>g. set_proc np (\<lambda>q. q\<lparr>ofile := (ofile q)(fd := Some g)\<rparr>)))"

definition fork :: "('z kfile_scheme, int) km" where
  "fork =
     bnd self (\<lambda>cur.
     bnd allocproc (\<lambda>r.
     case r of None \<Rightarrow> ret (- 1)
     | Some np \<Rightarrow>
       bnd (get_proc cur) (\<lambda>p.
       bnd (copyuvm (pgdir p) (sz p)) (\<lambda>d.
       thn (set_proc np (\<lambda>q. q\<lparr>pgdir := d\<rparr>)) (
       if d = 0 then
         bnd (get_proc np) (\<lambda>q.
         thn (kfree (kstack q)) (
         thn (set_proc np (\<lambda>q. q\<lparr>kstack := 0\<rparr>)) (
         thn (set_proc np (\<lambda>q. q\<lparr>pstate := UNUSED\<rparr>)) (ret (- 1)))))
       else
         thn (set_proc np (\<lambda>q. q\<lparr>sz := sz p\<rparr>)) (
         thn (set_proc np (\<lambda>q. q\<lparr>parent := Some cur\<rparr>)) (
         bnd (get_proc np) (\<lambda>q.
         thn (modf (\<lambda>s. s\<lparr>ram := memmove (ram s) (tf q) (tf p) (unat TF_SIZE)\<rparr>)) (
         thn (wr32 (tf q + TF_EAX) 0) (
         thn (kfor [0..<NOFILE] (copy_file cur np)) (
         bnd (bnd (need ''fork: no current directory'' (cwd p)) idup) (\<lambda>c.
         thn (set_proc np (\<lambda>q. q\<lparr>cwd := Some c\<rparr>)) (
         thn (set_proc np (\<lambda>q. q\<lparr>pname := pname p\<rparr>)) (
         bnd (get_proc np) (\<lambda>q.
         thn (make_runnable np) (ret (sint (pid q))))))))))))))))))"

definition close_fd :: "nat \<Rightarrow> nat \<Rightarrow> ('z kfile_scheme, unit) km" where
  "close_fd cur fd =
     bnd (get_proc cur) (\<lambda>p.
     case ofile p fd of
       None \<Rightarrow> ret ()
     | Some f \<Rightarrow> thn (fileclose f) (set_proc cur (\<lambda>q. q\<lparr>ofile := (ofile q)(fd := None)\<rparr>)))"

definition exit :: "('z kfile_scheme, 'a) km" where
  "exit =
     bnd self (\<lambda>cur.
     bnd (gets initproc) (\<lambda>ini.
     if Some cur = ini then panic ''init exiting''
     else
       thn (kfor [0..<NOFILE] (close_fd cur)) (
       thn begin_op (
       bnd (get_proc cur) (\<lambda>p.
       thn (bnd (need ''exit: no current directory'' (cwd p)) iput) (
       thn end_op (
       thn (set_proc cur (\<lambda>q. q\<lparr>cwd := None\<rparr>)) (exit_tail cur)))))))) "

definition userinit :: "u32 \<Rightarrow> nat \<Rightarrow> ('z kinput_scheme, unit) km" where
  "userinit code len =
     bnd allocproc (\<lambda>r.
     thn (modf (\<lambda>s. s\<lparr>initproc := r\<rparr>)) (
     bnd (need ''userinit: no process'' r) (\<lambda>p.
     bnd setupkvm (\<lambda>d.
     thn (set_proc p (\<lambda>q. q\<lparr>pgdir := d\<rparr>)) (
     if d = 0 then panic ''userinit: out of memory?''
     else
       thn (inituvm d code len) (
       thn (set_proc p (\<lambda>q. q\<lparr>sz := of_nat PGSIZE\<rparr>)) (
       bnd (get_proc p) (\<lambda>q.
       thn (modf (\<lambda>s. s\<lparr>ram := memset (ram s) (tf q) 0 (unat TF_SIZE)\<rparr>)) (
       thn (wr16 (tf q + TF_CS) 0x1B) (
       thn (wr16 (tf q + 44) 0x23) (
       thn (wr16 (tf q + 40) 0x23) (
       thn (wr16 (tf q + 72) 0x23) (
       thn (wr32 (tf q + 64) 0x200) (
       thn (wr32 (tf q + TF_ESP) (of_nat PGSIZE)) (
       thn (wr32 (tf q + TF_EIP) 0) (
       thn (set_proc p (\<lambda>q. q\<lparr>pname := ''initcode''\<rparr>)) (
       bnd (namei console_devsw [SLASH]) (\<lambda>i.
       thn (set_proc p (\<lambda>q. q\<lparr>cwd := i\<rparr>)) (make_runnable p)))))))))))))))))))"

definition forkret :: "('z ksys_scheme, unit) km" where
  "forkret =
     thn (release PtableLock) (
     bnd (gets first_ret) (\<lambda>fr.
     whn fr (
       thn (modf (\<lambda>s. s\<lparr>first_ret := False\<rparr>)) (
       thn (iinit ROOTDEV) (initlog ROOTDEV)))))"

subsection \<open>sysproc.c\<close>

definition sys_kill :: "('z kproc_scheme, int) km" where
  "sys_kill = or_fail (argint 0) kill"

definition sys_getpid :: "('z kproc_scheme, int) km" where
  "sys_getpid = bnd curproc (\<lambda>p. ret (sint (pid p)))"

definition sys_sbrk :: "('z kproc_scheme, int) km" where
  "sys_sbrk =
     or_fail (argint 0) (\<lambda>n.
     bnd curproc (\<lambda>p.
     bnd (growproc n) (\<lambda>r.
     if r < 0 then ret (- 1) else ret (sint (sz p)))))"

text \<open>The comparison \<open>ticks - ticks0 < n\<close> is unsigned.\<close>

definition sys_sleep_loop :: "u32 \<Rightarrow> u32 \<Rightarrow> ('z ksys_scheme, int) km" where
  "sys_sleep_loop n t0 =
     bnd (gets ticks) (\<lambda>t.
     if t - t0 < n then
       bnd curproc (\<lambda>p.
       if killed p then thn (release TicksLock) (ret (- 1))
       else bnd self (\<lambda>me.
         thn (modf (\<lambda>s. s\<lparr>tick_from := (tick_from s)(me := t0)\<rparr>)) (sleep ChanTicks TicksLock)))
     else thn (release TicksLock) (ret 0))"

definition sys_sleep :: "('z ksys_scheme, int) km" where
  "sys_sleep =
     or_fail (argint 0) (\<lambda>n.
     thn (acquire TicksLock) (
     bnd (gets ticks) (\<lambda>t0. sys_sleep_loop n t0)))"

definition sys_sleep_resume :: "u32 \<Rightarrow> ('z ksys_scheme, int) km" where
  "sys_sleep_resume n =
     thn (sleep_resume TicksLock) (
     bnd self (\<lambda>me. bnd (gets (\<lambda>s. tick_from s me)) (sys_sleep_loop n)))"

definition sys_uptime :: "('z ksys_scheme, int) km" where
  "sys_uptime =
     thn (acquire TicksLock) (
     bnd (gets ticks) (\<lambda>t.
     thn (release TicksLock) (ret (sint t))))"

subsection \<open>The system call table\<close>

definition syscalls :: "nat \<Rightarrow> ('z ksys_scheme, int) km option" where
  "syscalls n = map_of
     [(1, fork), (2, exit), (3, wait), (4, sys_pipe), (5, sys_read), (6, sys_kill), (7, sys_exec),
      (8, sys_fstat), (9, sys_chdir), (10, sys_dup), (11, sys_getpid), (12, sys_sbrk), (13, sys_sleep),
      (14, sys_uptime), (15, sys_open), (16, sys_write), (17, sys_mknod), (18, sys_unlink), (19, sys_link),
      (20, sys_mkdir), (21, sys_close), (22, cps)] n"

definition syscall :: "('z ksys_scheme, unit) km" where
  "syscall =
     bnd curproc (\<lambda>p.
     bnd (rd32 (tf p + TF_EAX)) (\<lambda>num.
     case (if sint num > 0 then syscalls (unat num) else None) of
       Some f \<Rightarrow> bnd f (\<lambda>r. wr32 (tf p + TF_EAX) (of_int r))
     | None \<Rightarrow>
         thn (cprintf (''%d %s: unknown sys call %d'' @ [CHR 0x0A]) [FInt (pid p), FPtr (Some (pname p)), FInt num])
           (wr32 (tf p + TF_EAX) (- 1))))"

subsection \<open>Traps\<close>

definition tick :: "('z ksys_scheme, unit) km" where
  "tick =
     thn (acquire TicksLock) (
     thn (modf (\<lambda>s. s\<lparr>ticks := ticks s + 1\<rparr>)) (
     thn (wakeup ChanTicks) (release TicksLock)))"

text \<open>The default case of the switch: an exception. \<open>cr2\<close> is the faulting address.\<close>

definition trap_default :: "u32 \<Rightarrow> u32 \<Rightarrow> ('z ksys_scheme, unit) km" where
  "trap_default t cr2 =
     bnd (rd32 (t + TF_TRAPNO)) (\<lambda>no.
     bnd (rd32 (t + TF_EIP)) (\<lambda>eip.
     bnd (gets (\<lambda>s. ram s (t + TF_CS) AND 3)) (\<lambda>pl.
     bnd (rd32 (t + 52)) (\<lambda>err.
     bnd myproc (\<lambda>mp.
     bnd cpuid (\<lambda>c.
     if mp = None \<or> pl = 0 then
       thn (cprintf (''unexpected trap %d from cpu %d eip %x (cr2=0x%x)'' @ [CHR 0x0A])
              [FInt no, FInt (of_nat c), FInt eip, FInt cr2]) (panic ''trap'')
     else
       bnd curproc (\<lambda>p.
       thn (cprintf (''pid %d %s: trap %d err %d on cpu %d eip 0x%x addr 0x%x--kill proc'' @ [CHR 0x0A])
              [FInt (pid p), FPtr (Some (pname p)), FInt no, FInt err, FInt (of_nat c), FInt eip, FInt cr2])
         (upd_curproc (\<lambda>q. q\<lparr>killed := True\<rparr>)))))))))"

definition exit_if_killed :: "bool \<Rightarrow> ('z ksys_scheme, unit) km" where
  "exit_if_killed user =
     bnd myproc (\<lambda>mp.
     case mp of None \<Rightarrow> ret ()
     | Some c \<Rightarrow> bnd (get_proc c) (\<lambda>p. whn (killed p \<and> user) exit))"

definition trap_dispatch :: "u32 \<Rightarrow> u32 \<Rightarrow> ('z ksys_scheme, unit) km" where
  "trap_dispatch t cr2 =
     bnd (rd32 (t + TF_TRAPNO)) (\<lambda>no.
     if no = 32 then bnd cpuid (\<lambda>c. whn (c = 0) tick)
     else if no = 32 + 14 then ideintr
     else if no = 32 + 15 then ret ()
     else if no = 32 + 1 then kbdintr
     else if no = 32 + 4 then uartintr
     else if no = 32 + 7 \<or> no = 32 + 31 then
       bnd cpuid (\<lambda>c.
       bnd (gets (\<lambda>s. ld32 (ram s) (t + TF_CS) AND 0xFFFF)) (\<lambda>cs.
       bnd (rd32 (t + TF_EIP)) (\<lambda>eip.
       cprintf (''cpu%d: spurious interrupt at %x:%x'' @ [CHR 0x0A]) [FInt (of_nat c), FInt cs, FInt eip])))
     else trap_default t cr2)"

definition trap :: "u32 \<Rightarrow> u32 \<Rightarrow> ('z ksys_scheme, unit) km" where
  "trap t cr2 =
     bnd (rd32 (t + TF_TRAPNO)) (\<lambda>no.
     if no = 64 then
       thn (bnd curproc (\<lambda>p. whn (killed p) exit)) (
       thn (upd_curproc (\<lambda>q. q\<lparr>tf := t\<rparr>)) (
       thn syscall
         (bnd curproc (\<lambda>p. whn (killed p) exit))))
     else
       thn (trap_dispatch t cr2) (
       bnd (gets (\<lambda>s. ram s (t + TF_CS) AND 3 = 3)) (\<lambda>user.
       thn (exit_if_killed user) (
       thn (bnd myproc (\<lambda>mp.
         case mp of None \<Rightarrow> ret ()
         | Some c \<Rightarrow> bnd (get_proc c) (\<lambda>p. whn (pstate p = RUNNING \<and> no = 32) yield)))
         (exit_if_killed user)))))"

text \<open>The rest of trap when the process runs again after the yield.\<close>

definition trap_after_yield :: "u32 \<Rightarrow> ('z ksys_scheme, unit) km" where
  "trap_after_yield t =
     thn yield_resume (
     bnd (gets (\<lambda>s. ram s (t + TF_CS) AND 3 = 3)) exit_if_killed)"

end
