(* ===== verification/Fs_Read.thy ===== *)
theory Fs_Read
  imports Dir
begin

section \<open>Reading files\<close>

text \<open>
  What a file holds is a function of the blocks that a process sees and of its inode:
  \<open>mapped\<close> is the block map of the file, \<open>fbyte\<close> its bytes. \<open>quiet\<close> relates two states
  between which blocks were only read.
\<close>

definition mapped :: "(nat \<Rightarrow> block) \<Rightarrow> inode \<Rightarrow> nat \<Rightarrow> u32" where
  "mapped D p k =
     (if k < NDIRECT then addrs p k
      else if addrs p NDIRECT = 0 then 0
      else get32 (D (unat (addrs p NDIRECT))) (4 * (k - NDIRECT)))"

definition fbyte :: "(nat \<Rightarrow> block) \<Rightarrow> inode \<Rightarrow> nat \<Rightarrow> u8" where
  "fbyte D p j = D (unat (mapped D p (j div BSIZE))) (j mod BSIZE)"

text \<open>Every byte of the file below \<open>n\<close> has its block.\<close>

definition has_blocks :: "(nat \<Rightarrow> block) \<Rightarrow> inode \<Rightarrow> nat \<Rightarrow> bool" where
  "has_blocks D p n \<longleftrightarrow> n \<le> MAXFILE * BSIZE \<and> unat (addrs p NDIRECT) < FSSIZE \<and>
     (\<forall>j<n. mapped D p (j div BSIZE) \<noteq> 0 \<and> unat (mapped D p (j div BSIZE)) < FSSIZE)"

definition quiet :: "nat \<Rightarrow> 'z kide_scheme \<Rightarrow> 'z kide_scheme \<Rightarrow> bool" where
  "quiet me s t \<longleftrightarrow> cache_ok me {} t \<and> seen t = seen s \<and> disk t = disk s \<and> disk_writes t = disk_writes s \<and>
     dirties (bufs t) = dirties (bufs s) \<and> pins (bufs t) = pins (bufs s) \<and> bframe s t"

definition readable_by :: "nat \<Rightarrow> 'z kide_scheme \<Rightarrow> bool" where
  "readable_by me s \<longleftrightarrow> cache_ok me {} s \<and> card (dirties (bufs s)) < NBUF"

lemma quiet_refl [simp]: "quiet me s s = cache_ok me {} s"
  by (simp add: quiet_def)

lemma quiet_trans: "quiet me s t \<Longrightarrow> quiet me t u \<Longrightarrow> quiet me s u"
  unfolding quiet_def using bframe_trans by metis

lemma quiet_readable: "readable_by me s \<Longrightarrow> quiet me s t \<Longrightarrow> readable_by me t"
  by (simp add: readable_by_def quiet_def)

lemma fs_frame:
  fixes s t :: "'z kfs_scheme"
  assumes "bframe s t"
  shows "inodes t = inodes s" "sb t = sb s" "pipes t = pipes s" "pipe_left t = pipe_left s" "kfs.more t = kfs.more s"
proof -
  have o: "outside t = outside s" using assms by (simp add: bframe_def)
  have e: "outside t m tb sl B q d r ws = outside s m tb sl B q d r ws" for m tb sl B q d r ws
    by (simp only: o)
  note a = arg_cong [OF e]
  show "inodes t = inodes s" "sb t = sb s" "pipes t = pipes s" "pipe_left t = pipe_left s" "kfs.more t = kfs.more s"
    using a [of inodes] a [of sb] a [of pipes] a [of pipe_left] a [of kfs.more]
    by (simp_all add: outside_def)
qed

lemma quiet_frame:
  fixes s t :: "'z kfs_scheme"
  assumes "quiet me s t"
  shows "inodes t = inodes s" "sb t = sb s" "seen t = seen s" "cache_ok me {} t"
  using assms fs_frame [of s t] by (auto simp: quiet_def)

lemma get_data_run [simp]: "get_data b s = Ret (bdata (bufs s b)) s"
  by (simp add: get_data_def)

lemma inode_run [simp]:
  "get_inode i s = Ret (inodes s i) s"
  "set_inode i f s = Ret () (s\<lparr>inodes := (inodes s)(i := f (inodes s i))\<rparr>)"
  by (simp_all add: get_inode_def set_inode_def)

text \<open>bread, a look at the data, and brelse.\<close>

lemma bread_brelse:
  assumes "readable_by me s" and "n < FSSIZE"
  shows "\<exists>b t u. bread 1 n s = Ret b t \<and> bdata (bufs t b) = seen s n \<and> bframe s t \<and>
    brelse b t = Ret () u \<and> quiet me s u"
proof -
  have ok: "cache_ok me {} s" and room: "card ({} \<union> dirties (bufs s)) < NBUF"
    using assms(1) by (simp_all add: readable_by_def)
  obtain b t where t: "bread 1 n s = Ret b t" "cache_ok me (insert b {}) t" "bblockno (bufs t b) = n"
    "bdata (bufs t b) = seen s n" "seen t = seen s" "disk t = disk s" "bdirty (bufs t b) \<or> seen s n = disk s 1 n"
    "disk_writes t = disk_writes s" "bframe s t" "dirties (bufs t) = dirties (bufs s)" "pins (bufs t) = pins (bufs s)"
    using bread_run [OF ok _ assms(2) disjI2 [OF room]] by auto
  have cl: "bdirty (bufs t b) \<or> bdata (bufs t b) = disk t 1 (bblockno (bufs t b))" using t by auto
  obtain u where u: "brelse b t = Ret () u" "cache_ok me ({b} - {b}) u" "seen u = seen t" "disk u = disk t"
    "disk_writes u = disk_writes t" "bframe t u" "dirties (bufs u) = dirties (bufs t)" "pins (bufs u) = pins (bufs t)"
    using brelse_run [OF t(2) _ cl] by auto
  have "quiet me s u" using t u bframe_trans [OF t(9) u(6)] by (simp add: quiet_def)
  then show ?thesis using t(1,4,9) u(1) by blast
qed

lemma bmap_mapped:
  fixes s :: "'z kfs_scheme"
  assumes ok: "readable_by me s" and p: "idev (inodes s i) = 1" "unat (addrs (inodes s i) NDIRECT) < FSSIZE"
    and bn: "unat bn < MAXFILE" "mapped (seen s) (inodes s i) (unat bn) \<noteq> 0"
  shows "\<exists>t. bmap i bn s = Ret (mapped (seen s) (inodes s i) (unat bn)) t \<and> quiet me s t"
proof (cases "unat bn < NDIRECT")
  case True
  then have "bn < of_nat NDIRECT" by (simp add: word_less_nat_alt NDIRECT_def)
  then show ?thesis using bn(2) True ok by (simp add: bmap_def mapped_def readable_by_def)
next
  case False
  let ?p = "inodes s i" and ?k = "bn - of_nat NDIRECT"
  have k: "unat ?k = unat bn - NDIRECT"
    using False by (subst unat_sub) (simp_all add: word_le_nat_alt NDIRECT_def)
  have c: "\<not> bn < of_nat NDIRECT" "?k < of_nat NINDIRECT"
    using False bn(1) k by (simp_all add: word_less_nat_alt NDIRECT_def NINDIRECT_def MAXFILE_def BSIZE_def)
  have a: "addrs ?p NDIRECT \<noteq> 0"
    "get32 (seen s (unat (addrs ?p NDIRECT))) (4 * unat ?k) = mapped (seen s) ?p (unat bn)"
    using bn(2) False k by (auto simp: mapped_def split: if_splits)
  obtain b t u where t: "bread 1 (unat (addrs ?p NDIRECT)) s = Ret b t"
    "bdata (bufs t b) = seen s (unat (addrs ?p NDIRECT))" "bframe s t" "brelse b t = Ret () u" "quiet me s u"
    using bread_brelse [OF ok p(2)] by blast
  show ?thesis
    using c a bn(2) t p(1) by (simp add: bmap_def Let_def del: One_nat_def)
qed

lemma has_blocksD:
  assumes "has_blocks D p n"
  shows "unat (addrs p NDIRECT) < FSSIZE" "j < n \<Longrightarrow> j div BSIZE < MAXFILE"
    "j < n \<Longrightarrow> mapped D p (j div BSIZE) \<noteq> 0" "j < n \<Longrightarrow> unat (mapped D p (j div BSIZE)) < FSSIZE"
  using assms by (auto simp: has_blocks_def BSIZE_def div_less_iff_less_mult)

lemma chunk_div:
  assumes "j < chunk off left"
  shows "(off + j) div BSIZE = off div BSIZE" "(off + j) mod BSIZE = off mod BSIZE + j"
proof -
  have j: "off mod BSIZE + j < BSIZE" using assms by (auto simp: chunk_def BSIZE_def)
  have "off + j = off div BSIZE * BSIZE + (off mod BSIZE + j)" by simp
  then show "(off + j) div BSIZE = off div BSIZE" "(off + j) mod BSIZE = off mod BSIZE + j"
    using j by (metis div_mult_self3 div_less add.right_neutral BSIZE_def zero_neq_numeral add.commute,
      metis mod_mult_self3 mod_less)
qed

lemma chunk_le: "chunk off left \<le> left"
  by (simp add: chunk_def)

lemma of_nat_block: "k < MAXFILE \<Longrightarrow> unat (of_nat k :: u32) = k"
  by (rule unat_of_nat_small) (simp add: MAXFILE_def NDIRECT_def NINDIRECT_def BSIZE_def)

lemma readi_loop_run:
  fixes s :: "'z kfs_scheme"
  assumes "readable_by me s" and "idev (inodes s i) = 1" and "has_blocks (seen s) (inodes s i) n" and "off + left \<le> n"
  shows "\<exists>t. readi_loop i off left s = Ret (map (fbyte (seen s) (inodes s i)) [off..<off + left]) t \<and> quiet me s t"
  using assms
proof (induction i off left arbitrary: s rule: readi_loop.induct)
  case (1 i off left)
  let ?p = "inodes s i" and ?m = "chunk off left"
  show ?case
  proof (cases "left = 0")
    case True
    then show ?thesis using "1.prems"(1) by (simp add: readi_loop.simps readable_by_def)
  next
    case False
    then have m: "0 < ?m" "?m \<le> left" by (simp_all add: chunk_pos chunk_le)
    have o: "off < n" using False "1.prems"(4) by simp
    note B = has_blocksD [OF "1.prems"(3)]
    let ?bn = "of_nat (off div BSIZE) :: u32" and ?a = "mapped (seen s) ?p (off div BSIZE)"
    have bn: "unat ?bn = off div BSIZE" using of_nat_block B(2) [OF o] by blast
    obtain t where t: "bmap i ?bn s = Ret ?a t" "quiet me s t"
      using bmap_mapped [OF "1.prems"(1,2) B(1), of ?bn] B(2,3) [OF o] bn by auto
    note q = quiet_frame [OF t(2)]
    obtain b v u where v: "bread 1 (unat ?a) t = Ret b v" "bdata (bufs v b) = seen t (unat ?a)" "bframe t v"
      "brelse b v = Ret () u" "quiet me t u"
      using bread_brelse [OF quiet_readable [OF "1.prems"(1) t(2)] B(4) [OF o]] by blast
    note qu = quiet_trans [OF t(2) v(5)]
    note fu = quiet_frame [OF qu]
    obtain w where w: "readi_loop i (off + ?m) (left - ?m) u =
        Ret (map (fbyte (seen s) ?p) [off + ?m..<off + left]) w" "quiet me u w"
      using "1.IH" [OF False quiet_readable [OF "1.prems"(1) qu]] "1.prems"(2-4) m fu by auto
    have "map (seen s (unat ?a)) [off mod BSIZE..<off mod BSIZE + ?m] = map (fbyte (seen s) ?p) [off..<off + ?m]"
      by (rule nth_equalityI) (simp_all add: fbyte_def chunk_div)
    moreover have "[off..<off + left] = [off..<off + ?m] @ [off + ?m..<off + left]"
      using m(2) upt_add_eq_append [of off "off + ?m" "left - ?m"] by simp
    ultimately show ?thesis
      using False t(1) v w "1.prems"(2) q fs_frame(1) [OF v(3)] quiet_trans [OF qu w(2)]
      by (subst readi_loop.simps) (simp del: One_nat_def)
  qed
qed

text \<open>readi of a file that is not a device, in one equation: the bytes from \<open>off\<close> up to the end of
  the file or as many as asked for; -1 for an offset behind the end, or one so large that it wraps.\<close>

definition read_result :: "(nat \<Rightarrow> block) \<Rightarrow> inode \<Rightarrow> u32 \<Rightarrow> u32 \<Rightarrow> int \<times> u8 list" where
  "read_result D p off n =
     (if isize p < off \<or> 2 ^ 32 \<le> unat off + unat n then (- 1, [])
      else let k = min (unat n) (unat (isize p) - unat off) in
        (int k, map (fbyte D p) [unat off..<unat off + k]))"

lemma word_add_wraps: "(off + n < off) = (2 ^ 32 \<le> unat off + unat (n :: u32))"
proof -
  have "unat (off + n) = (unat off + unat n) mod 2 ^ 32" by (simp add: unat_word_ariths)
  moreover have "unat off < 2 ^ 32" "unat n < 2 ^ 32" using unat_u32_less by simp_all
  ultimately show ?thesis by (auto simp: word_less_nat_alt mod_if)
qed

lemma sint_unat_small: "unat (w :: u32) < 2 ^ 31 \<Longrightarrow> sint w = int (unat w)"
proof -
  assume "unat w < 2 ^ 31"
  then have "int (unat w) < int (2 ^ 31)" by (simp only: of_nat_less_iff)
  then have "uint w < 2 ^ 31" by simp
  then show "sint w = int (unat w)" using sint_word_small [of "uint w"] by simp
qed

lemma readi_run:
  fixes s :: "'z kfs_scheme"
  assumes ok: "readable_by me s" and p: "idev (inodes s i) = 1" "itype (inodes s i) \<noteq> T_DEV"
    and b: "has_blocks (seen s) (inodes s i) (unat (isize (inodes s i)))"
  shows "\<exists>t. readi dsw i off n s = Ret (read_result (seen s) (inodes s i) off n) t \<and> quiet me s t"
proof (cases "isize (inodes s i) < off \<or> off + n < off")
  case True
  then show ?thesis using p ok unfolding word_add_wraps
    by (auto simp: readi_def read_result_def word_add_wraps readable_by_def)
next
  case False
  let ?p = "inodes s i"
  let ?n = "if off + n > isize ?p then isize ?p - off else n"
  have w: "unat (off + n) = unat off + unat n" "unat off \<le> unat (isize ?p)"
    using False word_add_wraps [of off n] by (auto simp: unat_word_ariths word_less_nat_alt)
  have k: "unat ?n = min (unat n) (unat (isize ?p) - unat off)"
    using w by (auto simp: word_less_nat_alt unat_sub word_le_nat_alt)
  have le: "unat off + unat ?n \<le> unat (isize ?p)" using w(2) k by simp
  obtain t where t: "readi_loop i (unat off) (unat ?n) s =
      Ret (map (fbyte (seen s) ?p) [unat off..<unat off + unat ?n]) t" "quiet me s t"
    using readi_loop_run [OF ok p(1) b le] by blast
  have "unat ?n \<le> MAXFILE * BSIZE" using le b by (simp add: has_blocks_def)
  then have "unat ?n < 2 ^ 31" by (simp add: MAXFILE_def NDIRECT_def NINDIRECT_def BSIZE_def)
  then have sn: "sint ?n = int (unat ?n)" by (rule sint_unat_small)
  then show ?thesis
    using t False p k sn unfolding read_result_def
    by (simp add: readi_def word_add_wraps Let_def del: upt_Suc)
qed

section \<open>Reading directories\<close>

text \<open>\<open>cstr\<close> is the string in an array of DIRSIZ bytes that may lack a terminator.\<close>

definition cstr :: "(nat \<Rightarrow> u8) \<Rightarrow> u8 list" where
  "cstr f = takeWhile (\<lambda>c. c \<noteq> 0) (map f [0..<DIRSIZ])"

lemma strncmp_arr_zero:
  "strncmp_arr f g i n = 0 \<longleftrightarrow>
     takeWhile (\<lambda>c. c \<noteq> 0) (map f [i..<i + n]) = takeWhile (\<lambda>c. c \<noteq> 0) (map g [i..<i + n])"
proof (induction n arbitrary: i)
  case (Suc n)
  have u: "[i..<i + Suc n] = i # [Suc i..<Suc i + n]" by (simp add: upt_conv_Cons)
  show ?case unfolding u using Suc [of "Suc i"] by (auto simp: word_uint_eq_iff simp del: upt_Suc)
qed simp

lemma namecmp_cstr: "namecmp f g = 0 \<longleftrightarrow> cstr f = cstr g"
  using strncmp_arr_zero [of f g 0 DIRSIZ] by (simp add: namecmp_def cstr_def)

lemma cstr_carr: "0 \<notin> set xs \<Longrightarrow> cstr (carr xs) = take DIRSIZ xs"
proof -
  assume z: "0 \<notin> set xs"
  show ?thesis
  proof (cases "DIRSIZ \<le> length xs")
    case True
    then have "map (carr xs) [0..<DIRSIZ] = take DIRSIZ xs"
      by (intro nth_equalityI) (simp_all add: carr_def)
    moreover have "takeWhile (\<lambda>c. c \<noteq> 0) (take DIRSIZ xs) = take DIRSIZ xs"
      using z by (auto simp: takeWhile_eq_all_conv dest: in_set_takeD)
    ultimately show ?thesis by (simp add: cstr_def)
  next
    case False
    then have "map (carr xs) [0..<DIRSIZ] = xs @ 0 # replicate (DIRSIZ - length xs - 1) 0"
      by (intro nth_equalityI) (auto simp: carr_def nth_append nth_Cons')
    moreover have "takeWhile (\<lambda>c. c \<noteq> 0) (xs @ 0 # replicate (DIRSIZ - length xs - 1) 0) = xs"
      using z by (subst takeWhile_append2) auto
    ultimately show ?thesis using False by (simp add: cstr_def)
  qed
qed

text \<open>The entries of a directory: inode number and name.\<close>

definition dirent_at :: "(nat \<Rightarrow> block) \<Rightarrow> inode \<Rightarrow> nat \<Rightarrow> u8 list" where
  "dirent_at D p off = map (fbyte D p) [off..<off + DIRENT]"

definition dir_ok :: "(nat \<Rightarrow> block) \<Rightarrow> inode \<Rightarrow> bool" where
  "dir_ok D p \<longleftrightarrow> itype p = T_DIR \<and> unat (isize p) mod DIRENT = 0 \<and> has_blocks D p (unat (isize p))"

definition matches_entry :: "(nat \<Rightarrow> block) \<Rightarrow> inode \<Rightarrow> u8 list \<Rightarrow> nat \<Rightarrow> bool" where
  "matches_entry D p name off \<longleftrightarrow> de_inum (dirent_at D p off) \<noteq> 0 \<and>
     cstr (de_name (dirent_at D p off)) = cstr (carr name)"

text \<open>The abstract lookup: the offset and the number of the first entry in use with that name.\<close>

definition dir_find :: "(nat \<Rightarrow> block) \<Rightarrow> inode \<Rightarrow> u8 list \<Rightarrow> (nat \<times> u16) option" where
  "dir_find D p name =
     map_option (\<lambda>off. (off, de_inum (dirent_at D p off)))
       (find (matches_entry D p name) (dir_offsets (isize p)))"

lemma dir_offset_room:
  assumes "unat z mod DIRENT = 0" and "off \<in> set (dir_offsets z)"
  shows "off + DIRENT \<le> unat z" "off < unat z"
proof -
  have "off \<in> (\<lambda>k. k * DIRENT) ` {0..<(unat z + DIRENT - 1) div DIRENT}"
    using assms(2) by (simp add: dir_offsets_def)
  then obtain k where "off = k * DIRENT" "k \<in> {0..<(unat z + DIRENT - 1) div DIRENT}" by blast
  then have k: "off = k * DIRENT" "k < (unat z + DIRENT - 1) div DIRENT" by simp_all
  obtain q where q: "unat z = q * DIRENT" using assms(1) by (auto simp: DIRENT_def elim: dvdE)
  have "k < q" using k(2) unfolding q by (simp add: DIRENT_def)
  then show "off + DIRENT \<le> unat z" unfolding k(1) q
    by (metis Suc_leI add.commute mult_Suc mult_le_mono1)
  then show "off < unat z" by (simp add: DIRENT_def)
qed

lemma read_dirent_run:
  fixes s :: "'z kfs_scheme"
  assumes ok: "readable_by me s" and p: "idev (inodes s i) = 1" "dir_ok (seen s) (inodes s i)"
    and o: "off \<in> set (dir_offsets (isize (inodes s i)))"
  shows "\<exists>t. read_dirent dsw msg i off s = Ret (dirent_at (seen s) (inodes s i) off) t \<and> quiet me s t"
proof -
  let ?p = "inodes s i"
  have d: "itype ?p \<noteq> T_DEV" "has_blocks (seen s) ?p (unat (isize ?p))" "unat (isize ?p) mod DIRENT = 0"
    using p(2) by (simp_all add: dir_ok_def T_DIR_def T_DEV_def)
  note r = dir_offset_room [OF d(3) o]
  have u: "unat (of_nat off :: u32) = off" "unat (of_nat DIRENT :: u32) = DIRENT"
    using r(2) unat_u32_less [of "isize ?p"] by (simp_all add: unat_of_nat_small DIRENT_def)
  have c: "\<not> (isize ?p < of_nat off \<or> 2 ^ 32 \<le> unat (of_nat off :: u32) + unat (of_nat DIRENT :: u32))"
    unfolding u using r unat_u32_less [of "isize ?p"] u(1) by (auto simp: word_less_nat_alt)
  have "read_result (seen s) ?p (of_nat off) (of_nat DIRENT) = (int DIRENT, dirent_at (seen s) ?p off)"
    using c r(1) unfolding read_result_def u if_not_P [OF c [unfolded u]]
    by (simp add: Let_def dirent_at_def min_absorb1)
  then obtain t where "readi dsw i (of_nat off) (of_nat DIRENT) s = Ret (int DIRENT, dirent_at (seen s) ?p off) t" "quiet me s t"
    using readi_run [OF ok p(1) d(1,2), of dsw "of_nat off" "of_nat DIRENT"] by auto
  then show ?thesis by (simp add: read_dirent_def)
qed

lemma dirlookup_loop_run:
  fixes s :: "'z kfs_scheme"
  assumes "readable_by me s" and "idev (inodes s i) = 1" "dir_ok (seen s) (inodes s i)"
    and "set offs \<subseteq> set (dir_offsets (isize (inodes s i)))"
  shows "\<exists>t. quiet me s t \<and> dirlookup_loop dsw i name offs s =
    (case find (matches_entry (seen s) (inodes s i) name) offs of
       None \<Rightarrow> Ret None t
     | Some off \<Rightarrow> obind (iget 1 (ucast (de_inum (dirent_at (seen s) (inodes s i) off))) t)
         (\<lambda>j. ret (Some (j, of_nat off))))"
  using assms
proof (induction offs arbitrary: s)
  case Nil
  then show ?case by (intro exI [of _ s]) (simp add: readable_by_def)
next
  case (Cons off offs)
  obtain t where t: "read_dirent dsw ''dirlookup read'' i off s = Ret (dirent_at (seen s) (inodes s i) off) t" "quiet me s t"
    using read_dirent_run [OF Cons.prems(1-3), of off dsw "''dirlookup read''"] Cons.prems(4) by auto
  note q = quiet_frame [OF t(2)]
  show ?case
  proof (cases "matches_entry (seen s) (inodes s i) name off")
    case True
    then show ?thesis using t q Cons.prems(2)
      by (intro exI [of _ t]) (auto simp: matches_entry_def namecmp_cstr)
  next
    case False
    obtain u where u: "quiet me t u" "dirlookup_loop dsw i name offs t =
      (case find (matches_entry (seen t) (inodes t i) name) offs of
       None \<Rightarrow> Ret None u
     | Some off \<Rightarrow> obind (iget 1 (ucast (de_inum (dirent_at (seen t) (inodes t i) off))) u)
         (\<lambda>j. ret (Some (j, of_nat off))))"
      using Cons.IH [OF quiet_readable [OF Cons.prems(1) t(2)]] Cons.prems(2-4) q by auto
    have "de_inum (dirent_at (seen s) (inodes s i) off) \<noteq> 0 \<Longrightarrow>
        namecmp (carr name) (de_name (dirent_at (seen s) (inodes s i) off)) \<noteq> 0"
      using False by (auto simp: matches_entry_def namecmp_cstr)
    then show ?thesis using t(1) u(2) False quiet_trans [OF t(2) u(1)] unfolding q
      by (intro exI [of _ u]) auto
  qed
qed

lemma dirlookup_run:
  fixes s :: "'z kfs_scheme"
  assumes "readable_by me s" and "idev (inodes s i) = 1" "dir_ok (seen s) (inodes s i)"
  shows "\<exists>t. quiet me s t \<and> dirlookup dsw i name s =
    (case dir_find (seen s) (inodes s i) name of
       None \<Rightarrow> Ret None t
     | Some (off, n) \<Rightarrow> obind (iget 1 (ucast n) t) (\<lambda>j. ret (Some (j, of_nat off))))"
proof -
  obtain t where "quiet me s t" "dirlookup_loop dsw i name (dir_offsets (isize (inodes s i))) s =
    (case find (matches_entry (seen s) (inodes s i) name) (dir_offsets (isize (inodes s i))) of
       None \<Rightarrow> Ret None t
     | Some off \<Rightarrow> obind (iget 1 (ucast (de_inum (dirent_at (seen s) (inodes s i) off))) t)
         (\<lambda>j. ret (Some (j, of_nat off))))"
    using dirlookup_loop_run [OF assms order_refl] by blast
  then show ?thesis using assms(3)
    by (intro exI [of _ t]) (auto simp: dirlookup_def dir_ok_def dir_find_def split: option.split)
qed

end
