(* ===== verification/Fs_Path.thy ===== *)
theory Fs_Path
  imports Fs_Read
begin

section \<open>The inode cache and path names\<close>

subsection \<open>States of the inode cache\<close>

text \<open>
  \<open>inodes_ok L me s\<close>: the inode locks held are those of the entries \<open>L\<close>, held by process
  \<open>me\<close>; an entry in use is for the root device, no two are for the same inode, and one that is
  valid agrees with the inode on the disk as processes see it. \<open>refs s n\<close> counts the references
  to inode \<open>n\<close>.
\<close>

definition disk_inode :: "(nat \<Rightarrow> block) \<Rightarrow> superblock \<Rightarrow> u32 \<Rightarrow> dinode" where
  "disk_inode D sp n = get_dinode (D (IBLOCK sp n)) (dslot n)"

definition entry_ok :: "(nat \<Rightarrow> block) \<Rightarrow> superblock \<Rightarrow> inode \<Rightarrow> bool" where
  "entry_ok D sp p \<longleftrightarrow> 0 \<le> iref p \<and>
     (0 < iref p \<longrightarrow> idev p = 1 \<and> (ivalid p \<longrightarrow> to_dinode p = disk_inode D sp (inum p)))"

definition inodes_ok :: "nat set \<Rightarrow> nat \<Rightarrow> 'z kfs_scheme \<Rightarrow> bool" where
  "inodes_ok L me s \<longleftrightarrow>
     (\<forall>i<NINODE. entry_ok (seen s) (sb s) (inodes s i) \<and> sl_locked (slocks s (InodeSleep i)) = (i \<in> L)) \<and>
     (\<forall>i\<in>L. sl_pid (slocks s (InodeSleep i)) = pid (ptable s me)) \<and>
     (\<forall>i<NINODE. \<forall>j<NINODE. 0 < iref (inodes s i) \<and> 0 < iref (inodes s j) \<and>
        inum (inodes s i) = inum (inodes s j) \<longrightarrow> i = j)"

definition fs_at :: "nat set \<Rightarrow> nat \<Rightarrow> 'z kfs_scheme \<Rightarrow> bool" where
  "fs_at L me s \<longleftrightarrow> readable_by me s \<and> inodes_ok L me s"

definition refs :: "'z kfs_scheme \<Rightarrow> u32 \<Rightarrow> int" where
  "refs s n = (\<Sum>i<NINODE. if inum (inodes s i) = n then iref (inodes s i) else 0)"

definition in_use :: "'z kfs_scheme \<Rightarrow> nat set" where
  "in_use s = {i. i < NINODE \<and> 0 < iref (inodes s i)}"

text \<open>Nothing but the inode cache, the inode locks and the places of cached blocks has changed.\<close>

definition calm :: "nat \<Rightarrow> 'z kfs_scheme \<Rightarrow> 'z kfs_scheme \<Rightarrow> bool" where
  "calm me s t \<longleftrightarrow> cache_ok me {} t \<and> seen t = seen s \<and> disk t = disk s \<and> disk_writes t = disk_writes s \<and>
     dirties (bufs t) = dirties (bufs s) \<and> pins (bufs t) = pins (bufs s) \<and>
     outside t = outside (s\<lparr>inodes := inodes t\<rparr>) \<and> same_core (ptable s) (ptable t)"

lemma calm_frame:
  fixes s t :: "'z kfs_scheme"
  assumes "calm me s t"
  shows "sb t = sb s" "seen t = seen s" "cache_ok me {} t" "same_core (ptable s) (ptable t)"
proof -
  have o: "outside t = outside (s\<lparr>inodes := inodes t\<rparr>)" using assms by (simp add: calm_def)
  have e: "outside t m tb sl B q d r ws = outside (s\<lparr>inodes := inodes t\<rparr>) m tb sl B q d r ws" for m tb sl B q d r ws
    by (simp only: o)
  show "sb t = sb s" using arg_cong [OF e, of sb] by (simp add: outside_def)
  show "seen t = seen s" "cache_ok me {} t" "same_core (ptable s) (ptable t)" using assms by (simp_all add: calm_def)
qed

lemma outside_inodes:
  fixes s t :: "'z kfs_scheme"
  assumes "outside t = outside s"
  shows "outside (t\<lparr>inodes := x\<rparr>) = outside (s\<lparr>inodes := x\<rparr>)"
proof (intro ext)
  fix m tb sl B q d r ws
  have "inodes_update (\<lambda>_. x) (outside t m tb sl B q d r ws) = inodes_update (\<lambda>_. x) (outside s m tb sl B q d r ws)"
    by (simp only: assms)
  then show "outside (t\<lparr>inodes := x\<rparr>) m tb sl B q d r ws = outside (s\<lparr>inodes := x\<rparr>) m tb sl B q d r ws"
    by (simp add: outside_def)
qed

lemma calm_trans:
  fixes s t u :: "'z kfs_scheme"
  assumes "calm me s t" and "calm me t u"
  shows "calm me s u"
proof -
  have "outside (t\<lparr>inodes := inodes u\<rparr>) = outside (s\<lparr>inodes := inodes u\<rparr>)"
    using outside_inodes [of t "s\<lparr>inodes := inodes t\<rparr>" "inodes u"] assms(1) by (simp add: calm_def)
  then show ?thesis using assms by (auto simp: calm_def intro: same_core_trans)
qed

lemma quiet_calm:
  fixes s t :: "'z kfs_scheme"
  shows "quiet me s t \<Longrightarrow> calm me s t"
  using fs_frame(1) [of s t] by (simp add: quiet_def calm_def bframe_def)

lemma at_rest_inodes [simp]:
  fixes s :: "'z kfs_scheme"
  shows "at_rest p (s\<lparr>inodes := x\<rparr>) = at_rest p s" "cache_ok p H (s\<lparr>inodes := x\<rparr>) = cache_ok p H s"
    "seen (s\<lparr>inodes := x\<rparr>) = seen s" "readable_by p (s\<lparr>inodes := x\<rparr>) = readable_by p s"
  by (simp_all add: at_rest_def cache_ok_def locks_ok_def seen_def readable_by_def)

lemma fs_atD:
  assumes "fs_at L me s"
  shows "readable_by me s" "at_rest me s" "cache_ok me {} s" "inodes_ok L me s"
    "i < NINODE \<Longrightarrow> entry_ok (seen s) (sb s) (inodes s i)"
    "i < NINODE \<Longrightarrow> sl_locked (slocks s (InodeSleep i)) = (i \<in> L)"
    "i \<in> L \<Longrightarrow> sl_pid (slocks s (InodeSleep i)) = pid (ptable s me)"
    "i < NINODE \<Longrightarrow> j < NINODE \<Longrightarrow> 0 < iref (inodes s i) \<Longrightarrow> 0 < iref (inodes s j) \<Longrightarrow>
       inum (inodes s i) = inum (inodes s j) \<Longrightarrow> i = j"
  using assms by (auto simp: fs_at_def readable_by_def inodes_ok_def cache_ok_def locks_ok_def)

subsection \<open>Counting references\<close>

lemma refs_upd:
  fixes s :: "'z kfs_scheme"
  assumes "i < NINODE"
  shows "refs (s\<lparr>inodes := (inodes s)(i := p)\<rparr>) n =
    refs s n - (if inum (inodes s i) = n then iref (inodes s i) else 0) + (if inum p = n then iref p else 0)"
proof -
  have fin: "finite {..<NINODE}" and i: "i \<in> {..<NINODE}" using assms by simp_all
  have rest: "(\<Sum>j\<in>{..<NINODE} - {i}. if inum (((inodes s)(i := p)) j) = n then iref (((inodes s)(i := p)) j) else 0) =
    (\<Sum>j\<in>{..<NINODE} - {i}. if inum (inodes s j) = n then iref (inodes s j) else 0)"
    by (rule sum.cong) auto
  show ?thesis unfolding refs_def kfs.simps
    by (subst (1 2) sum.remove [OF fin i]) (use rest in \<open>simp cong: if_cong\<close>)
qed

lemma refs_pos:
  assumes "fs_at L me s" and "i \<in> in_use s"
  shows "0 < refs s (inum (inodes s i))"
proof -
  have i: "i < NINODE" "0 < iref (inodes s i)" using assms(2) by (simp_all add: in_use_def)
  have "iref (inodes s i) = (\<Sum>j\<in>{i}. if inum (inodes s j) = inum (inodes s i) then iref (inodes s j) else 0)" by simp
  also have "\<dots> \<le> refs s (inum (inodes s i))"
    unfolding refs_def using i(1) fs_atD(5) [OF assms(1)] by (intro sum_mono2) (auto simp: entry_ok_def)
  finally show ?thesis using i(2) by simp
qed

lemma card_in_use:
  assumes "fs_at L me s" and "{n. 0 < refs s n} \<subseteq> M" and "finite M"
  shows "card (in_use s) \<le> card M"
proof -
  have "inj_on (\<lambda>i. inum (inodes s i)) (in_use s)"
    using fs_atD(8) [OF assms(1)] by (auto simp: inj_on_def in_use_def)
  moreover have "(\<lambda>i. inum (inodes s i)) ` in_use s \<subseteq> M"
    using refs_pos [OF assms(1)] assms(2) by auto
  ultimately show ?thesis using assms(3) by (metis card_image card_mono)
qed

lemma free_entry:
  assumes "fs_at L me s" and "card (in_use s) < NINODE"
  shows "\<exists>i. find (\<lambda>i. iref (inodes s i) = 0) [0..<NINODE] = Some i"
proof (rule ccontr)
  assume "\<not> ?thesis"
  then have "iref (inodes s i) \<noteq> 0" if "i < NINODE" for i
    using that by (auto simp: find_None_iff)
  then have "in_use s = {..<NINODE}"
    using fs_atD(5) [OF assms(1)] by (force simp: in_use_def entry_ok_def)
  then show False using assms(2) by simp
qed

subsection \<open>iget, ilock, iunlockput\<close>

lemma calm_inodes:
  fixes s :: "'z kfs_scheme"
  assumes "cache_ok me {} s"
  shows "calm me s (s\<lparr>inodes := x\<rparr>)"
  using assms by (simp add: calm_def)

text \<open>A change of one entry that keeps it in order.\<close>

lemma fs_at_upd:
  fixes s :: "'z kfs_scheme"
  assumes "fs_at L me s" and "entry_ok (seen s) (sb s) p"
    and "\<And>j. j < NINODE \<Longrightarrow> j \<noteq> i \<Longrightarrow> 0 < iref (inodes s j) \<Longrightarrow> 0 < iref p \<Longrightarrow> inum (inodes s j) \<noteq> inum p"
  shows "fs_at L me (s\<lparr>inodes := (inodes s)(i := p)\<rparr>)"
  using assms by (auto simp: fs_at_def inodes_ok_def) blast

text \<open>The entry of inode \<open>n\<close> after one more reference to it.\<close>

definition has_ref :: "nat \<Rightarrow> u32 \<Rightarrow> 'z kfs_scheme \<Rightarrow> bool" where
  "has_ref i n s \<longleftrightarrow> i < NINODE \<and> 0 < iref (inodes s i) \<and> inum (inodes s i) = n"

lemma iget_run:
  fixes s :: "'z kfs_scheme"
  assumes fs: "fs_at L me s" and room: "card (in_use s) < NINODE"
  shows "\<exists>i p. iget 1 n s = Ret i (s\<lparr>inodes := (inodes s)(i := p)\<rparr>) \<and> has_ref i n (s\<lparr>inodes := (inodes s)(i := p)\<rparr>) \<and>
    fs_at L me (s\<lparr>inodes := (inodes s)(i := p)\<rparr>) \<and>
    refs (s\<lparr>inodes := (inodes s)(i := p)\<rparr>) = (refs s)(n := refs s n + 1) \<and>
    (0 < iref (inodes s i) \<longrightarrow> p = (inodes s i)\<lparr>iref := iref (inodes s i) + 1\<rparr>)"
proof -
  note ac = at_rest_acquire [OF fs_atD(2) [OF fs], of IcacheLock]
  have rel: "release IcacheLock (s\<lparr>mach := grab IcacheLock (mach s), inodes := x\<rparr>) = Ret () (s\<lparr>inodes := x\<rparr>)" for x
    using ac by simp
  let ?hit = "\<lambda>i. 0 < iref (inodes s i) \<and> idev (inodes s i) = 1 \<and> inum (inodes s i) = n"
  have run: "iget 1 n s = (case find ?hit [0..<NINODE] of
       Some i \<Rightarrow> Ret i (s\<lparr>inodes := (inodes s)(i := (inodes s i)\<lparr>iref := iref (inodes s i) + 1\<rparr>)\<rparr>)
     | None \<Rightarrow> (case find (\<lambda>i. iref (inodes s i) = 0) [0..<NINODE] of None \<Rightarrow> Panic ''iget: no inodes''
         | Some i \<Rightarrow> Ret i (s\<lparr>inodes := (inodes s)(i := (inodes s i)\<lparr>idev := 1, inum := n, iref := 1, ivalid := False\<rparr>)\<rparr>)))"
    using ac(1) rel by (auto simp: iget_def fun_upd_upd split: option.split)
  show ?thesis
  proof (cases "find ?hit [0..<NINODE]")
    case (Some i)
    then have i: "i < NINODE" "0 < iref (inodes s i)" "inum (inodes s i) = n" by (auto simp: find_Some_iff)
    let ?p = "(inodes s i)\<lparr>iref := iref (inodes s i) + 1\<rparr>"
    have "entry_ok (seen s) (sb s) ?p"
      using fs_atD(5) [OF fs i(1)] i(2) by (simp add: entry_ok_def to_dinode_def)
    then have "fs_at L me (s\<lparr>inodes := (inodes s)(i := ?p)\<rparr>)"
      using fs_atD(8) [OF fs] i by (intro fs_at_upd [OF fs]) auto
    then show ?thesis using run Some i
      by (intro exI [of _ i] exI [of _ ?p]) (auto simp: has_ref_def refs_upd)
  next
    case None
    obtain i where f: "find (\<lambda>i. iref (inodes s i) = 0) [0..<NINODE] = Some i"
      using free_entry [OF fs room] by blast
    then have i: "i < NINODE" "iref (inodes s i) = 0" by (auto simp: find_Some_iff)
    have nohit: "inum (inodes s j) \<noteq> n" if "j < NINODE" "0 < iref (inodes s j)" for j
      using None that fs_atD(5) [OF fs that(1)] by (auto simp: find_None_iff entry_ok_def)
    let ?p = "(inodes s i)\<lparr>idev := 1, inum := n, iref := 1, ivalid := False\<rparr>"
    have "fs_at L me (s\<lparr>inodes := (inodes s)(i := ?p)\<rparr>)"
      using nohit by (intro fs_at_upd [OF fs]) (auto simp: entry_ok_def)
    then show ?thesis using run None f i
      by (intro exI [of _ i] exI [of _ ?p]) (auto simp: has_ref_def refs_upd)
  qed
qed

lemma quiet_fs_at:
  fixes s t :: "'z kfs_scheme"
  assumes "quiet me s t" and "fs_at L me s"
  shows "fs_at L me t" "refs t = refs s" "in_use t = in_use s" "inodes t = inodes s"
proof -
  note f = quiet_frame [OF assms(1)]
  have "slocks t (InodeSleep i) = slocks s (InodeSleep i)" for i
    using assms(1) by (simp add: quiet_def bframe_def)
  moreover have "pid (ptable t me) = pid (ptable s me)"
    using assms(1) same_coreD(1) [of "ptable s" "ptable t"] by (simp add: quiet_def bframe_def)
  ultimately show "fs_at L me t"
    using assms quiet_readable [OF fs_atD(1) [OF assms(2)] assms(1)] f by (simp add: fs_at_def inodes_ok_def)
  show "refs t = refs s" "in_use t = in_use s" "inodes t = inodes s"
    by (simp_all add: refs_def in_use_def f(1) fun_eq_iff cong: if_cong)
qed

lemma bread_set_brelse:
  fixes s :: "'z kfs_scheme"
  assumes "readable_by me s" and "n < FSSIZE"
  shows "\<exists>b t. bread 1 n s = Ret b t \<and> bdata (bufs t b) = seen s n \<and> bframe s t \<and>
    (\<forall>x. \<exists>u. brelse b (t\<lparr>inodes := x\<rparr>) = Ret () u \<and> quiet me (s\<lparr>inodes := x\<rparr>) u)"
proof -
  have ok: "cache_ok me {} s" and room: "card ({} \<union> dirties (bufs s)) < NBUF"
    using assms(1) by (simp_all add: readable_by_def)
  obtain b t where t: "bread 1 n s = Ret b t" "cache_ok me (insert b {}) t" "bblockno (bufs t b) = n"
    "bdata (bufs t b) = seen s n" "seen t = seen s" "disk t = disk s" "bdirty (bufs t b) \<or> seen s n = disk s 1 n"
    "disk_writes t = disk_writes s" "bframe s t" "dirties (bufs t) = dirties (bufs s)" "pins (bufs t) = pins (bufs s)"
    using bread_run [OF ok _ assms(2) disjI2 [OF room]] by auto
  have "\<exists>u. brelse b (t\<lparr>inodes := x\<rparr>) = Ret () u \<and> quiet me (s\<lparr>inodes := x\<rparr>) u" for x
  proof -
    let ?t = "t\<lparr>inodes := x\<rparr>"
    have cl: "bdirty (bufs ?t b) \<or> bdata (bufs ?t b) = disk ?t 1 (bblockno (bufs ?t b))" using t by auto
    have ok': "cache_ok me (insert b {}) ?t" using t(2) by simp
    obtain u where u: "brelse b ?t = Ret () u" "cache_ok me ({b} - {b}) u" "seen u = seen ?t" "disk u = disk ?t"
      "disk_writes u = disk_writes ?t" "bframe ?t u" "dirties (bufs u) = dirties (bufs ?t)" "pins (bufs u) = pins (bufs ?t)"
      using brelse_run [OF ok' _ cl] by auto
    have "bframe (s\<lparr>inodes := x\<rparr>) ?t" using t(9) outside_inodes [of t s x] by (simp add: bframe_def)
    then have "quiet me (s\<lparr>inodes := x\<rparr>) u" using t u bframe_trans [OF _ u(6)] by (simp add: quiet_def)
    then show ?thesis using u(1) by blast
  qed
  then show ?thesis using t(1,4,9) by blast
qed

definition good_inode :: "(nat \<Rightarrow> block) \<Rightarrow> superblock \<Rightarrow> u32 \<Rightarrow> bool" where
  "good_inode D sp n \<longleftrightarrow> IBLOCK sp n < FSSIZE \<and> dtype (disk_inode D sp n) \<noteq> 0 \<and> dnlink (disk_inode D sp n) \<noteq> 0"

lemma inode_lock_state:
  fixes s :: "'z kfs_scheme"
  assumes "fs_at {} me s" and "i < NINODE"
  defines "t \<equiv> s\<lparr>slocks := (slocks s)(InodeSleep i := (slocks s (InodeSleep i))\<lparr>sl_locked := True, sl_pid := pid (ptable s me)\<rparr>)\<rparr>"
  shows "acquiresleep (InodeSleep i) s = Ret () t" "fs_at {i} me t" "calm me s t" "refs t = refs s"
proof -
  show "acquiresleep (InodeSleep i) s = Ret () t"
    using acquiresleep_run [OF fs_atD(2) [OF assms(1)]] fs_atD(6) [OF assms(1,2)] by (simp add: t_def)
  have ok: "cache_ok me {} t" using fs_atD(3) [OF assms(1)] by (simp add: t_def cache_ok_def locks_ok_def)
  then show "calm me s t" by (simp add: calm_def) (simp add: t_def seen_def outside_def fun_eq_iff)
  show "fs_at {i} me t"
    using assms(1,2) ok by (auto simp: fs_at_def inodes_ok_def readable_by_def) (auto simp: t_def seen_def split: if_splits)
  show "refs t = refs s" by (simp add: t_def refs_def fun_eq_iff cong: if_cong)
qed

lemma of_to_dinode: "to_dinode (of_dinode v p) = v"
  by (simp add: to_dinode_def of_dinode_def)

lemma of_dinode_fields [simp]:
  "idev (of_dinode v p) = idev p" "inum (of_dinode v p) = inum p" "iref (of_dinode v p) = iref p"
  "ivalid (of_dinode v p) = ivalid p" "itype (of_dinode v p) = dtype v" "nlink (of_dinode v p) = dnlink v"
  by (simp_all add: of_dinode_def)

lemma ilock_run:
  fixes s :: "'z kfs_scheme"
  assumes fs: "fs_at {} me s" and i: "has_ref i n s" and g: "good_inode (seen s) (sb s) n"
  shows "\<exists>t. ilock i s = Ret () t \<and> fs_at {i} me t \<and> calm me s t \<and> refs t = refs s \<and> has_ref i n t \<and>
    ivalid (inodes t i) \<and> to_dinode (inodes t i) = disk_inode (seen s) (sb s) n"
proof -
  have i': "i < NINODE" "0 < iref (inodes s i)" "inum (inodes s i) = n" using i by (simp_all add: has_ref_def)
  have e: "idev (inodes s i) = 1" "ivalid (inodes s i) \<Longrightarrow> to_dinode (inodes s i) = disk_inode (seen s) (sb s) n"
    using fs_atD(5) [OF fs i'(1)] i' by (simp_all add: entry_ok_def)
  define s1 where "s1 = s\<lparr>slocks := (slocks s)(InodeSleep i := (slocks s (InodeSleep i))\<lparr>sl_locked := True, sl_pid := pid (ptable s me)\<rparr>)\<rparr>"
  note L = inode_lock_state [OF fs i'(1), folded s1_def]
  have same: "inodes s1 = inodes s" "seen s1 = seen s" "sb s1 = sb s"
    using calm_frame [OF L(3)] by (simp_all add: s1_def)
  have run: "ilock i s = ilock_load i s1" using L(1) i'(2) by (simp add: ilock_def)
  show ?thesis
  proof (cases "ivalid (inodes s i)")
    case True
    then show ?thesis using run L e same i
      by (intro exI [of _ s1]) (simp add: ilock_load_def has_ref_def)
  next
    case False
    let ?v = "disk_inode (seen s) (sb s) n"
    let ?x = "(inodes s)(i := of_dinode ?v (inodes s i))"
    have nb: "IBLOCK (sb s) n < FSSIZE" "dtype ?v \<noteq> 0" using g by (simp_all add: good_inode_def)
    obtain b t where t: "bread 1 (IBLOCK (sb s) n) s1 = Ret b t" "bdata (bufs t b) = seen s1 (IBLOCK (sb s) n)"
      "bframe s1 t" "\<And>x. \<exists>u. brelse b (t\<lparr>inodes := x\<rparr>) = Ret () u \<and> quiet me (s1\<lparr>inodes := x\<rparr>) u"
      using bread_set_brelse [OF fs_atD(1) [OF L(2)] nb(1)] by blast
    have it: "inodes t = inodes s" using fs_frame(1) [OF t(3)] same by simp
    obtain u where u: "brelse b (t\<lparr>inodes := ?x\<rparr>) = Ret () u" "quiet me (s1\<lparr>inodes := ?x\<rparr>) u"
      using t(4) by blast
    have iu: "inodes u = ?x" using quiet_frame [OF u(2)] by simp
    let ?p = "(of_dinode ?v (inodes s i))\<lparr>ivalid := True\<rparr>"
    let ?w = "u\<lparr>inodes := (inodes u)(i := ?p)\<rparr>"
    have ld: "ilock_load i s1 = Ret () ?w"
      using False same t(1,2) it e(1) i'(3) u(1) iu nb(2)
      by (simp add: ilock_load_def disk_inode_def fun_upd_upd del: One_nat_def fun_upd_apply) simp
    have c1: "fs_at {i} me (s1\<lparr>inodes := ?x\<rparr>)"
      using False fs_atD(5) [OF fs i'(1)] fs_atD(8) [OF fs] i' same
      by (intro fs_at_upd [OF L(2), simplified same]) (auto simp: entry_ok_def)
    note c2 = quiet_fs_at [OF u(2) c1]
    have c3: "fs_at {i} me ?w"
      using fs_atD(5) [OF fs i'(1)] fs_atD(8) [OF fs] i' quiet_frame [OF u(2)] same iu
      by (intro fs_at_upd [OF c2(1)]) (auto simp: entry_ok_def to_dinode_def of_dinode_def)
    have c4: "calm me s ?w"
      using calm_trans [OF L(3)] calm_trans [OF calm_inodes [OF fs_atD(3) [OF L(2)]]]
        calm_trans [OF quiet_calm [OF u(2)]] calm_inodes [OF fs_atD(3) [OF c2(1)]] by blast
    have r1: "refs (s1\<lparr>inodes := ?x\<rparr>) = refs s"
      using refs_upd [OF i'(1), of s1 "of_dinode ?v (inodes s i)"] L(4) same by (auto simp: fun_eq_iff)
    have "refs ?w = refs s"
      by (rule ext) (simp add: refs_upd [OF i'(1)] c2(2) r1, simp add: iu)
    then show ?thesis using run ld c3 c4 i'
      by (intro exI [of _ ?w]) (simp add: has_ref_def of_to_dinode, simp add: to_dinode_def of_dinode_def)
  qed
qed

lemma inode_unlock:
  fixes s :: "'z kfs_scheme"
  assumes fs: "fs_at {i} me s" and i: "i < NINODE"
  shows "\<exists>t. releasesleep (InodeSleep i) s = Ret () t \<and> fs_at {} me t \<and> calm me s t \<and> inodes t = inodes s \<and> refs t = refs s"
proof -
  define t where "t = s\<lparr>ptable := wake_all (Some (ChanSleep (InodeSleep i))) (ptable s),
    slocks := (slocks s)(InodeSleep i := (slocks s (InodeSleep i))\<lparr>sl_locked := False, sl_pid := 0\<rparr>)\<rparr>"
  have same: "inodes t = inodes s" "sb t = sb s" "bufs t = bufs s" "disk t = disk s" "disk_writes t = disk_writes s"
    by (simp_all add: t_def)
  have ok: "cache_ok me {} t"
    using fs_atD(3) [OF fs] by (simp add: t_def cache_ok_def locks_ok_def at_rest_def)
  have "fs_at {} me t"
    using fs ok by (auto simp: fs_at_def inodes_ok_def readable_by_def same seen_def)
      (auto simp: t_def split: if_splits)
  moreover have "calm me s t"
    using ok same by (simp add: calm_def seen_def) (simp add: t_def fun_eq_iff)
  moreover have "refs t = refs s" by (simp add: refs_def same(1) fun_eq_iff cong: if_cong)
  ultimately show ?thesis
    using releasesleep_run [OF fs_atD(2) [OF fs], of "InodeSleep i"] same(1) by (auto simp: t_def [symmetric])
qed

text \<open>The last reference to an inode with links goes without touching the disk.\<close>

lemma iput_run:
  fixes s :: "'z kfs_scheme"
  assumes fs: "fs_at {} me s" and i: "has_ref i n s" and k: "ivalid (inodes s i) \<Longrightarrow> nlink (inodes s i) \<noteq> 0"
  shows "\<exists>t. iput i s = Ret () t \<and> fs_at {} me t \<and> calm me s t \<and> refs t = (refs s)(n := refs s n - 1) \<and>
    inodes t = (inodes s)(i := (inodes s i)\<lparr>iref := iref (inodes s i) - 1\<rparr>)"
proof -
  have i': "i < NINODE" "0 < iref (inodes s i)" "inum (inodes s i) = n" using i by (simp_all add: has_ref_def)
  obtain s1 where L: "acquiresleep (InodeSleep i) s = Ret () s1" "fs_at {i} me s1" "calm me s s1" "refs s1 = refs s" "inodes s1 = inodes s"
    using inode_lock_state [OF fs i'(1)] by fastforce
  obtain s2 where U: "releasesleep (InodeSleep i) s1 = Ret () s2" "fs_at {} me s2" "calm me s1 s2" "inodes s2 = inodes s1" "refs s2 = refs s1"
    using inode_unlock [OF L(2) i'(1)] by blast
  have nk: "\<not> (ivalid (inodes s i) \<and> nlink (inodes s i) = 0)" using k by blast
  note c = calm_trans [OF L(3) U(3)]
  let ?p = "(inodes s i)\<lparr>iref := iref (inodes s i) - 1\<rparr>"
  let ?t = "s2\<lparr>inodes := (inodes s2)(i := ?p)\<rparr>"
  have "iput i s = Ret () ?t"
    using L(1,5) U(1,4) nk at_rest_acquire [OF fs_atD(2) [OF U(2)], of IcacheLock]
    by (auto simp: iput_def iput_locked_def)
  moreover have "fs_at {} me ?t"
    using fs_atD(5) [OF fs i'(1)] fs_atD(8) [OF fs] i' L(5) U(4) calm_frame [OF c]
    by (intro fs_at_upd [OF U(2)]) (auto simp: entry_ok_def to_dinode_def)
  moreover have "refs ?t = (refs s)(n := refs s n - 1)"
    by (rule ext) (simp add: refs_upd [OF i'(1)] U(5) L(4), simp add: U(4) L(5) i'(3))
  moreover have "inodes ?t = (inodes s)(i := ?p)" using U(4) L(5) by simp
  ultimately show ?thesis using calm_trans [OF c calm_inodes [OF fs_atD(3) [OF U(2)]]] by blast
qed

lemma iunlockput_run:
  fixes s :: "'z kfs_scheme"
  assumes fs: "fs_at {i} me s" and i: "has_ref i n s" and k: "nlink (inodes s i) \<noteq> 0"
  shows "\<exists>t. iunlockput i s = Ret () t \<and> fs_at {} me t \<and> calm me s t \<and> refs t = (refs s)(n := refs s n - 1) \<and>
    inodes t = (inodes s)(i := (inodes s i)\<lparr>iref := iref (inodes s i) - 1\<rparr>)"
proof -
  have i': "i < NINODE" "0 < iref (inodes s i)" using i by (simp_all add: has_ref_def)
  obtain u where U: "releasesleep (InodeSleep i) s = Ret () u" "fs_at {} me u" "calm me s u" "inodes u = inodes s" "refs u = refs s"
    using inode_unlock [OF fs i'(1)] by blast
  have h: "holdingsleep (InodeSleep i) s = Ret True s"
    using holdingsleep_run [OF fs_atD(2) [OF fs]] fs_atD(6) [OF fs i'(1)] fs_atD(7) [OF fs]
    by (simp add: slheld_def)
  have "has_ref i n u" using i U(4) by (simp add: has_ref_def)
  then obtain t where t: "iput i u = Ret () t" "fs_at {} me t" "calm me u t" "refs t = (refs u)(n := refs u n - 1)"
    "inodes t = (inodes u)(i := (inodes u i)\<lparr>iref := iref (inodes u i) - 1\<rparr>)"
    using iput_run [OF U(2)] k U(4) by metis
  show ?thesis using h i'(2) U t calm_trans [OF U(3) t(3)]
    by (intro exI [of _ t]) (simp add: iunlockput_def iunlock_def)
qed

subsection \<open>Path names\<close>

text \<open>The names that successive calls of skipelem give.\<close>

function elems :: "u8 list \<Rightarrow> u8 list list" where
  "elems path = (case skipelem path of None \<Rightarrow> [] | Some (name, rest) \<Rightarrow> name # elems rest)"
  by pat_completeness auto
termination by (relation "measure length") (auto dest: skipelem_shorter)

declare elems.simps [simp del]

text \<open>The inode that a list of names leads to from inode \<open>n\<close>, by the contents of the disk alone.\<close>

definition blank_inode :: inode where
  "blank_inode = \<lparr>idev = 1, inum = 0, iref = 0, ivalid = False, itype = 0, major = 0, minor = 0, nlink = 0,
     isize = 0, addrs = (\<lambda>_. 0)\<rparr>"

definition dfind :: "(nat \<Rightarrow> block) \<Rightarrow> dinode \<Rightarrow> u8 list \<Rightarrow> (nat \<times> u16) option" where
  "dfind D v = dir_find D (of_dinode v blank_inode)"

fun resolve :: "(nat \<Rightarrow> block) \<Rightarrow> superblock \<Rightarrow> u32 \<Rightarrow> u8 list list \<Rightarrow> u32 option" where
  "resolve D sp n [] = Some n"
| "resolve D sp n (c # cs) =
     (if dtype (disk_inode D sp n) \<noteq> T_DIR then None
      else case dfind D (disk_inode D sp n) c of None \<Rightarrow> None | Some (_, m) \<Rightarrow> resolve D sp (ucast m) cs)"

text \<open>The inodes that have to be read on the way are intact.\<close>

fun path_ok :: "(nat \<Rightarrow> block) \<Rightarrow> superblock \<Rightarrow> u32 \<Rightarrow> u8 list list \<Rightarrow> bool" where
  "path_ok D sp n [] \<longleftrightarrow> True"
| "path_ok D sp n (c # cs) \<longleftrightarrow> good_inode D sp n \<and>
     (dtype (disk_inode D sp n) = T_DIR \<longrightarrow>
        dir_ok D (of_dinode (disk_inode D sp n) blank_inode) \<and>
        (case dfind D (disk_inode D sp n) c of None \<Rightarrow> True | Some (_, m) \<Rightarrow> path_ok D sp (ucast m) cs))"

lemma dir_by_dinode:
  assumes "to_dinode p = v"
  shows "dir_find D p = dfind D v" "dir_ok D p = dir_ok D (of_dinode v blank_inode)" "itype p = dtype v" "nlink p = dnlink v"
proof -
  let ?q = "of_dinode v blank_inode"
  have f: "isize ?q = isize p" "addrs ?q = addrs p" "dtype v = itype p"
    using assms by (auto simp: to_dinode_def of_dinode_def)
  have m: "mapped D ?q = mapped D p" by (simp add: mapped_def f(2) fun_eq_iff)
  then have b: "fbyte D ?q = fbyte D p" by (simp add: fbyte_def fun_eq_iff)
  have e: "matches_entry D ?q = matches_entry D p" "dirent_at D ?q = dirent_at D p"
    by (simp_all add: matches_entry_def dirent_at_def b fun_eq_iff)
  show "dir_find D p = dfind D v"
    by (simp add: dfind_def dir_find_def e f(1) fun_eq_iff)
  show "dir_ok D p = dir_ok D ?q" by (simp add: dir_ok_def has_blocks_def m f)
  show "itype p = dtype v" "nlink p = dnlink v" using assms by (auto simp: to_dinode_def)
qed

text \<open>What namex gives: \<open>R\<close> counts the references before the one it starts with.\<close>

definition walked :: "nat \<Rightarrow> (u32 \<Rightarrow> int) \<Rightarrow> u32 option \<Rightarrow> ((nat \<times> u8 list) option, 'z kfs_scheme) outcome \<Rightarrow> 'z kfs_scheme \<Rightarrow> bool" where
  "walked me R r res t \<longleftrightarrow> fs_at {} me t \<and>
     (case r of None \<Rightarrow> res = Ret None t \<and> refs t = R
      | Some m \<Rightarrow> \<exists>j nm. res = Ret (Some (j, nm)) t \<and> has_ref j m t \<and> refs t = R(m := R m + 1))"

lemma in_use_room:
  assumes "fs_at L me s" and "refs s = R(n := R n + 1)" and "finite {m. 0 < R m}" and "card {m. 0 < R m} + 2 \<le> NINODE"
  shows "card (in_use s) < NINODE"
proof -
  have "card (in_use s) \<le> card (insert n {m. 0 < R m})"
    using assms(2,3) by (intro card_in_use [OF assms(1)]) auto
  also have "\<dots> \<le> Suc (card {m. 0 < R m})" using assms(3) by (simp add: card_insert_if)
  finally show ?thesis using assms(4) by simp
qed

text \<open>One directory of the walk, entered with its lock free: its entry is looked up and it is put back.\<close>

lemma walk_step:
  fixes s :: "'z kfs_scheme"
  assumes fs: "fs_at {} me s" and i: "has_ref i n s" and R: "refs s = R(n := R n + 1)"
    and fin: "finite {m. 0 < R m}" "card {m. 0 < R m} + 2 \<le> NINODE"
    and g: "good_inode (seen s) (sb s) n" and v: "v = disk_inode (seen s) (sb s) n"
  shows "\<exists>u. ilock i s = Ret () u \<and> itype (inodes u i) = dtype v \<and> calm me s u \<and>
    (\<exists>t. iunlockput i u = Ret () t \<and> fs_at {} me t \<and> calm me s t \<and> refs t = R) \<and>
    (dir_ok (seen s) (of_dinode v blank_inode) \<longrightarrow>
      (case dfind (seen s) v name of
         None \<Rightarrow> \<exists>u' t. dirlookup dsw i name u = Ret None u' \<and> iunlockput i u' = Ret () t \<and> fs_at {} me t \<and> calm me s t \<and> refs t = R
       | Some (off, m) \<Rightarrow> \<exists>j u' t. dirlookup dsw i name u = Ret (Some (j, of_nat off)) u' \<and> iunlockput i u' = Ret () t \<and>
           fs_at {} me t \<and> calm me s t \<and> has_ref j (ucast m) t \<and> refs t = R(ucast m := R (ucast m) + 1)))"
proof -
  obtain u where u: "ilock i s = Ret () u" "fs_at {i} me u" "calm me s u" "refs u = refs s" "has_ref i n u"
    "ivalid (inodes u i)" "to_dinode (inodes u i) = v"
    using ilock_run [OF fs i g] v by blast
  note dv = dir_by_dinode [OF u(7)]
  note fu = calm_frame [OF u(3)]
  have nl: "nlink (inodes u i) \<noteq> 0" using g dv(4) v by (simp add: good_inode_def)
  have Rn: "(refs s)(n := refs s n - 1) = R" using R by auto
  have iu: "i < NINODE" "0 < iref (inodes u i)" "inum (inodes u i) = n" using u(5) by (simp_all add: has_ref_def)
  have dev: "idev (inodes u i) = 1" using fs_atD(5) [OF u(2) iu(1)] iu(2) by (simp add: entry_ok_def)
  have A: "\<exists>t. iunlockput i u' = Ret () t \<and> fs_at {} me t \<and> calm me s t \<and> refs t = R" if "quiet me u u'" for u'
  proof -
    note q = quiet_fs_at [OF that u(2)]
    have "has_ref i n u'" "nlink (inodes u' i) \<noteq> 0" using u(5) nl q(4) by (simp_all add: has_ref_def)
    from iunlockput_run [OF q(1) this] show ?thesis
      using calm_trans [OF calm_trans [OF u(3) quiet_calm [OF that]]] q(2) u(4) Rn by metis
  qed
  have B: "case dfind (seen s) v name of
         None \<Rightarrow> \<exists>u' t. dirlookup dsw i name u = Ret None u' \<and> iunlockput i u' = Ret () t \<and> fs_at {} me t \<and> calm me s t \<and> refs t = R
       | Some (off, m) \<Rightarrow> \<exists>j u' t. dirlookup dsw i name u = Ret (Some (j, of_nat off)) u' \<and> iunlockput i u' = Ret () t \<and>
           fs_at {} me t \<and> calm me s t \<and> has_ref j (ucast m) t \<and> refs t = R(ucast m := R (ucast m) + 1)"
    if d: "dir_ok (seen s) (of_dinode v blank_inode)"
  proof -
    have "dir_ok (seen u) (inodes u i)" using d dv(2) fu(2) by simp
    then obtain w where w: "quiet me u w" "dirlookup dsw i name u = (case dfind (seen s) v name of
       None \<Rightarrow> Ret None w | Some (off, m) \<Rightarrow> obind (iget 1 (ucast m) w) (\<lambda>j. ret (Some (j, of_nat off))))"
      using dirlookup_run [OF fs_atD(1) [OF u(2)] dev, of dsw name] dv(1) fu(2) by auto
    show ?thesis
    proof (cases "dfind (seen s) v name")
      case None
      then show ?thesis using w(2) A [OF w(1)] by auto
    next
      case (Some om)
      obtain off m where om: "om = (off, m)" by (cases om)
      note q = quiet_fs_at [OF w(1) u(2)]
      have "card (in_use w) < NINODE" using in_use_room [OF u(2) _ fin] u(4) R q(3) by simp
      from iget_run [OF q(1) this, of "ucast m"] obtain j p x where x: "iget 1 (ucast m) w = Ret j x"
        "x = w\<lparr>inodes := (inodes w)(j := p)\<rparr>" "has_ref j (ucast m) x" "fs_at {i} me x"
        "refs x = (refs w)(ucast m := refs w (ucast m) + 1)"
        "0 < iref (inodes w j) \<longrightarrow> p = (inodes w j)\<lparr>iref := iref (inodes w j) + 1\<rparr>" by blast
      have xi: "has_ref i n x" "nlink (inodes x i) \<noteq> 0" "j = i \<Longrightarrow> iref (inodes x i) = iref (inodes u i) + 1"
        using x(2,6) q(4) iu nl by (auto simp: has_ref_def)
      obtain t where t: "iunlockput i x = Ret () t" "fs_at {} me t" "calm me x t" "refs t = (refs x)(n := refs x n - 1)"
        "inodes t = (inodes x)(i := (inodes x i)\<lparr>iref := iref (inodes x i) - 1\<rparr>)"
        using iunlockput_run [OF x(4) xi(1,2)] by blast
      have "has_ref j (ucast m) t"
        using x(3) xi(3) t(5) iu(2) by (auto simp: has_ref_def)
      moreover have "refs t = R(ucast m := R (ucast m) + 1)"
        using t(4) x(5) q(2) u(4) R by (auto simp: fun_eq_iff)
      moreover have "calm me s t"
        using calm_trans [OF calm_trans [OF u(3) quiet_calm [OF w(1)]]] calm_trans [OF calm_inodes [OF fs_atD(3) [OF q(1)]]] t(3) x(2)
        by metis
      ultimately show ?thesis using Some om w(2) x(1) t(1,2) by auto
    qed
  qed
  show ?thesis using u(1,3) dv(3) A [of u] B fs_atD(3) [OF u(2)] by auto
qed

lemma elems_skip:
  "skipelem path = None \<Longrightarrow> elems path = []"
  "skipelem path = Some (name, rest) \<Longrightarrow> elems path = name # elems rest"
  by (simp_all add: elems.simps)

lemma namex_loop_run:
  fixes s :: "'z kfs_scheme"
  assumes "fs_at {} me s" and "has_ref i n s" and "refs s = R(n := R n + 1)"
    and "finite {m. 0 < R m}" and "card {m. 0 < R m} + 2 \<le> NINODE" and "path_ok (seen s) (sb s) n (elems path)"
  shows "\<exists>t. calm me s t \<and> walked me R (resolve (seen s) (sb s) n (elems path)) (namex_loop dsw False i path nm s) t"
  using assms
proof (induction path arbitrary: s i n nm rule: elems.induct)
  case (1 path)
  show ?case
  proof (cases "skipelem path")
    case None
    then show ?thesis using "1.prems" calm_inodes [OF fs_atD(3) [OF "1.prems"(1)], of "inodes s"]
      by (intro exI [of _ s]) (simp add: elems_skip namex_loop.simps walked_def fun_upd_def)
  next
    case (Some q)
    obtain name rest where q: "q = (name, rest)" by (cases q)
    let ?D = "seen s" and ?sp = "sb s"
    define v where "v = disk_inode ?D ?sp n"
    note e = elems_skip(2) [OF Some [unfolded q]]
    have g: "good_inode ?D ?sp n" using "1.prems"(6) e by simp
    obtain u where u: "ilock i s = Ret () u" "itype (inodes u i) = dtype v"
      "\<exists>t. iunlockput i u = Ret () t \<and> fs_at {} me t \<and> calm me s t \<and> refs t = R"
      "dir_ok ?D (of_dinode v blank_inode) \<longrightarrow>
      (case dfind ?D v name of
         None \<Rightarrow> \<exists>u' t. dirlookup dsw i name u = Ret None u' \<and> iunlockput i u' = Ret () t \<and> fs_at {} me t \<and> calm me s t \<and> refs t = R
       | Some (off, m) \<Rightarrow> \<exists>j u' t. dirlookup dsw i name u = Ret (Some (j, of_nat off)) u' \<and> iunlockput i u' = Ret () t \<and>
           fs_at {} me t \<and> calm me s t \<and> has_ref j (ucast m) t \<and> refs t = R(ucast m := R (ucast m) + 1))"
      using walk_step [OF "1.prems"(1-5) g v_def] by blast
    note step = namex_loop.simps [of dsw False i path nm]
    show ?thesis
    proof (cases "dtype v = T_DIR")
      case False
      then show ?thesis using u(1-3) Some q e by (auto simp: step walked_def v_def)
    next
      case True
      then have p: "dir_ok ?D (of_dinode v blank_inode)"
        "case dfind ?D v name of None \<Rightarrow> True | Some (_, m) \<Rightarrow> path_ok ?D ?sp (ucast m) (elems rest)"
        using "1.prems"(6) e v_def by simp_all
      show ?thesis
      proof (cases "dfind ?D v name")
        case None
        then show ?thesis using u(1,2,4) p(1) Some q e True by (auto simp: step walked_def v_def)
      next
        case f: (Some om)
        obtain off m where om: "om = (off, m)" by (cases om)
        obtain j u' t where t: "dirlookup dsw i name u = Ret (Some (j, of_nat off)) u'" "iunlockput i u' = Ret () t"
          "fs_at {} me t" "calm me s t" "has_ref j (ucast m) t" "refs t = R(ucast m := R (ucast m) + 1)"
          using u(4) p(1) f om by auto
        note c = calm_frame [OF t(4)]
        obtain w where w: "calm me t w"
          "walked me R (resolve (seen t) (sb t) (ucast m) (elems rest)) (namex_loop dsw False j rest name t) w"
          using "1.IH" [OF Some q [symmetric] t(3,5,6) "1.prems"(4,5)] p(2) f om c by auto
        have "namex_loop dsw False i path nm s = namex_loop dsw False j rest name t"
          using u(1,2) t(1,2) Some q True by (simp add: step)
        moreover have "resolve ?D ?sp n (elems path) = resolve ?D ?sp (ucast m) (elems rest)"
          using e f om True by (simp add: v_def)
        ultimately show ?thesis using w(2) c calm_trans [OF t(4) w(1)] by (intro exI [of _ w]) simp
      qed
    qed
  qed
qed

lemma finite_refs: "finite {m. 0 < refs s m}"
proof (rule finite_subset)
  show "{m. 0 < refs s m} \<subseteq> (\<lambda>i. inum (inodes s i)) ` {..<NINODE}"
  proof (rule subsetI, rule ccontr)
    fix m assume m: "m \<in> {m. 0 < refs s m}" "m \<notin> (\<lambda>i. inum (inodes s i)) ` {..<NINODE}"
    then have "refs s m = 0" unfolding refs_def by (intro sum.neutral) auto
    then show False using m(1) by simp
  qed
qed simp

lemma idup_run:
  fixes s :: "'z kfs_scheme"
  assumes fs: "fs_at {} me s" and i: "has_ref i n s"
  shows "\<exists>t. idup i s = Ret i t \<and> fs_at {} me t \<and> calm me s t \<and> has_ref i n t \<and> refs t = (refs s)(n := refs s n + 1)"
proof -
  have i': "i < NINODE" "0 < iref (inodes s i)" "inum (inodes s i) = n" using i by (simp_all add: has_ref_def)
  let ?p = "(inodes s i)\<lparr>iref := iref (inodes s i) + 1\<rparr>"
  let ?t = "s\<lparr>inodes := (inodes s)(i := ?p)\<rparr>"
  have "idup i s = Ret i ?t"
    using at_rest_acquire [OF fs_atD(2) [OF fs], of IcacheLock] by (simp add: idup_def)
  moreover have "fs_at {} me ?t"
    using fs_atD(5) [OF fs i'(1)] fs_atD(8) [OF fs] i'
    by (intro fs_at_upd [OF fs]) (auto simp: entry_ok_def to_dinode_def)
  moreover have "refs ?t = (refs s)(n := refs s n + 1)"
    by (rule ext) (simp add: refs_upd [OF i'(1)] i'(3))
  ultimately show ?thesis using calm_inodes [OF fs_atD(3) [OF fs]] i' by (auto simp: has_ref_def)
qed

definition start_of :: "u8 list \<Rightarrow> u32 \<Rightarrow> u32" where
  "start_of path n = (if path \<noteq> [] \<and> hd path = SLASH then ROOTINO else n)"

text \<open>Claim C5. namei finds what the disk says, and leaks no reference. In a state of the file system
  with two entries of the inode cache to spare, and with the directories on the way intact, namei
  gives the inode that the names of the path lead to from the root, or from the current directory;
  it then holds one reference more to that inode and to no other; if some name is missing or
  some inode on the way is no directory, it gives null and every count is as before.
  The blocks, the disk and everything outside the inode cache are left alone.\<close>

theorem namei_resolves:
  fixes s :: "'z kfs_scheme"
  assumes "fs_at {} me s" and "card {m. 0 < refs s m} + 2 \<le> NINODE"
    and "cwd (ptable s me) = Some c" and "has_ref c n s"
    and "path_ok (seen s) (sb s) (start_of path n) (elems path)"
  shows "\<exists>t. calm me s t \<and> fs_at {} me t \<and>
    (case resolve (seen s) (sb s) (start_of path n) (elems path) of
       None \<Rightarrow> namei dsw path s = Ret None t \<and> refs t = refs s
     | Some m \<Rightarrow> \<exists>j. namei dsw path s = Ret (Some j) t \<and> has_ref j m t \<and> refs t = (refs s)(m := refs s m + 1))"
proof -
  let ?n = "start_of path n"
  have cur: "my_cwd s = Ret c s"
    using fs_atD(2) [OF assms(1)] assms(3) self_run [of s me] by (simp add: my_cwd_def at_rest_def need_def)
  have room: "card (in_use s) < NINODE"
    using card_in_use [OF assms(1) order_refl finite_refs] assms(2) by simp
  obtain i u where u: "(if path \<noteq> [] \<and> hd path = SLASH then iget ROOTDEV ROOTINO else bnd my_cwd idup) s = Ret i u"
    "fs_at {} me u" "calm me s u" "has_ref i ?n u" "refs u = (refs s)(?n := refs s ?n + 1)"
  proof (cases "path \<noteq> [] \<and> hd path = SLASH")
    case True
    with iget_run [OF assms(1) room, of ROOTINO] that show thesis
      using calm_inodes [OF fs_atD(3) [OF assms(1)]] by (auto simp: start_of_def ROOTDEV_def)
  next
    case False
    with idup_run [OF assms(1,4)] cur that show thesis by (auto simp: start_of_def)
  qed
  note f = calm_frame [OF u(3)]
  obtain t where t: "calm me u t" "walked me (refs s) (resolve (seen s) (sb s) ?n (elems path)) (namex_loop dsw False i path [] u) t"
    using namex_loop_run [OF u(2,4,5) finite_refs assms(2), of path dsw "[]"] assms(5) f by auto
  have "namei dsw path s = obind (namex_loop dsw False i path [] u) (\<lambda>r. ret (map_option fst r))"
    using u(1) by (simp add: namei_def namex_def)
  then show ?thesis
    using t(2) calm_trans [OF u(3) t(1)] unfolding walked_def
    by (intro exI [of _ t]) (auto split: option.splits)
qed

subsection \<open>Inodes in a block\<close>

lemma get16_put16: "get16 (put16 d i v) i = v"
proof -
  have "get16 (put16 d i v) i = ucast (ucast v :: u8) OR push_bit 8 (ucast (ucast (drop_bit 8 v) :: u8))"
    by (simp add: get16_def put16_def)
  also have "\<dots> = v" by (intro bit_word_eqI) (auto simp: bit_simps)
  finally show ?thesis .
qed

lemma get16_other: "j + 2 \<le> i \<or> i + 2 \<le> j \<Longrightarrow> get16 (put16 d i v) j = get16 d j"
  by (auto simp: get16_def put16_def)

lemma get16_put32: "j + 2 \<le> i \<or> i + 4 \<le> j \<Longrightarrow> get16 (put32 d i v) j = get16 d j"
  by (auto simp: get16_def put32_def)

lemma get32_put16: "j + 4 \<le> i \<or> i + 2 \<le> j \<Longrightarrow> get32 (put16 d i v) j = get32 d j"
  by (auto simp: get32_def put16_def)

lemma put_addrs_get:
  "k \<le> NDIRECT \<Longrightarrow> get32 (put_addrs i a d) (i + 4 * k) = a k"
  "j + 4 \<le> i \<or> i + 4 * (NDIRECT + 1) \<le> j \<Longrightarrow> get32 (put_addrs i a d) j = get32 d j"
  "j + 2 \<le> i \<or> i + 4 * (NDIRECT + 1) \<le> j \<Longrightarrow> get16 (put_addrs i a d) j = get16 d j"
  "j < i \<or> i + 4 * (NDIRECT + 1) \<le> j \<Longrightarrow> put_addrs i a d j = d j"
proof -
  have "(k < n \<longrightarrow> get32 (fold (\<lambda>k d. put32 d (i + 4 * k) (a k)) [0..<n] d) (i + 4 * k) = a k) \<and>
    (j + 4 \<le> i \<or> i + 4 * n \<le> j \<longrightarrow> get32 (fold (\<lambda>k d. put32 d (i + 4 * k) (a k)) [0..<n] d) j = get32 d j) \<and>
    (j + 2 \<le> i \<or> i + 4 * n \<le> j \<longrightarrow> get16 (fold (\<lambda>k d. put32 d (i + 4 * k) (a k)) [0..<n] d) j = get16 d j) \<and>
    (j < i \<or> i + 4 * n \<le> j \<longrightarrow> fold (\<lambda>k d. put32 d (i + 4 * k) (a k)) [0..<n] d j = d j)" for n
    by (induction n) (auto simp: get32_put32 get32_other get16_put32 put32_other less_Suc_eq)
  from this [of "NDIRECT + 1"] show
    "k \<le> NDIRECT \<Longrightarrow> get32 (put_addrs i a d) (i + 4 * k) = a k"
    "j + 4 \<le> i \<or> i + 4 * (NDIRECT + 1) \<le> j \<Longrightarrow> get32 (put_addrs i a d) j = get32 d j"
    "j + 2 \<le> i \<or> i + 4 * (NDIRECT + 1) \<le> j \<Longrightarrow> get16 (put_addrs i a d) j = get16 d j"
    "j < i \<or> i + 4 * (NDIRECT + 1) \<le> j \<Longrightarrow> put_addrs i a d j = d j"
    unfolding put_addrs_def by (simp_all del: upt_Suc)
qed

definition tidy :: "dinode \<Rightarrow> bool" where
  "tidy v \<longleftrightarrow> (\<forall>k. NDIRECT < k \<longrightarrow> daddrs v k = 0)"

lemma get_put_dinode: "tidy v \<Longrightarrow> get_dinode (put_dinode i v d) i = v"
proof -
  assume v: "tidy v"
  have "get_addrs (put_dinode i v d) (i + 12) = daddrs v"
    using v put_addrs_get(1) by (auto simp: put_dinode_def get_addrs_def fun_eq_iff tidy_def)
  then show ?thesis
    by (simp add: get_dinode_def) (simp add: put_dinode_def put_addrs_get get32_put32 get16_put16 get16_other get16_put32 get32_put16)
qed

lemma get_put_dinode_other:
  assumes "j + DINODE \<le> i \<or> i + DINODE \<le> j"
  shows "get_dinode (put_dinode i v d) j = get_dinode d j"
proof -
  have a: "get_addrs (put_dinode i v d) (j + 12) = get_addrs d (j + 12)"
    using assms by (auto simp: get_addrs_def fun_eq_iff put_dinode_def put_addrs_get get32_other get32_put16 DINODE_def NDIRECT_def)
  show ?thesis unfolding get_dinode_def a
    using assms by (auto simp: put_dinode_def put_addrs_get get32_other get16_other get16_put32 get32_put16 DINODE_def NDIRECT_def)
qed

subsection \<open>A small file system\<close>

text \<open>A root directory with one entry, \<open>a\<close>, for inode 2; process 2 runs in the root directory.\<close>

definition root_inode :: dinode where
  "root_inode = \<lparr>dtype = T_DIR, dmajor = 0, dminor = 0, dnlink = 1, dsize = 16, daddrs = (\<lambda>k. if k = 0 then 5 else 0)\<rparr>"

definition disk0 :: "nat \<Rightarrow> block" where
  "disk0 b = (if b = 2 then put_dinode 64 root_inode (\<lambda>_. 0) else if b = 5 then carr (mk_dirent [97] 2) else (\<lambda>_. 0))"

definition sb0 :: superblock where
  "sb0 = \<lparr>sb_size = 1000, sb_nblocks = 900, sb_ninodes = 200, sb_nlog = 30, sb_logstart = 256, sb_inodestart = 2, sb_bmapstart = 4\<rparr>"

definition inodes0 :: "nat \<Rightarrow> inode" where
  "inodes0 i = (if i = 0 then blank_inode\<lparr>inum := 1, iref := 1\<rparr> else blank_inode)"

definition kfs0 :: kfs where
  "kfs0 = kpipe.extend (kpipe0\<lparr>disk := (\<lambda>_. disk0), ptable := (ptable kpipe0)(2 := (ptable kpipe0 2)\<lparr>cwd := Some 0\<rparr>)\<rparr>)
     (kfs.fields sb0 inodes0)"

lemma kfs0_fields:
  "mach kfs0 = mach kbio0" "ptable kfs0 = (ptable kbio0)(2 := (ptable kbio0 2)\<lparr>cwd := Some 0\<rparr>)"
  "bufs kfs0 = bufs0" "disk kfs0 = (\<lambda>_. disk0)" "slocks kfs0 = slocks kbio0" "idequeue kfs0 = idequeue kbio0"
  "disk_err kfs0 = disk_err kbio0" "havedisk1 kfs0 = havedisk1 kbio0" "sb kfs0 = sb0" "inodes kfs0 = inodes0"
  by (simp_all add: kfs0_def kpipe0_def klog0_def kpipe.defs klog.defs kide.defs kfs.defs kbio0_def)

lemma kfs0_seen: "seen kfs0 = disk0"
proof
  fix n
  have "bdev (bufs0 b) = 0" for b by (simp add: bufs0_def blank_buf_def)
  then show "seen kfs0 n = disk0 n"
    by (auto simp: seen_def sees_def kfs0_fields find_Some_iff split: option.split)
qed

lemma kfs0_at: "fs_at {} 2 kfs0"
proof -
  have "cache_ok 2 {} kfs0"
    using kbio0_ok(1) bufs0_ok(1) by (auto simp: cache_ok_def locks_ok_def at_rest_def kfs0_fields)
  moreover have "\<not> sl_locked (slocks kbio0 lk)" for lk by (simp add: kbio0_def fresh_slock_def)
  ultimately show ?thesis
    by (auto simp: fs_at_def readable_by_def inodes_ok_def kfs0_fields bufs0_ok(2) NBUF_def entry_ok_def inodes0_def blank_inode_def)
qed

lemma root_facts:
  "disk_inode disk0 sb0 1 = root_inode"
  "dir_ok disk0 (of_dinode root_inode blank_inode)" "dfind disk0 root_inode [97] = Some (0, 2)"
proof -
  have "tidy root_inode" by (simp add: tidy_def root_inode_def)
  then show "disk_inode disk0 sb0 1 = root_inode"
    by (simp add: disk_inode_def IBLOCK_def dslot_def IPB_def DINODE_def BSIZE_def sb0_def disk0_def get_put_dinode)
  let ?p = "of_dinode root_inode blank_inode"
  have m: "mapped disk0 ?p 0 = 5" by (simp add: mapped_def of_dinode_def root_inode_def NDIRECT_def)
  have a: "unat (isize ?p) = 16" "isize ?p = 16" "addrs ?p NDIRECT = 0" "itype ?p = T_DIR"
    by (simp_all add: of_dinode_def root_inode_def NDIRECT_def)
  show "dir_ok disk0 ?p"
    using m a by (simp add: dir_ok_def has_blocks_def DIRENT_def MAXFILE_def NDIRECT_def NINDIRECT_def BSIZE_def FSSIZE_def)
  have "fbyte disk0 ?p j = carr (mk_dirent [97] 2) j" if "j < 16" for j
    using that m by (simp add: fbyte_def BSIZE_def disk0_def)
  then have e: "dirent_at disk0 ?p 0 = mk_dirent [97] 2"
    by (intro nth_equalityI) (simp_all add: dirent_at_def DIRENT_def mk_dirent_def DIRSIZ_def carr_def)
  have "matches_entry disk0 ?p [97] 0" unfolding matches_entry_def e
    by (simp add: mk_dirent_def de_inum_def de_name_def cstr_def carr_def DIRSIZ_def upt_rec)
  moreover have "dir_offsets (isize ?p) = [0]" by (simp add: a dir_offsets_def DIRENT_def)
  moreover have "de_inum (mk_dirent [97] 2) = 2" by (simp add: de_inum_def mk_dirent_def)
  ultimately show "dfind disk0 root_inode [97] = Some (0, 2)" by (simp add: dfind_def dir_find_def e)
qed

lemma namei_resolves_witness:
  "\<exists>t j. namei (\<lambda>_. (None, None)) [SLASH, 97] kfs0 = Ret (Some j) t \<and> inum (inodes t j) = 2 \<and>
    refs t 2 = refs kfs0 2 + 1 \<and> refs t 1 = refs kfs0 1"
proof -
  have e: "elems [SLASH, 97] = [[97]]"
    by (simp add: elems.simps skipelem_def skip_slashes_def SLASH_def DIRSIZ_def)
  have p: "path_ok (seen kfs0) (sb kfs0) (start_of [SLASH, 97] 1) (elems [SLASH, 97])"
    unfolding e by (simp add: start_of_def ROOTINO_def kfs0_seen kfs0_fields root_facts good_inode_def)
      (simp add: root_inode_def T_DIR_def IBLOCK_def IPB_def DINODE_def BSIZE_def sb0_def FSSIZE_def)
  have r: "resolve (seen kfs0) (sb kfs0) (start_of [SLASH, 97] 1) (elems [SLASH, 97]) = Some 2"
    unfolding e by (simp add: start_of_def ROOTINO_def kfs0_seen kfs0_fields root_facts) (simp add: root_inode_def)
  have h: "has_ref 0 1 kfs0" by (simp add: has_ref_def kfs0_fields inodes0_def NINODE_def blank_inode_def)
  have "refs kfs0 m = 0" if "m \<noteq> 1" for m
    unfolding refs_def using that by (intro sum.neutral) (auto simp: kfs0_fields inodes0_def blank_inode_def)
  then have "{m. 0 < refs kfs0 m} \<subseteq> {1}" by force
  then have "card {m. 0 < refs kfs0 m} \<le> 1" using card_mono [of "{1 :: u32}"] by fastforce
  then have k: "card {m. 0 < refs kfs0 m} + 2 \<le> NINODE" by (simp add: NINODE_def)
  have c: "cwd (ptable kfs0 2) = Some 0" by (simp add: kfs0_fields)
  show ?thesis using namei_resolves [OF kfs0_at k c h p, of "\<lambda>_. (None, None)"] unfolding r
    by (auto simp: has_ref_def)
qed

subsection \<open>The elements of a path\<close>

primrec split_slash :: "u8 list \<Rightarrow> u8 list list" where
  "split_slash [] = [[]]"
| "split_slash (c # cs) = (if c = SLASH then [] # split_slash cs else (c # hd (split_slash cs)) # tl (split_slash cs))"

definition words :: "u8 list \<Rightarrow> u8 list list" where
  "words path = filter (\<lambda>c. c \<noteq> []) (split_slash path)"

lemma split_slash_ne: "split_slash cs \<noteq> []"
  by (induction cs) auto

lemma words_skip: "words (skip_slashes path) = words path"
  by (induction path) (simp_all add: words_def skip_slashes_def)

lemma split_slash_word: "split_slash cs = takeWhile (\<lambda>c. c \<noteq> SLASH) cs # tl (split_slash (dropWhile (\<lambda>c. c \<noteq> SLASH) cs))"
  by (induction cs) (auto simp: split_slash_ne)

lemma words_word:
  assumes "cs \<noteq> []" and "hd cs \<noteq> SLASH"
  shows "words cs = takeWhile (\<lambda>c. c \<noteq> SLASH) cs # words (dropWhile (\<lambda>c. c \<noteq> SLASH) cs)"
proof -
  let ?r = "dropWhile (\<lambda>c. c \<noteq> SLASH) cs"
  have "takeWhile (\<lambda>c. c \<noteq> SLASH) cs \<noteq> []" using assms by (cases cs) auto
  moreover have "words ?r = filter (\<lambda>c. c \<noteq> []) (tl (split_slash ?r))"
  proof (cases ?r)
    case (Cons x xs)
    then have "x = SLASH" using hd_dropWhile [of "\<lambda>c. c \<noteq> SLASH" cs] by simp
    then show ?thesis using Cons by (simp add: words_def)
  next
    case Nil
    show ?thesis unfolding words_def Nil by simp
  qed
  ultimately show ?thesis
    unfolding words_def by (subst split_slash_word) simp
qed

text \<open>Claim C9. The loop over skipelem always ends, and the names it gives are the parts of the path
  between slashes that are not empty, each cut to DIRSIZ bytes.\<close>

theorem skipelem_splits: "elems path = map (take DIRSIZ) (words path)"
proof (induction path rule: elems.induct)
  case (1 path)
  let ?s = "skip_slashes path"
  show ?case
  proof (cases "?s = []")
    case True
    have "words path = []" using words_skip [of path] True by (simp add: words_def)
    then show ?thesis using True by (simp add: elems_skip skipelem_def)
  next
    case False
    have h: "hd ?s \<noteq> SLASH" using False hd_dropWhile [of "\<lambda>c. c = SLASH" path] by (simp add: skip_slashes_def)
    let ?w = "takeWhile (\<lambda>c. c \<noteq> SLASH) ?s" and ?r = "skip_slashes (dropWhile (\<lambda>c. c \<noteq> SLASH) ?s)"
    have k: "skipelem path = Some (take DIRSIZ ?w, ?r)" using False by (simp add: skipelem_def Let_def)
    have "words path = ?w # words ?r" using words_word [OF False h] words_skip by metis
    then show ?thesis using "1.IH" [OF k refl] by (simp add: elems_skip(2) [OF k])
  qed
qed

end
