(* ===== verification/Fs_Write.thy ===== *)
theory Fs_Write
  imports Fs_Path
begin

section \<open>Changing blocks inside an operation of the log\<close>

text \<open>
  \<open>in_op me H k j s\<close>: process \<open>me\<close> is inside an operation, holds exactly the buffers \<open>H\<close> and may
  hold \<open>j\<close> more at once, the log has room for \<open>k\<close> more blocks, and the pinned buffers are the logged blocks. Such a state
  goes into commit with everything logged that was changed.
\<close>

definition in_op :: "nat \<Rightarrow> nat set \<Rightarrow> nat \<Rightarrow> nat \<Rightarrow> 'z klog_scheme \<Rightarrow> bool" where
  "in_op me H k j s \<longleftrightarrow> cache_ok me H s \<and> log_ok s \<and> 1 \<le> lgoutstanding s \<and>
     pins (bufs s) = home s ` {..<nat (lhn s)} \<and> lhn s + int k < int (lgsize s) \<and> card H + nat (lhn s) + k + j \<le> NBUF \<and>
     (\<forall>b\<in>H. bdirty (bufs s b) \<or> bdata (bufs s b) = disk s 1 (bblockno (bufs s b)))"

lemma in_opD:
  assumes "in_op me H k j s"
  shows "cache_ok me H s" "log_ok s" "1 \<le> lgoutstanding s" "pins (bufs s) = home s ` {..<nat (lhn s)}"
    "lhn s + int k < int (lgsize s)" "card H + nat (lhn s) + k + j \<le> NBUF" "0 \<le> lhn s"
    "b \<in> H \<Longrightarrow> bdirty (bufs s b) \<or> bdata (bufs s b) = disk s 1 (bblockno (bufs s b))"
  using assms by (auto simp: in_op_def log_ok_def)

lemma in_op_room:
  assumes "in_op me H k (Suc j) s"
  shows "card (H \<union> dirties (bufs s)) < NBUF"
proof -
  have "card (dirties (bufs s)) = card (pins (bufs s))"
    using card_pins [OF cache_okD(3) [OF in_opD(1) [OF assms]]] .
  also have "\<dots> \<le> nat (lhn s)" using in_opD(4) [OF assms] card_image_small by simp
  finally have "card (H \<union> dirties (bufs s)) \<le> card H + nat (lhn s)" using card_Un_le [of H "dirties (bufs s)"] by simp
  then show ?thesis using in_opD(6) [OF assms] by simp
qed

lemma in_op_less: "in_op me H k j s \<Longrightarrow> k' \<le> k \<Longrightarrow> j' \<le> j \<Longrightarrow> in_op me H k' j' s"
  by (auto simp: in_op_def)

text \<open>What an operation leaves alone: all but the cache and the list of logged blocks.\<close>

definition opframe :: "'z klog_scheme \<Rightarrow> 'z klog_scheme \<Rightarrow> bool" where
  "opframe s t \<longleftrightarrow> bframe (s\<lparr>lhn := lhn t, lhblock := lhblock t\<rparr>) t \<and> disk t = disk s \<and> disk_writes t = disk_writes s"

lemma log_update_order2 [simp]:
  fixes s :: "'z klog_scheme"
  shows
    "ptable_update f1 (lhn_update g1 s) = lhn_update g1 (ptable_update f1 s)"
    "slocks_update f2 (lhn_update g2 s) = lhn_update g2 (slocks_update f2 s)"
    "idequeue_update f3 (lhn_update g3 s) = lhn_update g3 (idequeue_update f3 s)"
    "disk_update f4 (lhn_update g4 s) = lhn_update g4 (disk_update f4 s)"
    "ide_req_update f5 (lhn_update g5 s) = lhn_update g5 (ide_req_update f5 s)"
    "disk_writes_update f6 (lhn_update g6 s) = lhn_update g6 (disk_writes_update f6 s)"
    "ptable_update f7 (lhblock_update g7 s) = lhblock_update g7 (ptable_update f7 s)"
    "slocks_update f8 (lhblock_update g8 s) = lhblock_update g8 (slocks_update f8 s)"
    "idequeue_update f9 (lhblock_update g9 s) = lhblock_update g9 (idequeue_update f9 s)"
    "disk_update f10 (lhblock_update g10 s) = lhblock_update g10 (disk_update f10 s)"
    "ide_req_update f11 (lhblock_update g11 s) = lhblock_update g11 (ide_req_update f11 s)"
    "disk_writes_update f12 (lhblock_update g12 s) = lhblock_update g12 (disk_writes_update f12 s)"
  by simp_all

lemma outside_log:
  fixes s t :: "'z klog_scheme"
  assumes "outside t = outside s"
  shows "outside (t\<lparr>lhn := x, lhblock := y\<rparr>) = outside (s\<lparr>lhn := x, lhblock := y\<rparr>)"
proof (intro ext)
  fix m tb sl B q d r ws
  have "outside t m tb sl B q d r ws\<lparr>lhn := x, lhblock := y\<rparr> = outside s m tb sl B q d r ws\<lparr>lhn := x, lhblock := y\<rparr>"
    by (simp only: assms)
  then show "outside (t\<lparr>lhn := x, lhblock := y\<rparr>) m tb sl B q d r ws = outside (s\<lparr>lhn := x, lhblock := y\<rparr>) m tb sl B q d r ws"
    by (simp add: outside_def)
qed

lemma opframe_refl [simp]: "opframe s s"
  by (simp add: opframe_def)

lemma opframe_trans:
  fixes s t u :: "'z klog_scheme"
  assumes "opframe s t" and "opframe t u"
  shows "opframe s u"
  using assms outside_log [where t = t and s = "s\<lparr>lhn := lhn t, lhblock := lhblock t\<rparr>" and x = "lhn u" and y = "lhblock u"]
  by (auto simp: opframe_def bframe_def intro: same_core_trans)

lemma opframe_quiet: "quiet me s t \<Longrightarrow> opframe s t"
  using log_frame [of s t] by (simp add: quiet_def opframe_def)

lemma opframe_log:
  fixes s t :: "'z klog_scheme"
  assumes "opframe s t"
  shows "lgstart t = lgstart s" "lgsize t = lgsize s" "lgdev t = lgdev s" "lgoutstanding t = lgoutstanding s"
    "in_log t = in_log s"
  using log_frame [of "s\<lparr>lhn := lhn t, lhblock := lhblock t\<rparr>" t] assms
  by (simp_all add: opframe_def in_log_def)

lemma opframe_fs:
  fixes s t :: "'z kfs_scheme"
  assumes "opframe s t"
  shows "inodes t = inodes s" "sb t = sb s"
  using fs_frame [of "s\<lparr>lhn := lhn t, lhblock := lhblock t\<rparr>" t] assms
  by (simp_all add: opframe_def)

lemma log_slot_cases:
  assumes "0 \<le> n"
  shows "log_slot n bl w < nat n \<and> bl (log_slot n bl w) = w \<or> log_slot n bl w = nat n \<and> (\<forall>i<nat n. bl i \<noteq> w)"
  unfolding log_slot_def by (auto simp: find_Some_iff find_None_iff split: option.split)

text \<open>log_write of a held buffer, whose block was changed to \<open>d\<close>.\<close>

lemma log_write_step:
  fixes s :: "'z klog_scheme" and d :: block
  assumes op: "in_op me H (Suc k) j s" and b: "b \<in> H" and n: "n = bblockno (bufs s b)" "n \<notin> in_log s"
  defines "s1 \<equiv> s\<lparr>bufs := (bufs s)(b := (bufs s b)\<lparr>bdata := d\<rparr>)\<rparr>"
  shows "\<exists>t. log_write b s1 = Ret () t \<and> in_op me H k j t \<and> seen t = (seen s)(n := d) \<and> opframe s t \<and>
    bufs t = (bufs s)(b := (bufs s b)\<lparr>bdata := d, bdirty := True\<rparr>)"
proof -
  note D = in_opD [OF op]
  define i where "i = log_slot (lhn s) (lhblock s) (of_nat n)"
  define t where "t = s\<lparr>bufs := (bufs s)(b := (bufs s b)\<lparr>bdata := d, bdirty := True\<rparr>),
    lhn := (if int i = lhn s then lhn s + 1 else lhn s), lhblock := (lhblock s)(i := of_nat n)\<rparr>"
  have bn: "b < NBUF" "n < FSSIZE"
    using bufs_okD(1,4,5) [OF cache_okD(3) [OF D(1)], of b] b n(1) by auto
  have un: "unat (of_nat n :: u32) = n" using bn(2) by (intro unat_of_nat_small) (simp add: FSSIZE_def)
  have "lhn s < int LOGSIZE" "lhn s < int (lgsize s) - 1"
    using D(5) log_okD(4) [OF D(2)] by simp_all
  then have run: "log_write b s1 = Ret () t"
    using log_write_run [of me s1 b] cache_okD(2) [OF D(1)] D(3) n(1)
    by (simp add: s1_def t_def i_def Let_def fun_upd_upd)
  have cache: "cache_ok me H t" "seen t = (seen s)(n := d)"
    using cache_put [OF D(1) b refl, where d = d and v = True] n(1) by (simp_all add: t_def)
  have ci: "i < nat (lhn s) \<and> lhblock s i = of_nat n \<or> i = nat (lhn s) \<and> (\<forall>j<nat (lhn s). lhblock s j \<noteq> of_nat n)"
    using log_slot_cases [OF D(7)] by (simp add: i_def)
  have home: "home t = (home s)(i := n)" using un by (auto simp: home_def t_def fun_eq_iff)
  have lh: "nat (lhn t) = (if i = nat (lhn s) then Suc (nat (lhn s)) else nat (lhn s))" "0 \<le> lhn t" "lhn t \<le> lhn s + 1"
    using D(7) by (auto simp: t_def nat_add_distrib)
  have img: "home t ` {..<nat (lhn t)} = insert n (home s ` {..<nat (lhn s)})"
    using ci un by (auto simp: home lh(1) lessThan_Suc home_def)
  have same: "lgdev t = lgdev s" "lgsize t = lgsize s" "lgstart t = lgstart s" by (simp_all add: t_def)
  have inj: "inj_on (home t) {..<nat (lhn t)}"
  proof (cases "i < nat (lhn s)")
    case True
    then have "home t = home s" using ci un by (auto simp: home home_def)
    then show ?thesis using True lh(1) log_okD(7) [OF D(2)] by simp
  next
    case False
    then have i: "i = nat (lhn s)" "\<And>j. j < nat (lhn s) \<Longrightarrow> home s j \<noteq> n" using ci by (auto simp: home_def)
    have "inj_on (home t) {..<nat (lhn s)}"
      using log_okD(7) [OF D(2)] i(1) by (simp add: home inj_on_def)
    then show ?thesis using i lh(1) by (auto simp: home lessThan_Suc)
  qed
  have blocks: "home t l < FSSIZE \<and> home t l \<notin> in_log t" if "l < nat (lhn t)" for l
  proof -
    have "home t l \<in> insert n (home s ` {..<nat (lhn s)})" using that img by blast
    then show ?thesis using log_okD(9,10) [OF D(2)] bn(2) n(2) same by (auto simp: in_log_def)
  qed
  have "nat (lhn t) < lgsize t" using lh(2,3) D(5) same(2) by simp
  then have "log_ok t"
    using inj blocks same log_okD(1,4,6) [OF D(2)] lh(2) by (simp add: log_ok_def)
  moreover have "pins (bufs t) = insert n (pins (bufs s))"
    using n(1) bn(1) by (auto simp: pins_def dirties_def t_def image_iff)
  ultimately have "in_op me H k j t"
    using D cache(1) img lh by (auto simp: in_op_def t_def)
  moreover have "opframe s t" by (simp add: opframe_def t_def bframe_def outside_def fun_eq_iff)
  ultimately show ?thesis using run cache(2) by (intro exI [of _ t]) (simp add: t_def)
qed


text \<open>bread and brelse around it.\<close>

lemma bread_step:
  fixes s :: "'z klog_scheme"
  assumes op: "in_op me H k (Suc j) s" and n: "n < FSSIZE" "\<And>b. b \<in> H \<Longrightarrow> bblockno (bufs s b) \<noteq> n"
  shows "\<exists>b t. bread 1 n s = Ret b t \<and> in_op me (insert b H) k j t \<and> b \<notin> H \<and> bblockno (bufs t b) = n \<and>
    bdata (bufs t b) = seen s n \<and> seen t = seen s \<and> opframe s t \<and> (\<forall>c. c \<noteq> b \<longrightarrow> bufs t c = bufs s c)"
proof -
  obtain b t where t: "bread 1 n s = Ret b t" "cache_ok me (insert b H) t" "b \<notin> H" "bblockno (bufs t b) = n"
    "bdata (bufs t b) = seen s n" "seen t = seen s" "disk t = disk s" "bdirty (bufs t b) \<or> seen s n = disk s 1 n"
    "disk_writes t = disk_writes s" "bframe s t" "pins (bufs t) = pins (bufs s)" "\<And>c. c \<noteq> b \<Longrightarrow> bufs t c = bufs s c"
    using bread_run [OF in_opD(1) [OF op] n(2,1) disjI2 [OF in_op_room [OF op]]] by blast
  note f = log_frame [OF t(10)] log_ok_frame [OF t(10)]
  have "finite H" using cache_okD(3) [OF in_opD(1) [OF op]] by (auto simp: bufs_ok_def intro: finite_small)
  then have "card (insert b H) = Suc (card H)" using t(3) by simp
  moreover have "bdirty (bufs t c) \<or> bdata (bufs t c) = disk t 1 (bblockno (bufs t c))" if "c \<in> insert b H" for c
    using that t in_opD(8) [OF op] by (cases "c = b") auto
  ultimately have "in_op me (insert b H) k j t"
    using op t(2,11) f by (simp add: in_op_def)
  moreover have "opframe s t" using t(7,9,10) f by (simp add: opframe_def)
  ultimately show ?thesis using t by blast
qed

lemma brelse_step:
  fixes s :: "'z klog_scheme"
  assumes op: "in_op me (insert b H) k j s" and b: "b \<notin> H"
  shows "\<exists>t. brelse b s = Ret () t \<and> in_op me H k (Suc j) t \<and> seen t = seen s \<and> opframe s t \<and>
    (\<forall>c. bcore (bufs t c) = bcore (bufs s c))"
proof -
  have b': "b \<in> insert b H" by simp
  obtain t where t: "brelse b s = Ret () t" "cache_ok me (insert b H - {b}) t" "seen t = seen s" "disk t = disk s"
    "disk_writes t = disk_writes s" "bframe s t" "pins (bufs t) = pins (bufs s)" "\<And>c. bcore (bufs t c) = bcore (bufs s c)"
    using brelse_run [OF in_opD(1) [OF op] b' in_opD(8) [OF op b']] by blast
  note f = log_frame [OF t(6)] log_ok_frame [OF t(6)]
  have "finite H" using cache_okD(3) [OF in_opD(1) [OF op]] by (auto simp: bufs_ok_def intro: finite_small)
  then have "card (insert b H) = Suc (card H)" using b by simp
  moreover have "insert b H - {b} = H" using b by auto
  moreover have "bdirty (bufs t c) \<or> bdata (bufs t c) = disk t 1 (bblockno (bufs t c))" if "c \<in> H" for c
    using in_opD(8) [OF op, of c] that t(4) bcoreD [OF t(8), of c] by simp
  ultimately have "in_op me H k (Suc j) t" using op t(2,7) f by (simp add: in_op_def)
  moreover have "opframe s t" using t(4-6) f by (simp add: opframe_def)
  ultimately show ?thesis using t by blast
qed

text \<open>The pattern bread, change, log_write, brelse.\<close>

lemma logged_update:
  fixes s :: "'z klog_scheme"
  assumes op: "in_op me H (Suc k) (Suc j) s" and n: "n < FSSIZE" "\<And>b. b \<in> H \<Longrightarrow> bblockno (bufs s b) \<noteq> n" "n \<notin> in_log s"
  shows "\<exists>b t. bread 1 n s = Ret b t \<and> bdata (bufs t b) = seen s n \<and> opframe s t \<and>
    (\<forall>f. \<exists>v w u. set_data b f t = Ret () v \<and> log_write b v = Ret () w \<and> brelse b w = Ret () u \<and>
      in_op me H k (Suc j) u \<and> seen u = (seen s)(n := f (seen s n)) \<and> opframe s u \<and>
      (\<forall>c\<in>H. bcore (bufs u c) = bcore (bufs s c)))"
proof -
  obtain b t where t: "bread 1 n s = Ret b t" "in_op me (insert b H) (Suc k) j t" "b \<notin> H" "bblockno (bufs t b) = n"
    "bdata (bufs t b) = seen s n" "seen t = seen s" "opframe s t" "\<And>c. c \<noteq> b \<Longrightarrow> bufs t c = bufs s c"
    using bread_step [OF op n(1,2)] by blast
  have nl: "n \<notin> in_log t" using n(3) opframe_log(5) [OF t(7)] by simp
  have "\<exists>v w u. set_data b f t = Ret () v \<and> log_write b v = Ret () w \<and> brelse b w = Ret () u \<and>
      in_op me H k (Suc j) u \<and> seen u = (seen s)(n := f (seen s n)) \<and> opframe s u \<and>
      (\<forall>c\<in>H. bcore (bufs u c) = bcore (bufs s c))" for f
  proof -
    obtain w where w: "log_write b (t\<lparr>bufs := (bufs t)(b := (bufs t b)\<lparr>bdata := f (seen s n)\<rparr>)\<rparr>) = Ret () w"
      "in_op me (insert b H) k j w" "seen w = (seen t)(n := f (seen s n))" "opframe t w"
      "bufs w = (bufs t)(b := (bufs t b)\<lparr>bdata := f (seen s n), bdirty := True\<rparr>)"
      using log_write_step [OF t(2) insertI1 t(4) [symmetric] nl, of "f (seen s n)"] by blast
    obtain u where u: "brelse b w = Ret () u" "in_op me H k (Suc j) u" "seen u = seen w" "opframe w u"
      "\<And>c. bcore (bufs u c) = bcore (bufs w c)"
      using brelse_step [OF w(2) t(3)] by blast
    have "bcore (bufs u c) = bcore (bufs s c)" if "c \<in> H" for c
      using u(5) w(5) t(3,8) that by auto
    then show ?thesis
      using w u t opframe_trans [OF t(7) opframe_trans [OF w(4) u(4)]] by (auto simp: set_data_def)
  qed
  then show ?thesis using t(1,5,7) by blast
qed

section \<open>Allocating blocks\<close>

text \<open>The disk has at most FSSIZE blocks, so the bit map has one block.\<close>

definition layout_ok :: "'z kfs_scheme \<Rightarrow> bool" where
  "layout_ok s \<longleftrightarrow> 0 < unat (sb_size (sb s)) \<and> unat (sb_size (sb s)) \<le> FSSIZE \<and>
     BBLOCK (sb s) 0 < FSSIZE \<and> BBLOCK (sb s) 0 \<notin> in_log s"

definition bit_free :: "(nat \<Rightarrow> block) \<Rightarrow> superblock \<Rightarrow> nat \<Rightarrow> bool" where
  "bit_free D sp b \<longleftrightarrow> D (BBLOCK sp 0) (b div 8) AND bit_of b = 0"

definition mark_bit :: "nat \<Rightarrow> block \<Rightarrow> block" where
  "mark_bit b d = d(b div 8 := d (b div 8) OR bit_of b)"

definition clear_bit_of :: "nat \<Rightarrow> block \<Rightarrow> block" where
  "clear_bit_of b d = d(b div 8 := d (b div 8) AND NOT (bit_of b))"

text \<open>The block that balloc takes: the first free one.\<close>

definition first_free :: "(nat \<Rightarrow> block) \<Rightarrow> superblock \<Rightarrow> nat option" where
  "first_free D sp = find (bit_free D sp) [0..<unat (sb_size sp)]"

lemma takeWhile_upt: "n \<le> m \<Longrightarrow> takeWhile (\<lambda>i. i < n) [0..<m] = [0..<n]"
proof -
  assume "n \<le> m"
  then have u: "[0..<m] = [0..<n] @ [n..<m]" using upt_add_eq_append [of 0 n "m - n"] by simp
  show ?thesis unfolding u by (subst takeWhile_append2) (auto simp: takeWhile_eq_Nil_iff hd_upt)
qed

lemma layout_facts:
  assumes "layout_ok s"
  shows "free_bit (D (BBLOCK (sb s) 0)) 0 (unat (sb_size (sb s))) = first_free D (sb s)"
    "map (\<lambda>k. k * BPB) [0..<(unat (sb_size (sb s)) + BPB - 1) div BPB] = [0]"
    "b < unat (sb_size (sb s)) \<Longrightarrow> BBLOCK (sb s) b = BBLOCK (sb s) 0 \<and> b mod BPB = b"
proof -
  have z: "0 < unat (sb_size (sb s))" "unat (sb_size (sb s)) \<le> 1000" using assms by (simp_all add: layout_ok_def FSSIZE_def)
  have B: "BPB = 4096" by (simp add: BPB_def BSIZE_def)
  show "free_bit (D (BBLOCK (sb s) 0)) 0 (unat (sb_size (sb s))) = first_free D (sb s)"
    using z by (simp add: free_bit_def first_free_def takeWhile_upt B bit_free_def [abs_def])
  have "(unat (sb_size (sb s)) + 4096 - 1) div 4096 = 1" using z by linarith
  then show "map (\<lambda>k. k * BPB) [0..<(unat (sb_size (sb s)) + BPB - 1) div BPB] = [0]" by (simp add: B)
  show "b < unat (sb_size (sb s)) \<Longrightarrow> BBLOCK (sb s) b = BBLOCK (sb s) 0 \<and> b mod BPB = b"
    using z by (simp add: BBLOCK_def B)
qed

lemma layout_opframe:
  fixes s t :: "'z kfs_scheme"
  assumes "opframe s t"
  shows "layout_ok t = layout_ok s"
  using opframe_fs [OF assms] opframe_log [OF assms] by (simp add: layout_ok_def)

lemma bzero_run:
  fixes s :: "'z klog_scheme"
  assumes "in_op me H (Suc k) (Suc j) s" and "n < FSSIZE" "\<And>b. b \<in> H \<Longrightarrow> bblockno (bufs s b) \<noteq> n" "n \<notin> in_log s"
  shows "\<exists>u. bzero 1 n s = Ret () u \<and> in_op me H k (Suc j) u \<and> seen u = (seen s)(n := (\<lambda>_. 0)) \<and> opframe s u \<and>
    (\<forall>c\<in>H. bcore (bufs u c) = bcore (bufs s c))"
proof -
  obtain b t where t: "bread 1 n s = Ret b t"
    "\<forall>f. \<exists>v w u. set_data b f t = Ret () v \<and> log_write b v = Ret () w \<and> brelse b w = Ret () u \<and>
      in_op me H k (Suc j) u \<and> seen u = (seen s)(n := f (seen s n)) \<and> opframe s u \<and>
      (\<forall>c\<in>H. bcore (bufs u c) = bcore (bufs s c))"
    using logged_update [OF assms] by blast
  from t(2) [THEN spec, of "\<lambda>_ _. 0"] show ?thesis using t(1) by (auto simp: bzero_def)
qed

lemma balloc_run:
  fixes s :: "'z kfs_scheme"
  assumes op: "in_op me H (Suc (Suc k)) (Suc j) s" and lay: "layout_ok s"
    and a: "first_free (seen s) (sb s) = Some a" "a \<notin> in_log s"
    and H: "\<And>b. b \<in> H \<Longrightarrow> bblockno (bufs s b) \<noteq> BBLOCK (sb s) 0 \<and> bblockno (bufs s b) \<noteq> a"
  shows "\<exists>u. balloc 1 s = Ret (of_nat a) u \<and> in_op me H k (Suc j) u \<and> opframe s u \<and>
    seen u = (seen s)(BBLOCK (sb s) 0 := mark_bit a (seen s (BBLOCK (sb s) 0)), a := (\<lambda>_. 0)) \<and>
    (\<forall>c\<in>H. bcore (bufs u c) = bcore (bufs s c))"
proof -
  let ?m = "BBLOCK (sb s) 0"
  have lm: "?m < FSSIZE" "?m \<notin> in_log s" using lay by (simp_all add: layout_ok_def)
  have am: "a < unat (sb_size (sb s))" using a(1) by (auto simp: first_free_def find_Some_iff)
  have af: "a < FSSIZE" using am lay by (simp add: layout_ok_def)
  obtain b t where t: "bread 1 ?m s = Ret b t" "bdata (bufs t b) = seen s ?m" "opframe s t"
    "\<forall>f. \<exists>v w u. set_data b f t = Ret () v \<and> log_write b v = Ret () w \<and> brelse b w = Ret () u \<and>
      in_op me H (Suc k) (Suc j) u \<and> seen u = (seen s)(?m := f (seen s ?m)) \<and> opframe s u \<and>
      (\<forall>c\<in>H. bcore (bufs u c) = bcore (bufs s c))"
    using logged_update [OF op lm(1) _ lm(2)] H by blast
  obtain v w x where x: "set_data b (mark_bit a) t = Ret () v" "log_write b v = Ret () w" "brelse b w = Ret () x"
    "in_op me H (Suc k) (Suc j) x" "seen x = (seen s)(?m := mark_bit a (seen s ?m))" "opframe s x"
    "\<And>c. c \<in> H \<Longrightarrow> bcore (bufs x c) = bcore (bufs s c)"
    using t(4) [THEN spec, of "mark_bit a"] by blast
  have "a \<notin> in_log x" using a(2) opframe_log(5) [OF x(6)] by simp
  moreover have "bblockno (bufs x c) \<noteq> a" if "c \<in> H" for c using H [OF that] bcoreD(4) [OF x(7) [OF that]] by simp
  ultimately obtain u where u: "bzero 1 a x = Ret () u" "in_op me H k (Suc j) u" "seen u = (seen x)(a := (\<lambda>_. 0))"
    "opframe x u" "\<forall>c\<in>H. bcore (bufs u c) = bcore (bufs x c)"
    using bzero_run [OF x(4) af] by blast
  have fb: "free_bit (bdata (bufs t b)) 0 (unat (sb_size (sb s))) = Some a"
    using layout_facts(1) [OF lay, of "seen s"] t(2) a(1) by simp
  have "balloc 1 s = Ret (of_nat a) u"
    unfolding balloc_def using layout_facts(2) [OF lay] t(1,2) fb x(1-3) u(1)
    by (simp add: mark_bit_def [abs_def] del: One_nat_def)
  then show ?thesis
    using u x opframe_trans [OF x(6) u(4)] by (intro exI [of _ u]) auto
qed

lemma bfree_run:
  fixes s :: "'z kfs_scheme"
  assumes op: "in_op me H (Suc k) (Suc j) s" and lay: "layout_ok s" and a: "a < unat (sb_size (sb s))"
    and H: "\<And>b. b \<in> H \<Longrightarrow> bblockno (bufs s b) \<noteq> BBLOCK (sb s) 0"
  shows "if bit_free (seen s) (sb s) a then bfree 1 (of_nat a) s = Panic ''freeing free block''
    else \<exists>u. bfree 1 (of_nat a) s = Ret () u \<and> in_op me H k (Suc j) u \<and> opframe s u \<and>
      seen u = (seen s)(BBLOCK (sb s) 0 := clear_bit_of a (seen s (BBLOCK (sb s) 0))) \<and>
      (\<forall>c\<in>H. bcore (bufs u c) = bcore (bufs s c))"
proof -
  let ?m = "BBLOCK (sb s) 0"
  have lm: "?m < FSSIZE" "?m \<notin> in_log s" "a < FSSIZE" using lay a by (simp_all add: layout_ok_def)
  have ua: "unat (of_nat a :: u32) = a" using lm(3) by (intro unat_of_nat_small) (simp add: FSSIZE_def)
  obtain b t where t: "bread 1 ?m s = Ret b t" "bdata (bufs t b) = seen s ?m" "opframe s t"
    "\<forall>f. \<exists>v w u. set_data b f t = Ret () v \<and> log_write b v = Ret () w \<and> brelse b w = Ret () u \<and>
      in_op me H k (Suc j) u \<and> seen u = (seen s)(?m := f (seen s ?m)) \<and> opframe s u \<and>
      (\<forall>c\<in>H. bcore (bufs u c) = bcore (bufs s c))"
    using logged_update [OF op lm(1) _ lm(2)] H by blast
  note l = layout_facts(3) [OF lay a]
  show ?thesis
  proof (cases "bit_free (seen s) (sb s) a")
    case True
    then show ?thesis using t(1,2) l ua by (simp add: bfree_def bit_free_def Let_def del: One_nat_def)
  next
    case False
    obtain v w x where x: "set_data b (clear_bit_of a) t = Ret () v" "log_write b v = Ret () w" "brelse b w = Ret () x"
      "in_op me H k (Suc j) x" "seen x = (seen s)(?m := clear_bit_of a (seen s ?m))" "opframe s x"
      "\<forall>c\<in>H. bcore (bufs x c) = bcore (bufs s c)"
      using t(4) [THEN spec, of "clear_bit_of a"] by blast
    have "bfree 1 (of_nat a) s = Ret () x"
      unfolding bfree_def using False t(1,2) l ua x(1-3)
      by (simp add: bit_free_def Let_def clear_bit_of_def [abs_def] del: One_nat_def)
    then show ?thesis using False x(4-7) by auto
  qed
qed

lemma bit_of_bit: "bit (bit_of b) n \<longleftrightarrow> n = b mod 8"
proof -
  have "b mod 8 < LENGTH(8)" by simp
  then show ?thesis by (auto simp: bit_of_def bit_exp_iff simp flip: push_bit_eq_mult intro: possible_bit_word [THEN iffD2])
qed

lemma and_bit_of: "x AND bit_of b = 0 \<longleftrightarrow> \<not> bit (x :: u8) (b mod 8)"
proof
  assume "x AND bit_of b = 0"
  then have "\<not> bit (x AND bit_of b) (b mod 8)" by simp
  then show "\<not> bit x (b mod 8)" by (simp add: bit_and_iff bit_of_bit)
next
  assume "\<not> bit x (b mod 8)"
  then show "x AND bit_of b = 0" by (intro bit_word_eqI) (auto simp: bit_and_iff bit_of_bit)
qed

lemma mark_bit_free:
  "mark_bit a d (b div 8) AND bit_of b = 0 \<longleftrightarrow> d (b div 8) AND bit_of b = 0 \<and> b \<noteq> a"
  "clear_bit_of a d (b div 8) AND bit_of b = 0 \<longleftrightarrow> d (b div 8) AND bit_of b = 0 \<or> b = a"
proof -
  have ab: "a = b" if "a div 8 = b div 8" "a mod 8 = b mod 8"
    using that div_mult_mod_eq [of a 8] div_mult_mod_eq [of b 8] by metis
  have r: "b mod 8 < LENGTH(8)" by simp
  show "mark_bit a d (b div 8) AND bit_of b = 0 \<longleftrightarrow> d (b div 8) AND bit_of b = 0 \<and> b \<noteq> a"
  proof (cases "b div 8 = a div 8")
    case True
    then have "(b mod 8 = a mod 8) = (b = a)" using ab by metis
    then show ?thesis unfolding and_bit_of mark_bit_def True by (simp add: bit_or_iff bit_of_bit)
  next
    case False
    then show ?thesis unfolding mark_bit_def by auto
  qed
  show "clear_bit_of a d (b div 8) AND bit_of b = 0 \<longleftrightarrow> d (b div 8) AND bit_of b = 0 \<or> b = a"
  proof (cases "b div 8 = a div 8")
    case True
    then have "(b mod 8 = a mod 8) = (b = a)" using ab by metis
    then show ?thesis using r unfolding and_bit_of clear_bit_of_def True
      by (simp add: bit_and_iff bit_not_iff possible_bit_word bit_of_bit)
  next
    case False
    then show ?thesis unfolding clear_bit_of_def by auto
  qed
qed

lemma clear_mark_bit: "d (a div 8) AND bit_of a = 0 \<Longrightarrow> clear_bit_of a (mark_bit a d) = d"
proof -
  assume "d (a div 8) AND bit_of a = 0"
  then have "\<not> bit (d (a div 8)) (a mod 8)" by (simp add: and_bit_of)
  then have "(d (a div 8) OR bit_of a) AND NOT (bit_of a) = d (a div 8)"
    by (intro bit_word_eqI) (auto simp: bit_and_iff bit_or_iff bit_not_iff possible_bit_word bit_of_bit)
  then show ?thesis by (simp add: clear_bit_of_def mark_bit_def fun_upd_upd)
qed

text \<open>The blocks a process sees after balloc has taken block \<open>a\<close>.\<close>

definition allocated :: "superblock \<Rightarrow> nat \<Rightarrow> (nat \<Rightarrow> block) \<Rightarrow> nat \<Rightarrow> block" where
  "allocated sp a D = D(BBLOCK sp 0 := mark_bit a (D (BBLOCK sp 0)), a := (\<lambda>_. 0))"

text \<open>Claim C8. balloc takes the free block with the lowest number, marks it, zeroes it and leaves
  every other block and bit alone; bfree gives the bit map back as it was, and freeing a block
  that is free panics. With no free block balloc panics.\<close>

theorem balloc_then_bfree:
  fixes s :: "'z kfs_scheme"
  assumes "in_op me {} (Suc (Suc (Suc (Suc k)))) (Suc j) s" and "layout_ok s"
    and "\<And>b. b < unat (sb_size (sb s)) \<Longrightarrow> bit_free (seen s) (sb s) b \<Longrightarrow> b \<notin> in_log s \<and> b \<noteq> BBLOCK (sb s) 0"
  shows "case first_free (seen s) (sb s) of
      None \<Rightarrow> balloc 1 s = Panic ''balloc: out of blocks''
    | Some a \<Rightarrow> a < unat (sb_size (sb s)) \<and> (\<forall>b<a. \<not> bit_free (seen s) (sb s) b) \<and>
        (\<exists>u v. balloc 1 s = Ret (of_nat a) u \<and> seen u = allocated (sb s) a (seen s) \<and>
          (\<forall>b. bit_free (seen u) (sb s) b \<longleftrightarrow> bit_free (seen s) (sb s) b \<and> b \<noteq> a) \<and>
          bfree 1 (of_nat a) u = Ret () v \<and> seen v = (seen s)(a := (\<lambda>_. 0)) \<and>
          bfree 1 (of_nat a) v = Panic ''freeing free block'')"
proof (cases "first_free (seen s) (sb s)")
  case None
  let ?m = "BBLOCK (sb s) 0"
  have lm: "?m < FSSIZE" using assms(2) by (simp add: layout_ok_def)
  obtain b t where t: "bread 1 ?m s = Ret b t" "in_op me {b} (Suc (Suc (Suc (Suc k)))) j t" "bdata (bufs t b) = seen s ?m"
    using bread_step [OF assms(1) lm] by blast
  obtain u where "brelse b t = Ret () u" using brelse_step [OF t(2)] by blast
  then show ?thesis
    using None t(1,3) layout_facts(1,2) [OF assms(2)] by (simp add: balloc_def del: One_nat_def)
next
  case (Some a)
  let ?m = "BBLOCK (sb s) 0"
  have a: "a < unat (sb_size (sb s))" "bit_free (seen s) (sb s) a" "\<And>b. b < a \<Longrightarrow> \<not> bit_free (seen s) (sb s) b"
    using Some by (auto simp: first_free_def find_Some_iff)
  note al = assms(3) [OF a(1,2)]
  obtain u where u: "balloc 1 s = Ret (of_nat a) u" "in_op me {} (Suc (Suc k)) (Suc j) u" "opframe s u"
    "seen u = allocated (sb s) a (seen s)"
    using balloc_run [OF assms(1,2) Some] al unfolding allocated_def by auto
  note f = opframe_fs [OF u(3)]
  have um: "seen u ?m = mark_bit a (seen s ?m)" using u(4) al by (simp add: allocated_def)
  have bits: "bit_free (seen u) (sb s) b \<longleftrightarrow> bit_free (seen s) (sb s) b \<and> b \<noteq> a" for b
    by (simp add: bit_free_def um mark_bit_free)
  have "layout_ok u" using assms(2) layout_opframe [OF u(3)] by simp
  then obtain v where v: "bfree 1 (of_nat a) u = Ret () v" "in_op me {} (Suc k) (Suc j) v" "opframe u v"
    "seen v = (seen u)(?m := clear_bit_of a (seen u ?m))"
    using bfree_run [OF u(2), of a] a(1) bits f by auto
  have sv: "seen v = (seen s)(a := (\<lambda>_. 0))"
    using v(4) um u(4) al a(2) clear_mark_bit [of "seen s ?m" a]
    by (auto simp: allocated_def bit_free_def fun_eq_iff)
  have fv: "bit_free (seen v) (sb v) a" using a(2) al sv f opframe_fs [OF v(3)] by (simp add: bit_free_def)
  have "bfree 1 (of_nat a) v = Panic ''freeing free block''"
    using bfree_run [OF v(2), of a] fv \<open>layout_ok u\<close> layout_opframe [OF v(3)] a(1) f opframe_fs [OF v(3)] by simp
  then show ?thesis using Some a u(1,4) bits v(1) sv by auto
qed

text \<open>A disk of eight blocks with all but block 7 in use, seen in the middle of an operation.\<close>

definition kfree0 :: kfs where
  "kfree0 = kfs0\<lparr>sb := sb0\<lparr>sb_size := 8\<rparr>, disk := (\<lambda>_. disk0(4 := (\<lambda>i. if i = 0 then 127 else 0)))\<rparr>"

lemma kfree0_fields:
  "seen kfree0 = disk0(4 := (\<lambda>i. if i = 0 then 127 else 0))" "sb kfree0 = sb0\<lparr>sb_size := 8\<rparr>"
  "lgstart kfree0 = 256" "lgsize kfree0 = LOGSIZE" "lgdev kfree0 = 1" "lhn kfree0 = 0" "lgoutstanding kfree0 = 1"
proof -
  have "bdev (bufs0 b) = 0" for b by (simp add: bufs0_def blank_buf_def)
  then show "seen kfree0 = disk0(4 := (\<lambda>i. if i = 0 then 127 else 0))"
    by (auto simp: seen_def sees_def kfree0_def kfs0_fields find_Some_iff fun_eq_iff split: option.split)
qed (simp_all add: kfree0_def kfs0_def kpipe0_def klog0_def klog.defs kpipe.defs kide.defs kfs.defs)

lemma kfree0_ok: "in_op 2 {} 4 1 kfree0" "layout_ok kfree0"
proof -
  have "cache_ok 2 {} kfs0" using kfs0_at by (simp add: fs_at_def readable_by_def)
  then have "cache_ok 2 {} kfree0"
    using bufs0_ok(1) by (auto simp: cache_ok_def locks_ok_def at_rest_def kfree0_def kfs0_fields)
  moreover have "pins (bufs kfree0) = {}"
    by (auto simp: pins_def kfree0_def kfs0_fields bufs0_def blank_buf_def dirties_def)
  ultimately show "in_op 2 {} 4 1 kfree0"
    by (simp add: in_op_def log_ok_def kfree0_fields LOGSIZE_def MAXOPBLOCKS_def FSSIZE_def NBUF_def)
qed (simp add: layout_ok_def kfree0_fields sb0_def BBLOCK_def FSSIZE_def BPB_def BSIZE_def in_log_def)

lemma kfree0_bits:
  assumes b: "b < 8"
  shows "bit_free (seen kfree0) (sb kfree0) b \<longleftrightarrow> b = 7"
proof -
  have B: "BBLOCK (sb kfree0) 0 = 4" "unat (sb_size (sb kfree0)) = 8"
    by (simp_all add: kfree0_fields sb0_def BBLOCK_def BPB_def BSIZE_def)
  have b127: "bit (127 :: u8) n \<longleftrightarrow> n < 7" for n
  proof (cases "n < 8")
    case True
    then have "n \<in> {0,1,2,3,4,5,6,7}" by auto
    then show ?thesis by auto
  next
    case False
    then show ?thesis using bit_imp_le_length [of "127 :: u8" n] by auto
  qed
  have g: "bit_free (seen kfree0) (sb kfree0) b \<longleftrightarrow> \<not> bit (127 :: u8) b" if "b < 8" for b
    using that unfolding bit_free_def and_bit_of B by (simp add: kfree0_fields(1))
  show "bit_free (seen kfree0) (sb kfree0) b \<longleftrightarrow> b = 7"
    unfolding g [OF b] b127 using b by linarith
qed

lemma balloc_then_bfree_witness:
  "\<exists>u v. balloc 1 kfree0 = Ret 7 u \<and> bfree 1 7 u = Ret () v \<and> seen v = seen kfree0 \<and>
    bfree 1 7 v = Panic ''freeing free block''"
proof -
  have B: "BBLOCK (sb kfree0) 0 = 4" "unat (sb_size (sb kfree0)) = 8"
    by (simp_all add: kfree0_fields sb0_def BBLOCK_def BPB_def BSIZE_def)
  note f = kfree0_bits
  have "first_free (seen kfree0) (sb kfree0) = Some 7"
    unfolding first_free_def B find_Some_iff using f by (intro exI [of _ 7]) auto
  moreover have s7: "seen kfree0 7 = (\<lambda>_. 0)" by (simp add: kfree0_fields disk0_def)
  moreover have "in_op 2 {} (Suc (Suc (Suc (Suc 0)))) (Suc 0) kfree0" using kfree0_ok(1) by (simp add: numeral_eq_Suc)
  moreover have "(seen kfree0)(7 := \<lambda>_. 0) = seen kfree0" using s7 by (metis fun_upd_triv)
  ultimately show ?thesis
    using balloc_then_bfree [of 2 0 0 kfree0] kfree0_ok(2) f B by (auto simp: kfree0_fields(3,4) in_log_def)
qed

end
