(* ===== verification/Fs_Slots.thy ===== *)
theory Fs_Slots
  imports Fs_Path
begin

section \<open>The block map of a file and how it grows\<close>

text \<open>
  A file has \<open>MAXFILE + 1\<close> slots for block numbers: one for each of its blocks and, last, one for
  its indirect block. A slot with 0 is empty. \<open>slots_ok\<close> says that no block stands in two slots.
  The lemmas give the three ways in which bmap, and mkfs when it appends, fill an empty slot.
\<close>

definition slot :: "(nat \<Rightarrow> block) \<Rightarrow> inode \<Rightarrow> nat \<Rightarrow> u32" where
  "slot D p k = (if k = MAXFILE then addrs p NDIRECT else mapped D p k)"

definition used_blocks :: "(nat \<Rightarrow> block) \<Rightarrow> inode \<Rightarrow> nat set" where
  "used_blocks D p = {unat (slot D p k) | k. k \<le> MAXFILE \<and> slot D p k \<noteq> 0}"

definition slots_ok :: "(nat \<Rightarrow> block) \<Rightarrow> inode \<Rightarrow> bool" where
  "slots_ok D p \<longleftrightarrow> (\<forall>j k. j \<le> MAXFILE \<longrightarrow> k \<le> MAXFILE \<longrightarrow> slot D p j = slot D p k \<longrightarrow> slot D p j \<noteq> 0 \<longrightarrow> j = k)"

lemma slot_mapped: "k < MAXFILE \<Longrightarrow> slot D p k = mapped D p k"
  by (simp add: slot_def)

lemma slot_used: "k \<le> MAXFILE \<Longrightarrow> slot D p k \<noteq> 0 \<Longrightarrow> unat (slot D p k) \<in> used_blocks D p"
  by (auto simp: used_blocks_def)

lemma indirect_used: "addrs p NDIRECT \<noteq> 0 \<Longrightarrow> unat (addrs p NDIRECT) \<in> used_blocks D p"
  using slot_used [of MAXFILE D p] by (simp add: slot_def)

lemma slots_cong:
  assumes "addrs q = addrs p"
    and "addrs p NDIRECT \<noteq> 0 \<Longrightarrow> E (unat (addrs p NDIRECT)) = D (unat (addrs p NDIRECT))"
  shows "slot E q k = slot D p k" "slots_ok E q = slots_ok D p" "used_blocks E q = used_blocks D p"
proof -
  have s: "slot E q k = slot D p k" for k using assms by (auto simp: slot_def mapped_def)
  show "slot E q k = slot D p k" "slots_ok E q = slots_ok D p" "used_blocks E q = used_blocks D p"
    by (simp_all add: s slots_ok_def used_blocks_def)
qed

text \<open>Filling the empty slot \<open>k\<close> with the fresh block \<open>w\<close>.\<close>

definition fills :: "(nat \<Rightarrow> block) \<Rightarrow> inode \<Rightarrow> nat \<Rightarrow> u32 \<Rightarrow> (nat \<Rightarrow> block) \<Rightarrow> inode \<Rightarrow> bool" where
  "fills D p k w E q \<longleftrightarrow> k \<le> MAXFILE \<and> slot D p k = 0 \<and> w \<noteq> 0 \<and> unat w \<notin> used_blocks D p \<and>
     (\<forall>j\<le>MAXFILE. slot E q j = (if j = k then w else slot D p j))"

lemma fills_used:
  assumes "fills D p k w E q"
  shows "used_blocks E q = insert (unat w) (used_blocks D p)"
proof
  show "used_blocks E q \<subseteq> insert (unat w) (used_blocks D p)"
  proof
    fix x assume "x \<in> used_blocks E q"
    then obtain j where j: "x = unat (slot E q j)" "j \<le> MAXFILE" "slot E q j \<noteq> 0" by (auto simp: used_blocks_def)
    then have "slot E q j = (if j = k then w else slot D p j)" using assms by (auto simp: fills_def)
    then show "x \<in> insert (unat w) (used_blocks D p)" using j slot_used [of j D p] by (auto split: if_splits)
  qed
  have "unat w \<in> used_blocks E q" using assms slot_used [of k E q] by (simp add: fills_def)
  moreover have "x \<in> used_blocks E q" if x: "x \<in> used_blocks D p" for x
  proof -
    obtain j where j: "x = unat (slot D p j)" "j \<le> MAXFILE" "slot D p j \<noteq> 0"
      using x by (auto simp: used_blocks_def)
    then have "slot E q j = slot D p j" using assms by (auto simp: fills_def)
    then show ?thesis using j slot_used [of j E q] by simp
  qed
  ultimately show "insert (unat w) (used_blocks D p) \<subseteq> used_blocks E q" by auto
qed

lemma fills_ok:
  assumes "fills D p k w E q" and "slots_ok D p"
  shows "slots_ok E q"
proof -
  have n: "slot D p j \<noteq> w" if "j \<le> MAXFILE" for j
    using assms(1) slot_used [OF that, of D p] by (auto simp: fills_def)
  have e: "slot E q j = (if j = k then w else slot D p j)" if "j \<le> MAXFILE" for j
    using assms(1) that by (simp add: fills_def)
  show ?thesis unfolding slots_ok_def
  proof (intro allI impI)
    fix i j assume h: "i \<le> MAXFILE" "j \<le> MAXFILE" "slot E q i = slot E q j" "slot E q i \<noteq> 0"
    show "i = j"
      using h(3,4) e [OF h(1)] e [OF h(2)] n [OF h(1)] n [OF h(2)] assms(2) h(1,2)
      by (auto simp: slots_ok_def split: if_splits)
  qed
qed

lemma MAXFILE_facts: "NDIRECT < MAXFILE" "k < MAXFILE \<Longrightarrow> k - NDIRECT < NINDIRECT" "NINDIRECT = 128"
  by (auto simp: MAXFILE_def NDIRECT_def NINDIRECT_def BSIZE_def)

lemma fill_direct:
  assumes "k < NDIRECT" "addrs p k = 0" "w \<noteq> 0" "unat w \<notin> used_blocks D p"
    and "\<And>x. x \<in> used_blocks D p \<Longrightarrow> E x = D x"
  shows "fills D p k w E (p\<lparr>addrs := (addrs p)(k := w)\<rparr>)"
proof -
  have k: "k < MAXFILE" using assms(1) MAXFILE_facts(1) by simp
  have "slot E (p\<lparr>addrs := (addrs p)(k := w)\<rparr>) j = (if j = k then w else slot D p j)" for j
    using assms(1) k assms(5) indirect_used [of p D] by (auto simp: slot_def mapped_def)
  then show ?thesis using assms k by (simp add: fills_def slot_def mapped_def)
qed

lemma fill_indirect:
  assumes "addrs p NDIRECT = 0" "w \<noteq> 0" "unat w \<notin> used_blocks D p"
    and "\<And>i. i < BSIZE \<Longrightarrow> E (unat w) i = 0"
  shows "fills D p MAXFILE w E (p\<lparr>addrs := (addrs p)(NDIRECT := w)\<rparr>)"
proof -
  have "get32 (E (unat w)) (4 * (j - NDIRECT)) = 0" if "\<not> j < NDIRECT" "j < MAXFILE" for j
    using that assms(4) MAXFILE_facts(2) [OF that(2)] by (simp add: get32_def NINDIRECT_def BSIZE_def)
  then have "slot E (p\<lparr>addrs := (addrs p)(NDIRECT := w)\<rparr>) j = (if j = MAXFILE then w else slot D p j)"
    if "j \<le> MAXFILE" for j
    using that assms(1) MAXFILE_facts(1) by (auto simp: slot_def mapped_def)
  then show ?thesis using assms by (simp add: fills_def slot_def)
qed

lemma fill_entry:
  assumes "\<not> k < NDIRECT" "k < MAXFILE" "addrs p NDIRECT \<noteq> 0" "mapped D p k = 0" "w \<noteq> 0" "unat w \<notin> used_blocks D p"
    and "E (unat (addrs p NDIRECT)) = put32 (D (unat (addrs p NDIRECT))) (4 * (k - NDIRECT)) w"
  shows "fills D p k w E p"
proof -
  have "4 * (j - NDIRECT) + 4 \<le> 4 * (k - NDIRECT) \<or> 4 * (k - NDIRECT) + 4 \<le> 4 * (j - NDIRECT)"
    if "\<not> j < NDIRECT" "j \<noteq> k" for j using that assms(1) by linarith
  then have "slot E p j = (if j = k then w else slot D p j)" for j
    using assms(1-3,7) by (auto simp: slot_def mapped_def get32_put32 get32_other)
  then show ?thesis using assms by (simp add: fills_def slot_def)
qed

text \<open>A file that only got more blocks: its old slots and the bytes behind them are as before.\<close>

definition grow :: "(nat \<Rightarrow> block) \<Rightarrow> inode \<Rightarrow> (nat \<Rightarrow> block) \<Rightarrow> inode \<Rightarrow> bool" where
  "grow D p E q \<longleftrightarrow> slots_ok E q \<and> (\<forall>j\<le>MAXFILE. slot D p j \<noteq> 0 \<longrightarrow> slot E q j = slot D p j) \<and>
     (\<forall>j<MAXFILE. slot D p j \<noteq> 0 \<longrightarrow> E (unat (slot D p j)) = D (unat (slot D p j)))"

lemma grow_refl: "slots_ok D p \<Longrightarrow> grow D p D p"
  by (simp add: grow_def)

lemma grow_trans: "grow D p E q \<Longrightarrow> grow E q F r \<Longrightarrow> grow D p F r"
  unfolding grow_def by (metis less_imp_le_nat)

lemma fills_grow:
  assumes "fills D p k w E q" "slots_ok D p"
    and "\<And>j. j < MAXFILE \<Longrightarrow> slot D p j \<noteq> 0 \<Longrightarrow> E (unat (slot D p j)) = D (unat (slot D p j))"
  shows "grow D p E q"
  using assms fills_ok [OF assms(1,2)] by (auto simp: grow_def fills_def)

lemma grow_byte:
  assumes "grow D p E q" "j div BSIZE < MAXFILE" "slot D p (j div BSIZE) \<noteq> 0"
  shows "fbyte E q j = fbyte D p j"
proof -
  have "slot E q (j div BSIZE) = slot D p (j div BSIZE)"
    "E (unat (slot D p (j div BSIZE))) = D (unat (slot D p (j div BSIZE)))"
    using assms by (simp_all add: grow_def)
  then show ?thesis unfolding fbyte_def using assms(2) by (metis slot_mapped)
qed

text \<open>A piece of a block replaced by the bytes \<open>bs\<close>.\<close>

definition overlay :: "nat \<Rightarrow> u8 list \<Rightarrow> block \<Rightarrow> block" where
  "overlay at bs d j = (if at \<le> j \<and> j < at + length bs then bs ! (j - at) else d j)"

text \<open>Writing a chunk into block \<open>k\<close> of the file changes these bytes of the file and no slot.\<close>

lemma overlay_chunk:
  assumes ok: "slots_ok D p" and k: "off div BSIZE < MAXFILE" "slot D p (off div BSIZE) \<noteq> 0"
    and E: "E = D(unat (slot D p (off div BSIZE)) := overlay (off mod BSIZE) bs (D (unat (slot D p (off div BSIZE)))))"
    and m: "length bs \<le> BSIZE - off mod BSIZE"
  shows "slot E p j = slot D p j" "slots_ok E p" "used_blocks E p = used_blocks D p"
    "i div BSIZE < MAXFILE \<Longrightarrow> slot D p (i div BSIZE) \<noteq> 0 \<Longrightarrow>
       fbyte E p i = (if off \<le> i \<and> i < off + length bs then bs ! (i - off) else fbyte D p i)"
proof -
  let ?k = "off div BSIZE"
  have "slot D p MAXFILE \<noteq> slot D p ?k"
    using ok k unfolding slots_ok_def by (metis less_imp_le_nat less_irrefl order_refl)
  then have "unat (addrs p NDIRECT) \<noteq> unat (slot D p ?k)" by (metis slot_def word_unat_eq_iff)
  then have "E (unat (addrs p NDIRECT)) = D (unat (addrs p NDIRECT))" by (simp add: E)
  then have s: "slot E p j = slot D p j" for j using slots_cong(1) [of p p E D] by simp
  then show "slot E p j = slot D p j" .
  show "slots_ok E p" "used_blocks E p = used_blocks D p" using ok by (simp_all add: s slots_ok_def used_blocks_def)
  assume i: "i div BSIZE < MAXFILE" "slot D p (i div BSIZE) \<noteq> 0"
  have me: "mapped E p (i div BSIZE) = slot D p (i div BSIZE)" using i(1) s by (simp flip: slot_mapped)
  show "fbyte E p i = (if off \<le> i \<and> i < off + length bs then bs ! (i - off) else fbyte D p i)"
  proof (cases "i div BSIZE = ?k")
    case True
    have "i = ?k * BSIZE + i mod BSIZE" "off = ?k * BSIZE + off mod BSIZE"
      using div_mult_mod_eq [of i BSIZE] True by simp_all
    then have "off mod BSIZE \<le> i mod BSIZE \<longleftrightarrow> off \<le> i" "i mod BSIZE - off mod BSIZE = i - off"
      "i mod BSIZE < off mod BSIZE + length bs \<longleftrightarrow> i < off + length bs" by linarith+
    then show ?thesis unfolding fbyte_def me using i(1) by (simp add: True E overlay_def flip: slot_mapped)
  next
    case False
    have "slot D p (i div BSIZE) \<noteq> slot D p ?k"
      using False ok k(1) i unfolding slots_ok_def by (metis less_imp_le_nat)
    moreover have "\<not> (off \<le> i \<and> i < off + length bs)"
    proof
      assume h: "off \<le> i \<and> i < off + length bs"
      then have "i - off < chunk off BSIZE" using m by (auto simp: chunk_def)
      then show False using chunk_div(1) [of "i - off" off BSIZE] h False by simp
    qed
    moreover have "unat (slot D p (i div BSIZE)) \<noteq> unat (slot D p ?k)"
      using calculation(1) by (simp add: word_unat_eq_iff)
    ultimately show ?thesis unfolding fbyte_def me using slot_mapped [OF i(1), of D p] by (auto simp: E)
  qed
qed

text \<open>A file of \<open>n\<close> bytes with the blocks it needs and no other, and how many these are.\<close>

definition file_at :: "(nat \<Rightarrow> block) \<Rightarrow> inode \<Rightarrow> nat \<Rightarrow> bool" where
  "file_at D p n \<longleftrightarrow> slots_ok D p \<and> n \<le> MAXFILE * BSIZE \<and> (\<forall>k<MAXFILE. slot D p k \<noteq> 0 \<longleftrightarrow> k * BSIZE < n) \<and>
     (slot D p MAXFILE \<noteq> 0 \<longleftrightarrow> NDIRECT * BSIZE < n)"

definition blocks_for :: "nat \<Rightarrow> nat" where
  "blocks_for n = (n + BSIZE - 1) div BSIZE + (if NDIRECT * BSIZE < n then 1 else 0)"

lemma chunk_facts:
  assumes "0 < left"
  shows "k * BSIZE < off + chunk off left \<longleftrightarrow> k * BSIZE < off \<or> k = off div BSIZE"
    "blocks_for (off + chunk off left) = blocks_for off +
       (if off mod BSIZE = 0 then if off = NDIRECT * BSIZE then 2 else 1 else 0)"
proof -
  define q r where "q = off div 512" and "r = off mod 512"
  have o: "off = q * 512 + r" "r < 512" by (simp_all add: q_def r_def)
  obtain m where m: "chunk off left = m" "0 < m" "r + m \<le> 512"
    using assms by (auto simp: chunk_def BSIZE_def r_def)
  show "k * BSIZE < off + chunk off left \<longleftrightarrow> k * BSIZE < off \<or> k = off div BSIZE"
    unfolding m(1) using m(2,3) o by (auto simp: BSIZE_def q_def [symmetric])
  have d: "(q * 512 + r + m + 512 - 1) div 512 = q + 1" using m(2,3) o(2) by (simp add: div_nat_eqI)
  have e: "(q * 512 + r + 512 - 1) div 512 = q + (if r = 0 then 0 else 1)" using o(2) by (simp add: div_nat_eqI)
  have n: "NDIRECT = 12" by (simp add: NDIRECT_def)
  have a: "12 * 512 < q * 512 + r + m \<longleftrightarrow> 12 \<le> q" using m(2,3) by linarith
  have b: "12 * 512 < q * 512 + r \<longleftrightarrow> 12 < q \<or> 12 = q \<and> 0 < r" using o(2) by linarith
  have c: "q * 512 + r = 12 * 512 \<longleftrightarrow> q = 12 \<and> r = 0"
  proof
    assume h: "q * 512 + r = 12 * 512"
    have "q = 12" using h o(2) by linarith
    then show "q = 12 \<and> r = 0" using h by simp
  qed simp
  have "(q * 512 + r) mod 512 = r" using o(2) by simp
  show "blocks_for (off + chunk off left) = blocks_for off +
      (if off mod BSIZE = 0 then if off = NDIRECT * BSIZE then 2 else 1 else 0)"
    unfolding m(1) unfolding blocks_for_def BSIZE_def n unfolding o(1) d e \<open>(q * 512 + r) mod 512 = r\<close> a b c
    by auto
qed

text \<open>A file is a function of its own blocks.\<close>

lemma file_frame:
  assumes "addrs q = addrs p" "\<And>x. x \<in> used_blocks D p \<Longrightarrow> E x = D x"
  shows "file_at E q n = file_at D p n" "used_blocks E q = used_blocks D p" "slot E q k = slot D p k"
    "file_at D p n \<Longrightarrow> j < n \<Longrightarrow> fbyte E q j = fbyte D p j"
proof -
  have s: "slot E q k = slot D p k" "slots_ok E q = slots_ok D p" "used_blocks E q = used_blocks D p" for k
    using slots_cong [of q p E D] assms indirect_used [of p D] by blast+
  then show "file_at E q n = file_at D p n" "used_blocks E q = used_blocks D p" "slot E q k = slot D p k"
    by (simp_all add: file_at_def)
  assume f: "file_at D p n" and j: "j < n"
  then have b: "j div BSIZE < MAXFILE" by (auto simp: file_at_def BSIZE_def div_less_iff_less_mult)
  have "j div BSIZE * BSIZE < n" using j div_mult_mod_eq [of j BSIZE] by linarith
  then have "slot D p (j div BSIZE) \<noteq> 0" using f b by (simp add: file_at_def)
  then have "unat (slot D p (j div BSIZE)) \<in> used_blocks D p" using slot_used [OF less_imp_le_nat [OF b]] by simp
  then show "fbyte E q j = fbyte D p j"
    using assms(2) s(1) [of "j div BSIZE"] b by (simp add: fbyte_def slot_mapped)
qed

text \<open>The blocks that an access to block \<open>k\<close> adds to a file.\<close>

definition new_blocks :: "(nat \<Rightarrow> block) \<Rightarrow> inode \<Rightarrow> nat \<Rightarrow> nat" where
  "new_blocks D p k = (if slot D p k \<noteq> 0 then 0 else if NDIRECT \<le> k \<and> addrs p NDIRECT = 0 then 2 else 1)"

lemma new_blocks_chunk:
  assumes "file_at D p off" "off div BSIZE < MAXFILE"
  shows "new_blocks D p (off div BSIZE) = (if off mod BSIZE = 0 then if off = NDIRECT * BSIZE then 2 else 1 else 0)"
proof -
  have s: "slot D p (off div BSIZE) \<noteq> 0 \<longleftrightarrow> off mod BSIZE \<noteq> 0"
    using assms div_mult_mod_eq [of off BSIZE] unfolding file_at_def by (metis less_add_same_cancel1 less_irrefl neq0_conv add.right_neutral)
  have a: "addrs p NDIRECT = 0 \<longleftrightarrow> \<not> NDIRECT * BSIZE < off" using assms(1) by (auto simp: file_at_def slot_def)
  have "NDIRECT \<le> off div BSIZE \<and> \<not> NDIRECT * BSIZE < off \<longleftrightarrow> off = NDIRECT * BSIZE" if "off mod BSIZE = 0"
    using that div_mult_mod_eq [of off BSIZE] by (auto simp: BSIZE_def)
  then show ?thesis using s a by (auto simp: new_blocks_def)
qed

lemma blocks_for_mono: "m \<le> n \<Longrightarrow> blocks_for m \<le> blocks_for n"
  by (simp add: blocks_for_def div_le_mono add_mono)

end
