(* ===== verification/Fs_Grow.thy ===== *)
theory Fs_Grow
  imports Fs_Slots Fs_Write
begin

section \<open>Writing to a file\<close>

text \<open>
  Inside an operation of the log, bmap gives a file the block it needs and writei changes the
  bytes of the file. \<open>owns\<close> is what both rely on: the blocks of the file are marked in the bit map,
  and none of them, nor any free block, is a block of the log, the bit map or the file's inode.
\<close>

subsection \<open>What an operation on a file leaves alone\<close>

definition fsop :: "nat \<Rightarrow> 'z kfs_scheme \<Rightarrow> 'z kfs_scheme \<Rightarrow> bool" where
  "fsop i s t \<longleftrightarrow> opframe (s\<lparr>inodes := inodes t\<rparr>) t \<and> (\<forall>j. j \<noteq> i \<longrightarrow> inodes t j = inodes s j) \<and>
     (\<exists>a z. inodes t i = (inodes s i)\<lparr>addrs := a, isize := z\<rparr>)"

lemma opframe_inodes:
  fixes s t :: "'z kfs_scheme"
  assumes "opframe s t"
  shows "opframe (s\<lparr>inodes := x\<rparr>) (t\<lparr>inodes := x\<rparr>)"
proof -
  have "outside (t\<lparr>inodes := x\<rparr>) = outside (s\<lparr>lhn := lhn t, lhblock := lhblock t, inodes := x\<rparr>)"
    using outside_inodes [of t "s\<lparr>lhn := lhn t, lhblock := lhblock t\<rparr>" x] assms by (simp add: opframe_def bframe_def)
  then show ?thesis using assms by (simp add: opframe_def bframe_def)
qed

lemma fsop_opframe:
  fixes s t :: "'z kfs_scheme"
  assumes "opframe s t"
  shows "fsop i s t"
proof -
  have "inodes t = inodes s" using opframe_fs [OF assms] by simp
  then show ?thesis using assms unfolding fsop_def
    by (intro conjI exI [of _ "addrs (inodes s i)"] exI [of _ "isize (inodes s i)"]) simp_all
qed

lemma fsop_set:
  fixes s :: "'z kfs_scheme"
  shows "fsop i s (s\<lparr>inodes := (inodes s)(i := (inodes s i)\<lparr>addrs := a, isize := z\<rparr>)\<rparr>)"
  by (auto simp: fsop_def)

lemma fsop_trans:
  fixes s t u :: "'z kfs_scheme"
  assumes "fsop i s t" "fsop i t u"
  shows "fsop i s u"
proof -
  have "opframe (s\<lparr>inodes := inodes u\<rparr>) (t\<lparr>inodes := inodes u\<rparr>)"
    using opframe_inodes [of "s\<lparr>inodes := inodes t\<rparr>" t "inodes u"] assms(1) by (simp add: fsop_def)
  then have "opframe (s\<lparr>inodes := inodes u\<rparr>) u" using assms(2) opframe_trans by (auto simp: fsop_def)
  moreover obtain a z b y where "inodes t i = (inodes s i)\<lparr>addrs := a, isize := z\<rparr>" "inodes u i = (inodes t i)\<lparr>addrs := b, isize := y\<rparr>"
    using assms by (auto simp: fsop_def)
  then have "inodes u i = (inodes s i)\<lparr>addrs := b, isize := y\<rparr>" by simp
  ultimately show ?thesis using assms unfolding fsop_def by metis
qed

lemma fsop_frame:
  fixes s t :: "'z kfs_scheme"
  assumes "fsop i s t"
  shows "sb t = sb s" "in_log t = in_log s" "layout_ok t = layout_ok s" "j \<noteq> i \<Longrightarrow> inodes t j = inodes s j"
    "idev (inodes t i) = idev (inodes s i)" "inum (inodes t i) = inum (inodes s i)" "itype (inodes t i) = itype (inodes s i)"
proof -
  have o: "opframe (s\<lparr>inodes := inodes t\<rparr>) t" using assms by (simp add: fsop_def)
  show "sb t = sb s" using opframe_fs(2) [OF o] by simp
  show "in_log t = in_log s" using opframe_log(5) [OF o] by (simp add: in_log_def)
  then show "layout_ok t = layout_ok s" using \<open>sb t = sb s\<close> by (simp add: layout_ok_def)
  show "j \<noteq> i \<Longrightarrow> inodes t j = inodes s j" "idev (inodes t i) = idev (inodes s i)" "inum (inodes t i) = inum (inodes s i)"
    "itype (inodes t i) = itype (inodes s i)"
    using assms by (auto simp: fsop_def)
qed

lemma in_op_inodes [simp]:
  fixes s :: "'z kfs_scheme"
  shows "in_op me H k j (s\<lparr>inodes := x\<rparr>) = in_op me H k j s" "layout_ok (s\<lparr>inodes := x\<rparr>) = layout_ok s"
    "in_log (s\<lparr>inodes := x\<rparr>) = in_log s"
proof -
  have h: "home (s\<lparr>inodes := x\<rparr>) = home s" by (simp add: home_def fun_eq_iff)
  show i: "in_log (s\<lparr>inodes := x\<rparr>) = in_log s" by (simp add: in_log_def)
  have l: "log_ok (s\<lparr>inodes := x\<rparr>) = log_ok s" by (simp add: log_ok_def h i)
  show "in_op me H k j (s\<lparr>inodes := x\<rparr>) = in_op me H k j s" by (simp add: in_op_def h l)
  show "layout_ok (s\<lparr>inodes := x\<rparr>) = layout_ok s" by (simp add: layout_ok_def i)
qed

subsection \<open>The blocks of a file and the free blocks\<close>

definition apart :: "'z kfs_scheme \<Rightarrow> nat \<Rightarrow> nat \<Rightarrow> bool" where
  "apart s i b \<longleftrightarrow> b \<noteq> 0 \<and> b < FSSIZE \<and> b \<notin> in_log s \<and> b \<noteq> BBLOCK (sb s) 0 \<and> b \<noteq> IBLOCK (sb s) (inum (inodes s i))"

definition owns :: "nat \<Rightarrow> 'z kfs_scheme \<Rightarrow> bool" where
  "owns i s \<longleftrightarrow> idev (inodes s i) = 1 \<and> layout_ok s \<and> slots_ok (seen s) (inodes s i) \<and>
     (\<forall>b\<in>used_blocks (seen s) (inodes s i). apart s i b \<and> \<not> bit_free (seen s) (sb s) b) \<and>
     (\<forall>b<unat (sb_size (sb s)). bit_free (seen s) (sb s) b \<longrightarrow> apart s i b)"

definition free_blocks :: "'z kfs_scheme \<Rightarrow> nat set" where
  "free_blocks s = {b. b < unat (sb_size (sb s)) \<and> bit_free (seen s) (sb s) b}"

lemma finite_free [simp]: "finite (free_blocks s)"
  by (simp add: free_blocks_def)

lemma balloc_get:
  fixes s :: "'z kfs_scheme"
  assumes op: "in_op me H (Suc (Suc k)) (Suc j) s" and o: "owns i s" and f: "free_blocks s \<noteq> {}"
    and H: "\<And>b. b \<in> H \<Longrightarrow> bblockno (bufs s b) \<in> used_blocks (seen s) (inodes s i)"
  shows "\<exists>a u. a \<in> free_blocks s \<and> balloc 1 s = Ret (of_nat a) u \<and> in_op me H k (Suc j) u \<and> opframe s u \<and>
    seen u = allocated (sb s) a (seen s) \<and> (\<forall>c\<in>H. bcore (bufs u c) = bcore (bufs s c))"
proof -
  obtain a where a: "first_free (seen s) (sb s) = Some a"
    using f by (cases "first_free (seen s) (sb s)") (auto simp: first_free_def find_None_iff free_blocks_def)
  then have af: "a \<in> free_blocks s" by (auto simp: first_free_def find_Some_iff free_blocks_def)
  then have "apart s i a" using o by (auto simp: owns_def free_blocks_def)
  moreover have "bblockno (bufs s b) \<noteq> BBLOCK (sb s) 0 \<and> bblockno (bufs s b) \<noteq> a" if "b \<in> H" for b
    using H [OF that] o af by (auto simp: owns_def apart_def free_blocks_def)
  ultimately show ?thesis
    using balloc_run [OF op _ a] o af unfolding allocated_def owns_def apart_def by blast
qed

lemma fresh_block:
  fixes s :: "'z kfs_scheme"
  assumes "owns i s" "a \<in> free_blocks s"
  shows "unat (of_nat a :: u32) = a" "(of_nat a :: u32) \<noteq> 0" "a \<notin> used_blocks (seen s) (inodes s i)" "apart s i a"
proof -
  show ap: "apart s i a" using assms by (auto simp: owns_def free_blocks_def)
  then show u: "unat (of_nat a :: u32) = a" by (intro unat_of_nat_small) (simp add: apart_def FSSIZE_def)
  then show "(of_nat a :: u32) \<noteq> 0" using ap by (metis apart_def unsigned_0)
  show "a \<notin> used_blocks (seen s) (inodes s i)" using assms by (auto simp: owns_def free_blocks_def)
qed

text \<open>Only blocks were added to the file.\<close>

definition grown :: "nat \<Rightarrow> 'z kfs_scheme \<Rightarrow> 'z kfs_scheme \<Rightarrow> bool" where
  "grown i s t \<longleftrightarrow> fsop i s t \<and> owns i t \<and> grow (seen s) (inodes s i) (seen t) (inodes t i) \<and>
     isize (inodes t i) = isize (inodes s i) \<and>
     (\<forall>x. x \<notin> used_blocks (seen t) (inodes t i) \<longrightarrow> x \<noteq> BBLOCK (sb s) 0 \<longrightarrow> seen t x = seen s x) \<and>
     used_blocks (seen s) (inodes s i) \<subseteq> used_blocks (seen t) (inodes t i)"

lemma grown_quiet:
  assumes "owns i s" "opframe s t" "seen t = seen s"
  shows "grown i s t" "owns i t"
proof -
  have f: "inodes t = inodes s" "sb t = sb s" "in_log t = in_log s" "layout_ok t = layout_ok s"
    using opframe_fs [OF assms(2)] opframe_log [OF assms(2)] layout_opframe [OF assms(2)] by simp_all
  show o: "owns i t" using assms(1,3) f by (simp add: owns_def apart_def)
  show "grown i s t" using o f assms grow_refl [of "seen s"] fsop_opframe [OF assms(2)] by (simp add: grown_def owns_def)
qed

lemma grown_trans:
  assumes "grown i s t" "grown i t u"
  shows "grown i s u"
proof -
  have b: "sb t = sb s" using assms(1) fsop_frame(1) by (auto simp: grown_def)
  have "seen u x = seen s x" if "x \<notin> used_blocks (seen u) (inodes u i)" "x \<noteq> BBLOCK (sb s) 0" for x
  proof -
    have "x \<notin> used_blocks (seen t) (inodes t i)" using that assms(2) by (auto simp: grown_def)
    then show ?thesis using that assms b by (simp add: grown_def)
  qed
  then show ?thesis using assms fsop_trans grow_trans unfolding grown_def by (metis order_trans)
qed

lemma fill_step:
  fixes s t :: "'z kfs_scheme"
  assumes o: "owns i s" and a: "a \<in> free_blocks s" and fr: "fsop i s t" "isize (inodes t i) = isize (inodes s i)"
    and f: "fills (seen s) (inodes s i) j (of_nat a) (seen t) (inodes t i)"
    and e: "\<And>x. x \<noteq> BBLOCK (sb s) 0 \<Longrightarrow> x \<noteq> a \<Longrightarrow> x \<noteq> y \<Longrightarrow> seen t x = seen s x"
    and y: "y = a \<or> addrs (inodes s i) NDIRECT \<noteq> 0 \<and> y = unat (addrs (inodes s i) NDIRECT)"
    and m: "seen t (BBLOCK (sb s) 0) = mark_bit a (seen s (BBLOCK (sb s) 0))"
  shows "grown i s t" "free_blocks t = free_blocks s - {a}"
proof -
  let ?D = "seen s" and ?p = "inodes s i" and ?E = "seen t" and ?q = "inodes t i"
  note fb = fresh_block [OF o a] and ff = fsop_frame [OF fr(1)]
  have us: "used_blocks ?E ?q = insert a (used_blocks ?D ?p)" using fills_used [OF f] fb(1) by simp
  have so: "slots_ok ?D ?p" using o by (simp add: owns_def)
  have ap: "apart t i b = apart s i b" for b using ff by (simp add: apart_def)
  have bf: "bit_free ?E (sb t) b \<longleftrightarrow> bit_free ?D (sb s) b \<and> b \<noteq> a" for b
    using mark_bit_free(1) [of a "?D (BBLOCK (sb s) 0)" b] m ff(1) by (simp add: bit_free_def)
  show "free_blocks t = free_blocks s - {a}" using bf ff(1) by (auto simp: free_blocks_def)
  have ot: "owns i t"
    using o fb(4) ap bf us fills_ok [OF f so] ff(1,3,5) by (auto simp: owns_def)
  have "?E (unat (slot ?D ?p l)) = ?D (unat (slot ?D ?p l))" if l: "l < MAXFILE" "slot ?D ?p l \<noteq> 0" for l
  proof (rule e)
    have u: "unat (slot ?D ?p l) \<in> used_blocks ?D ?p" using slot_used [OF less_imp_le_nat [OF l(1)] l(2)] .
    then show "unat (slot ?D ?p l) \<noteq> BBLOCK (sb s) 0" "unat (slot ?D ?p l) \<noteq> a"
      using o fb(3) by (auto simp: owns_def apart_def)
    have "slot ?D ?p l \<noteq> slot ?D ?p MAXFILE" using so l unfolding slots_ok_def by (metis less_imp_le_nat less_irrefl order_refl)
    then have "unat (slot ?D ?p l) \<noteq> unat (addrs ?p NDIRECT)" by (simp add: slot_def word_unat_eq_iff split: if_splits)
    then show "unat (slot ?D ?p l) \<noteq> y" using y \<open>unat (slot ?D ?p l) \<noteq> a\<close> by auto
  qed
  then have g: "grow ?D ?p ?E ?q" by (rule fills_grow [OF f so])
  have yu: "y \<in> used_blocks ?E ?q" using y us indirect_used [of ?p ?D] by auto
  have "?E x = ?D x" if "x \<notin> used_blocks ?E ?q" "x \<noteq> BBLOCK (sb s) 0" for x
    using e [of x] that us yu by auto
  then show "grown i s t" using fr ot g us by (auto simp: grown_def)
qed

definition kgot :: "nat \<Rightarrow> nat \<Rightarrow> 'z kfs_scheme \<Rightarrow> 'z kfs_scheme \<Rightarrow> bool" where
  "kgot i k s t \<longleftrightarrow> grown i s t \<and> card (free_blocks t) + new_blocks (seen s) (inodes s i) k = card (free_blocks s) \<and>
     (\<forall>j\<le>MAXFILE. slot (seen t) (inodes t i) j \<noteq> 0 \<longleftrightarrow>
        slot (seen s) (inodes s i) j \<noteq> 0 \<or> j = k \<or> j = MAXFILE \<and> NDIRECT \<le> k)"

lemma kgot_refl:
  assumes "owns i s" "slot (seen s) (inodes s i) k \<noteq> 0" "k < MAXFILE"
  shows "kgot i k s s"
proof -
  have "slot (seen s) (inodes s i) MAXFILE \<noteq> 0" if "NDIRECT \<le> k"
    using assms(2,3) that by (auto simp: slot_def mapped_def split: if_splits)
  then show ?thesis using grown_quiet(1) [OF assms(1) opframe_refl refl] assms(2)
    by (auto simp: kgot_def new_blocks_def)
qed

text \<open>A new address in the inode itself: of a direct block or of the indirect block.\<close>

lemma addr_step:
  fixes s u :: "'z kfs_scheme"
  assumes o: "owns i s" and a: "a \<in> free_blocks s" and u: "opframe s u" "seen u = allocated (sb s) a (seen s)"
    and l: "l \<le> NDIRECT" "addrs (inodes s i) l = 0" and j: "j = (if l < NDIRECT then l else MAXFILE)"
    and t: "t = u\<lparr>inodes := (inodes u)(i := (inodes u i)\<lparr>addrs := (addrs (inodes u i))(l := of_nat a)\<rparr>)\<rparr>"
  shows "grown i s t" "free_blocks t = free_blocks s - {a}"
    "fills (seen s) (inodes s i) j (of_nat a) (seen t) (inodes t i)"
proof -
  let ?D = "seen s" and ?p = "inodes s i"
  note fb = fresh_block [OF o a]
  have iu: "inodes u = inodes s" using opframe_fs [OF u(1)] by simp
  have st: "seen t = allocated (sb s) a ?D" using u(2) by (simp add: t)
  have q: "inodes t i = ?p\<lparr>addrs := (addrs ?p)(l := of_nat a)\<rparr>" by (simp add: t iu)
  have al: "a \<noteq> BBLOCK (sb s) 0" using fb(4) by (simp add: apart_def)
  have same: "allocated (sb s) a ?D x = ?D x" if "x \<in> used_blocks ?D ?p" for x
    using that o fb(3) by (auto simp: allocated_def owns_def apart_def)
  show f: "fills ?D ?p j (of_nat a) (seen t) (inodes t i)"
  proof (cases "l < NDIRECT")
    case True
    then show ?thesis using fill_direct [OF True l(2) fb(2), of ?D "seen t"] fb(1,3) same j by (simp add: q st)
  next
    case False
    then show ?thesis using fill_indirect [of ?p "of_nat a" ?D "seen t"] l fb j al by (simp add: q st allocated_def)
  qed
  have "fsop i u t" using fsop_set [where i = i and s = u and a = "(addrs (inodes u i))(l := of_nat a)" and z = "isize (inodes u i)"] by (simp add: t)
  then have fr: "fsop i s t" using fsop_trans [OF fsop_opframe [OF u(1)]] by blast
  have iz: "isize (inodes t i) = isize ?p" by (simp add: q)
  have e: "seen t x = ?D x" if "x \<noteq> BBLOCK (sb s) 0" "x \<noteq> a" "x \<noteq> a" for x using that by (simp add: st allocated_def)
  have m: "seen t (BBLOCK (sb s) 0) = mark_bit a (?D (BBLOCK (sb s) 0))" using al by (simp add: st allocated_def)
  show "grown i s t" "free_blocks t = free_blocks s - {a}"
    using fill_step [OF o a fr iz f e _ m, of a] by simp_all
qed

text \<open>A new address in the indirect block, which the process holds in a buffer.\<close>

lemma entry_step:
  fixes s t :: "'z kfs_scheme"
  assumes o: "owns i s" and a: "a \<in> free_blocks s" and t: "opframe s t"
    and k: "\<not> k < NDIRECT" "k < MAXFILE" "addrs (inodes s i) NDIRECT \<noteq> 0" "mapped (seen s) (inodes s i) k = 0"
    and x: "x = unat (addrs (inodes s i) NDIRECT)"
    and E: "seen t = (allocated (sb s) a (seen s))(x := put32 (seen s x) (4 * (k - NDIRECT)) (of_nat a))"
  shows "grown i s t" "free_blocks t = free_blocks s - {a}"
    "fills (seen s) (inodes s i) k (of_nat a) (seen t) (inodes t i)"
proof -
  let ?D = "seen s" and ?p = "inodes s i"
  note fb = fresh_block [OF o a]
  have it: "inodes t = inodes s" using opframe_fs [OF t] by simp
  have xu: "x \<in> used_blocks ?D ?p" using indirect_used [OF k(3)] x by simp
  have al: "a \<noteq> BBLOCK (sb s) 0" "x \<noteq> BBLOCK (sb s) 0" "x \<noteq> a"
    using fb(3,4) xu o by (auto simp: apart_def owns_def)
  show f: "fills ?D ?p k (of_nat a) (seen t) (inodes t i)"
    unfolding it using fill_entry [OF k fb(2), of "seen t"] fb(1,3) by (simp add: E x)
  have iz: "isize (inodes t i) = isize ?p" by (simp add: it)
  have e: "seen t z = ?D z" if "z \<noteq> BBLOCK (sb s) 0" "z \<noteq> a" "z \<noteq> x" for z using that by (simp add: E allocated_def)
  have m: "seen t (BBLOCK (sb s) 0) = mark_bit a (?D (BBLOCK (sb s) 0))" using al by (simp add: E allocated_def)
  show "grown i s t" "free_blocks t = free_blocks s - {a}"
    using fill_step [OF o a fsop_opframe [OF t] iz f e _ m, of x] k(3) x by simp_all
qed

lemma block_word:
  assumes "k < MAXFILE"
  shows "unat (of_nat k :: u32) = k" "(of_nat k :: u32) < of_nat NDIRECT \<longleftrightarrow> k < NDIRECT"
    "\<not> k < NDIRECT \<Longrightarrow> unat (of_nat k - of_nat NDIRECT :: u32) = k - NDIRECT"
    "\<not> k < NDIRECT \<Longrightarrow> (of_nat k - of_nat NDIRECT :: u32) < of_nat NINDIRECT"
proof -
  show u: "unat (of_nat k :: u32) = k" by (rule of_nat_block [OF assms])
  have n: "unat (of_nat NDIRECT :: u32) = NDIRECT" "unat (of_nat NINDIRECT :: u32) = NINDIRECT"
    by (simp_all add: NDIRECT_def NINDIRECT_def BSIZE_def)
  show "(of_nat k :: u32) < of_nat NDIRECT \<longleftrightarrow> k < NDIRECT" unfolding word_less_nat_alt u n ..
  show d: "unat (of_nat k - of_nat NDIRECT :: u32) = k - NDIRECT" if "\<not> k < NDIRECT"
  proof -
    have "(of_nat NDIRECT :: u32) \<le> of_nat k" unfolding word_le_nat_alt u n using that by simp
    then show ?thesis by (simp only: unat_sub u n)
  qed
  show "(of_nat k - of_nat NDIRECT :: u32) < of_nat NINDIRECT" if "\<not> k < NDIRECT"
    using MAXFILE_facts(2) [OF assms] unfolding word_less_nat_alt d [OF that] n .
qed

lemma used_apart:
  assumes "owns i s" "j \<le> MAXFILE" "slot (seen s) (inodes s i) j \<noteq> 0"
  shows "apart s i (unat (slot (seen s) (inodes s i) j))"
  using assms slot_used [OF assms(2,3)] by (auto simp: owns_def)

text \<open>bmap behind an indirect block that is there.\<close>

lemma bmap_entry:
  fixes s :: "'z kfs_scheme"
  assumes op: "in_op me {} (Suc (Suc (Suc n))) (Suc (Suc j)) s" and o: "owns i s"
    and k: "\<not> k < NDIRECT" "k < MAXFILE" "addrs (inodes s i) NDIRECT \<noteq> 0"
    and room: "new_blocks (seen s) (inodes s i) k \<le> card (free_blocks s)"
  shows "\<exists>t. bmap i (of_nat k) s = Ret (slot (seen t) (inodes t i) k) t \<and> in_op me {} n (Suc (Suc j)) t \<and> kgot i k s t"
proof -
  let ?p = "inodes s i" and ?k = "4 * (k - NDIRECT)"
  define x where "x = unat (addrs ?p NDIRECT)"
  note w = block_word [OF k(2)] and w2 = block_word(3,4) [OF k(2,1)]
  have xa: "apart s i x" "x \<in> used_blocks (seen s) ?p"
    using used_apart [OF o, of MAXFILE] indirect_used [OF k(3), of "seen s"] k(3) by (simp_all add: x_def slot_def)
  have xf: "x < FSSIZE" "x \<notin> in_log s" using xa(1) by (simp_all add: apart_def)
  have d1: "idev ?p = 1" using o by (simp add: owns_def)
  obtain b t where t: "bread 1 x s = Ret b t" "in_op me {b} (Suc (Suc (Suc n))) (Suc j) t" "bblockno (bufs t b) = x"
    "bdata (bufs t b) = seen s x" "seen t = seen s" "opframe s t"
    using bread_step [OF op xf(1)] by blast
  have gt: "grown i s t" "owns i t" using grown_quiet [OF o t(6,5)] .
  have it: "inodes t = inodes s" "sb t = sb s" using opframe_fs [OF t(6)] by simp_all
  have sl: "slot (seen s) ?p k = get32 (seen s x) ?k" using k by (simp add: slot_def mapped_def x_def)
  show ?thesis
  proof (cases "slot (seen s) ?p k = 0")
    case False
    obtain u where u: "brelse b t = Ret () u" "in_op me {} (Suc (Suc (Suc n))) (Suc (Suc j)) u" "seen u = seen t" "opframe t u"
      using brelse_step [OF t(2)] by auto
    have os: "opframe s u" "seen u = seen s" using opframe_trans [OF t(6) u(4)] u(3) t(5) by simp_all
    have iu: "inodes u = inodes s" "free_blocks u = free_blocks s"
      using opframe_fs [OF os(1)] os(2) by (simp_all add: free_blocks_def)
    have "bmap i (of_nat k) s = Ret (slot (seen s) ?p k) u"
      using k w(1,2) w2 t(1,4) u(1) False d1 by (simp add: bmap_def Let_def sl x_def [symmetric] del: One_nat_def)
    moreover have "kgot i k s u"
      using kgot_refl [OF o False k(2)] grown_quiet(1) [OF o os] by (simp add: kgot_def os(2) iu)
    ultimately show ?thesis using in_op_less [OF u(2), of n "Suc (Suc j)"] os(2) iu by (intro exI [of _ u]) simp
  next
    case True
    have fr: "free_blocks t = free_blocks s" using it t(5) by (simp add: free_blocks_def)
    have "free_blocks t \<noteq> {}" using room True k(3) fr by (auto simp: new_blocks_def)
    moreover have "bblockno (bufs t c) \<in> used_blocks (seen t) (inodes t i)" if "c \<in> {b}" for c
      using that t(3,5) it xa(2) by simp
    ultimately obtain a u where u: "a \<in> free_blocks t" "balloc 1 t = Ret (of_nat a) u" "in_op me {b} (Suc n) (Suc j) u"
      "opframe t u" "seen u = allocated (sb t) a (seen t)" "bcore (bufs u b) = bcore (bufs t b)"
      using balloc_get [OF t(2) gt(2)] by blast
    have bu: "bblockno (bufs u b) = x" "bdata (bufs u b) = seen s x" using bcoreD [OF u(6)] t(3,4) by simp_all
    have nl: "x \<notin> in_log u" using xf(2) opframe_log(5) [OF t(6)] opframe_log(5) [OF u(4)] by simp
    obtain v where v: "log_write b (u\<lparr>bufs := (bufs u)(b := (bufs u b)\<lparr>bdata := put32 (seen s x) ?k (of_nat a)\<rparr>)\<rparr>) = Ret () v"
      "in_op me {b} n (Suc j) v" "seen v = (seen u)(x := put32 (seen s x) ?k (of_nat a))" "opframe u v"
      using log_write_step [OF u(3) _ bu(1) [symmetric] nl] by blast
    obtain z where z: "brelse b v = Ret () z" "in_op me {} n (Suc (Suc j)) z" "seen z = seen v" "opframe v z"
      using brelse_step [OF v(2)] by auto
    have oz: "opframe s z" using t(6) u(4) v(4) z(4) opframe_trans by blast
    have sz: "seen z = (allocated (sb s) a (seen s))(x := put32 (seen s x) ?k (of_nat a))"
      using z(3) v(3) u(5) it t(5) by simp
    have af: "a \<in> free_blocks s" using u(1) fr by simp
    have mp: "mapped (seen s) ?p k = 0" using True k(2) by (simp add: slot_mapped)
    note es = entry_step [OF o af oz k mp x_def sz]
    have "slot (seen z) (inodes z i) k = of_nat a" using es(3) k(2) by (simp add: fills_def)
    moreover have "bmap i (of_nat k) s = Ret (of_nat a) z"
      using k w(1,2) w2 t(1,4) u(2) v(1) z(1) bu(2) True d1
      by (simp add: bmap_def Let_def sl x_def [symmetric] set_data_def del: One_nat_def)
    moreover have "card (free_blocks z) + 1 = card (free_blocks s)"
      using es(2) af by (simp add: card_Diff_singleton card_gt_0_iff Suc_leI) (metis One_nat_def Suc_pred card_gt_0_iff empty_iff finite_free)
    then have "kgot i k s z"
      using es(1,3) True k fresh_block(2) [OF o af] by (auto simp: kgot_def new_blocks_def fills_def slot_def)
    ultimately show ?thesis using z(2) by (intro exI [of _ z]) simp
  qed
qed

lemma idev_addrs: "idev (p\<lparr>addrs := f\<rparr>) = idev p"
  by simp

lemma bmap_run:
  fixes s :: "'z kfs_scheme"
  assumes op: "in_op me {} (n + 5) (Suc (Suc j)) s" and o: "owns i s" and k: "k < MAXFILE"
    and room: "new_blocks (seen s) (inodes s i) k \<le> card (free_blocks s)"
  shows "\<exists>t. bmap i (of_nat k) s = Ret (slot (seen t) (inodes t i) k) t \<and> in_op me {} n (Suc (Suc j)) t \<and> kgot i k s t"
proof -
  let ?p = "inodes s i"
  note w = block_word [OF k]
  have d1: "idev ?p = 1" using o by (simp add: owns_def)
  have op3: "in_op me {} (Suc (Suc (Suc n))) (Suc (Suc j)) s" "in_op me {} (Suc (Suc (Suc (Suc (Suc n))))) (Suc (Suc j)) s"
    using in_op_less [OF op] by simp_all
  define l where "l = (if k < NDIRECT then k else NDIRECT)"
  show ?thesis
  proof (cases "addrs ?p l = 0")
    case z: True
    define m where "m = (if k < NDIRECT then k else MAXFILE)"
    have l: "l \<le> NDIRECT" "m = (if l < NDIRECT then l else MAXFILE)" by (simp_all add: l_def m_def)
    have s0: "slot (seen s) ?p k = 0"
      using z k by (auto simp: l_def slot_def mapped_def split: if_splits)
    have nb: "new_blocks (seen s) ?p k = (if k < NDIRECT then 1 else 2)" using z s0 by (auto simp: l_def new_blocks_def split: if_splits)
    then have "free_blocks s \<noteq> {}" using room by (auto split: if_splits)
    then obtain a u where u: "a \<in> free_blocks s" "balloc 1 s = Ret (of_nat a) u" "in_op me {} (Suc (Suc (Suc n))) (Suc (Suc j)) u"
      "opframe s u" "seen u = allocated (sb s) a (seen s)"
      using balloc_get [OF op3(2) o] by blast
    define t where "t = u\<lparr>inodes := (inodes u)(i := (inodes u i)\<lparr>addrs := (addrs (inodes u i))(l := of_nat a)\<rparr>)\<rparr>"
    note st = addr_step [OF o u(1,4,5) l(1) z l(2) t_def]
    have iu: "inodes u = inodes s" using opframe_fs [OF u(4)] by simp
    have it: "inodes t i = ?p\<lparr>addrs := (addrs ?p)(l := of_nat a)\<rparr>" by (simp add: t_def iu)
    have ot: "in_op me {} (Suc (Suc (Suc n))) (Suc (Suc j)) t" "owns i t" using u(3) st(1) by (simp_all add: t_def grown_def)
    have cf: "card (free_blocks t) + 1 = card (free_blocks s)"
      using st(2) u(1) by (simp add: card_Diff_singleton card_gt_0_iff Suc_leI) (metis One_nat_def Suc_pred card_gt_0_iff empty_iff finite_free)
    have n0: "(of_nat a :: u32) \<noteq> 0" using fresh_block(2) [OF o u(1)] .
    show ?thesis
    proof (cases "k < NDIRECT")
      case True
      have "bmap i (of_nat k) s = Ret (slot (seen t) (inodes t i) k) t"
        using True z k w(1,2) u(2) d1 by (simp add: bmap_def l_def slot_def mapped_def it) (simp add: t_def l_def)
      moreover have "kgot i k s t" using st(1,3) cf nb True n0 by (auto simp: kgot_def fills_def m_def)
      ultimately show ?thesis using in_op_less [OF ot(1), of n "Suc (Suc j)"] by auto
    next
      case False
      have an: "addrs (inodes t i) NDIRECT \<noteq> 0" using n0 False by (simp add: it l_def)
      have sl: "slot (seen t) (inodes t i) h = (if h = MAXFILE then of_nat a else slot (seen s) ?p h)" if "h \<le> MAXFILE" for h
        using st(3) that False by (simp add: fills_def m_def)
      have nt: "new_blocks (seen t) (inodes t i) k = 1" using an s0 k sl [of k] by (simp add: new_blocks_def)
      obtain v where v: "bmap i (of_nat k) t = Ret (slot (seen v) (inodes v i) k) v" "in_op me {} n (Suc (Suc j)) v" "kgot i k t v"
        using bmap_entry [OF ot False k an] nt cf nb False room by auto
      have "bmap i (of_nat k) s = bmap i (of_nat k) t"
        using False z w(2) block_word(3,4) [OF k False] u(2) d1 n0
        by (simp add: bmap_def l_def it Let_def, unfold idev_addrs, simp add: t_def l_def)
      moreover have "kgot i k s v"
        using v(3) grown_trans [OF st(1)] nt nb False cf s0 sl n0 by (auto simp: kgot_def)
      ultimately show ?thesis using v(1,2) by auto
    qed
  next
    case nz: False
    show ?thesis
    proof (cases "k < NDIRECT")
      case True
      then have s1: "slot (seen s) ?p k = addrs ?p k" "addrs ?p k \<noteq> 0" using nz k by (simp_all add: slot_def mapped_def l_def)
      then have "bmap i (of_nat k) s = Ret (slot (seen s) ?p k) s" using True w(1,2) by (simp add: bmap_def)
      then show ?thesis using kgot_refl [OF o _ k] s1 in_op_less [OF op, of n "Suc (Suc j)"] by (intro exI [of _ s]) simp
    next
      case False
      then show ?thesis using bmap_entry [OF op3(1) o False k _ room] nz by (simp add: l_def)
    qed
  qed
qed

lemma blocks_for_in: "k * BSIZE < n \<Longrightarrow> n \<le> (k + 1) * BSIZE \<Longrightarrow> blocks_for n = k + 1 + (if NDIRECT \<le> k then 1 else 0)"
proof -
  assume n: "k * BSIZE < n" "n \<le> (k + 1) * BSIZE"
  have "(n + BSIZE - 1) div BSIZE = k + 1" using n by (intro div_nat_eqI) (auto simp: BSIZE_def)
  moreover have "NDIRECT * BSIZE < n \<longleftrightarrow> NDIRECT \<le> k" using n by (auto simp: BSIZE_def)
  ultimately show ?thesis by (simp add: blocks_for_def)
qed

text \<open>A chunk at \<open>off\<close> in a file of \<open>z\<close> bytes: the file's extent and the blocks it needs.\<close>

lemma chunk_extent:
  assumes f: "file_at D p z" and o: "off \<le> z" "off div BSIZE < MAXFILE" and l: "0 < left"
  shows "blocks_for (max z (off + chunk off left)) = blocks_for z + new_blocks D p (off div BSIZE)"
    "l * BSIZE < max z (off + chunk off left) \<longleftrightarrow> l * BSIZE < z \<or> l = off div BSIZE"
    "NDIRECT * BSIZE < max z (off + chunk off left) \<longleftrightarrow> NDIRECT * BSIZE < z \<or> NDIRECT \<le> off div BSIZE"
proof -
  let ?k = "off div BSIZE" and ?m = "chunk off left"
  have d: "?k * BSIZE + off mod BSIZE = off" by simp
  have b: "?k * BSIZE \<le> off" "off < (?k + 1) * BSIZE" "off + ?m \<le> (?k + 1) * BSIZE" "?k * BSIZE < off + ?m"
  proof -
    have r: "off mod BSIZE < BSIZE" by (simp add: BSIZE_def)
    have m: "?m \<le> BSIZE - off mod BSIZE" "0 < ?m" using l r by (auto simp: chunk_def)
    have e: "(?k + 1) * BSIZE = ?k * BSIZE + BSIZE" by simp
    show "?k * BSIZE \<le> off" "off < (?k + 1) * BSIZE" "off + ?m \<le> (?k + 1) * BSIZE" "?k * BSIZE < off + ?m"
      unfolding e using d r m by linarith+
  qed
  show c: "l * BSIZE < max z (off + ?m) \<longleftrightarrow> l * BSIZE < z \<or> l = ?k" for l
    using chunk_facts(1) [OF l, of l off] o(1) by (auto simp: less_max_iff_disj)
  show "NDIRECT * BSIZE < max z (off + ?m) \<longleftrightarrow> NDIRECT * BSIZE < z \<or> NDIRECT \<le> ?k"
    using c [of NDIRECT] b(1) o(1) by (auto simp: BSIZE_def)
  have s: "slot D p ?k \<noteq> 0 \<longleftrightarrow> ?k * BSIZE < z" using f o(2) by (simp add: file_at_def)
  show "blocks_for (max z (off + ?m)) = blocks_for z + new_blocks D p ?k"
  proof (cases "?k * BSIZE < z")
    case True
    have "blocks_for (max z (off + ?m)) = blocks_for z"
    proof (cases "off + ?m \<le> z")
      case False
      then show ?thesis using blocks_for_in [OF True] blocks_for_in [OF b(4,3)] b(3) by (simp add: max_def)
    qed (simp add: max_def)
    then show ?thesis using True s by (simp add: new_blocks_def)
  next
    case False
    then have "z = off" "off mod BSIZE = 0" using o(1) b(1) d by linarith+
    then show ?thesis using chunk_facts(2) [OF l, of off] new_blocks_chunk [of D p off] f o(2) by (simp add: max_def)
  qed
qed

text \<open>The log blocks that a write may need: 6 for each block of the file it touches.\<close>

definition chunks :: "nat \<Rightarrow> nat \<Rightarrow> nat" where
  "chunks off n = (if n = 0 then 0 else (off + n - 1) div BSIZE - off div BSIZE + 1)"

lemma chunks_step:
  assumes "0 < n"
  shows "chunks off n = 1 + chunks (off + chunk off n) (n - chunk off n)"
proof (cases "n \<le> BSIZE - off mod BSIZE")
  case True
  then have m: "chunk off n = n" by (simp add: chunk_def)
  have "(off + (n - 1)) div BSIZE = off div BSIZE"
    using chunk_div(1) [of "n - 1" off n] m assms by simp
  then show ?thesis using assms by (simp add: chunks_def m)
next
  case False
  then have m: "chunk off n = BSIZE - off mod BSIZE" "chunk off n < n" by (auto simp: chunk_def)
  define q r where "q = off div 512" and "r = off mod 512"
  have o: "off = q * 512 + r" "r < 512" by (simp_all add: q_def r_def)
  have e: "off + chunk off n = (q + 1) * 512" using m(1) o by (simp add: BSIZE_def r_def [symmetric])
  have "(off + chunk off n) div BSIZE = q + 1" unfolding e by (simp add: BSIZE_def)
  moreover have "off + chunk off n + (n - chunk off n) - 1 = off + n - 1" using m(2) by simp
  moreover have "q + 1 \<le> (off + n - 1) div 512"
  proof -
    have "(q + 1) * 512 \<le> off + n - 1" using e m(2) by linarith
    then show ?thesis using div_le_mono [of "(q + 1) * 512" "off + n - 1" 512] by simp
  qed
  ultimately show ?thesis using assms m(2) by (simp add: chunks_def BSIZE_def q_def [symmetric])
qed

text \<open>The effect of writing \<open>bs\<close> at \<open>off\<close> into a file of \<open>z\<close> bytes.\<close>

definition wrote :: "nat \<Rightarrow> nat \<Rightarrow> u8 list \<Rightarrow> nat \<Rightarrow> 'z kfs_scheme \<Rightarrow> 'z kfs_scheme \<Rightarrow> bool" where
  "wrote i off bs z s t \<longleftrightarrow> fsop i s t \<and> owns i t \<and> isize (inodes t i) = isize (inodes s i) \<and>
     file_at (seen t) (inodes t i) (max z (off + length bs)) \<and>
     card (free_blocks t) + blocks_for (max z (off + length bs)) = card (free_blocks s) + blocks_for z \<and>
     used_blocks (seen s) (inodes s i) \<subseteq> used_blocks (seen t) (inodes t i) \<and>
     (\<forall>x. x \<notin> used_blocks (seen t) (inodes t i) \<longrightarrow> x \<noteq> BBLOCK (sb s) 0 \<longrightarrow> seen t x = seen s x) \<and>
     (\<forall>j<max z (off + length bs). fbyte (seen t) (inodes t i) j =
        (if off \<le> j \<and> j < off + length bs then bs ! (j - off) else fbyte (seen s) (inodes s i) j))"

lemma file_slot:
  assumes "file_at D p z" "j < z"
  shows "j div BSIZE < MAXFILE" "slot D p (j div BSIZE) \<noteq> 0"
proof -
  show m: "j div BSIZE < MAXFILE" using assms by (auto simp: file_at_def BSIZE_def div_less_iff_less_mult)
  have "j div BSIZE * BSIZE < z" using assms(2) div_mult_mod_eq [of j BSIZE] by linarith
  then show "slot D p (j div BSIZE) \<noteq> 0" using assms(1) m by (simp add: file_at_def)
qed

text \<open>The bytes of the file after bmap and the change of one block.\<close>

lemma chunk_written:
  assumes f: "file_at D p z" and o: "off \<le> z" "off div BSIZE < MAXFILE" and l: "0 < left"
    and g: "grow D p E q" and sl: "\<And>j. j \<le> MAXFILE \<Longrightarrow> slot E q j \<noteq> 0 \<longleftrightarrow> slot D p j \<noteq> 0 \<or> j = off div BSIZE \<or> j = MAXFILE \<and> NDIRECT \<le> off div BSIZE"
    and F: "F = E(unat (slot E q (off div BSIZE)) := overlay (off mod BSIZE) bs (E (unat (slot E q (off div BSIZE)))))"
    and bs: "length bs = chunk off left" "off + chunk off left \<le> MAXFILE * BSIZE"
  shows "file_at F q (max z (off + length bs))" "used_blocks F q = used_blocks E q" "slots_ok F q"
    "j < max z (off + length bs) \<Longrightarrow>
      fbyte F q j = (if off \<le> j \<and> j < off + length bs then bs ! (j - off) else fbyte D p j)"
proof -
  let ?k = "off div BSIZE"
  have eo: "slots_ok E q" using g by (simp add: grow_def)
  have nz: "slot E q ?k \<noteq> 0" using sl [of ?k] o(2) by simp
  have "length bs \<le> BSIZE - off mod BSIZE" unfolding bs(1) by (simp add: chunk_def)
  note ov = overlay_chunk [OF eo o(2) nz F this]
  note ce = chunk_extent [OF f o l, folded bs(1)]
  show "used_blocks F q = used_blocks E q" "slots_ok F q" using ov(2,3) by simp_all
  have "slot F q j \<noteq> 0 \<longleftrightarrow> j * BSIZE < max z (off + length bs)" if "j < MAXFILE" for j
    using ov(1) [of j] sl [of j] f that ce(2) [of j] by (auto simp: file_at_def)
  moreover have "slot F q MAXFILE \<noteq> 0 \<longleftrightarrow> NDIRECT * BSIZE < max z (off + length bs)"
    using ov(1) [of MAXFILE] sl [of MAXFILE] f o(2) ce(3) by (auto simp: file_at_def)
  ultimately show fa: "file_at F q (max z (off + length bs))"
    using ov(2) f bs(2) unfolding file_at_def bs(1) by simp
  show "fbyte F q j = (if off \<le> j \<and> j < off + length bs then bs ! (j - off) else fbyte D p j)"
    if j: "j < max z (off + length bs)"
  proof -
    note fs = file_slot [OF fa j]
    have sn: "slot E q (j div BSIZE) \<noteq> 0" using fs(2) ov(1) by simp
    show ?thesis
    proof (cases "off \<le> j \<and> j < off + length bs")
      case False
      then have "j < z" using j o(1) by auto
      then show ?thesis using ov(4) [OF fs(1) sn] False grow_byte [OF g fs(1)] file_slot(2) [OF f] by auto
    qed (use ov(4) [OF fs(1) sn] in simp)
  qed
qed

lemma write_chunk:
  fixes s :: "'z kfs_scheme"
  assumes op: "in_op me {} (n + 6) (Suc (Suc j)) s" and o: "owns i s" and f: "file_at (seen s) (inodes s i) z"
    and off: "off \<le> z" "bs \<noteq> []" "m = chunk off (length bs)" "off + m \<le> MAXFILE * BSIZE"
    and room: "blocks_for (max z (off + m)) \<le> card (free_blocks s) + blocks_for z"
  shows "\<exists>t u b v w x. bmap i (of_nat (off div BSIZE)) s = Ret x t \<and> bread 1 (unat x) t = Ret b u \<and>
    set_data b (overlay (off mod BSIZE) (take m bs)) u = Ret () v \<and> log_write b v = Ret () w \<and>
    (\<exists>y. brelse b w = Ret () y \<and> in_op me {} n (Suc (Suc j)) y \<and> wrote i off (take m bs) z s y)"
proof -
  let ?k = "off div BSIZE"
  have l: "0 < length bs" using off(2) by simp
  have lt: "length (take m bs) = m" "0 < m" using off(3) chunk_le [of off "length bs"] chunk_pos [of "length bs" off] l by simp_all
  have k: "?k < MAXFILE" using lt(2) off(4) by (simp add: BSIZE_def div_less_iff_less_mult)
  have op5: "in_op me {} (Suc n + 5) (Suc (Suc j)) s" using op by (simp add: add.commute)
  note ce = chunk_extent [OF f off(1) k l, folded off(3)]
  obtain t where t: "bmap i (of_nat ?k) s = Ret (slot (seen t) (inodes t i) ?k) t" "in_op me {} (Suc n) (Suc (Suc j)) t" "kgot i ?k s t"
    using bmap_run [OF op5 o k] ce(1) room by auto
  let ?x = "slot (seen t) (inodes t i) ?k"
  note g = t(3) [unfolded kgot_def grown_def]
  have ot: "owns i t" using g by simp
  have nz: "?x \<noteq> 0" using g k by auto
  note ap = used_apart [OF ot less_imp_le_nat [OF k] nz]
  have xf: "unat ?x < FSSIZE" "unat ?x \<notin> in_log t" using ap by (simp_all add: apart_def)
  define d where "d = overlay (off mod BSIZE) (take m bs)"
  obtain b u where u: "bread 1 (unat ?x) t = Ret b u" "opframe t u"
    "\<forall>f. \<exists>v w y. set_data b f u = Ret () v \<and> log_write b v = Ret () w \<and> brelse b w = Ret () y \<and>
      in_op me {} n (Suc (Suc j)) y \<and> seen y = (seen t)(unat ?x := f (seen t (unat ?x))) \<and> opframe t y"
    using logged_update [OF t(2) xf(1) _ xf(2)] by blast
  obtain v w y where y: "set_data b d u = Ret () v" "log_write b v = Ret () w" "brelse b w = Ret () y"
    "in_op me {} n (Suc (Suc j)) y" "seen y = (seen t)(unat ?x := d (seen t (unat ?x)))" "opframe t y"
    using u(3) [THEN spec, of d] by blast
  have iy: "inodes y = inodes t" "sb y = sb t" using opframe_fs [OF y(6)] by simp_all
  have gr: "grow (seen s) (inodes s i) (seen t) (inodes t i)" using g by simp
  have sl: "slot (seen t) (inodes t i) h \<noteq> 0 \<longleftrightarrow> slot (seen s) (inodes s i) h \<noteq> 0 \<or> h = ?k \<or> h = MAXFILE \<and> NDIRECT \<le> ?k"
    if "h \<le> MAXFILE" for h using g that by blast
  have F: "seen y = (seen t)(unat ?x := overlay (off mod BSIZE) (take m bs) (seen t (unat ?x)))" using y(5) by (simp add: d_def)
  have lc: "length (take m bs) = chunk off (length bs)" "off + chunk off (length bs) \<le> MAXFILE * BSIZE"
    using lt(1) off(3,4) by simp_all
  note cw = chunk_written [OF f off(1) k l gr sl F lc, unfolded lt(1)]
  have fy: "fsop i s y" using g fsop_trans [OF _ fsop_opframe [OF y(6)]] by blast
  note fr = fsop_frame [where i = i, OF fsop_opframe [OF y(6)]]
  have bb: "unat ?x \<noteq> BBLOCK (sb t) 0" using ap by (simp add: apart_def)
  have bf: "bit_free (seen y) (sb t) h = bit_free (seen t) (sb t) h" for h using bb by (simp add: bit_free_def F)
  have oy: "owns i y" using ot cw(2,3) fr bf by (simp add: owns_def apart_def iy)
  have xu: "unat ?x \<in> used_blocks (seen t) (inodes t i)" using slot_used [OF less_imp_le_nat [OF k] nz] .
  have fb: "free_blocks y = free_blocks t" by (simp add: free_blocks_def bf iy)
  have "wrote i off (take m bs) z s y"
    unfolding wrote_def lt(1) using fy oy cw g fb xu ce(1) by (auto simp: iy F)
  then show ?thesis using t(1) u(1) y(1-4) by (auto simp: d_def)
qed

lemma wrote_trans:
  assumes "wrote i off as z s t" "wrote i (off + length as) bs (max z (off + length as)) t u"
  shows "wrote i off (as @ bs) z s u"
proof -
  let ?n = "off + length (as @ bs)"
  have m: "max (max z (off + length as)) (off + length as + length bs) = max z ?n" by auto
  note a = assms(1) [unfolded wrote_def] and b = assms(2) [unfolded wrote_def m]
  have "sb t = sb s" using a fsop_frame(1) by auto
  then have "seen u x = seen s x" if "x \<notin> used_blocks (seen u) (inodes u i)" "x \<noteq> BBLOCK (sb s) 0" for x
  proof -
    have "x \<notin> used_blocks (seen t) (inodes t i)" using that b by auto
    then show ?thesis using that a b \<open>sb t = sb s\<close> by simp
  qed
  moreover have "fbyte (seen u) (inodes u i) j =
      (if off \<le> j \<and> j < ?n then (as @ bs) ! (j - off) else fbyte (seen s) (inodes s i) j)" if j: "j < max z ?n" for j
  proof (cases "off + length as \<le> j \<and> j < ?n")
    case True
    then have "\<not> j - off < length as" "j - off - length as = j - (off + length as)" by auto
    then show ?thesis using True b j by (simp add: nth_append)
  next
    case False
    then have l: "j < max z (off + length as)" using j by auto
    then have "fbyte (seen u) (inodes u i) j = fbyte (seen t) (inodes t i) j" using b j False by auto
    then show ?thesis using a l False by (auto simp: nth_append)
  qed
  ultimately show ?thesis
    unfolding wrote_def using a b fsop_trans by (auto simp: max.assoc)
qed

lemma wrote_nil: "owns i s \<Longrightarrow> file_at (seen s) (inodes s i) z \<Longrightarrow> off \<le> z \<Longrightarrow> wrote i off [] z s s"
  using fsop_opframe [OF opframe_refl, of i s] by (auto simp: wrote_def)

lemma writei_loop_run:
  fixes s :: "'z kfs_scheme"
  assumes "in_op me {} (n + 6 * chunks off (length bs)) (Suc (Suc j)) s" "owns i s" "file_at (seen s) (inodes s i) z"
    "off \<le> z" "off + length bs \<le> MAXFILE * BSIZE"
    "blocks_for (max z (off + length bs)) \<le> card (free_blocks s) + blocks_for z"
  shows "\<exists>t. writei_loop i off bs s = Ret () t \<and> in_op me {} n (Suc (Suc j)) t \<and> wrote i off bs z s t"
  using assms
proof (induction "length bs" arbitrary: bs off z s rule: less_induct)
  case less
  show ?case
  proof (cases "bs = []")
    case True
    then show ?thesis using less.prems wrote_nil by (simp add: writei_loop.simps chunks_def)
  next
    case False
    define m where "m = chunk off (length bs)"
    have l: "0 < length bs" using False by simp
    have m: "0 < m" "m \<le> length bs" using chunk_pos [of "length bs" off] chunk_le l by (simp_all add: m_def)
    have lt: "length (take m bs) = m" and ld: "length (drop m bs) = length bs - m" using m(2) by simp_all
    let ?c = "n + 6 * chunks (off + m) (length (drop m bs))"
    have op: "in_op me {} (?c + 6) (Suc (Suc j)) s"
      using less.prems(1) unfolding chunks_step [OF l] ld by (simp add: m_def algebra_simps)
    have "blocks_for (max z (off + m)) \<le> blocks_for (max z (off + length bs))" using m by (intro blocks_for_mono) auto
    then have rm: "blocks_for (max z (off + m)) \<le> card (free_blocks s) + blocks_for z" using less.prems(6) by linarith
    have om: "off + m \<le> MAXFILE * BSIZE" using less.prems(5) m by simp
    obtain t u b v w x y where t: "bmap i (of_nat (off div BSIZE)) s = Ret x t" "bread 1 (unat x) t = Ret b u"
      "set_data b (overlay (off mod BSIZE) (take m bs)) u = Ret () v" "log_write b v = Ret () w" "brelse b w = Ret () y"
      "in_op me {} ?c (Suc (Suc j)) y" "wrote i off (take m bs) z s y"
      using write_chunk [OF op less.prems(2-4) False m_def om rm] by blast
    note wy = t(7) [unfolded wrote_def lt]
    have oy: "owns i y" "file_at (seen y) (inodes y i) (max z (off + m))" using wy by simp_all
    have sum: "off + m + length (drop m bs) = off + length bs" using m(2) by simp
    have mx: "max (max z (off + m)) (off + m + length (drop m bs)) = max z (off + length bs)" using m(2) by auto
    have le: "off + m \<le> max z (off + m)" "off + m + length (drop m bs) \<le> MAXFILE * BSIZE" using less.prems(5) sum by simp_all
    have rm2: "blocks_for (max (max z (off + m)) (off + m + length (drop m bs))) \<le> card (free_blocks y) + blocks_for (max z (off + m))"
      unfolding mx using less.prems(6) wy by linarith
    have dl: "length (drop m bs) < length bs" using m by simp
    obtain r where r: "writei_loop i (off + m) (drop m bs) y = Ret () r" "in_op me {} n (Suc (Suc j)) r"
      "wrote i (off + m) (drop m bs) (max z (off + m)) y r"
      using less.hyps [OF dl t(6) oy le rm2] by blast
    have "wrote i off bs z s r" using wrote_trans [OF t(7), of "drop m bs" r] r(3) lt by simp
    moreover have "(\<lambda>d j. if off mod BSIZE \<le> j \<and> j < off mod BSIZE + m then bs ! (j - off mod BSIZE) else d j) =
        overlay (off mod BSIZE) (take m bs)"
      using m(2) by (auto simp: overlay_def fun_eq_iff)
    moreover have "idev (inodes s i) = 1" using less.prems(2) by (simp add: owns_def)
    ultimately show ?thesis
      using False t(1-5) r(1,2) by (subst writei_loop.simps) (simp add: Let_def del: One_nat_def flip: m_def)
  qed
qed

subsection \<open>writei\<close>

lemma iupdate_run:
  fixes s :: "'z kfs_scheme"
  assumes op: "in_op me {} (Suc n) (Suc j) s" and d: "idev (inodes s i) = 1"
    and ib: "IBLOCK (sb s) (inum (inodes s i)) < FSSIZE" "IBLOCK (sb s) (inum (inodes s i)) \<notin> in_log s"
  shows "\<exists>t. iupdate i s = Ret () t \<and> in_op me {} n (Suc j) t \<and> opframe s t \<and>
    seen t = (seen s)(IBLOCK (sb s) (inum (inodes s i)) :=
      put_dinode (dslot (inum (inodes s i))) (to_dinode (inodes s i)) (seen s (IBLOCK (sb s) (inum (inodes s i)))))"
proof -
  let ?n = "IBLOCK (sb s) (inum (inodes s i))" and ?f = "put_dinode (dslot (inum (inodes s i))) (to_dinode (inodes s i))"
  obtain b u where u: "bread 1 ?n s = Ret b u" "opframe s u"
    "\<forall>f. \<exists>v w y. set_data b f u = Ret () v \<and> log_write b v = Ret () w \<and> brelse b w = Ret () y \<and>
      in_op me {} n (Suc j) y \<and> seen y = (seen s)(?n := f (seen s ?n)) \<and> opframe s y"
    using logged_update [OF op ib(1) _ ib(2)] by blast
  from u(3) [THEN spec, of ?f] show ?thesis
    using u(1) d by (auto simp: iupdate_def simp del: One_nat_def)
qed

text \<open>The contents of the file behind an entry of the inode cache.\<close>

definition kcontent :: "'z kfs_scheme \<Rightarrow> nat \<Rightarrow> u8 list" where
  "kcontent s i = map (fbyte (seen s) (inodes s i)) [0..<unat (isize (inodes s i))]"

definition patch :: "nat \<Rightarrow> 'a list \<Rightarrow> 'a list \<Rightarrow> 'a list" where
  "patch off bs xs = take off xs @ bs @ drop (off + length bs) xs"

lemma length_patch: "off \<le> length xs \<Longrightarrow> length (patch off bs xs) = max (length xs) (off + length bs)"
  by (simp add: patch_def)

lemma patch_map:
  assumes "off \<le> z" "\<And>j. j < max z (off + length bs) \<Longrightarrow> g j = (if off \<le> j \<and> j < off + length bs then bs ! (j - off) else f j)"
  shows "map g [0..<max z (off + length bs)] = patch off bs (map f [0..<z])"
proof (rule nth_equalityI)
  show l: "length (map g [0..<max z (off + length bs)]) = length (patch off bs (map f [0..<z]))"
    using assms(1) by (simp add: length_patch)
  fix j assume "j < length (map g [0..<max z (off + length bs)])"
  then have j: "j < max z (off + length bs)" by simp
  consider "j < off" | "off \<le> j" "j < off + length bs" | "off + length bs \<le> j" "j < z" using j by linarith
  then show "map g [0..<max z (off + length bs)] ! j = patch off bs (map f [0..<z]) ! j"
    using assms j by cases (auto simp: patch_def nth_append min_def)
qed

lemma file_readable:
  assumes o: "owns i s" and f: "file_at (seen s) (inodes s i) z"
  shows "has_blocks (seen s) (inodes s i) z"
proof -
  have "unat (mapped (seen s) (inodes s i) (j div BSIZE)) < FSSIZE \<and> mapped (seen s) (inodes s i) (j div BSIZE) \<noteq> 0" if j: "j < z" for j
    using used_apart [OF o less_imp_le_nat [OF file_slot(1) [OF f j]] file_slot(2) [OF f j]] file_slot [OF f j]
    by (simp add: slot_mapped apart_def)
  moreover have "unat (addrs (inodes s i) NDIRECT) < FSSIZE"
    using used_apart [OF o, of MAXFILE] by (cases "addrs (inodes s i) NDIRECT = 0") (simp_all add: slot_def apart_def FSSIZE_def)
  ultimately show ?thesis using f by (simp add: has_blocks_def file_at_def)
qed

lemma in_op_readable: "in_op me {} k (Suc j) s \<Longrightarrow> readable_by me s"
  using in_op_room [of me "{}" k j s] in_opD(1) [of me "{}" k "Suc j" s] by (simp add: readable_by_def)

text \<open>The inode as it stands on the disk.\<close>

definition stored :: "inode \<Rightarrow> dinode" where
  "stored p = (to_dinode p)\<lparr>daddrs := (\<lambda>k. if k \<le> NDIRECT then addrs p k else 0)\<rparr>"

lemma get_put_stored: "get_dinode (put_dinode k (to_dinode p) d) k = stored p"
proof -
  have pa: "put_addrs i a d = put_addrs i b d" if "\<And>l. l \<le> NDIRECT \<Longrightarrow> a l = b l" for i a b d
    unfolding put_addrs_def
  proof (rule fold_cong)
    fix l assume "l \<in> set [0..<NDIRECT + 1]"
    then have "l < NDIRECT + 1" unfolding set_upt by simp
    then show "(\<lambda>d. put32 d (i + 4 * l) (a l)) = (\<lambda>d. put32 d (i + 4 * l) (b l))" using that [of l] by simp
  qed (rule refl)+
  have "put_addrs (k + 12) (addrs p) e = put_addrs (k + 12) (\<lambda>k. if k \<le> NDIRECT then addrs p k else 0) e" for e
    by (rule pa) simp
  then have "put_dinode k (to_dinode p) d = put_dinode k (stored p) d"
    by (simp add: put_dinode_def stored_def to_dinode_def)
  moreover have "tidy (stored p)" by (simp add: tidy_def stored_def)
  ultimately show ?thesis using get_put_dinode by simp
qed

text \<open>The file of entry \<open>i\<close>: its blocks are its own, it has those its size needs, and its inode has its place.\<close>

definition file_in_order :: "'z kfs_scheme \<Rightarrow> nat \<Rightarrow> bool" where
  "file_in_order s i \<longleftrightarrow> owns i s \<and> file_at (seen s) (inodes s i) (unat (isize (inodes s i))) \<and> itype (inodes s i) \<noteq> T_DEV \<and>
     IBLOCK (sb s) (inum (inodes s i)) < FSSIZE \<and> IBLOCK (sb s) (inum (inodes s i)) \<notin> in_log s \<and>
     IBLOCK (sb s) (inum (inodes s i)) \<noteq> BBLOCK (sb s) 0"

lemma grown_size:
  fixes u :: "'z kfs_scheme"
  assumes op: "in_op me {} (Suc n) (Suc (Suc j)) u" and o: "owns i u" and f: "file_at (seen u) (inodes u i) z"
    and ib: "ib = IBLOCK (sb u) (inum (inodes u i))" "ib < FSSIZE" "ib \<notin> in_log u" "ib \<noteq> BBLOCK (sb u) 0"
    and z: "unat w = z"
  shows "\<exists>t. thn (set_inode i (\<lambda>p. p\<lparr>isize := w\<rparr>)) (iupdate i) u = Ret () t \<and> in_op me {} n (Suc (Suc j)) t \<and>
    fsop i u t \<and> owns i t \<and> isize (inodes t i) = w \<and> file_at (seen t) (inodes t i) z \<and>
    kcontent t i = map (fbyte (seen u) (inodes u i)) [0..<z] \<and> used_blocks (seen t) (inodes t i) = used_blocks (seen u) (inodes u i) \<and>
    (\<forall>x. x \<noteq> ib \<longrightarrow> seen t x = seen u x) \<and> disk_inode (seen t) (sb t) (inum (inodes t i)) = stored (inodes t i)"
proof -
  define v where "v = u\<lparr>inodes := (inodes u)(i := (inodes u i)\<lparr>isize := w\<rparr>)\<rparr>"
  have v: "in_op me {} (Suc n) (Suc (Suc j)) v" "idev (inodes v i) = 1" "sb v = sb u" "inum (inodes v i) = inum (inodes u i)"
    "in_log v = in_log u" "seen v = seen u" "inodes v i = (inodes u i)\<lparr>isize := w\<rparr>"
    using op o by (simp_all add: v_def owns_def)
  obtain t where t: "iupdate i v = Ret () t" "in_op me {} n (Suc (Suc j)) t" "opframe v t"
    "seen t = (seen v)(ib := put_dinode (dslot (inum (inodes v i))) (to_dinode (inodes v i)) (seen v ib))"
    using iupdate_run [of me n "Suc j" v i] v ib by auto
  have it: "inodes t = inodes v" "sb t = sb u" using opframe_fs [OF t(3)] v(3) by simp_all
  have "fsop i u v" using fsop_set [where i = i and s = u and a = "addrs (inodes u i)" and z = w] by (simp add: v_def)
  then have fr: "fsop i u t" using fsop_trans [OF _ fsop_opframe [OF t(3)]] by blast
  have ad: "addrs (inodes t i) = addrs (inodes u i)" using v(7) by (simp add: it)
  have keep: "seen t x = seen u x" if "x \<in> used_blocks (seen u) (inodes u i)" for x
    using that o ib(1) t(4) v(6) by (auto simp: owns_def apart_def)
  note ff = file_frame [of "inodes t i" "inodes u i" "seen u" "seen t", OF ad keep]
  have so: "slots_ok (seen t) (inodes t i)" using ff(1) [of z] f by (simp add: file_at_def)
  have bf: "bit_free (seen t) (sb u) b = bit_free (seen u) (sb u) b" for b using ib(4) t(4) v(6) by (simp add: bit_free_def)
  note fs = fsop_frame [OF fr]
  have "owns i t" using o so ff(2) bf fs by (simp add: owns_def apart_def)
  moreover have "disk_inode (seen t) (sb t) (inum (inodes t i)) = stored (inodes t i)"
    using ib(1) by (simp add: disk_inode_def it v(7) t(4) v(6) get_put_stored)
  moreover have "kcontent t i = map (fbyte (seen u) (inodes u i)) [0..<z]"
    using ff(4) [OF _ f] z by (simp add: kcontent_def it v(7))
  moreover have "thn (set_inode i (\<lambda>p. p\<lparr>isize := w\<rparr>)) (iupdate i) u = Ret () t" using t(1) by (simp add: v_def)
  moreover have "isize (inodes t i) = w" by (simp add: it v(7))
  ultimately show ?thesis using t(2,4) v(6) fr ff(1) [of z] ff(2) f by (intro exI [of _ t]) auto
qed

lemma writei_run:
  fixes s :: "'z kfs_scheme"
  assumes op: "in_op me {} (Suc (6 * chunks (unat off) (length bs))) (Suc (Suc j)) s" and fo: "file_in_order s i"
    and r: "unat off \<le> unat (isize (inodes s i))" "unat off + length bs \<le> MAXFILE * BSIZE"
    and room: "blocks_for (max (unat (isize (inodes s i))) (unat off + length bs)) \<le>
      card (free_blocks s) + blocks_for (unat (isize (inodes s i)))"
  shows "\<exists>t. writei dsw i bs off s = Ret (int (length bs)) t \<and> in_op me {} 0 (Suc (Suc j)) t \<and> fsop i s t \<and>
    file_in_order t i \<and> kcontent t i = patch (unat off) bs (kcontent s i) \<and>
    (\<forall>x. x \<notin> used_blocks (seen t) (inodes t i) \<union> {BBLOCK (sb s) 0, IBLOCK (sb s) (inum (inodes s i))} \<longrightarrow> seen t x = seen s x) \<and>
    (isize (inodes s i) < isize (inodes t i) \<longrightarrow> disk_inode (seen t) (sb t) (inum (inodes t i)) = stored (inodes t i))"
proof -
  let ?p = "inodes s i" and ?o = "unat off" and ?n = "of_nat (length bs) :: u32" and ?z = "unat (isize (inodes s i))"
  let ?ib = "IBLOCK (sb s) (inum ?p)" and ?e = "max ?z (?o + length bs)"
  note F = fo [unfolded file_in_order_def]
  have M: "MAXFILE * BSIZE = 71680" by (simp add: MAXFILE_def NDIRECT_def NINDIRECT_def BSIZE_def)
  have un: "unat ?n = length bs" using r(2) by (intro unat_of_nat_small) (simp add: M)
  have add: "unat (off + ?n) = ?o + length bs"
    using r(2) un by (subst unat_add_lem [THEN iffD1]) (simp_all add: M)
  have g: "\<not> (isize ?p < off \<or> off + ?n < off)" "\<not> of_nat (MAXFILE * BSIZE) < off + ?n"
    using r un add by (simp_all add: word_less_nat_alt M)
  have sn: "sint ?n = int (length bs)" using r(2) un sint_unat_small [of ?n] by (simp add: M)
  have op': "in_op me {} (1 + 6 * chunks ?o (length bs)) (Suc (Suc j)) s" using op by simp
  obtain u where u: "writei_loop i ?o bs s = Ret () u" "in_op me {} 1 (Suc (Suc j)) u" "wrote i ?o bs ?z s u"
    using writei_loop_run [OF op' _ _ r room] F by blast
  note w = u(3) [unfolded wrote_def]
  note fs = fsop_frame [where i = i and s = s and t = u]
  have fu: "fsop i s u" using w by simp
  have zc: "kcontent s i = map (fbyte (seen s) ?p) [0..<?z]" by (simp add: kcontent_def)
  have pm: "map (fbyte (seen u) (inodes u i)) [0..<?e] = patch ?o bs (kcontent s i)"
    unfolding zc by (rule patch_map [OF r(1)]) (use w in blast)
  have wr: "writei dsw i bs off s = obind (whn (0 < ?n \<and> isize ?p < off + ?n)
      (thn (set_inode i (\<lambda>p. p\<lparr>isize := off + ?n\<rparr>)) (iupdate i)) u) (\<lambda>_. ret (int (length bs)))"
    using F g u(1) w sn by (simp add: writei_def Let_def)
  have nz: "0 < ?n \<longleftrightarrow> bs \<noteq> []" using un by (auto simp: word_less_nat_alt)
  show ?thesis
  proof (cases "?z < ?o + length bs")
    case True
    then have c: "0 < ?n \<and> isize ?p < off + ?n" using r(1) nz add by (auto simp: word_less_nat_alt)
    have e: "?e = ?o + length bs" using True by simp
    have z: "unat (off + ?n) = ?e" using add e by simp
    have ib: "?ib = IBLOCK (sb u) (inum (inodes u i))" "?ib < FSSIZE" "?ib \<notin> in_log u" "?ib \<noteq> BBLOCK (sb u) 0"
      using F fs [OF fu] by simp_all
    have f: "owns i u" "file_at (seen u) (inodes u i) ?e" using w by simp_all
    obtain t where t: "thn (set_inode i (\<lambda>p. p\<lparr>isize := off + ?n\<rparr>)) (iupdate i) u = Ret () t" "in_op me {} 0 (Suc (Suc j)) t"
      "fsop i u t" "owns i t" "isize (inodes t i) = off + ?n" "file_at (seen t) (inodes t i) ?e"
      "kcontent t i = map (fbyte (seen u) (inodes u i)) [0..<?e]" "used_blocks (seen t) (inodes t i) = used_blocks (seen u) (inodes u i)"
      "\<And>x. x \<noteq> ?ib \<Longrightarrow> seen t x = seen u x" "disk_inode (seen t) (sb t) (inum (inodes t i)) = stored (inodes t i)"
      using grown_size [OF _ f ib z, of me 0 j] u(2) by auto
    have st: "fsop i s t" by (rule fsop_trans [OF fu t(3)])
    note ft = fsop_frame [OF st]
    have "file_in_order t i" using F t(4-6) z ft by (simp add: file_in_order_def)
    moreover have "writei dsw i bs off s = Ret (int (length bs)) t" using wr c t(1) by simp
    ultimately show ?thesis using t(2,7-10) st pm w by (intro exI [of _ t]) auto
  next
    case False
    then have c: "\<not> (isize ?p < off + ?n)" using add by (simp add: word_less_nat_alt)
    have e: "?e = ?z" using False by simp
    have "file_in_order u i" using F w e fs [OF fu] by (simp add: file_in_order_def)
    moreover have "writei dsw i bs off s = Ret (int (length bs)) u" using wr c by simp
    moreover have "kcontent u i = patch ?o bs (kcontent s i)" using pm w e by (simp add: kcontent_def)
    ultimately show ?thesis using in_op_less [OF u(2), of 0 "Suc (Suc j)"] fu w by (intro exI [of _ u]) auto
  qed
qed

text \<open>Claim C6. Inside an operation with room in the log and enough free blocks, writei puts the bytes into
  the file at the offset, growing it where they reach past its end, through direct and indirect
  blocks; it takes free blocks for this, and changes no block but the file's own, the bit map and
  that of the inode, which it stores when the size has changed. readi then gives the bytes back.\<close>

theorem writei_then_readi:
  fixes s :: "'z kfs_scheme"
  assumes "in_op me {} (Suc (6 * chunks (unat off) (length bs))) (Suc (Suc j)) s" and "file_in_order s i"
    and "unat off \<le> unat (isize (inodes s i))" and "unat off + length bs \<le> MAXFILE * BSIZE"
    and "blocks_for (max (unat (isize (inodes s i))) (unat off + length bs)) \<le>
      card (free_blocks s) + blocks_for (unat (isize (inodes s i)))"
  shows "\<exists>t u. writei dsw i bs off s = Ret (int (length bs)) t \<and>
    kcontent t i = patch (unat off) bs (kcontent s i) \<and> file_in_order t i \<and>
    (\<forall>x. x \<notin> used_blocks (seen t) (inodes t i) \<union> {BBLOCK (sb s) 0, IBLOCK (sb s) (inum (inodes s i))} \<longrightarrow> seen t x = seen s x) \<and>
    (isize (inodes s i) < isize (inodes t i) \<longrightarrow> disk_inode (seen t) (sb t) (inum (inodes t i)) = stored (inodes t i)) \<and>
    readi dsw i off (of_nat (length bs)) t = Ret (int (length bs), bs) u \<and> quiet me t u"
proof -
  let ?o = "unat off"
  obtain t where t: "writei dsw i bs off s = Ret (int (length bs)) t" "in_op me {} 0 (Suc (Suc j)) t" "file_in_order t i"
    "kcontent t i = patch ?o bs (kcontent s i)"
    "\<forall>x. x \<notin> used_blocks (seen t) (inodes t i) \<union> {BBLOCK (sb s) 0, IBLOCK (sb s) (inum (inodes s i))} \<longrightarrow> seen t x = seen s x"
    "isize (inodes s i) < isize (inodes t i) \<longrightarrow> disk_inode (seen t) (sb t) (inum (inodes t i)) = stored (inodes t i)"
    using writei_run [OF assms] by blast
  let ?q = "inodes t i"
  have M: "MAXFILE * BSIZE = 71680" by (simp add: MAXFILE_def NDIRECT_def NINDIRECT_def BSIZE_def)
  have un: "unat (of_nat (length bs) :: u32) = length bs" using assms(4) by (intro unat_of_nat_small) (simp add: M)
  have "length (kcontent t i) = max (length (kcontent s i)) (?o + length bs)"
    using t(4) assms(3) by (simp add: length_patch kcontent_def)
  then have le: "?o + length bs \<le> unat (isize ?q)" by (simp add: kcontent_def)
  have "take (length bs) (drop ?o (kcontent t i)) = bs"
    using assms(3) unfolding t(4) by (simp add: patch_def kcontent_def)
  then have bytes: "map (fbyte (seen t) ?q) [?o..<?o + length bs] = bs"
    using le by (simp add: kcontent_def drop_map take_map take_upt)
  have "read_result (seen t) ?q off (of_nat (length bs)) = (int (length bs), bs)"
    using le assms(4) un bytes by (simp add: read_result_def word_less_nat_alt Let_def min_absorb1 M)
  moreover have "idev ?q = 1" "itype ?q \<noteq> T_DEV" "has_blocks (seen t) ?q (unat (isize ?q))"
    using t(3) file_readable [of i t] by (auto simp: file_in_order_def owns_def)
  ultimately obtain u where "readi dsw i off (of_nat (length bs)) t = Ret (int (length bs), bs) u" "quiet me t u"
    using readi_run [OF in_op_readable [OF t(2)], of i dsw off "of_nat (length bs)"] by auto
  then show ?thesis using t by blast
qed

lemma kfree0_file: "in_op 2 {} 7 2 kfree0" "file_in_order kfree0 0" "free_blocks kfree0 = {7}" "isize (inodes kfree0 0) = 0"
proof -
  note op = kfree0_ok(1) [unfolded in_op_def]
  show "in_op 2 {} 7 2 kfree0" using op by (simp add: in_op_def kfree0_fields LOGSIZE_def MAXOPBLOCKS_def NBUF_def)
  have p: "inodes kfree0 0 = blank_inode\<lparr>inum := 1, iref := 1\<rparr>" by (simp add: kfree0_def kfs0_fields inodes0_def)
  then show "isize (inodes kfree0 0) = 0" by (simp add: blank_inode_def)
  have B: "BBLOCK (sb kfree0) 0 = 4" "unat (sb_size (sb kfree0)) = 8" "IBLOCK (sb kfree0) 1 = 2" "in_log kfree0 = {256..<286}"
    by (auto simp: kfree0_fields sb0_def BBLOCK_def BPB_def BSIZE_def IBLOCK_def IPB_def DINODE_def in_log_def LOGSIZE_def MAXOPBLOCKS_def)
  have f: "bit_free (seen kfree0) (sb kfree0) b \<longleftrightarrow> b = 7" if "b < 8" for b using kfree0_bits [OF that] .
  show "free_blocks kfree0 = {7}" using f by (auto simp: free_blocks_def B)
  have s: "slot D (inodes kfree0 0) k = 0" for D k by (simp add: slot_def mapped_def p blank_inode_def)
  have "used_blocks D (inodes kfree0 0) = {}" "file_at D (inodes kfree0 0) 0" for D
    by (simp_all add: used_blocks_def file_at_def slots_ok_def s)
  then show "file_in_order kfree0 0"
    using f kfree0_ok(2) by (auto simp: file_in_order_def owns_def apart_def B FSSIZE_def file_at_def p blank_inode_def T_DEV_def)
qed

lemma writei_then_readi_witness:
  "\<exists>t u. writei (\<lambda>_. (None, None)) 0 [9, 8] 0 kfree0 = Ret 2 t \<and> kcontent t 0 = [9, 8] \<and>
    readi (\<lambda>_. (None, None)) 0 0 2 t = Ret (2, [9, 8]) u \<and> disk_inode (seen t) (sb t) (inum (inodes t 0)) = stored (inodes t 0)"
proof -
  have c: "Suc (6 * chunks (unat (0 :: u32)) (length [9, 8 :: u8])) = 7" by (simp add: chunks_def BSIZE_def)
  have op: "in_op 2 {} (Suc (6 * chunks (unat (0 :: u32)) (length [9, 8 :: u8]))) (Suc (Suc 0)) kfree0"
    unfolding c using kfree0_file(1) by (simp add: numeral_2_eq_2)
  have k0: "kcontent kfree0 0 = []" by (simp add: kcontent_def kfree0_file(4))
  have rm: "blocks_for (max (unat (isize (inodes kfree0 0))) (unat (0 :: u32) + length [9, 8 :: u8])) \<le>
      card (free_blocks kfree0) + blocks_for (unat (isize (inodes kfree0 0)))"
    by (simp add: kfree0_file(3,4) blocks_for_def BSIZE_def NDIRECT_def)
  have m: "unat (0 :: u32) + length [9, 8 :: u8] \<le> MAXFILE * BSIZE" by (simp add: MAXFILE_def NDIRECT_def BSIZE_def)
  obtain t u where t: "writei (\<lambda>_. (None, None)) 0 [9, 8] 0 kfree0 = Ret 2 t" "kcontent t 0 = [9, 8]"
    "readi (\<lambda>_. (None, None)) 0 0 2 t = Ret (2, [9, 8]) u"
    "isize (inodes kfree0 0) < isize (inodes t 0) \<longrightarrow> disk_inode (seen t) (sb t) (inum (inodes t 0)) = stored (inodes t 0)"
    using writei_then_readi [OF op kfree0_file(2) _ m rm, of "\<lambda>_. (None, None)"] by (auto simp: k0 patch_def)
  have "unat (isize (inodes t 0)) = 2" using arg_cong [OF t(2), of length] by (simp add: kcontent_def)
  then have "isize (inodes kfree0 0) < isize (inodes t 0)" by (simp add: kfree0_file(4) word_less_nat_alt)
  then show ?thesis using t by blast
qed

end
