(* ===== verification/User_Prelude.thy ===== *)
theory User_Prelude
  imports Main "HOL-Library.Word"
begin

unbundle bit_operations_syntax

section \<open>Shared vocabulary of the user-level programs\<close>

text \<open>
  What a piece of an ordinary C program does from a state: it returns (\<open>Done\<close>), ends the
  process with a status (\<open>Exit\<close>), or does something the C language gives no meaning to, such
  as a load through a null pointer or a store past the end of an object (\<open>Crash\<close>).
  \<open>stdout\<close> is what the process has printed. The memory allocator is the C library's: \<open>heap\<close>
  is the number of bytes it can still hand out, so that a request it cannot meet returns NULL.
\<close>

datatype ('a, 's) uout = Done 'a 's | Exit int 's | Crash string

type_synonym ('s, 'a) um = "'s \<Rightarrow> ('a, 's) uout"

record uworld =
  stdout :: string
  heap :: nat

definition uret :: "'a \<Rightarrow> ('s, 'a) um" where
  "uret x s = Done x s"

primrec uobind :: "('a, 's) uout \<Rightarrow> ('a \<Rightarrow> ('s, 'b) um) \<Rightarrow> ('b, 's) uout" where
  "uobind (Done x s) f = f x s"
| "uobind (Exit c s) f = Exit c s"
| "uobind (Crash e) f = Crash e"

definition ubnd :: "('s, 'a) um \<Rightarrow> ('a \<Rightarrow> ('s, 'b) um) \<Rightarrow> ('s, 'b) um" where
  "ubnd m f s = uobind (m s) f"

definition uthn :: "('s, 'a) um \<Rightarrow> ('s, 'b) um \<Rightarrow> ('s, 'b) um" where
  "uthn m n = ubnd m (\<lambda>_. n)"

definition uexit :: "int \<Rightarrow> ('s, 'a) um" where
  "uexit c s = Exit c s"

definition ucrash :: "string \<Rightarrow> ('s, 'a) um" where
  "ucrash e s = Crash e"

definition uget :: "('s \<Rightarrow> 'a) \<Rightarrow> ('s, 'a) um" where
  "uget f s = Done (f s) s"

definition umod :: "('s \<Rightarrow> 's) \<Rightarrow> ('s, unit) um" where
  "umod f s = Done () (f s)"

definition uwhen :: "bool \<Rightarrow> ('s, unit) um \<Rightarrow> ('s, unit) um" where
  "uwhen b m = (if b then m else uret ())"

primrec ufor :: "'i list \<Rightarrow> ('i \<Rightarrow> ('s, unit) um) \<Rightarrow> ('s, unit) um" where
  "ufor [] body = uret ()"
| "ufor (i # is) body = uthn (body i) (ufor is body)"

definition uputs :: "string \<Rightarrow> ('z uworld_scheme, unit) um" where
  "uputs t = umod (\<lambda>s. s\<lparr>stdout := stdout s @ t\<rparr>)"

text \<open>malloc and free of the C library: a request succeeds when the heap has room for it.\<close>

definition clib_malloc :: "nat \<Rightarrow> ('z uworld_scheme, bool) um" where
  "clib_malloc n s = (if n \<le> heap s then Done True (s\<lparr>heap := heap s - n\<rparr>) else Done False s)"

definition clib_free :: "nat \<Rightarrow> ('z uworld_scheme, unit) um" where
  "clib_free n = umod (\<lambda>s. s\<lparr>heap := heap s + n\<rparr>)"

definition newline :: string where "newline = [CHR 0x0A]"

text \<open>What \<open>printf("%d")\<close> prints of a non-negative number.\<close>

fun dec :: "nat \<Rightarrow> string" where
  "dec n = (if n < 10 then [char_of (48 + n)] else dec (n div 10) @ [char_of (48 + n mod 10)])"

declare dec.simps [simp del]

named_theorems um "execution of the sequencing combinators"

lemma uret_run [um, simp]: "uret x s = Done x s"
  by (simp add: uret_def)

lemma uexit_run [um, simp]: "uexit c s = Exit c s"
  by (simp add: uexit_def)

lemma ucrash_run [um, simp]: "ucrash e s = Crash e"
  by (simp add: ucrash_def)

lemma uget_run [um, simp]: "uget f s = Done (f s) s"
  by (simp add: uget_def)

lemma umod_run [um, simp]: "umod f s = Done () (f s)"
  by (simp add: umod_def)

lemma uputs_run [um, simp]: "uputs t s = Done () (s\<lparr>stdout := stdout s @ t\<rparr>)"
  by (simp add: uputs_def)

lemma clib_free_run [um, simp]: "clib_free n s = Done () (s\<lparr>heap := heap s + n\<rparr>)"
  by (simp add: clib_free_def)

lemma ubnd_run [um, simp]: "ubnd m f s = uobind (m s) f"
  by (simp add: ubnd_def)

lemma uthn_run [um, simp]: "uthn m n s = uobind (m s) (\<lambda>_. n)"
  by (simp add: uthn_def)

lemma uwhen_run [um, simp]: "uwhen b m s = (if b then m s else Done () s)"
  by (simp add: uwhen_def)

lemma uobind_weak_cong [cong]: "r = r' \<Longrightarrow> uobind r f = uobind r' f"
  by simp

lemma uobind_Done_iff: "uobind r f = Done y t \<longleftrightarrow> (\<exists>x s. r = Done x s \<and> f x s = Done y t)"
  by (cases r) auto

lemma uobind_assoc: "uobind (uobind r f) g = uobind r (\<lambda>x s. uobind (f x s) g)"
  by (cases r) auto

lemma unat32_less: "unat (a :: 32 word) < 2 ^ 32"
  using unsigned_less [of a] by simp

text \<open>A loop whose body ends normally for every index of the list folds its effect.\<close>

lemma ufor_fold:
  assumes "\<And>i s. i \<in> set is \<Longrightarrow> I s \<Longrightarrow> body i s = Done () (f i s) \<and> I (f i s)" and "I s"
  shows "ufor is body s = Done () (fold f is s)"
  using assms by (induction "is" arbitrary: s) auto

end
