(* ===== verification/Mkfs.thy ===== *)
theory Mkfs
  imports Fs_Slots Fs_Write User_Prelude
begin

section \<open>Building a file system image (mkfs.c)\<close>

text \<open>
  mkfs runs on the host. \<open>img\<close> holds the sectors of the image file, \<open>img_len\<close> says how many it has,
  and \<open>img_bad\<close> names sectors whose transfer fails. A failed assertion aborts and is a \<open>Crash\<close>. The
  host has the byte order of the target, so an inode in a sector is read with \<open>get_dinode\<close> there too.
  The files to copy are given by \<open>host\<close>, the contents of a path that can be opened.
\<close>

record mkfs = uworld +
  img :: "nat \<Rightarrow> block"
  img_len :: nat
  img_bad :: "nat set"
  mksb :: superblock
  freeinode :: u32
  freeblock :: u32

definition NINODES :: nat where "NINODES = 200"
definition nbitmap :: nat where "nbitmap = FSSIZE div (BSIZE * 8) + 1"
definition ninodeblocks :: nat where "ninodeblocks = NINODES div IPB + 1"
definition nmeta :: nat where "nmeta = 2 + LOGSIZE + ninodeblocks + nbitmap"

definition xshort :: "u16 \<Rightarrow> u16" where
  "xshort x = get16 ((\<lambda>_. 0)(0 := ucast x, 1 := ucast (drop_bit 8 x))) 0"

definition xint :: "u32 \<Rightarrow> u32" where
  "xint x = get32 ((\<lambda>_. 0)(0 := ucast x, 1 := ucast (drop_bit 8 x), 2 := ucast (drop_bit 16 x), 3 := ucast (drop_bit 24 x))) 0"

text \<open>The position in the file is a \<open>uint\<close>.\<close>

definition sect_of :: "u32 \<Rightarrow> nat" where
  "sect_of sec = unat (sec * of_nat BSIZE) div BSIZE"

definition wsect :: "u32 \<Rightarrow> block \<Rightarrow> (mkfs, unit) um" where
  "wsect sec d =
     ubnd (uget img_bad) (\<lambda>bad.
     if sect_of sec \<in> bad then uexit 1
     else umod (\<lambda>s. s\<lparr>img := (img s)(sect_of sec := d), img_len := max (img_len s) (sect_of sec + 1)\<rparr>))"

definition rsect :: "u32 \<Rightarrow> (mkfs, block) um" where
  "rsect sec =
     ubnd (uget id) (\<lambda>s.
     if sect_of sec \<in> img_bad s \<or> img_len s \<le> sect_of sec then uexit 1
     else uret (img s (sect_of sec)))"

definition winode :: "u32 \<Rightarrow> dinode \<Rightarrow> (mkfs, unit) um" where
  "winode ino v =
     ubnd (uget mksb) (\<lambda>sp.
     ubnd (rsect (of_nat (IBLOCK sp ino))) (\<lambda>d.
     wsect (of_nat (IBLOCK sp ino)) (put_dinode (dslot ino) v d)))"

definition rinode :: "u32 \<Rightarrow> (mkfs, dinode) um" where
  "rinode ino =
     ubnd (uget mksb) (\<lambda>sp.
     ubnd (rsect (of_nat (IBLOCK sp ino))) (\<lambda>d.
     uret (get_dinode d (dslot ino))))"

definition blank_dinode :: dinode where
  "blank_dinode = \<lparr>dtype = 0, dmajor = 0, dminor = 0, dnlink = 0, dsize = 0, daddrs = (\<lambda>_. 0)\<rparr>"

definition mk_ialloc :: "u16 \<Rightarrow> (mkfs, u32) um" where
  "mk_ialloc ty =
     ubnd (uget freeinode) (\<lambda>ino.
     uthn (umod (\<lambda>s. s\<lparr>freeinode := freeinode s + 1\<rparr>)) (
     uthn (winode ino (blank_dinode\<lparr>dtype := xshort ty, dnlink := xshort 1, dsize := xint 0\<rparr>)) (
     uret ino)))"

definition mk_balloc :: "nat \<Rightarrow> (mkfs, unit) um" where
  "mk_balloc used =
     uthn (uputs (''balloc: first '' @ dec used @ '' blocks have been allocated'' @ newline)) (
     if \<not> used < BSIZE * 8 then ucrash ''assertion used < BSIZE*8''
     else ubnd (uget mksb) (\<lambda>sp.
       uthn (uputs (''balloc: write bitmap block at sector '' @ dec (unat (sb_bmapstart sp)) @ newline)) (
       wsect (sb_bmapstart sp)
         (fold (\<lambda>i d. d(i div 8 := d (i div 8) OR push_bit (i mod 8) 1)) [0..<used] (\<lambda>_. 0)))))"

subsection \<open>Appending to a file\<close>

text \<open>\<open>freeblock++\<close>, and the address of block \<open>fbn\<close> of the file with a new block where it has none.\<close>

definition take_block :: "(mkfs, u32) um" where
  "take_block =
     ubnd (uget freeblock) (\<lambda>b. uthn (umod (\<lambda>s. s\<lparr>freeblock := freeblock s + 1\<rparr>)) (uret b))"

definition mk_bmap :: "dinode \<Rightarrow> nat \<Rightarrow> (mkfs, dinode \<times> u32) um" where
  "mk_bmap v fbn =
     (if fbn < NDIRECT then
        ubnd (if xint (daddrs v fbn) = 0 then
            ubnd take_block (\<lambda>b. uret (v\<lparr>daddrs := (daddrs v)(fbn := xint b)\<rparr>)) else uret v) (\<lambda>v.
        uret (v, xint (daddrs v fbn)))
      else
        ubnd (if xint (daddrs v NDIRECT) = 0 then
            ubnd take_block (\<lambda>b. uret (v\<lparr>daddrs := (daddrs v)(NDIRECT := xint b)\<rparr>)) else uret v) (\<lambda>v.
        ubnd (rsect (xint (daddrs v NDIRECT))) (\<lambda>ind.
        ubnd (if get32 ind (4 * (fbn - NDIRECT)) = 0 then
            ubnd take_block (\<lambda>b.
            uthn (wsect (xint (daddrs v NDIRECT)) (put32 ind (4 * (fbn - NDIRECT)) (xint b)))
              (uret (put32 ind (4 * (fbn - NDIRECT)) (xint b)))) else uret ind) (\<lambda>ind.
        uret (v, xint (get32 ind (4 * (fbn - NDIRECT))))))))"

function iappend_loop :: "dinode \<Rightarrow> nat \<Rightarrow> u8 list \<Rightarrow> (mkfs, dinode \<times> nat) um" where
  "iappend_loop v off bs =
     (if bs = [] then uret (v, off)
      else if \<not> off div BSIZE < MAXFILE then ucrash ''assertion fbn < MAXFILE''
      else ubnd (mk_bmap v (off div BSIZE)) (\<lambda>(v, x).
        ubnd (rsect x) (\<lambda>d.
        uthn (wsect x (overlay (off mod BSIZE) (take (chunk off (length bs)) bs) d)) (
        iappend_loop v (off + chunk off (length bs)) (drop (chunk off (length bs)) bs)))))"
  by pat_completeness auto
termination by (relation "measure (\<lambda>(v, off, bs). length bs)") (auto simp: chunk_pos)

declare iappend_loop.simps [simp del]

definition iappend :: "u32 \<Rightarrow> u8 list \<Rightarrow> (mkfs, unit) um" where
  "iappend ino bs =
     ubnd (rinode ino) (\<lambda>v.
     ubnd (iappend_loop v (unat (xint (dsize v))) bs) (\<lambda>(v, off).
     winode ino (v\<lparr>dsize := xint (of_nat off)\<rparr>)))"

subsection \<open>The program\<close>

definition put_superblock :: "superblock \<Rightarrow> block" where
  "put_superblock sp =
     put32 (put32 (put32 (put32 (put32 (put32 (put32 (\<lambda>_. 0) 0 (sb_size sp)) 4 (sb_nblocks sp)) 8 (sb_ninodes sp))
       12 (sb_nlog sp)) 16 (sb_logstart sp)) 20 (sb_inodestart sp)) 24 (sb_bmapstart sp)"

definition mk_sb :: superblock where
  "mk_sb = \<lparr>sb_size = xint (of_nat FSSIZE), sb_nblocks = xint (of_nat (FSSIZE - nmeta)), sb_ninodes = xint (of_nat NINODES),
     sb_nlog = xint (of_nat LOGSIZE), sb_logstart = xint 2, sb_inodestart = xint (of_nat (2 + LOGSIZE)),
     sb_bmapstart = xint (of_nat (2 + LOGSIZE + ninodeblocks))\<rparr>"

definition mk_format :: "(mkfs, unit) um" where
  "mk_format =
     uthn (umod (\<lambda>s. s\<lparr>mksb := mk_sb\<rparr>)) (
     uthn (uputs (''nmeta '' @ dec nmeta @ '' (boot, super, log blocks '' @ dec LOGSIZE @ '' inode blocks '' @ dec ninodeblocks @
       '', bitmap blocks '' @ dec nbitmap @ '') blocks '' @ dec (FSSIZE - nmeta) @ '' total '' @ dec FSSIZE @ newline)) (
     uthn (umod (\<lambda>s. s\<lparr>freeblock := of_nat nmeta\<rparr>)) (
     uthn (ufor [0..<FSSIZE] (\<lambda>i. wsect (of_nat i) (\<lambda>_. 0))) (
     ubnd (uget mksb) (\<lambda>sp. wsect 1 (put_superblock sp))))))"

definition DOT :: u8 where "DOT = 46"
definition UNDERSCORE :: u8 where "UNDERSCORE = 95"

definition mk_root :: "(mkfs, u32) um" where
  "mk_root =
     ubnd (mk_ialloc T_DIR) (\<lambda>rootino.
     if rootino \<noteq> ROOTINO then ucrash ''assertion rootino == ROOTINO''
     else uthn (iappend rootino (mk_dirent [DOT] (xshort (ucast rootino)))) (
       uthn (iappend rootino (mk_dirent [DOT, DOT] (xshort (ucast rootino)))) (
       uret rootino)))"

definition strip :: "u8 list \<Rightarrow> u8 list" where
  "strip nm = (if nm \<noteq> [] \<and> hd nm = UNDERSCORE then tl nm else nm)"

text \<open>The read loop copies the file in buffers of \<open>BSIZE\<close> bytes.\<close>

function copy_host :: "u32 \<Rightarrow> u8 list \<Rightarrow> (mkfs, unit) um" where
  "copy_host ino c = (if c = [] then uret () else uthn (iappend ino (take BSIZE c)) (copy_host ino (drop BSIZE c)))"
  by pat_completeness auto
termination by (relation "measure (\<lambda>(ino, c). length c)") (auto simp: BSIZE_def)

declare copy_host.simps [simp del]

definition add_file :: "(u8 list \<Rightarrow> u8 list option) \<Rightarrow> u32 \<Rightarrow> u8 list \<Rightarrow> (mkfs, unit) um" where
  "add_file host rootino nm =
     (if SLASH \<in> set nm then ucrash ''assertion index(argv[i], /) == 0''
      else case host nm of
        None \<Rightarrow> uexit 1
      | Some c \<Rightarrow>
          ubnd (mk_ialloc T_FILE) (\<lambda>ino.
          uthn (iappend rootino (mk_dirent (strip nm) (xshort (ucast ino)))) (
          copy_host ino c)))"

definition fix_root :: "u32 \<Rightarrow> (mkfs, unit) um" where
  "fix_root rootino =
     ubnd (rinode rootino) (\<lambda>v.
     let off = xint (dsize v) in
     winode rootino (v\<lparr>dsize := xint ((off div of_nat BSIZE + 1) * of_nat BSIZE)\<rparr>))"

definition mkfs_main :: "(u8 list \<Rightarrow> bool) \<Rightarrow> (u8 list \<Rightarrow> u8 list option) \<Rightarrow> u8 list list \<Rightarrow> (mkfs, unit) um" where
  "mkfs_main creatable host argv =
     (if length argv < 2 then uexit 1
      else if \<not> creatable (argv ! 1) then uexit 1
      else uthn mk_format (
        ubnd mk_root (\<lambda>rootino.
        uthn (ufor (drop 2 argv) (add_file host rootino)) (
        uthn (fix_root rootino) (
        uthn (ubnd (uget freeblock) (\<lambda>b. mk_balloc (unat b))) (uexit 0))))))"

subsection \<open>Sectors\<close>

lemma xint_id [simp]: "xint x = x"
proof -
  have "xint x = get32 (put32 (\<lambda>_. 0) 0 x) 0" by (simp add: xint_def put32_def numeral_eq_Suc)
  then show ?thesis by (simp add: get32_put32)
qed

lemma xshort_id [simp]: "xshort x = x"
proof -
  have "xshort x = get16 (put16 (\<lambda>_. 0) 0 x) 0" by (simp add: xshort_def put16_def)
  then show ?thesis by (simp add: get16_put16)
qed

lemma meta_facts: "nmeta = 59" "ninodeblocks = 26" "nbitmap = 1" "FSSIZE = 1000" "IPB = 8" "LOGSIZE = 30"
  by (simp_all add: nmeta_def ninodeblocks_def nbitmap_def FSSIZE_def IPB_def BSIZE_def DINODE_def LOGSIZE_def
      MAXOPBLOCKS_def NINODES_def)

lemma mk_sb_fields: "sb_size mk_sb = 1000" "sb_nblocks mk_sb = 941" "sb_ninodes mk_sb = 200" "sb_nlog mk_sb = 30"
  "sb_logstart mk_sb = 2" "sb_inodestart mk_sb = 32" "sb_bmapstart mk_sb = 58"
  by (simp_all add: mk_sb_def meta_facts NINODES_def)

text \<open>Formatted, with \<open>freeblock\<close> in the data area and everything from there on still empty.\<close>

definition mk_ok :: "mkfs \<Rightarrow> bool" where
  "mk_ok s \<longleftrightarrow> img_bad s = {} \<and> img_len s = FSSIZE \<and> mksb s = mk_sb \<and> nmeta \<le> unat (freeblock s) \<and>
     unat (freeblock s) \<le> FSSIZE \<and> (\<forall>x. unat (freeblock s) \<le> x \<longrightarrow> img s x = (\<lambda>_. 0))"

lemma mk_okD:
  assumes "mk_ok s"
  shows "img_bad s = {}" "img_len s = FSSIZE" "mksb s = mk_sb" "59 \<le> unat (freeblock s)" "unat (freeblock s) \<le> FSSIZE"
    "unat (freeblock s) \<le> x \<Longrightarrow> img s x = (\<lambda>_. 0)"
  using assms by (auto simp: mk_ok_def meta_facts)

lemma sect_small: "unat w < FSSIZE \<Longrightarrow> sect_of w = unat w"
proof -
  assume w: "unat w < FSSIZE"
  have b: "unat (of_nat BSIZE :: u32) = BSIZE" by (simp add: BSIZE_def)
  have "unat (w * of_nat BSIZE) = unat w * BSIZE"
    using w by (subst unat_mult_lem [THEN iffD1]) (simp_all add: b BSIZE_def FSSIZE_def)
  then show ?thesis by (simp add: sect_of_def BSIZE_def)
qed

lemma rsect_run: "mk_ok s \<Longrightarrow> unat w < FSSIZE \<Longrightarrow> rsect w s = Done (img s (unat w)) s"
  by (simp add: rsect_def sect_small mk_okD)

lemma wsect_run: "mk_ok s \<Longrightarrow> unat w < FSSIZE \<Longrightarrow> wsect w d s = Done () (s\<lparr>img := (img s)(unat w := d)\<rparr>)"
  by (simp add: wsect_def sect_small mk_okD max_absorb1)

lemma mk_ok_write: "mk_ok s \<Longrightarrow> x < unat (freeblock s) \<Longrightarrow> mk_ok (s\<lparr>img := (img s)(x := d)\<rparr>)"
  by (auto simp: mk_ok_def)

definition ino_block :: "u32 \<Rightarrow> nat" where
  "ino_block n = IBLOCK mk_sb n"

lemma ino_block_meta: "unat n < 208 \<Longrightarrow> ino_block n = 32 + unat n div 8" "unat n < 208 \<Longrightarrow> ino_block n < 58"
proof -
  assume n: "unat n < 208"
  have d: "unat (n div 8) = unat n div 8" by (simp add: unat_div)
  have "unat (n div 8 + 32) = unat n div 8 + 32"
    using n by (subst unat_add_lem [THEN iffD1]) (simp_all add: d)
  then show e: "ino_block n = 32 + unat n div 8"
    by (simp add: ino_block_def IBLOCK_def meta_facts mk_sb_fields)
  show "ino_block n < 58" unfolding e using n by simp
qed

lemma unat_ino_block: "unat n < 208 \<Longrightarrow> unat (of_nat (ino_block n) :: u32) = ino_block n"
  using ino_block_meta(2) [of n] by (intro unat_of_nat_small) simp

text \<open>The inode \<open>n\<close> of the image.\<close>

definition dino :: "mkfs \<Rightarrow> u32 \<Rightarrow> dinode" where
  "dino s n = disk_inode (img s) mk_sb n"

lemma rinode_run: "mk_ok s \<Longrightarrow> unat n < 208 \<Longrightarrow> rinode n s = Done (dino s n) s"
  using ino_block_meta(2) [of n] unat_ino_block [of n]
  by (simp add: rinode_def rsect_run mk_okD ino_block_def FSSIZE_def dino_def disk_inode_def)

lemma winode_run:
  "mk_ok s \<Longrightarrow> unat n < 208 \<Longrightarrow>
   winode n v s = Done () (s\<lparr>img := (img s)(ino_block n := put_dinode (dslot n) v (img s (ino_block n)))\<rparr>)"
  using ino_block_meta(2) [of n] unat_ino_block [of n]
  by (simp add: winode_def rsect_run wsect_run mk_okD ino_block_def FSSIZE_def)

lemma dslot_8: "dslot n = unat n mod 8 * 64"
  by (simp add: dslot_def meta_facts DINODE_def unat_mod)

lemma dino_write:
  assumes "tidy v" "unat n < 208" "unat m < 208"
  shows "disk_inode (D(ino_block n := put_dinode (dslot n) v (D (ino_block n)))) mk_sb m =
    (if m = n then v else disk_inode D mk_sb m)"
proof (cases "ino_block m = ino_block n \<and> m \<noteq> n")
  case True
  have "unat m \<noteq> unat n" using True by (simp add: word_unat_eq_iff)
  then have "unat m mod 8 \<noteq> unat n mod 8"
    using True ino_block_meta(1) [OF assms(2)] ino_block_meta(1) [OF assms(3)] div_mult_mod_eq [of "unat m" 8]
      div_mult_mod_eq [of "unat n" 8] by (metis add_left_cancel)
  then have "dslot m + DINODE \<le> dslot n \<or> dslot n + DINODE \<le> dslot m"
    unfolding dslot_8 DINODE_def by linarith
  then show ?thesis using True get_put_dinode_other [of "dslot m" "dslot n" v]
    by (auto simp: disk_inode_def simp flip: ino_block_def)
next
  case False
  then show ?thesis using get_put_dinode [OF assms(1)] by (auto simp: disk_inode_def simp flip: ino_block_def)
qed

lemma tidy_get [simp]: "tidy (get_dinode d i)" "tidy (disk_inode D sp n)"
  by (simp_all add: tidy_def get_dinode_def get_addrs_def disk_inode_def)

subsection \<open>One block more\<close>

lemma take_block_run: "take_block s = Done (freeblock s) (s\<lparr>freeblock := freeblock s + 1\<rparr>)"
  by (simp add: take_block_def)

lemma mk_ok_take:
  assumes "mk_ok s" "unat (freeblock s) < FSSIZE"
  shows "unat (freeblock s + 1) = unat (freeblock s) + 1" "mk_ok (s\<lparr>freeblock := freeblock s + 1\<rparr>)" "freeblock s \<noteq> 0"
    "img s (unat (freeblock s)) = (\<lambda>_. 0)"
proof -
  show u: "unat (freeblock s + 1) = unat (freeblock s) + 1"
    using assms(2) by (subst unat_add_lem [THEN iffD1]) (simp_all add: FSSIZE_def)
  show "mk_ok (s\<lparr>freeblock := freeblock s + 1\<rparr>)"
    using assms u by (auto simp: mk_ok_def)
  show "freeblock s \<noteq> 0" using mk_okD(4) [OF assms(1)] by auto
  show "img s (unat (freeblock s)) = (\<lambda>_. 0)" using mk_okD(6) [OF assms(1)] by simp
qed

text \<open>The file of an inode that is not on the disk yet.\<close>

abbreviation din :: "dinode \<Rightarrow> inode" where
  "din v \<equiv> of_dinode v blank_inode"

lemma din_addrs: "din (v\<lparr>daddrs := a\<rparr>) = (din v)\<lparr>addrs := a\<rparr>"
  by (simp add: of_dinode_def)

text \<open>What an append to a file changes: the file's own blocks, new ones and \<open>freeblock\<close>.\<close>

definition mk_frame :: "mkfs \<Rightarrow> mkfs \<Rightarrow> bool" where
  "mk_frame s t \<longleftrightarrow> stdout t = stdout s \<and> heap t = heap s \<and> img_bad t = img_bad s \<and> img_len t = img_len s \<and>
     mksb t = mksb s \<and> freeinode t = freeinode s"

definition same_meta :: "dinode \<Rightarrow> dinode \<Rightarrow> bool" where
  "same_meta v w \<longleftrightarrow> dtype w = dtype v \<and> dmajor w = dmajor v \<and> dminor w = dminor v \<and> dnlink w = dnlink v \<and> dsize w = dsize v"

definition appends :: "mkfs \<Rightarrow> dinode \<Rightarrow> mkfs \<Rightarrow> dinode \<Rightarrow> bool" where
  "appends s v t w \<longleftrightarrow> mk_frame s t \<and> same_meta v w \<and> mk_ok t \<and>
     (tidy v \<longrightarrow> tidy w) \<and> unat (freeblock s) \<le> unat (freeblock t) \<and>
     used_blocks (img t) (din w) \<subseteq> used_blocks (img s) (din v) \<union> {unat (freeblock s)..<unat (freeblock t)} \<and>
     used_blocks (img s) (din v) \<subseteq> used_blocks (img t) (din w) \<and>
     (\<forall>x. x \<notin> used_blocks (img t) (din w) \<longrightarrow> img t x = img s x)"

lemma appends_refl: "mk_ok s \<Longrightarrow> appends s v s v"
  by (simp add: appends_def mk_frame_def same_meta_def)

lemma appends_trans:
  assumes "appends s v t w" "appends t w u x"
  shows "appends s v u x"
proof -
  have "mk_frame s u" "same_meta v x" using assms by (auto simp: appends_def mk_frame_def same_meta_def)
  moreover have "used_blocks (img u) (din x) \<subseteq> used_blocks (img s) (din v) \<union> {unat (freeblock s)..<unat (freeblock u)}"
    using assms unfolding appends_def by fastforce
  moreover have "img u y = img s y" if "y \<notin> used_blocks (img u) (din x)" for y
  proof -
    have "y \<notin> used_blocks (img t) (din w)" using that assms(2) by (auto simp: appends_def)
    then show ?thesis using that assms by (simp add: appends_def)
  qed
  ultimately show ?thesis using assms unfolding appends_def by auto
qed

lemma appends_fill:
  assumes "fills (img s) (din v) k b (img t) (din w)" "unat b = unat (freeblock s)"
    and "mk_frame s t" "freeblock t = freeblock s + 1" "same_meta v w" "mk_ok s" "unat (freeblock s) < FSSIZE"
    and "tidy v \<Longrightarrow> tidy w" "\<And>x. x \<notin> used_blocks (img t) (din w) \<Longrightarrow> img t x = img s x"
    and "used_blocks (img s) (din v) \<subseteq> {..<unat (freeblock s)}"
  shows "appends s v t w"
proof -
  note f = assms(4)
  note u = mk_ok_take [OF assms(6,7)]
  have us: "used_blocks (img t) (din w) = insert (unat (freeblock s)) (used_blocks (img s) (din v))"
    using fills_used [OF assms(1)] assms(2) by simp
  have "img t x = (\<lambda>_. 0)" if "unat (freeblock t) \<le> x" for x
  proof -
    have "x \<notin> used_blocks (img t) (din w)" using that us u(1) assms(10) f by auto
    then show ?thesis using assms(9) that u(1) f mk_okD(6) [OF assms(6)] by simp
  qed
  then have "mk_ok t" using u(1) assms(3,6,7) f by (auto simp: mk_ok_def mk_frame_def)
  then show ?thesis using assms us f u(1) by (auto simp: appends_def)
qed

lemma din_fields [simp]: "addrs (din v) = daddrs v" "isize (din v) = dsize v"
  by (simp_all add: of_dinode_def)

definition block_got :: "mkfs \<Rightarrow> dinode \<Rightarrow> nat \<Rightarrow> mkfs \<Rightarrow> dinode \<Rightarrow> bool" where
  "block_got s v k t w \<longleftrightarrow> appends s v t w \<and> grow (img s) (din v) (img t) (din w) \<and>
     unat (freeblock t) = unat (freeblock s) + new_blocks (img s) (din v) k \<and>
     (\<forall>j\<le>MAXFILE. slot (img t) (din w) j \<noteq> 0 \<longleftrightarrow> slot (img s) (din v) j \<noteq> 0 \<or> j = k \<or> j = MAXFILE \<and> NDIRECT \<le> k)"

lemma used_small:
  assumes "mk_ok s" "used_blocks (img s) p \<subseteq> {..<unat (freeblock s)}" "j \<le> MAXFILE"
  shows "unat (slot (img s) p j) < FSSIZE" "slot (img s) p j \<noteq> 0 \<Longrightarrow> unat (slot (img s) p j) < unat (freeblock s)"
proof -
  show b: "unat (slot (img s) p j) < unat (freeblock s)" if "slot (img s) p j \<noteq> 0"
    using slot_used [OF assms(3) that] assms(2) by blast
  show "unat (slot (img s) p j) < FSSIZE"
    using b mk_okD(5) [OF assms(1)] by (cases "slot (img s) p j = 0") (simp_all add: FSSIZE_def)
qed

lemma entry_got:
  assumes ok: "mk_ok s" "slots_ok (img s) (din v)" "used_blocks (img s) (din v) \<subseteq> {..<unat (freeblock s)}"
    and k: "\<not> k < NDIRECT" "k < MAXFILE" "daddrs v NDIRECT \<noteq> 0" "slot (img s) (din v) k = 0"
    and room: "unat (freeblock s) < FSSIZE"
    and x: "x = unat (daddrs v NDIRECT)"
    and t: "t = s\<lparr>freeblock := freeblock s + 1, img := (img s)(x := put32 (img s x) (4 * (k - NDIRECT)) (freeblock s))\<rparr>"
  shows "block_got s v k t v" "slot (img t) (din v) k = freeblock s"
proof -
  let ?D = "img s" and ?p = "din v" and ?b = "freeblock s"
  note u = mk_ok_take [OF ok(1) room]
  have b: "unat ?b \<notin> used_blocks ?D ?p" using ok(3) by auto
  have f: "fills ?D ?p k ?b (img t) ?p"
    using fill_entry [of k ?p ?D ?b "img t"] k b u(3) x by (simp add: t slot_mapped)
  have xi: "x = unat (slot ?D ?p MAXFILE)" by (simp add: slot_def x)
  have xu: "x \<in> used_blocks (img t) ?p"
    using fills_used [OF f] slot_used [of MAXFILE ?D ?p] k(3) by (simp add: xi slot_def)
  have ap: "appends s v t v"
    by (rule appends_fill [OF f refl _ _ _ ok(1) room])
      (use xu ok(3) in \<open>auto simp: t mk_frame_def same_meta_def\<close>)
  have "img t (unat (slot ?D ?p j)) = ?D (unat (slot ?D ?p j))" if "j < MAXFILE" "slot ?D ?p j \<noteq> 0" for j
  proof -
    have "slot ?D ?p j \<noteq> slot ?D ?p MAXFILE" using ok(2) that unfolding slots_ok_def by (metis less_imp_le_nat less_irrefl order_refl)
    then show ?thesis by (simp add: t xi word_unat_eq_iff)
  qed
  then have "grow ?D ?p (img t) ?p" by (rule fills_grow [OF f ok(2)])
  moreover have "slot ?D ?p MAXFILE \<noteq> 0" using k(3) by (simp add: slot_def)
  ultimately show "block_got s v k t v"
    using ap f u(1,3) k by (auto simp: block_got_def new_blocks_def fills_def t)
  show "slot (img t) (din v) k = freeblock s" using f k by (simp add: fills_def)
qed

lemma addr_got:
  assumes ok: "mk_ok s" "slots_ok (img s) (din v)" "used_blocks (img s) (din v) \<subseteq> {..<unat (freeblock s)}"
    and k: "i \<le> NDIRECT" "daddrs v i = 0" and j: "j = (if i < NDIRECT then i else MAXFILE)"
    and room: "unat (freeblock s) < FSSIZE"
    and t: "t = s\<lparr>freeblock := freeblock s + 1\<rparr>" and w: "w = v\<lparr>daddrs := (daddrs v)(i := freeblock s)\<rparr>"
  shows "fills (img s) (din v) j (freeblock s) (img s) (din w)" "appends s v t w" "grow (img s) (din v) (img t) (din w)"
proof -
  note u = mk_ok_take [OF ok(1) room]
  have b: "unat (freeblock s) \<notin> used_blocks (img s) (din v)" using ok(3) by auto
  show f: "fills (img s) (din v) j (freeblock s) (img s) (din w)"
    using k u(3,4) b j fill_direct [of i "din v" "freeblock s" "img s"] fill_indirect [of "din v" "freeblock s" "img s"]
    by (cases "i < NDIRECT") (simp_all add: w din_addrs)
  show "appends s v t w"
    by (rule appends_fill [OF _ refl _ _ _ ok(1) room]) (use f ok(3) k in \<open>auto simp: t w mk_frame_def same_meta_def tidy_def\<close>)
  show "grow (img s) (din v) (img t) (din w)" using fills_grow [OF f ok(2)] by (simp add: t)
qed

lemma got_refl:
  assumes "mk_ok s" "slots_ok (img s) (din v)" "slot (img s) (din v) k \<noteq> 0" "k < MAXFILE"
  shows "block_got s v k s v"
proof -
  have "slot (img s) (din v) MAXFILE \<noteq> 0" if "NDIRECT \<le> k"
    using assms(3,4) that by (auto simp: slot_def mapped_def split: if_splits)
  then show ?thesis using assms appends_refl [OF assms(1)] grow_refl [OF assms(2)]
    by (auto simp: block_got_def new_blocks_def)
qed

text \<open>The part of mk_bmap behind an indirect block that is there.\<close>

lemma entry_run:
  assumes ok: "mk_ok s" "slots_ok (img s) (din v)" "used_blocks (img s) (din v) \<subseteq> {..<unat (freeblock s)}"
    and k: "\<not> k < NDIRECT" "k < MAXFILE" "daddrs v NDIRECT \<noteq> 0"
    and room: "unat (freeblock s) + new_blocks (img s) (din v) k \<le> FSSIZE"
  shows "\<exists>t. mk_bmap v k s = Done (v, slot (img t) (din v) k) t \<and> block_got s v k t v"
proof -
  let ?x = "unat (daddrs v NDIRECT)" and ?k = "4 * (k - NDIRECT)"
  have x: "?x < FSSIZE" using used_small(1) [OF ok(1,3), of MAXFILE] by (simp add: slot_def)
  have sl: "slot (img s) (din v) k = get32 (img s ?x) ?k"
    using k by (simp add: slot_def mapped_def)
  show ?thesis
  proof (cases "slot (img s) (din v) k = 0")
    case True
    then have r: "unat (freeblock s) < FSSIZE" using room k(3) by (simp add: new_blocks_def)
    define t where "t = s\<lparr>freeblock := freeblock s + 1, img := (img s)(?x := put32 (img s ?x) ?k (freeblock s))\<rparr>"
    note g = entry_got [OF ok k True r refl t_def]
    have "wsect (daddrs v NDIRECT) d (s\<lparr>freeblock := freeblock s + 1\<rparr>) =
        Done () (s\<lparr>freeblock := freeblock s + 1, img := (img s)(?x := d)\<rparr>)" for d
      using wsect_run [OF mk_ok_take(2) [OF ok(1) r] x] by simp
    then have "mk_bmap v k s = Done (v, freeblock s) t"
      using k True x by (simp add: mk_bmap_def rsect_run [OF ok(1)] take_block_run sl get32_put32 t_def)
    then show ?thesis using g by (intro exI [of _ t]) simp
  next
    case False
    then have "mk_bmap v k s = Done (v, slot (img s) (din v) k) s"
      using k x by (simp add: mk_bmap_def rsect_run [OF ok(1)] sl)
    then show ?thesis using got_refl [OF ok(1,2) False k(2)] by blast
  qed
qed

lemma mk_bmap_run:
  assumes ok: "mk_ok s" "slots_ok (img s) (din v)" "used_blocks (img s) (din v) \<subseteq> {..<unat (freeblock s)}"
    and k: "k < MAXFILE" and room: "unat (freeblock s) + new_blocks (img s) (din v) k \<le> FSSIZE"
  shows "\<exists>w t. mk_bmap v k s = Done (w, slot (img t) (din w) k) t \<and> block_got s v k t w"
proof (cases "k < NDIRECT")
  case True
  have sl: "slot (img u) (din z) k = daddrs z k" for u z using True k by (simp add: slot_def mapped_def)
  show ?thesis
  proof (cases "daddrs v k = 0")
    case z: True
    have r: "unat (freeblock s) < FSSIZE" using room z True by (simp add: new_blocks_def sl)
    define t w where "t = s\<lparr>freeblock := freeblock s + 1\<rparr>" and "w = v\<lparr>daddrs := (daddrs v)(k := freeblock s)\<rparr>"
    have "k \<le> NDIRECT" using True by simp
    note g = addr_got [OF ok this z _ r t_def w_def, of k]
    have "mk_bmap v k s = Done (w, slot (img t) (din w) k) t"
      using True z by (simp add: mk_bmap_def take_block_run sl t_def w_def)
    moreover have "block_got s v k t w"
      using g True z mk_ok_take(1,3) [OF ok(1) r] sl k by (auto simp: block_got_def new_blocks_def fills_def t_def)
    ultimately show ?thesis by blast
  next
    case False
    have "mk_bmap v k s = Done (v, slot (img s) (din v) k) s" using True False by (simp add: mk_bmap_def sl)
    then show ?thesis using got_refl [OF ok(1,2) _ k] False by (auto simp: sl)
  qed
next
  case nd: False
  show ?thesis
  proof (cases "daddrs v NDIRECT = 0")
    case True
    have s0: "slot (img s) (din v) k = 0" "slot (img s) (din v) MAXFILE = 0"
      using nd k True by (simp_all add: slot_def mapped_def)
    have r: "unat (freeblock s) + 2 \<le> FSSIZE" using room nd True s0 by (simp add: new_blocks_def)
    define t w where "t = s\<lparr>freeblock := freeblock s + 1\<rparr>" and "w = v\<lparr>daddrs := (daddrs v)(NDIRECT := freeblock s)\<rparr>"
    have "unat (freeblock s) < FSSIZE" using r by simp
    note u = mk_ok_take [OF ok(1) this]
      and g = addr_got [OF ok order_refl True _ this t_def w_def, of MAXFILE, simplified]
    have w: "\<not> k < NDIRECT" "k < MAXFILE" "daddrs w NDIRECT \<noteq> 0" using nd k u(3) by (simp_all add: w_def)
    have sw: "slot (img t) (din w) j = (if j = MAXFILE then freeblock s else slot (img s) (din v) j)" if "j \<le> MAXFILE" for j
      using g(1) that by (simp add: fills_def t_def)
    have "new_blocks (img t) (din w) k = 1" using w(3) s0(1) k by (simp add: new_blocks_def sw)
    moreover have "mk_ok t" "slots_ok (img t) (din w)" "used_blocks (img t) (din w) \<subseteq> {..<unat (freeblock t)}"
      using g(2,3) ok(3) u(1) by (auto simp: appends_def grow_def t_def)
    ultimately obtain t' where t': "mk_bmap w k t = Done (w, slot (img t') (din w) k) t'" "block_got t w k t' w"
      using entry_run [of t w k] w r u(1) by (auto simp: t_def)
    have "mk_bmap v k s = mk_bmap w k t"
      using nd True u(3) by (simp add: mk_bmap_def take_block_run t_def w_def)
    moreover have "block_got s v k t' w"
      using t'(2) appends_trans [OF g(2)] grow_trans [OF g(3)] u(1) s0 nd True sw u(3)
        \<open>new_blocks (img t) (din w) k = 1\<close>
      by (auto simp: block_got_def new_blocks_def t_def)
    ultimately show ?thesis using t'(1) by auto
  next
    case False
    then show ?thesis using entry_run [OF ok nd k False room] by blast
  qed
qed

lemma appends_below:
  assumes "appends s v t w" "used_blocks (img s) (din v) \<subseteq> {..<unat (freeblock s)}"
  shows "used_blocks (img t) (din w) \<subseteq> {..<unat (freeblock t)}"
proof
  fix x assume "x \<in> used_blocks (img t) (din w)"
  then have "x \<in> used_blocks (img s) (din v) \<or> x < unat (freeblock t)" using assms(1) by (auto simp: appends_def)
  moreover have "unat (freeblock s) \<le> unat (freeblock t)" using assms(1) by (simp add: appends_def)
  ultimately show "x \<in> {..<unat (freeblock t)}" using assms(2) by auto
qed

lemma append_chunk:
  assumes ok: "mk_ok s" "file_at (img s) (din v) off" "used_blocks (img s) (din v) \<subseteq> {..<unat (freeblock s)}"
    and k: "off div BSIZE < MAXFILE" and c: "bs \<noteq> []" "m = chunk off (length bs)" "off + m \<le> MAXFILE * BSIZE"
    and room: "unat (freeblock s) + blocks_for (off + m) \<le> FSSIZE + blocks_for off"
  shows "\<exists>w t u x. mk_bmap v (off div BSIZE) s = Done (w, x) t \<and> rsect x t = Done (img t (unat x)) t \<and>
    wsect x (overlay (off mod BSIZE) (take m bs) (img t (unat x))) t = Done () u \<and>
    appends s v u w \<and> file_at (img u) (din w) (off + m) \<and>
    unat (freeblock u) + blocks_for off = unat (freeblock s) + blocks_for (off + m) \<and>
    (\<forall>j<off + m. fbyte (img u) (din w) j = (if j < off then fbyte (img s) (din v) j else bs ! (j - off)))"
proof -
  let ?k = "off div BSIZE"
  have len: "0 < length bs" using c(1) by simp
  note cf = chunk_facts [OF len, where off = off, folded c(2)]
  have nb: "blocks_for (off + m) = blocks_for off + new_blocks (img s) (din v) ?k"
    using cf(2) new_blocks_chunk [OF ok(2) k] by simp
  have so: "slots_ok (img s) (din v)" using ok(2) by (simp add: file_at_def)
  obtain w t where t: "mk_bmap v ?k s = Done (w, slot (img t) (din w) ?k) t" "block_got s v ?k t w"
    using mk_bmap_run [OF ok(1) so ok(3) k] room nb by auto
  note g = t(2) [unfolded block_got_def]
  let ?x = "slot (img t) (din w) ?k"
  have a: "appends s v t w" "mk_ok t" "grow (img s) (din v) (img t) (din w)" "slots_ok (img t) (din w)"
    using g unfolding appends_def grow_def by blast+
  have nz: "?x \<noteq> 0" using g k by simp
  have ut: "used_blocks (img t) (din w) \<subseteq> {..<unat (freeblock t)}" by (rule appends_below [OF a(1) ok(3)])
  note x = used_small [OF a(2) ut less_imp_le_nat [OF k]]
  define d where "d = overlay (off mod BSIZE) (take m bs) (img t (unat ?x))"
  define u where "u = t\<lparr>img := (img t)(unat ?x := d)\<rparr>"
  have w: "wsect ?x d t = Done () u" using wsect_run [OF a(2) x(1)] by (simp add: u_def)
  have lt: "length (take m bs) = m" using c(2) chunk_le [of off "length bs"] by simp
  have "length (take m bs) \<le> BSIZE - off mod BSIZE" unfolding lt c(2) by (simp add: chunk_def)
  note o = overlay_chunk [OF a(4) k nz _ this, of "img u", unfolded lt]
  have iu: "img u = (img t)(unat ?x := overlay (off mod BSIZE) (take m bs) (img t (unat ?x)))" by (simp add: u_def d_def)
  have "appends t w u w"
    using mk_ok_write [OF a(2) x(2) [OF nz]] o(3) [OF iu] slot_used [OF less_imp_le_nat [OF k] nz]
    by (auto simp: appends_def u_def mk_frame_def same_meta_def)
  then have ap: "appends s v u w" by (rule appends_trans [OF a(1)])
  have nd: "NDIRECT \<le> ?k \<or> NDIRECT * BSIZE < off \<longleftrightarrow> NDIRECT * BSIZE < off + m"
    using cf(1) [of NDIRECT] div_mult_mod_eq [of off BSIZE] by (auto simp: BSIZE_def)
  have f0: "slot (img s) (din v) i \<noteq> 0 \<longleftrightarrow> i * BSIZE < off" if "i < MAXFILE" for i
    using ok(2) that by (simp add: file_at_def)
  have fm: "slot (img s) (din v) MAXFILE \<noteq> 0 \<longleftrightarrow> NDIRECT * BSIZE < off" using ok(2) by (simp add: file_at_def)
  have gs: "slot (img t) (din w) i \<noteq> 0 \<longleftrightarrow> slot (img s) (din v) i \<noteq> 0 \<or> i = ?k \<or> i = MAXFILE \<and> NDIRECT \<le> ?k"
    if "i \<le> MAXFILE" for i using g that by blast
  have "slot (img u) (din w) i \<noteq> 0 \<longleftrightarrow> i * BSIZE < off + m" if "i < MAXFILE" for i
    using gs [of i] f0 [OF that] cf(1) [of i] o(1) [OF iu] that by auto
  moreover have "slot (img u) (din w) MAXFILE \<noteq> 0 \<longleftrightarrow> NDIRECT * BSIZE < off + m"
    using gs [of MAXFILE] fm nd o(1) [OF iu] k by auto
  ultimately have fa: "file_at (img u) (din w) (off + m)"
    unfolding file_at_def using o(2) [OF iu] c(3) by blast
  have "fbyte (img u) (din w) j = (if j < off then fbyte (img s) (din v) j else bs ! (j - off))" if j: "j < off + m" for j
  proof -
    have km: "j div BSIZE < MAXFILE" using j c(3) by (simp add: BSIZE_def div_less_iff_less_mult)
    have "j div BSIZE * BSIZE < off + m" using j div_mult_mod_eq [of j BSIZE] by linarith
    then have sn: "slot (img t) (din w) (j div BSIZE) \<noteq> 0" using fa km o(1) [OF iu] by (simp add: file_at_def)
    show ?thesis
    proof (cases "j < off")
      case True
      then have "j div BSIZE * BSIZE < off" using div_mult_mod_eq [of j BSIZE] by linarith
      then have "slot (img s) (din v) (j div BSIZE) \<noteq> 0" using ok(2) km by (simp add: file_at_def)
      then show ?thesis using o(4) [OF iu km sn] grow_byte [OF a(3) km] True by simp
    next
      case False
      then show ?thesis using o(4) [OF iu km sn] j by (simp add: nth_append)
    qed
  qed
  then show ?thesis
    using t(1) rsect_run [OF a(2) x(1)] w ap fa nb g unfolding d_def
    by (intro exI [of _ w] exI [of _ t] exI [of _ u] exI [of _ ?x]) (simp add: u_def)
qed

definition appended :: "mkfs \<Rightarrow> dinode \<Rightarrow> nat \<Rightarrow> u8 list \<Rightarrow> mkfs \<Rightarrow> dinode \<Rightarrow> bool" where
  "appended s v off bs t w \<longleftrightarrow> appends s v t w \<and> file_at (img t) (din w) (off + length bs) \<and>
     unat (freeblock t) + blocks_for off = unat (freeblock s) + blocks_for (off + length bs) \<and>
     (\<forall>j<off + length bs. fbyte (img t) (din w) j = (if j < off then fbyte (img s) (din v) j else bs ! (j - off)))"

lemma iappend_loop_run:
  assumes "mk_ok s" "file_at (img s) (din v) off" "used_blocks (img s) (din v) \<subseteq> {..<unat (freeblock s)}"
    and "off + length bs \<le> MAXFILE * BSIZE"
    and "unat (freeblock s) + blocks_for (off + length bs) \<le> FSSIZE + blocks_for off"
  shows "\<exists>w t. iappend_loop v off bs s = Done (w, off + length bs) t \<and> appended s v off bs t w"
  using assms
proof (induction "length bs" arbitrary: v off bs s rule: less_induct)
  case less
  show ?case
  proof (cases "bs = []")
    case True
    then show ?thesis using less.prems appends_refl
      by (simp add: iappend_loop.simps appended_def)
  next
    case False
    define m where "m = chunk off (length bs)"
    have m: "0 < m" "m \<le> length bs" using False chunk_pos [of "length bs" off] chunk_le by (simp_all add: m_def)
    have k: "off div BSIZE < MAXFILE"
      using less.prems(4) m by (simp add: BSIZE_def div_less_iff_less_mult)
    have "blocks_for (off + m) \<le> blocks_for (off + length bs)" using m by (intro blocks_for_mono) simp
    then obtain w t u x where t: "mk_bmap v (off div BSIZE) s = Done (w, x) t" "rsect x t = Done (img t (unat x)) t"
      "wsect x (overlay (off mod BSIZE) (take m bs) (img t (unat x))) t = Done () u"
      "appends s v u w" "file_at (img u) (din w) (off + m)"
      "unat (freeblock u) + blocks_for off = unat (freeblock s) + blocks_for (off + m)"
      "\<And>j. j < off + m \<Longrightarrow> fbyte (img u) (din w) j = (if j < off then fbyte (img s) (din v) j else bs ! (j - off))"
      using append_chunk [OF less.prems(1-3) k False m_def] m less.prems(4,5) by fastforce
    have l: "off + m + length (drop m bs) = off + length bs" using m by simp
    have u: "mk_ok u" "used_blocks (img u) (din w) \<subseteq> {..<unat (freeblock u)}"
      using t(4) appends_below [OF t(4) less.prems(3)] by (simp_all add: appends_def)
    have sh: "length (drop m bs) < length bs" using m by simp
    obtain w' t' where t': "iappend_loop w (off + m) (drop m bs) u = Done (w', off + length bs) t'"
      "appended u w (off + m) (drop m bs) t' w'"
      using less.hyps [OF sh u(1) t(5) u(2)] t(6) less.prems(4,5) unfolding l by auto
    note d = t'(2) [unfolded appended_def l]
    have "fbyte (img t') (din w') j = (if j < off then fbyte (img s) (din v) j else bs ! (j - off))"
      if "j < off + length bs" for j
      using d t(7) [of j] that m by (cases "j < off + m") auto
    then have "appended s v off bs t' w'"
      using d appends_trans [OF t(4)] t(6) unfolding appended_def by auto
    moreover have "iappend_loop v off bs s = Done (w', off + length bs) t'"
      using False k t(1-3) t'(1) by (subst iappend_loop.simps) (simp flip: m_def)
    ultimately show ?thesis by blast
  qed
qed

definition file_bytes :: "(nat \<Rightarrow> block) \<Rightarrow> dinode \<Rightarrow> u8 list" where
  "file_bytes D v = map (fbyte D (din v)) [0..<unat (dsize v)]"

subsection \<open>The files of an image\<close>

text \<open>\<open>contents\<close> lists the files of the inodes 1, 2, \dots in use. \<open>image_ok\<close>: every file has the blocks it needs,
  no two files share a block, and the blocks taken so far are exactly those of the files.\<close>

definition contents :: "mkfs \<Rightarrow> u8 list list" where
  "contents s = map (\<lambda>i. file_bytes (img s) (dino s (of_nat i))) [1..<unat (freeinode s)]"

definition file_used :: "mkfs \<Rightarrow> nat \<Rightarrow> nat set" where
  "file_used s i = used_blocks (img s) (din (dino s (of_nat i)))"

definition blocks_needed :: "u8 list list \<Rightarrow> nat" where
  "blocks_needed cs = sum_list (map (\<lambda>c. blocks_for (length c)) cs)"

definition file_ok :: "mkfs \<Rightarrow> nat \<Rightarrow> bool" where
  "file_ok s i \<longleftrightarrow> file_at (img s) (din (dino s (of_nat i))) (unat (dsize (dino s (of_nat i)))) \<and>
     file_used s i \<subseteq> {nmeta..<unat (freeblock s)}"

definition image_ok :: "mkfs \<Rightarrow> bool" where
  "image_ok s \<longleftrightarrow> mk_ok s \<and> 1 \<le> unat (freeinode s) \<and> unat (freeinode s) \<le> NINODES \<and>
     (\<forall>i\<in>{1..<unat (freeinode s)}. file_ok s i) \<and>
     (\<forall>i\<in>{1..<unat (freeinode s)}. \<forall>j\<in>{1..<unat (freeinode s)}. i \<noteq> j \<longrightarrow> file_used s i \<inter> file_used s j = {}) \<and>
     unat (freeblock s) = nmeta + blocks_needed (contents s)"

lemma length_file_bytes [simp]: "length (file_bytes D v) = unat (dsize v)"
  by (simp add: file_bytes_def)

lemma length_contents [simp]: "length (contents s) = unat (freeinode s) - 1"
  by (simp add: contents_def)

lemma nth_contents: "i < unat (freeinode s) - 1 \<Longrightarrow> contents s ! i = file_bytes (img s) (dino s (of_nat (Suc i)))"
  by (simp add: contents_def)

lemma blocks_needed_update: "i < length cs \<Longrightarrow> blocks_needed (cs[i := c]) + blocks_for (length (cs ! i)) = blocks_needed cs + blocks_for (length c)"
proof -
  assume i: "i < length cs"
  have "blocks_needed cs = blocks_needed (take i cs) + blocks_for (length (cs ! i)) + blocks_needed (drop (Suc i) cs)"
    by (subst id_take_nth_drop [OF i]) (simp add: blocks_needed_def)
  then show ?thesis by (subst upd_conv_take_nth_drop [OF i]) (simp add: blocks_needed_def)
qed

lemma blocks_needed_snoc [simp]: "blocks_needed (cs @ [c]) = blocks_needed cs + blocks_for (length c)"
  by (simp add: blocks_needed_def)

lemma unat_ino: "i < 208 \<Longrightarrow> unat (of_nat i :: u32) = i"
  by (rule unat_of_nat_small) simp

lemma same_ino: "i < 208 \<Longrightarrow> j < 208 \<Longrightarrow> (of_nat i :: u32) = of_nat j \<longleftrightarrow> i = j"
  by (metis unat_ino)

definition kept :: "mkfs \<Rightarrow> mkfs \<Rightarrow> bool" where
  "kept s t \<longleftrightarrow> stdout t = stdout s \<and> unat (freeinode s) \<le> unat (freeinode t) \<and> (\<forall>x<32. img t x = img s x) \<and>
     (\<forall>j\<in>{1..<unat (freeinode s)}. dtype (dino t (of_nat j)) = dtype (dino s (of_nat j)) \<and>
        dnlink (dino t (of_nat j)) = dnlink (dino s (of_nat j)))"

lemma kept_refl [simp]: "kept s s"
  by (simp add: kept_def)

lemma kept_trans: "kept s t \<Longrightarrow> kept t u \<Longrightarrow> kept s u"
  by (simp add: kept_def)

lemma image_okD:
  assumes "image_ok s"
  shows "mk_ok s" "unat (freeinode s) \<le> 200" "i \<in> {1..<unat (freeinode s)} \<Longrightarrow> file_ok s i"
    "i \<in> {1..<unat (freeinode s)} \<Longrightarrow> j \<in> {1..<unat (freeinode s)} \<Longrightarrow> i \<noteq> j \<Longrightarrow> file_used s i \<inter> file_used s j = {}"
    "unat (freeblock s) = 59 + blocks_needed (contents s)" "1 \<le> unat (freeinode s)"
  using assms by (auto simp: image_ok_def NINODES_def meta_facts)

lemma other_file:
  assumes "file_ok s j" "\<And>x. x \<in> file_used s j \<Longrightarrow> img t x = img s x" "dino t (of_nat j) = dino s (of_nat j)"
    and "unat (freeblock s) \<le> unat (freeblock t)"
  shows "file_ok t j" "file_used t j = file_used s j" "file_bytes (img t) (dino t (of_nat j)) = file_bytes (img s) (dino s (of_nat j))"
proof -
  note f = file_frame [of "din (dino s (of_nat j))" "din (dino s (of_nat j))" "img s" "img t",
      OF refl assms(2) [unfolded file_used_def]]
  show "file_used t j = file_used s j" unfolding file_used_def assms(3) using f(2) by simp
  then show "file_ok t j" using assms(1,3,4) f(1) by (auto simp: file_ok_def)
  show "file_bytes (img t) (dino t (of_nat j)) = file_bytes (img s) (dino s (of_nat j))"
    unfolding assms(3) file_bytes_def using assms(1) f(4) by (auto simp: file_ok_def)
qed

text \<open>An append followed by the store of the inode.\<close>

lemma stored_append:
  assumes inv: "image_ok s" "i \<in> {1..<unat (freeinode s)}"
    and a: "appended s (dino s (of_nat i)) (unat (dsize (dino s (of_nat i)))) bs t w"
    and u: "u = t\<lparr>img := (img t)(ino_block (of_nat i) := put_dinode (dslot (of_nat i)) v (img t (ino_block (of_nat i))))\<rparr>"
    and v: "v = w\<lparr>dsize := of_nat (unat (dsize (dino s (of_nat i))) + length bs)\<rparr>"
    and len: "unat (dsize (dino s (of_nat i))) + length bs \<le> MAXFILE * BSIZE"
  shows "j < 208 \<Longrightarrow> dino u (of_nat j) = (if j = i then v else dino s (of_nat j))"
    "unat (dsize v) = unat (dsize (dino s (of_nat i))) + length bs"
    "x \<notin> used_blocks (img t) (din w) \<Longrightarrow> x \<notin> {32..<58} \<Longrightarrow> img u x = img s x"
    "x \<in> used_blocks (img t) (din w) \<Longrightarrow> img u x = img t x"
    "used_blocks (img t) (din w) \<subseteq> file_used s i \<union> {unat (freeblock s)..<unat (freeblock t)}"
proof -
  let ?n = "of_nat i :: u32"
  note d = inv(1) [THEN image_okD(1)] image_okD(2) [OF inv(1)] image_okD(3) [OF inv]
  have i: "unat ?n < 208" "i < 208" using inv(2) d(2) unat_ino [of i] by simp_all
  note ap = a [unfolded appended_def appends_def]
  show "unat (dsize v) = unat (dsize (dino s ?n)) + length bs"
  proof -
    have "unat (dsize (dino s ?n)) + length bs < 4294967296"
      using len by (simp add: MAXFILE_def NDIRECT_def NINDIRECT_def BSIZE_def)
    then have "unat (of_nat (unat (dsize (dino s ?n)) + length bs) :: u32) = unat (dsize (dino s ?n)) + length bs"
      by (rule unat_of_nat_small)
    then show ?thesis unfolding v by (simp del: of_nat_add)
  qed
  show us: "used_blocks (img t) (din w) \<subseteq> file_used s i \<union> {unat (freeblock s)..<unat (freeblock t)}"
    using ap by (simp add: file_used_def)
  have lo: "59 \<le> x" if "x \<in> used_blocks (img t) (din w)" for x
  proof -
    have "file_used s i \<subseteq> {59..}" using d(3) by (auto simp: file_ok_def meta_facts)
    moreover have "x \<in> file_used s i \<or> unat (freeblock s) \<le> x" using us that by fastforce
    ultimately show ?thesis using mk_okD(4) [OF d(1)] by auto
  qed
  have "tidy (dino s ?n)" by (simp add: dino_def)
  then have "tidy w" using ap by blast
  then have tv: "tidy v" by (simp add: v tidy_def)
  show "dino u (of_nat j) = (if j = i then v else dino s (of_nat j))" if j: "j < 208"
  proof -
    have "img t (ino_block (of_nat j)) = img s (ino_block (of_nat j))"
      using ap lo [of "ino_block (of_nat j)"] ino_block_meta(2) [of "of_nat j"] unat_ino [OF j] j by auto
    then have "disk_inode (img t) mk_sb (of_nat j) = dino s (of_nat j)" by (simp add: dino_def disk_inode_def flip: ino_block_def)
    then show ?thesis using dino_write [OF tv i(1), of "of_nat j" "img t"] unat_ino [OF j] j same_ino [OF j i(2)]
      by (simp add: dino_def u)
  qed
  have b: "ino_block ?n \<in> {32..<58}" using ino_block_meta [OF i(1)] by simp
  show "img u x = img s x" if "x \<notin> used_blocks (img t) (din w)" "x \<notin> {32..<58}"
    using that b ap by (auto simp: u)
  show "img u x = img t x" if "x \<in> used_blocks (img t) (din w)" using lo [OF that] b by (auto simp: u)
qed

lemma appended_files:
  assumes inv: "image_ok s" "i \<in> {1..<unat (freeinode s)}" and j: "j \<in> {1..<unat (freeinode s)}"
    and a: "appended s (dino s (of_nat i)) (unat (dsize (dino s (of_nat i)))) bs t w"
    and u: "u = t\<lparr>img := (img t)(ino_block (of_nat i) := put_dinode (dslot (of_nat i)) v (img t (ino_block (of_nat i))))\<rparr>"
    and v: "v = w\<lparr>dsize := of_nat (unat (dsize (dino s (of_nat i))) + length bs)\<rparr>"
    and len: "unat (dsize (dino s (of_nat i))) + length bs \<le> MAXFILE * BSIZE"
  shows "file_ok u j" "j \<noteq> i \<Longrightarrow> file_used u j = file_used s j"
    "file_used u i \<subseteq> file_used s i \<union> {unat (freeblock s)..<unat (freeblock t)}"
    "file_bytes (img u) (dino u (of_nat j)) =
      (if j = i then file_bytes (img s) (dino s (of_nat i)) @ bs else file_bytes (img s) (dino s (of_nat j)))"
proof -
  note st = stored_append [OF inv a u v len] and iv = image_okD [OF inv(1)]
  note ap = a [unfolded appended_def appends_def]
  have s: "j < 208" "i < 208" using j inv(2) iv(2) by auto
  have fu: "freeblock u = freeblock t" by (simp add: u)
  have di: "dino u (of_nat i) = v" using st(1) [OF s(2)] by simp
  have av: "addrs (din v) = addrs (din w)" by (simp add: v)
  note f = file_frame [of "din v" "din w" "img t" "img u", OF av st(4)]
  show ui: "file_used u i \<subseteq> file_used s i \<union> {unat (freeblock s)..<unat (freeblock t)}"
    unfolding file_used_def di using f(2) st(5) by (simp add: file_used_def)
  have oki: "file_ok u i"
  proof -
    have "file_used s i \<subseteq> {nmeta..<unat (freeblock s)}" using iv(3) [OF inv(2)] by (simp add: file_ok_def)
    then have "file_used u i \<subseteq> {nmeta..<unat (freeblock u)}"
      using ui ap iv(5) unfolding fu meta_facts by fastforce
    then show ?thesis using f(1) ap st(2) by (simp add: file_ok_def di)
  qed
  have bi: "file_bytes (img u) v = file_bytes (img s) (dino s (of_nat i)) @ bs"
  proof (intro nth_equalityI)
    show "length (file_bytes (img u) v) = length (file_bytes (img s) (dino s (of_nat i)) @ bs)" using st(2) by simp
    fix k assume "k < length (file_bytes (img u) v)"
    then have k: "k < unat (dsize (dino s (of_nat i))) + length bs" using st(2) by simp
    then have "fbyte (img u) (din v) k = fbyte (img t) (din w) k" using f(4) ap by blast
    then show "file_bytes (img u) v ! k = (file_bytes (img s) (dino s (of_nat i)) @ bs) ! k"
      using k ap st(2) by (simp add: file_bytes_def nth_append)
  qed
  have oth: "file_ok u j \<and> file_used u j = file_used s j \<and>
      file_bytes (img u) (dino u (of_nat j)) = file_bytes (img s) (dino s (of_nat j))" if ne: "j \<noteq> i"
  proof -
    have "img u x = img s x" if "x \<in> file_used s j" for x
    proof (rule st(3))
      have x: "x \<in> {nmeta..<unat (freeblock s)}" "x \<notin> file_used s i"
        using that iv(3) [OF j] iv(4) [OF j inv(2) ne] by (auto simp: file_ok_def)
      then show "x \<notin> used_blocks (img t) (din w)" using st(5) by fastforce
      show "x \<notin> {32..<58}" using x(1) by (simp add: meta_facts)
    qed
    moreover have "dino u (of_nat j) = dino s (of_nat j)" using st(1) [OF s(1)] ne by simp
    moreover have "unat (freeblock s) \<le> unat (freeblock u)" using ap fu by simp
    ultimately show ?thesis using other_file [OF iv(3) [OF j]] by blast
  qed
  show "file_ok u j" using oth oki by blast
  show "j \<noteq> i \<Longrightarrow> file_used u j = file_used s j" using oth by blast
  show "file_bytes (img u) (dino u (of_nat j)) =
      (if j = i then file_bytes (img s) (dino s (of_nat i)) @ bs else file_bytes (img s) (dino s (of_nat j)))"
    using oth bi di by auto
qed

lemma iappend_run:
  assumes inv: "image_ok s" "i \<in> {1..<unat (freeinode s)}"
    and c: "c = contents s ! (i - 1)" "length c + length bs \<le> MAXFILE * BSIZE"
    and room: "blocks_needed ((contents s)[i - 1 := c @ bs]) \<le> FSSIZE - nmeta"
  shows "\<exists>t. iappend (of_nat i) bs s = Done () t \<and> image_ok t \<and> contents t = (contents s)[i - 1 := c @ bs] \<and> kept s t"
proof -
  let ?n = "of_nat i :: u32" and ?v = "dino s (of_nat i)"
  note iv = image_okD [OF inv(1)]
  have i: "unat ?n < 208" "i - 1 < length (contents s)" "Suc (i - 1) = i" using inv(2) iv(2) unat_ino [of i] by auto
  have cl: "c = file_bytes (img s) ?v" "length c = unat (dsize ?v)" using nth_contents [of "i - 1" s] i by (simp_all add: c(1))
  have nu: "blocks_needed ((contents s)[i - 1 := c @ bs]) + blocks_for (length c) = blocks_needed (contents s) + blocks_for (length c + length bs)"
    using blocks_needed_update [OF i(2), of "c @ bs"] c(1) by simp
  have fo: "file_at (img s) (din ?v) (unat (dsize ?v))" "used_blocks (img s) (din ?v) \<subseteq> {..<unat (freeblock s)}"
    using iv(3) [OF inv(2)] by (auto simp: file_ok_def file_used_def)
  have "unat (freeblock s) + blocks_for (unat (dsize ?v) + length bs) \<le> FSSIZE + blocks_for (unat (dsize ?v))"
    using nu room iv(5) cl(2) by (simp add: meta_facts)
  then obtain w t where t: "iappend_loop ?v (unat (dsize ?v)) bs s = Done (w, unat (dsize ?v) + length bs) t"
    "appended s ?v (unat (dsize ?v)) bs t w"
    using iappend_loop_run [OF iv(1) fo, of bs] c(2) cl(2) by auto
  note ap = t(2) [unfolded appended_def appends_def]
  define v where "v = w\<lparr>dsize := of_nat (unat (dsize ?v) + length bs)\<rparr>"
  define u where "u = t\<lparr>img := (img t)(ino_block ?n := put_dinode (dslot ?n) v (img t (ino_block ?n)))\<rparr>"
  have len: "unat (dsize ?v) + length bs \<le> MAXFILE * BSIZE" using c(2) cl(2) by simp
  note af = appended_files [OF inv _ t(2) u_def v_def len] and st = stored_append [OF inv t(2) u_def v_def len]
  have run: "iappend ?n bs s = Done () u"
    using t(1) winode_run [OF _ i(1), of t v] ap by (simp add: iappend_def rinode_run [OF iv(1) i(1)] u_def v_def)
  have fr: "freeinode u = freeinode s" "freeblock u = freeblock t" using ap by (simp_all add: u_def mk_frame_def)
  have ct: "contents u = (contents s)[i - 1 := c @ bs]"
  proof (rule nth_equalityI)
    fix k assume k: "k < length (contents u)"
    then have "Suc k \<in> {1..<unat (freeinode s)}" using fr(1) by simp
    from af(4) [OF this] show "contents u ! k = (contents s)[i - 1 := c @ bs] ! k"
      using k fr(1) i(3) inv(2) by (auto simp: nth_contents nth_list_update cl(1))
  qed (simp add: fr(1))
  have "unat (freeblock u) = 59 + blocks_needed (contents u)"
    using ap nu iv(5) cl(2) ct by (simp add: fr(2))
  moreover have "mk_ok u" using mk_ok_write [of t "ino_block ?n"] ap ino_block_meta(2) [OF i(1)] mk_okD(4) [of t]
    by (simp add: u_def)
  moreover have "file_used u j \<inter> file_used u k = {}"
    if h: "j \<in> {1..<unat (freeinode s)}" "k \<in> {1..<unat (freeinode s)}" "j \<noteq> k" for j k
  proof -
    have d: "file_used s j \<inter> file_used s k = {}" by (rule iv(4) [OF h])
    have b: "file_used s l \<subseteq> {..<unat (freeblock s)}" if "l \<in> {1..<unat (freeinode s)}" for l
      using iv(3) [OF that] by (auto simp: file_ok_def)
    show ?thesis
      using d b [OF h(1)] b [OF h(2)] af(2) [OF h(1)] af(2) [OF h(2)] af(3) [OF inv(2)] h(3)
      by (cases "j = i"; cases "k = i") fastforce+
  qed
  ultimately have "image_ok u"
    using af(1) iv fr(1) by (auto simp: image_ok_def NINODES_def meta_facts)
  moreover have "kept s u"
  proof -
    have "same_meta ?v w" "mk_frame s t" using ap by blast+
    moreover have "img u x = img s x" if x: "x < 32" for x
    proof (rule st(3))
      have "file_used s i \<subseteq> {59..}" using iv(3) [OF inv(2)] by (auto simp: file_ok_def meta_facts)
      then show "x \<notin> used_blocks (img t) (din w)" using st(5) x iv(5) by fastforce
      show "x \<notin> {32..<58}" using x by simp
    qed
    ultimately show ?thesis using iv(2) st(1) by (auto simp: kept_def mk_frame_def same_meta_def u_def v_def)
  qed
  ultimately show ?thesis using run ct by blast
qed

lemma file_at_blank: "file_at D (din (blank_dinode\<lparr>dtype := ty, dnlink := k\<rparr>)) 0" "used_blocks D (din (blank_dinode\<lparr>dtype := ty, dnlink := k\<rparr>)) = {}"
proof -
  have s: "slot D (din (blank_dinode\<lparr>dtype := ty, dnlink := k\<rparr>)) j = 0" for j
    by (simp add: slot_def mapped_def blank_dinode_def)
  show "file_at D (din (blank_dinode\<lparr>dtype := ty, dnlink := k\<rparr>)) 0" "used_blocks D (din (blank_dinode\<lparr>dtype := ty, dnlink := k\<rparr>)) = {}"
    by (simp_all add: file_at_def slots_ok_def s used_blocks_def)
qed

lemma blocks_for_0 [simp]: "blocks_for 0 = 0"
  by (simp add: blocks_for_def BSIZE_def)

lemma ialloc_run:
  assumes "image_ok s" "unat (freeinode s) < NINODES"
  shows "\<exists>t. mk_ialloc ty s = Done (freeinode s) t \<and> image_ok t \<and> contents t = contents s @ [[]] \<and> kept s t \<and>
    unat (freeinode t) = unat (freeinode s) + 1 \<and> dtype (dino t (freeinode s)) = ty \<and> dnlink (dino t (freeinode s)) = 1"
proof -
  let ?n = "freeinode s"
  note iv = image_okD [OF assms(1)]
  have n: "unat ?n < 208" "of_nat (unat ?n) = ?n" using assms(2) by (simp_all add: NINODES_def)
  have n1: "unat (?n + 1) = unat ?n + 1" using n(1) by (subst unat_add_lem [THEN iffD1]) simp_all
  define v where "v = blank_dinode\<lparr>dtype := ty, dnlink := 1\<rparr>"
  define t where "t = s\<lparr>freeinode := ?n + 1, img := (img s)(ino_block ?n := put_dinode (dslot ?n) v (img s (ino_block ?n)))\<rparr>"
  have ok1: "mk_ok (s\<lparr>freeinode := ?n + 1\<rparr>)" using iv(1) by (simp add: mk_ok_def)
  have "v = blank_dinode\<lparr>dtype := ty, dnlink := 1, dsize := 0\<rparr>" by (simp add: v_def blank_dinode_def)
  then have run: "mk_ialloc ty s = Done ?n t"
    using winode_run [OF ok1 n(1), of v] by (simp add: mk_ialloc_def t_def)
  have tv: "tidy v" by (simp add: v_def tidy_def blank_dinode_def)
  have dt: "dino t m = (if m = ?n then v else dino s m)" if "unat m < 208" for m
    using dino_write [OF tv n(1) that, of "img s"] by (simp add: dino_def t_def)
  have fb: "freeblock t = freeblock s" and fi: "unat (freeinode t) = unat ?n + 1" by (simp_all add: t_def n1)
  have b: "ino_block ?n \<in> {32..<58}" using ino_block_meta [OF n(1)] by simp
  have old: "file_ok t j \<and> file_used t j = file_used s j \<and>
      file_bytes (img t) (dino t (of_nat j)) = file_bytes (img s) (dino s (of_nat j))" if j: "j \<in> {1..<unat ?n}" for j
  proof -
    have x: "img t x = img s x" if "x \<in> file_used s j" for x
      using that iv(3) [OF j] b by (auto simp: t_def file_ok_def meta_facts)
    have u: "unat (of_nat j :: u32) = j" using j n(1) by (intro unat_ino) simp
    then have "(of_nat j :: u32) \<noteq> ?n" using j by auto
    then have d: "dino t (of_nat j) = dino s (of_nat j)" using dt [of "of_nat j"] j n(1) u by simp
    have f: "unat (freeblock s) \<le> unat (freeblock t)" by (simp add: fb)
    show ?thesis using other_file [OF iv(3) [OF j] x d f] by blast
  qed
  have new: "dino t (of_nat (unat ?n)) = v" using dt [OF n(1)] n(2) by simp
  have fnew: "file_ok t (unat ?n)" "file_used t (unat ?n) = {}"
    unfolding file_ok_def file_used_def new using file_at_blank [where D = "img t" and ty = ty and k = 1] by (simp_all add: v_def blank_dinode_def)
  have ct: "contents t = contents s @ [[]]"
  proof (rule nth_equalityI)
    show "length (contents t) = length (contents s @ [[]])" using iv(6) fi by simp
    fix k assume "k < length (contents t)"
    then have k: "k < unat ?n" using fi by simp
    then show "contents t ! k = (contents s @ [[]]) ! k"
    proof (cases "k < unat ?n - 1")
      case True
      then have "contents t ! k = file_bytes (img s) (dino s (of_nat (Suc k)))"
        using old [of "Suc k"] nth_contents [of k t] fi by simp
      then show ?thesis using True nth_contents [of k s] by (simp add: nth_append)
    next
      case False
      then have e: "Suc k = unat ?n" using k by simp
      have "contents t ! k = file_bytes (img t) v" using nth_contents [of k t] fi k new unfolding e by simp
      then show ?thesis using False k by (simp add: nth_append file_bytes_def v_def blank_dinode_def)
    qed
  qed
  have "mk_ok t" using mk_ok_write [OF ok1, of "ino_block ?n"] b mk_okD(4) [OF iv(1)] by (simp add: t_def)
  moreover have "file_ok t j" if "j \<in> {1..<unat ?n + 1}" for j
    using that old [of j] fnew by (cases "j = unat ?n") auto
  moreover have "file_used t i \<inter> file_used t j = {}" if "i \<in> {1..<unat ?n + 1}" "j \<in> {1..<unat ?n + 1}" "i \<noteq> j" for i j
    using that old [of i] old [of j] fnew(2) iv(4) [of i j] by (cases "i = unat ?n"; cases "j = unat ?n") auto
  ultimately have "image_ok t" using iv(5) assms(2) fi fb ct by (simp add: image_ok_def meta_facts)
  moreover have "kept s t"
  proof -
    have "dino t (of_nat j) = dino s (of_nat j)" if j: "j \<in> {1..<unat ?n}" for j
    proof -
      have u: "unat (of_nat j :: u32) = j" using j n(1) by (intro unat_ino) simp
      then have "(of_nat j :: u32) \<noteq> ?n" using j by auto
      then show ?thesis using dt [of "of_nat j"] j n(1) u by simp
    qed
    then show ?thesis using b fi by (auto simp: kept_def t_def)
  qed
  ultimately show ?thesis using run ct fi dt [OF n(1)] by (simp add: v_def)
qed

lemma blocks_for_le: "length xs \<le> length ys \<Longrightarrow> blocks_for (length xs) \<le> blocks_for (length ys)"
  by (rule blocks_for_mono)

lemma inode_of_contents: "image_ok s \<Longrightarrow> unat (freeinode s) = length (contents s) + 1"
  using image_okD(6) by fastforce

lemma same_count:
  assumes "image_ok s" "image_ok t" "length (contents t) = length (contents s)"
  shows "unat (freeinode t) = unat (freeinode s)"
  using inode_of_contents [OF assms(1)] inode_of_contents [OF assms(2)] assms(3) by (simp del: length_contents)

lemma copy_host_run:
  assumes "image_ok s" "i \<in> {1..<unat (freeinode s)}" "c = contents s ! (i - 1)"
    and "length c + length bs \<le> MAXFILE * BSIZE" "blocks_needed ((contents s)[i - 1 := c @ bs]) \<le> FSSIZE - nmeta"
  shows "\<exists>t. copy_host (of_nat i) bs s = Done () t \<and> image_ok t \<and> contents t = (contents s)[i - 1 := c @ bs] \<and> kept s t"
  using assms
proof (induction "length bs" arbitrary: s c bs rule: less_induct)
  case less
  have il: "i - 1 < length (contents s)" using less.prems(2) by auto
  show ?case
  proof (cases "bs = []")
    case True
    then show ?thesis using less.prems by (simp add: copy_host.simps)
  next
    case False
    let ?a = "take BSIZE bs" and ?b = "drop BSIZE bs"
    have "blocks_needed ((contents s)[i - 1 := c @ ?a]) \<le> blocks_needed ((contents s)[i - 1 := c @ bs])"
      using blocks_needed_update [OF il, of "c @ ?a"] blocks_needed_update [OF il, of "c @ bs"] blocks_for_mono [of "length (c @ ?a)" "length (c @ bs)"]
      by simp
    then obtain t where t: "iappend (of_nat i) ?a s = Done () t" "image_ok t" "contents t = (contents s)[i - 1 := c @ ?a]" "kept s t"
      using iappend_run [OF less.prems(1-3), of ?a] less.prems(4,5) by fastforce
    have i: "i \<in> {1..<unat (freeinode t)}" "c @ ?a = contents t ! (i - 1)" "length ?b < length bs"
      using same_count [OF less.prems(1) t(2)] less.prems(2) il t(3) False by (auto simp: BSIZE_def)
    have "\<exists>u. copy_host (of_nat i) ?b t = Done () u \<and> image_ok u \<and>
        contents u = (contents t)[i - 1 := (c @ ?a) @ ?b] \<and> kept t u"
      by (rule less.hyps [OF i(3) t(2) i(1,2)]) (use less.prems(4,5) t(3) in \<open>simp_all\<close>)
    then show ?thesis
      using t kept_trans [OF t(4)] False by (subst copy_host.simps) auto
  qed
qed

lemma ucast_ino [simp]: "ucast (of_nat k :: u32) = (of_nat k :: u16)"
  by (rule bit_word_eqI) (auto simp: bit_simps)

lemma length_mk_dirent [simp]: "length (mk_dirent nm n) = 16"
  by (simp add: mk_dirent_def DIRSIZ_def)

lemma keptD:
  assumes "kept s t" "j \<in> {1..<unat (freeinode s)}"
  shows "dtype (dino t (of_nat j)) = dtype (dino s (of_nat j))" "dnlink (dino t (of_nat j)) = dnlink (dino s (of_nat j))"
  using assms by (auto simp: kept_def)

lemma add_file_run:
  assumes inv: "image_ok s" "contents s = r # fs" and len: "length r + 16 \<le> MAXFILE * BSIZE" "length c \<le> MAXFILE * BSIZE"
    and nm: "SLASH \<notin> set nm" "host nm = Some c" and ino: "length fs + 2 < NINODES"
    and room: "blocks_needed ((r @ mk_dirent (strip nm) (of_nat (length fs + 2))) # fs @ [c]) \<le> FSSIZE - nmeta"
  shows "\<exists>t. add_file host ROOTINO nm s = Done () t \<and> image_ok t \<and>
    contents t = (r @ mk_dirent (strip nm) (of_nat (length fs + 2))) # fs @ [c] \<and> kept s t \<and>
    dtype (dino t (of_nat (length fs + 2))) = T_FILE \<and> dnlink (dino t (of_nat (length fs + 2))) = 1"
proof -
  let ?k = "length fs + 2" and ?d = "mk_dirent (strip nm) (of_nat (length fs + 2))"
  have fi: "unat (freeinode s) = ?k" using inode_of_contents [OF inv(1)] inv(2) by (simp del: length_contents)
  then have fo: "freeinode s = of_nat ?k" unfolding fi [symmetric] by simp
  obtain t where t: "mk_ialloc T_FILE s = Done (of_nat ?k) t" "image_ok t" "contents t = r # fs @ [[]]" "kept s t"
    "unat (freeinode t) = ?k + 1" "dtype (dino t (of_nat ?k)) = T_FILE" "dnlink (dino t (of_nat ?k)) = 1"
    using ialloc_run [OF inv(1), of T_FILE] ino fi inv(2) by (auto simp: fo)
  have n: "blocks_needed ((r @ ?d) # fs @ [[]]) \<le> blocks_needed ((r @ ?d) # fs @ [c])" by (simp add: blocks_needed_def)
  obtain u where u: "iappend ROOTINO ?d t = Done () u" "image_ok u" "contents u = (r @ ?d) # fs @ [[]]" "kept t u"
    using iappend_run [OF t(2), of 1 r ?d] t(3,5) len(1) room n by (auto simp: ROOTINO_def)
  have ui: "unat (freeinode u) = ?k + 1" using inode_of_contents [OF u(2)] u(3) by (simp del: length_contents)
  obtain w where w: "copy_host (of_nat ?k) c u = Done () w" "image_ok w" "contents w = (r @ ?d) # fs @ [c]" "kept u w"
    using copy_host_run [OF u(2), of ?k "[]" c] ui u(3) len(2) room by (auto simp: nth_append)
  have "kept t w" using kept_trans [OF u(4) w(4)] .
  then have "dtype (dino w (of_nat ?k)) = T_FILE" "dnlink (dino w (of_nat ?k)) = 1"
    using t(5-7) keptD [of t w ?k] by simp_all
  moreover have "add_file host ROOTINO nm s = Done () w"
    using nm t(1) u(1) w(1) ucast_ino [of ?k] by (simp add: add_file_def)
  ultimately show ?thesis using w(2,3) kept_trans [OF t(4) \<open>kept t w\<close>] by blast
qed

subsection \<open>The whole image\<close>

text \<open>The image file has just been created or cut to length 0.\<close>

definition mk_start :: "nat \<Rightarrow> mkfs" where
  "mk_start hp = \<lparr>stdout = [], heap = hp, img = (\<lambda>_ _. 0), img_len = 0, img_bad = {},
     mksb = \<lparr>sb_size = 0, sb_nblocks = 0, sb_ninodes = 0, sb_nlog = 0, sb_logstart = 0, sb_inodestart = 0, sb_bmapstart = 0\<rparr>,
     freeinode = 1, freeblock = 0\<rparr>"

lemma zero_sectors:
  assumes "img_bad s = {}" "img s = (\<lambda>_ _. 0)" "img_len s = 0" "n \<le> FSSIZE"
  shows "ufor [0..<n] (\<lambda>i. wsect (of_nat i) (\<lambda>_. 0)) s = Done () (s\<lparr>img_len := n\<rparr>)"
proof -
  let ?f = "\<lambda>i s. s\<lparr>img := (img s)(i := (\<lambda>_. 0)), img_len := max (img_len s) (i + 1)\<rparr>"
  have "ufor [0..<n] (\<lambda>i. wsect (of_nat i) (\<lambda>_. 0)) s = Done () (fold ?f [0..<n] s)"
  proof (rule ufor_fold [where I = "\<lambda>s. img_bad s = {}"])
    fix i and s :: mkfs assume i: "i \<in> set [0..<n]" and "img_bad s = {}"
    have u: "unat (of_nat i :: u32) = i" using i assms(4) by (intro unat_of_nat_small) (simp add: FSSIZE_def)
    then have "sect_of (of_nat i) = i" using sect_small [of "of_nat i"] i assms(4) by simp
    then show "wsect (of_nat i) (\<lambda>_. 0) s = Done () (?f i s) \<and> img_bad (?f i s) = {}"
      using \<open>img_bad s = {}\<close> by (simp add: wsect_def)
  qed (rule assms(1))
  moreover have "fold ?f [0..<n] s = s\<lparr>img_len := n\<rparr>"
  proof (induction n)
    case 0
    then show ?case using assms(3) by simp
  next
    case (Suc n)
    have z: "(\<lambda>_ _. 0)(n := (\<lambda>_. 0)) = (\<lambda>(_ :: nat) (_ :: nat). (0 :: u8))" by (simp add: fun_eq_iff)
    have "fold ?f [0..<Suc n] s = ?f n (s\<lparr>img_len := n\<rparr>)" using Suc by (simp del: fun_upd_apply)
    also have "\<dots> = s\<lparr>img_len := Suc n\<rparr>" using z assms(2) by (simp del: fun_upd_apply)
    finally show ?case .
  qed
  ultimately show ?thesis by simp
qed

lemma format_run:
  "\<exists>t. mk_format (mk_start hp) = Done () t \<and> image_ok t \<and> contents t = [] \<and> freeinode t = 1 \<and>
     img t 1 = put_superblock mk_sb"
proof -
  define z where "z = (mk_start hp)\<lparr>mksb := mk_sb, stdout := ''nmeta '' @ dec nmeta @ '' (boot, super, log blocks '' @ dec LOGSIZE @
       '' inode blocks '' @ dec ninodeblocks @ '', bitmap blocks '' @ dec nbitmap @ '') blocks '' @ dec (FSSIZE - nmeta) @
       '' total '' @ dec FSSIZE @ newline, freeblock := of_nat nmeta\<rparr>"
  define t where "t = z\<lparr>img_len := FSSIZE, img := (img z)(1 := put_superblock mk_sb)\<rparr>"
  have z: "img_bad z = {}" "img z = (\<lambda>_ _. 0)" "img_len z = 0" "freeinode z = 1" "mksb z = mk_sb" "freeblock z = 59"
    by (simp_all add: z_def mk_start_def meta_facts)
  have "mk_format (mk_start hp) = Done () t"
    using zero_sectors [OF z(1-3) order_refl] wsect_run [of "z\<lparr>img_len := FSSIZE\<rparr>" 1 "put_superblock mk_sb"] z
    by (simp add: mk_format_def z_def [symmetric] t_def mk_start_def wsect_def sect_small FSSIZE_def z_def)
  moreover have "image_ok t" "contents t = []"
    using z by (simp_all add: image_ok_def mk_ok_def t_def meta_facts contents_def blocks_needed_def NINODES_def)
  ultimately show ?thesis using z by (simp add: t_def)
qed

lemma root_run:
  assumes "image_ok s" "contents s = []" "freeinode s = 1"
  shows "\<exists>t. mk_root s = Done ROOTINO t \<and> image_ok t \<and> contents t = [mk_dirent [DOT] 1 @ mk_dirent [DOT, DOT] 1] \<and> kept s t \<and>
    dtype (dino t ROOTINO) = T_DIR \<and> dnlink (dino t ROOTINO) = 1"
proof -
  obtain t where t: "mk_ialloc T_DIR s = Done 1 t" "image_ok t" "contents t = [[]]" "kept s t" "unat (freeinode t) = 2"
    "dtype (dino t 1) = T_DIR" "dnlink (dino t 1) = 1"
    using ialloc_run [OF assms(1), of T_DIR] assms(2,3) by (auto simp: NINODES_def)
  let ?d = "mk_dirent [DOT] 1" and ?e = "mk_dirent [DOT, DOT] 1"
  have n: "blocks_needed [?d] \<le> FSSIZE - nmeta" "blocks_needed [?d @ ?e] \<le> FSSIZE - nmeta"
    by (simp_all add: blocks_needed_def blocks_for_def BSIZE_def NDIRECT_def meta_facts)
  have m: "32 \<le> MAXFILE * BSIZE" by (simp add: MAXFILE_def BSIZE_def NDIRECT_def)
  obtain u where u: "iappend 1 ?d t = Done () u" "image_ok u" "contents u = [?d]" "kept t u"
    using iappend_run [OF t(2), of 1 "[]" ?d] t(3,5) n(1) m by auto
  have "unat (freeinode u) = 2" using same_count [OF t(2) u(2)] t(3,5) u(3) by (simp del: length_contents)
  then obtain w where w: "iappend 1 ?e u = Done () w" "image_ok w" "contents w = [?d @ ?e]" "kept u w"
    using iappend_run [OF u(2), of 1 ?d ?e] u(3) n(2) m by auto
  have k: "kept t w" using kept_trans [OF u(4) w(4)] .
  have "dtype (dino w 1) = T_DIR" "dnlink (dino w 1) = 1" using keptD [OF k, of 1] t(5-7) by simp_all
  then show ?thesis using t(1) u(1) w(1-3) kept_trans [OF t(4) k] by (simp add: mk_root_def ROOTINO_def)
qed

text \<open>The directory entries for the files from inode \<open>k\<close> on.\<close>

fun dirents :: "nat \<Rightarrow> u8 list list \<Rightarrow> u8 list" where
  "dirents k [] = []"
| "dirents k (nm # nms) = mk_dirent (strip nm) (of_nat k) @ dirents (k + 1) nms"

lemma length_dirents [simp]: "length (dirents k nms) = 16 * length nms"
  by (induction k nms rule: dirents.induct) simp_all

lemma blocks_needed_mono: "length r \<le> length r' \<Longrightarrow> blocks_needed (r # cs) \<le> blocks_needed (r' # cs @ ds)"
  using blocks_for_le [of r r'] by (simp add: blocks_needed_def)

definition files_fit :: "(u8 list \<Rightarrow> u8 list option) \<Rightarrow> u8 list list \<Rightarrow> bool" where
  "files_fit host nms \<longleftrightarrow> (\<forall>nm\<in>set nms. SLASH \<notin> set nm \<and> (\<exists>c. host nm = Some c \<and> length c \<le> MAXFILE * BSIZE))"

lemma add_files_run:
  assumes "image_ok s" "contents s = r # fs" "files_fit host nms" "length fs + length nms + 2 \<le> NINODES"
    and "length r + 16 * length nms \<le> MAXFILE * BSIZE"
    and "blocks_needed ((r @ dirents (length fs + 2) nms) # fs @ map (the \<circ> host) nms) \<le> FSSIZE - nmeta"
  shows "\<exists>t. ufor nms (add_file host ROOTINO) s = Done () t \<and> image_ok t \<and> kept s t \<and>
    contents t = (r @ dirents (length fs + 2) nms) # fs @ map (the \<circ> host) nms \<and>
    (\<forall>i<length nms. dtype (dino t (of_nat (length fs + 2 + i))) = T_FILE \<and> dnlink (dino t (of_nat (length fs + 2 + i))) = 1)"
  using assms
proof (induction nms arbitrary: s r fs)
  case Nil
  then show ?case by simp
next
  case (Cons nm nms)
  obtain c where c: "host nm = Some c" "length c \<le> MAXFILE * BSIZE" "SLASH \<notin> set nm"
    using Cons.prems(3) by (auto simp: files_fit_def)
  let ?k = "length fs + 2" and ?d = "mk_dirent (strip nm) (of_nat (length fs + 2))"
  have e: "r @ dirents ?k (nm # nms) = (r @ ?d) @ dirents (length (fs @ [c]) + 2) nms"
    "fs @ map (the \<circ> host) (nm # nms) = (fs @ [c]) @ map (the \<circ> host) nms" using c(1) by simp_all
  note room = Cons.prems(6) [unfolded e]
  have l: "length r + 16 \<le> MAXFILE * BSIZE" "length fs + 2 < NINODES" using Cons.prems(4,5) by simp_all
  have "blocks_needed ((r @ ?d) # fs @ [c]) \<le> blocks_needed (((r @ ?d) @ dirents (length (fs @ [c]) + 2) nms) # (fs @ [c]) @ map (the \<circ> host) nms)"
    by (rule blocks_needed_mono) simp
  then have n: "blocks_needed ((r @ ?d) # fs @ [c]) \<le> FSSIZE - nmeta" using room by (rule order_trans)
  obtain t where t: "add_file host ROOTINO nm s = Done () t" "image_ok t" "contents t = (r @ ?d) # fs @ [c]" "kept s t"
    "dtype (dino t (of_nat ?k)) = T_FILE" "dnlink (dino t (of_nat ?k)) = 1"
    using add_file_run [where host = host and nm = nm, OF Cons.prems(1,2) l(1) c(2,3,1) l(2) n] by blast
  have ff: "files_fit host nms" using Cons.prems(3) by (simp add: files_fit_def)
  have lt: "length (fs @ [c]) + length nms + 2 \<le> NINODES" "length (r @ ?d) + 16 * length nms \<le> MAXFILE * BSIZE"
    using Cons.prems(4,5) by simp_all
  obtain u where u: "ufor nms (add_file host ROOTINO) t = Done () u" "image_ok u" "kept t u"
    "contents u = ((r @ ?d) @ dirents (length (fs @ [c]) + 2) nms) # (fs @ [c]) @ map (the \<circ> host) nms"
    "\<And>i. i < length nms \<Longrightarrow> dtype (dino u (of_nat (length (fs @ [c]) + 2 + i))) = T_FILE \<and>
       dnlink (dino u (of_nat (length (fs @ [c]) + 2 + i))) = 1"
    using Cons.IH [OF t(2,3) ff lt room] by blast
  have fi: "unat (freeinode t) = ?k + 1" using inode_of_contents [OF t(2)] t(3) by (simp del: length_contents)
  have "dtype (dino u (of_nat (?k + i))) = T_FILE \<and> dnlink (dino u (of_nat (?k + i))) = 1" if "i < length (nm # nms)" for i
  proof (cases i)
    case 0
    then show ?thesis using keptD [OF u(3), of ?k] t(5,6) fi by simp
  next
    case (Suc m)
    then have "length (fs @ [c]) + 2 + m = ?k + i" by simp
    then show ?thesis using u(5) [of m] that Suc by (metis length_Cons Suc_less_eq)
  qed
  then show ?case unfolding e using t(1) u(1,2,4) kept_trans [OF t(4) u(3)] by (intro exI [of _ u]) simp
qed

lemma balloc_bits:
  "fold mark_bit [0..<n] d0 (b div 8) AND bit_of b = 0 \<longleftrightarrow> d0 (b div 8) AND bit_of b = 0 \<and> n \<le> b"
proof (induction n)
  case (Suc n)
  have "fold mark_bit [0..<Suc n] d0 = mark_bit n (fold mark_bit [0..<n] d0)" by simp
  then show ?case using Suc mark_bit_free(1) [of n "fold mark_bit [0..<n] d0" b] by auto
qed simp

lemma mark_bit_alt: "(\<lambda>i d. d(i div 8 := d (i div 8) OR push_bit (i mod 8) 1)) = mark_bit"
  by (simp add: mark_bit_def bit_of_def fun_eq_iff)

definition rounded :: "nat \<Rightarrow> nat" where
  "rounded n = (n div BSIZE + 1) * BSIZE"

lemma rounded_word: "unat (w :: u32) \<le> MAXFILE * BSIZE \<Longrightarrow> unat ((w div of_nat BSIZE + 1) * of_nat BSIZE) = rounded (unat w)"
proof -
  assume w: "unat w \<le> MAXFILE * BSIZE"
  have b: "unat (w div 512) = unat w div 512" by (simp add: unat_div)
  have s: "unat w div 512 \<le> 140" using w div_le_mono [of "unat w" 71680 512] by (simp add: MAXFILE_def NDIRECT_def NINDIRECT_def BSIZE_def)
  have a: "unat (w div 512 + 1) = unat w div 512 + 1"
    using s by (subst unat_add_lem [THEN iffD1]) (simp_all add: b)
  have "unat ((w div 512 + 1) * 512) = (unat w div 512 + 1) * 512"
    using s by (subst unat_mult_lem [THEN iffD1]) (simp_all add: a)
  then show ?thesis by (simp add: rounded_def BSIZE_def)
qed

definition root_bytes :: "u8 list list \<Rightarrow> u8 list" where
  "root_bytes nms = mk_dirent [DOT] 1 @ mk_dirent [DOT, DOT] 1 @ dirents 2 nms"

definition mkfs_files :: "(u8 list \<Rightarrow> u8 list option) \<Rightarrow> u8 list list \<Rightarrow> u8 list list" where
  "mkfs_files host nms = root_bytes nms # map (the \<circ> host) nms"

definition mkfs_ready :: "(u8 list \<Rightarrow> u8 list option) \<Rightarrow> u8 list list \<Rightarrow> bool" where
  "mkfs_ready host nms \<longleftrightarrow> files_fit host nms \<and> length nms + 2 \<le> NINODES \<and>
     blocks_needed (mkfs_files host nms) \<le> FSSIZE - nmeta"

lemma length_root_bytes [simp]: "length (root_bytes nms) = 16 * (length nms + 2)"
  by (simp add: root_bytes_def)

text \<open>The state before the size of the root directory is rounded.\<close>

lemma built_run:
  assumes "mkfs_ready host nms"
  shows "\<exists>s u. mk_format (mk_start hp) = Done () s \<and>
    (\<exists>t. mk_root s = Done ROOTINO t \<and> ufor nms (add_file host ROOTINO) t = Done () u) \<and>
    image_ok u \<and> contents u = mkfs_files host nms \<and> img u 1 = put_superblock mk_sb \<and>
    dtype (dino u ROOTINO) = T_DIR \<and> dnlink (dino u ROOTINO) = 1 \<and>
    (\<forall>i<length nms. dtype (dino u (of_nat (i + 2))) = T_FILE \<and> dnlink (dino u (of_nat (i + 2))) = 1)"
proof -
  obtain s where s: "mk_format (mk_start hp) = Done () s" "image_ok s" "contents s = []" "freeinode s = 1" "img s 1 = put_superblock mk_sb"
    using format_run by blast
  let ?r = "mk_dirent [DOT] 1 @ mk_dirent [DOT, DOT] 1"
  obtain t where t: "mk_root s = Done ROOTINO t" "image_ok t" "contents t = [?r]" "kept s t"
    "dtype (dino t ROOTINO) = T_DIR" "dnlink (dino t ROOTINO) = 1"
    using root_run [OF s(2-4)] by blast
  have e: "mkfs_files host nms = (?r @ dirents (length ([] :: u8 list list) + 2) nms) # [] @ map (the \<circ> host) nms"
    by (simp add: mkfs_files_def root_bytes_def numeral_2_eq_2)
  have h: "files_fit host nms" "length ([] :: u8 list list) + length nms + 2 \<le> NINODES"
    "length ?r + 16 * length nms \<le> MAXFILE * BSIZE"
    "blocks_needed ((?r @ dirents (length ([] :: u8 list list) + 2) nms) # [] @ map (the \<circ> host) nms) \<le> FSSIZE - nmeta"
    using assms unfolding mkfs_ready_def e
    by (simp_all add: NINODES_def MAXFILE_def NDIRECT_def NINDIRECT_def BSIZE_def)
  obtain u where u: "ufor nms (add_file host ROOTINO) t = Done () u" "image_ok u" "kept t u" "contents u = mkfs_files host nms"
    "\<And>i. i < length nms \<Longrightarrow> dtype (dino u (of_nat (length ([] :: u8 list list) + 2 + i))) = T_FILE \<and>
       dnlink (dino u (of_nat (length ([] :: u8 list list) + 2 + i))) = 1"
    using add_files_run [OF t(2,3) h] unfolding e by blast
  have "unat (freeinode t) = 2" using inode_of_contents [OF t(2)] t(3) by (simp del: length_contents)
  then have "dtype (dino u ROOTINO) = T_DIR" "dnlink (dino u ROOTINO) = 1"
    using keptD [OF u(3), of 1] t(5,6) by (simp_all add: ROOTINO_def)
  moreover have "img u 1 = img s 1" using t(4) u(3) by (simp add: kept_def)
  ultimately show ?thesis using s(1,5) t(1) u(1,2,4) u(5) [simplified] by (intro exI [of _ s] exI [of _ u]) (auto simp: add.commute)
qed

definition taken :: "(u8 list \<Rightarrow> u8 list option) \<Rightarrow> u8 list list \<Rightarrow> nat" where
  "taken host nms = nmeta + blocks_needed (mkfs_files host nms)"

text \<open>The end of main: the image gets the rounded size and the bit map.\<close>

definition finished :: "mkfs \<Rightarrow> dinode \<Rightarrow> nat \<Rightarrow> nat \<Rightarrow> block" where
  "finished u v n = (img u)(ino_block ROOTINO := put_dinode (dslot ROOTINO) v (img u (ino_block ROOTINO)),
     58 := fold mark_bit [0..<n] (\<lambda>_. 0))"

lemma finish_run:
  assumes u: "image_ok u" "contents u = mkfs_files host nms" and r: "mkfs_ready host nms"
    and v: "v = (dino u ROOTINO)\<lparr>dsize := (dsize (dino u ROOTINO) div of_nat BSIZE + 1) * of_nat BSIZE\<rparr>"
  shows "\<exists>t. uthn (fix_root ROOTINO) (uthn (ubnd (uget freeblock) (\<lambda>b. mk_balloc (unat b))) (uexit 0)) u = (Exit 0 t :: (unit, mkfs) uout) \<and>
    img t = finished u v (taken host nms)" "unat (dsize (dino u ROOTINO)) = length (root_bytes nms)"
    "unat (dsize v) = rounded (length (root_bytes nms))" "taken host nms = unat (freeblock u)" "taken host nms \<le> FSSIZE"
proof -
  note iv = image_okD [OF u(1)]
  have fi: "unat (freeinode u) = length nms + 2" using inode_of_contents [OF u(1)] u(2) by (simp add: mkfs_files_def del: length_contents)
  then have "file_bytes (img u) (dino u ROOTINO) = root_bytes nms"
    using nth_contents [of 0 u] u(2) by (simp add: mkfs_files_def ROOTINO_def)
  then show d: "unat (dsize (dino u ROOTINO)) = length (root_bytes nms)" by (metis length_file_bytes)
  show tk: "taken host nms = unat (freeblock u)" using iv(5) u(2) by (simp add: taken_def meta_facts)
  show tf: "taken host nms \<le> FSSIZE" using mk_okD(5) [OF iv(1)] tk by simp
  have "unat (dsize (dino u ROOTINO)) \<le> MAXFILE * BSIZE" using d r
    by (simp add: mkfs_ready_def NINODES_def MAXFILE_def NDIRECT_def NINDIRECT_def BSIZE_def)
  from rounded_word [OF this] show "unat (dsize v) = rounded (length (root_bytes nms))" using d by (simp add: v)
  have R: "unat ROOTINO < 208" by (simp add: ROOTINO_def)
  let ?w = "u\<lparr>img := (img u)(ino_block ROOTINO := put_dinode (dslot ROOTINO) v (img u (ino_block ROOTINO)))\<rparr>"
  have f: "fix_root ROOTINO u = Done () ?w"
    using winode_run [OF iv(1) R, of v] by (simp add: fix_root_def rinode_run [OF iv(1) R] Let_def v)
  have ib: "ino_block ROOTINO < unat (freeblock u)" using ino_block_meta(2) [OF R] iv(5) by simp
  have ow: "mk_ok ?w" by (rule mk_ok_write [OF iv(1) ib])
  have k: "mk_ok (?w\<lparr>stdout := st\<rparr>)" for st using ow by (simp add: mk_ok_def)
  have "\<exists>t. mk_balloc (unat (freeblock u)) ?w = Done () t \<and> img t = finished u v (taken host nms)"
    using wsect_run [OF k, of 58] tf tk mk_okD(3) [OF iv(1)]
    unfolding mk_balloc_def mark_bit_alt by (simp add: mk_sb_fields finished_def BSIZE_def FSSIZE_def)
  then show "\<exists>t. uthn (fix_root ROOTINO) (uthn (ubnd (uget freeblock) (\<lambda>b. mk_balloc (unat b))) (uexit 0)) u = (Exit 0 t :: (unit, mkfs) uout) \<and>
    img t = finished u v (taken host nms)" using f by auto
qed

lemma superblock_put: "superblock_at (put_superblock sp) = sp"
  by (simp add: superblock_at_def put_superblock_def get32_put32 get32_other)

lemma finished_facts:
  assumes "tidy v" "unat m < 208"
  shows "finished u v n 1 = img u 1" "59 \<le> x \<Longrightarrow> finished u v n x = img u x"
    "disk_inode (finished u v n) mk_sb m = (if m = ROOTINO then v else dino u m)"
    "bit_free (finished u v n) mk_sb b \<longleftrightarrow> n \<le> b"
proof -
  have R: "ino_block ROOTINO = 32" "unat ROOTINO < 208" using ino_block_meta(1) [of ROOTINO] by (simp_all add: ROOTINO_def)
  show "finished u v n 1 = img u 1" "59 \<le> x \<Longrightarrow> finished u v n x = img u x" using R(1) by (simp_all add: finished_def)
  have "disk_inode (finished u v n) mk_sb m =
      disk_inode ((img u)(ino_block ROOTINO := put_dinode (dslot ROOTINO) v (img u (ino_block ROOTINO)))) mk_sb m"
    using ino_block_meta(2) [OF assms(2)] by (simp add: finished_def disk_inode_def flip: ino_block_def)
  then show "disk_inode (finished u v n) mk_sb m = (if m = ROOTINO then v else dino u m)"
    using dino_write [OF assms(1) R(2) assms(2)] by (simp add: dino_def)
  have "BBLOCK mk_sb 0 = 58" by (simp add: BBLOCK_def mk_sb_fields)
  then show "bit_free (finished u v n) mk_sb b \<longleftrightarrow> n \<le> b"
    using balloc_bits [of n "\<lambda>_. 0" b] by (simp add: bit_free_def finished_def)
qed

lemma ino_count:
  assumes "image_ok u" "contents u = mkfs_files host nms"
  shows "unat (freeinode u) = length nms + 2" "length nms + 2 \<le> 200"
proof -
  show "unat (freeinode u) = length nms + 2"
    using inode_of_contents [OF assms(1)] assms(2) by (simp add: mkfs_files_def del: length_contents)
  then show "length nms + 2 \<le> 200" using image_okD(2) [OF assms(1)] by simp
qed

lemma finished_files:
  assumes u: "image_ok u" "contents u = mkfs_files host nms" and v: "tidy v" "daddrs v = daddrs (dino u ROOTINO)"
    and i: "i \<in> {1..<length nms + 2}"
  shows "file_at (finished u v n) (din (disk_inode (finished u v n) mk_sb (of_nat i))) (unat (dsize (dino u (of_nat i))))"
    "map (fbyte (finished u v n) (din (disk_inode (finished u v n) mk_sb (of_nat i)))) [0..<unat (dsize (dino u (of_nat i)))] =
       mkfs_files host nms ! (i - 1)"
    "used_blocks (finished u v n) (din (disk_inode (finished u v n) mk_sb (of_nat i))) = file_used u i"
proof -
  let ?D = "finished u v n" and ?v = "dino u (of_nat i)"
  note iv = image_okD [OF u(1)] and c = ino_count [OF u]
  have l: "i < 208" "i \<in> {1..<unat (freeinode u)}" using i c by auto
  note ff = finished_facts [OF v(1), where u = u and n = n and m = "of_nat i"]
  have a: "addrs (din (disk_inode ?D mk_sb (of_nat i))) = addrs (din ?v)"
    using ff(3) unat_ino [OF l(1)] l(1) v(2) by simp
  have h: "?D x = img u x" if "x \<in> used_blocks (img u) (din ?v)" for x
    using ff(2) [of x] unat_ino [OF l(1)] l(1) that iv(3) [OF l(2)] by (auto simp: file_ok_def file_used_def meta_facts)
  note g = file_frame [of "din (disk_inode ?D mk_sb (of_nat i))" "din ?v" "img u" ?D, OF a h]
  have fo: "file_at (img u) (din ?v) (unat (dsize ?v))" using iv(3) [OF l(2)] by (simp add: file_ok_def)
  then show "file_at ?D (din (disk_inode ?D mk_sb (of_nat i))) (unat (dsize ?v))" using g(1) by simp
  show "used_blocks ?D (din (disk_inode ?D mk_sb (of_nat i))) = file_used u i" using g(2) by (simp add: file_used_def)
  have "mkfs_files host nms ! (i - 1) = file_bytes (img u) ?v"
    using nth_contents [of "i - 1" u] u(2) l(2) by auto
  then show "map (fbyte ?D (din (disk_inode ?D mk_sb (of_nat i)))) [0..<unat (dsize ?v)] = mkfs_files host nms ! (i - 1)"
    using g(4) [OF _ fo] fo by (auto simp: file_bytes_def)
qed

text \<open>What the image of the files \<open>nms\<close> holds: a bit map that has exactly the blocks in use marked; for each
  file an inode with one link and the bytes of the file, in blocks of its own; and a root directory
  whose bytes are the entries for itself and for the files, with its size rounded up.\<close>

definition inode_blocks :: "(nat \<Rightarrow> block) \<Rightarrow> nat \<Rightarrow> nat set" where
  "inode_blocks D i = used_blocks D (din (disk_inode D mk_sb (of_nat i)))"

definition root_holds :: "u8 list \<Rightarrow> (nat \<Rightarrow> block) \<Rightarrow> dinode \<Rightarrow> bool" where
  "root_holds bs D v \<longleftrightarrow> dtype v = T_DIR \<and> dnlink v = 1 \<and> unat (dsize v) = rounded (length bs) \<and>
     file_at D (din v) (length bs) \<and> map (fbyte D (din v)) [0..<length bs] = bs"

definition file_holds :: "u8 list \<Rightarrow> (nat \<Rightarrow> block) \<Rightarrow> dinode \<Rightarrow> bool" where
  "file_holds bs D v \<longleftrightarrow> dtype v = T_FILE \<and> dnlink v = 1 \<and> file_at D (din v) (unat (dsize v)) \<and> file_bytes D v = bs"

definition image_holds :: "(u8 list \<Rightarrow> u8 list option) \<Rightarrow> u8 list list \<Rightarrow> (nat \<Rightarrow> block) \<Rightarrow> bool" where
  "image_holds host nms D \<longleftrightarrow> superblock_at (D 1) = mk_sb \<and>
     (\<forall>b. bit_free D mk_sb b \<longleftrightarrow> taken host nms \<le> b) \<and> taken host nms \<le> FSSIZE \<and>
     root_holds (root_bytes nms) D (disk_inode D mk_sb ROOTINO) \<and>
     (\<forall>i<length nms. file_holds (the (host (nms ! i))) D (disk_inode D mk_sb (of_nat (i + 2)))) \<and>
     (\<forall>i\<in>{1..length nms + 1}. inode_blocks D i \<subseteq> {nmeta..<taken host nms}) \<and>
     (\<forall>i\<in>{1..length nms + 1}. \<forall>j\<in>{1..length nms + 1}. i \<noteq> j \<longrightarrow> inode_blocks D i \<inter> inode_blocks D j = {})"

lemma finished_holds:
  assumes u: "image_ok u" "contents u = mkfs_files host nms" "img u 1 = put_superblock mk_sb"
    and ty: "dtype (dino u ROOTINO) = T_DIR" "dnlink (dino u ROOTINO) = 1"
    "\<And>i. i < length nms \<Longrightarrow> dtype (dino u (of_nat (i + 2))) = T_FILE \<and> dnlink (dino u (of_nat (i + 2))) = 1"
    and r: "mkfs_ready host nms"
    and v: "v = (dino u ROOTINO)\<lparr>dsize := (dsize (dino u ROOTINO) div of_nat BSIZE + 1) * of_nat BSIZE\<rparr>"
  shows "image_holds host nms (finished u v (taken host nms))"
proof -
  note fin = finish_run [OF u(1,2) r v] and iv = image_okD [OF u(1)] and c = ino_count [OF u(1,2)]
  let ?D = "finished u v (taken host nms)"
  have tv: "tidy v" by (simp add: v tidy_def dino_def disk_inode_def get_dinode_def get_addrs_def)
  have av: "daddrs v = daddrs (dino u ROOTINO)" by (simp add: v)
  note files = finished_files [OF u(1,2) tv av, where n = "taken host nms"]
  have g: "?D 1 = img u 1" "bit_free ?D mk_sb b \<longleftrightarrow> taken host nms \<le> b" for b
    using finished_facts(1) [OF tv, where u = u and n = "taken host nms" and m = 0]
      finished_facts(4) [OF tv, where u = u and n = "taken host nms" and m = 0 and b = b] by simp_all
  have R: "disk_inode ?D mk_sb ROOTINO = v" using finished_facts(3) [OF tv, where m = ROOTINO] by (simp add: ROOTINO_def)
  have root: "root_holds (root_bytes nms) ?D v"
    using files(1,2) [of 1] R fin(2,3) ty(1,2) by (simp add: ROOTINO_def v mkfs_files_def root_holds_def)
  have rest: "file_holds (the (host (nms ! i))) ?D (disk_inode ?D mk_sb (of_nat (i + 2)))" if i: "i < length nms" for i
  proof -
    have l: "i + 2 < 208" "i + 2 \<in> {1..<length nms + 2}" using i c by auto
    have "(of_nat (i + 2) :: u32) \<noteq> ROOTINO" using same_ino [OF l(1), of 1] by (simp add: ROOTINO_def)
    then have w: "disk_inode ?D mk_sb (of_nat (i + 2)) = dino u (of_nat (i + 2))"
      using finished_facts(3) [OF tv, where m = "of_nat (i + 2)"] unat_ino [OF l(1)] l(1) by simp
    show ?thesis using files(1,2) [OF l(2)] ty(3) [OF i] i unfolding w file_holds_def by (simp add: mkfs_files_def file_bytes_def)
  qed
  have b: "inode_blocks ?D i = file_used u i" "i \<in> {1..<unat (freeinode u)}" if "i \<in> {1..length nms + 1}" for i
    using files(3) [of i] that c by (auto simp: inode_blocks_def)
  have "inode_blocks ?D i \<subseteq> {nmeta..<taken host nms}" if "i \<in> {1..length nms + 1}" for i
    using b(1) [OF that] iv(3) [OF b(2) [OF that]] fin(4) by (simp add: file_ok_def)
  moreover have "inode_blocks ?D i \<inter> inode_blocks ?D j = {}" if "i \<in> {1..length nms + 1}" "j \<in> {1..length nms + 1}" "i \<noteq> j" for i j
    using b(1) [OF that(1)] b(1) [OF that(2)] iv(4) [OF b(2) [OF that(1)] b(2) [OF that(2)] that(3)] by simp
  ultimately show ?thesis
    unfolding image_holds_def using g u(3) superblock_put root rest R fin(5) by auto
qed

lemma mkfs_run:
  assumes "creatable path" and "mkfs_ready host nms"
  shows "\<exists>t. mkfs_main creatable host (prog # path # nms) (mk_start hp) = Exit 0 t \<and> image_holds host nms (img t)"
proof -
  obtain s r u where b: "mk_format (mk_start hp) = Done () s" "mk_root s = Done ROOTINO r"
    "ufor nms (add_file host ROOTINO) r = Done () u" "image_ok u" "contents u = mkfs_files host nms"
    "img u 1 = put_superblock mk_sb" "dtype (dino u ROOTINO) = T_DIR" "dnlink (dino u ROOTINO) = 1"
    "\<And>i. i < length nms \<Longrightarrow> dtype (dino u (of_nat (i + 2))) = T_FILE \<and> dnlink (dino u (of_nat (i + 2))) = 1"
    using built_run [OF assms(2), of hp] by blast
  define v where "v = (dino u ROOTINO)\<lparr>dsize := (dsize (dino u ROOTINO) div of_nat BSIZE + 1) * of_nat BSIZE\<rparr>"
  obtain t where t: "uthn (fix_root ROOTINO) (uthn (ubnd (uget freeblock) (\<lambda>b. mk_balloc (unat b))) (uexit 0)) u = (Exit 0 t :: (unit, mkfs) uout)"
    "img t = finished u v (taken host nms)" using finish_run(1) [OF b(4,5) assms(2) v_def] by blast
  have "mkfs_main creatable host (prog # path # nms) (mk_start hp) = Exit 0 t"
    using assms(1) b(1-3) t(1) by (simp add: mkfs_main_def)
  then show ?thesis using finished_holds [OF b(4-9) assms(2) v_def] t(2) by auto
qed

subsection \<open>The image as the kernel sees it\<close>

definition root_ents :: "u8 list list \<Rightarrow> (u8 list \<times> u16) list" where
  "root_ents nms = ([DOT], 1) # ([DOT, DOT], 1) # zip (map strip nms) (map of_nat [2..<length nms + 2])"

lemma dirents_concat: "dirents k nms = concat (map (\<lambda>(a, n). mk_dirent a n) (zip (map strip nms) (map of_nat [k..<length nms + k])))"
proof (induction nms arbitrary: k)
  case (Cons nm nms)
  have "[k..<length (nm # nms) + k] = k # [k + 1..<length nms + (k + 1)]" by (simp add: upt_rec)
  then show ?case using Cons [of "k + 1"] by simp
qed simp

lemma root_bytes_concat: "root_bytes nms = concat (map (\<lambda>(a, n). mk_dirent a n) (root_ents nms))"
  by (simp add: root_bytes_def root_ents_def dirents_concat)

lemma concat_chunk:
  assumes "\<And>x. x \<in> set xs \<Longrightarrow> length x = n" "k < length xs"
  shows "take n (drop (n * k) (concat xs)) = xs ! k"
  using assms
proof (induction xs arbitrary: k)
  case (Cons x xs)
  then show ?case by (cases k) simp_all
qed simp

lemma mk_dirent_fields: "de_inum (mk_dirent nm n) = n" "0 \<notin> set nm \<Longrightarrow> cstr (de_name (mk_dirent nm n)) = take DIRSIZ nm"
proof -
  have "de_inum (mk_dirent nm n) = get16 (put16 (\<lambda>_. 0) 0 n) 0"
    by (simp add: de_inum_def mk_dirent_def get16_def put16_def)
  then show "de_inum (mk_dirent nm n) = n" by (simp add: get16_put16)
  have "map (de_name (mk_dirent nm n)) [0..<DIRSIZ] = map (carr nm) [0..<DIRSIZ]"
    by (simp add: de_name_def mk_dirent_def nth_append)
  then have "cstr (de_name (mk_dirent nm n)) = cstr (carr nm)" unfolding cstr_def by (simp only:)
  then show "0 \<notin> set nm \<Longrightarrow> cstr (de_name (mk_dirent nm n)) = take DIRSIZ nm" using cstr_carr by simp
qed

lemma root_dirent:
  assumes "map (fbyte D p) [0..<length (root_bytes nms)] = root_bytes nms" and k: "k < length nms + 2"
  shows "dirent_at D p (16 * k) = (\<lambda>(a, n). mk_dirent a n) (root_ents nms ! k)"
proof -
  let ?xs = "map (\<lambda>(a, n). mk_dirent a n) (root_ents nms)"
  have l: "length ?xs = length nms + 2" by (simp add: root_ents_def del: upt_Suc)
  have "dirent_at D p (16 * k) = take 16 (drop (16 * k) (map (fbyte D p) [0..<length (root_bytes nms)]))"
    using k by (simp add: dirent_at_def DIRENT_def drop_map take_map take_upt add.commute)
  also have "\<dots> = take 16 (drop (16 * k) (concat ?xs))" unfolding assms(1) by (simp add: root_bytes_concat)
  also have "\<dots> = ?xs ! k" by (rule concat_chunk) (use k l in \<open>auto\<close>)
  finally show ?thesis using k l by simp
qed

text \<open>The names that a path can end in: no NUL, and not equal to another name in the first \<open>DIRSIZ\<close> bytes.\<close>

definition names_ok :: "u8 list list \<Rightarrow> bool" where
  "names_ok nms \<longleftrightarrow> (\<forall>nm\<in>set nms. 0 \<notin> set (strip nm)) \<and> distinct ([DOT] # [DOT, DOT] # map (take DIRSIZ \<circ> strip) nms)"

lemma root_found:
  assumes h: "root_holds (root_bytes nms) D v" and nm: "names_ok nms" "length nms \<le> 198" and i: "i < length nms"
  shows "dfind D v (strip (nms ! i)) = Some (16 * (i + 2), of_nat (i + 2))"
proof -
  let ?p = "din v" and ?e = "root_ents nms" and ?nm = "strip (nms ! i)"
  have rb: "map (fbyte D ?p) [0..<length (root_bytes nms)] = root_bytes nms" using h by (simp add: root_holds_def)
  have nth: "?e ! (j + 2) = (strip (nms ! j), of_nat (j + 2))" if "j < length nms" for j
    using that by (simp add: root_ents_def del: upt_Suc)
  have n0: "0 \<notin> set (fst (?e ! k))" if "k < length nms + 2" for k
  proof (cases "k < 2")
    case True
    then have "k = 0 \<or> k = 1" by auto
    then show ?thesis by (auto simp: root_ents_def DOT_def)
  next
    case False
    then obtain j where "k = j + 2" using le_Suc_ex [of 2 k] by (auto simp: add.commute)
    then show ?thesis using nth [of j] that nm(1) by (auto simp: names_ok_def)
  qed
  have "0 \<notin> set ?nm" using nm(1) i by (simp add: names_ok_def)
  then have cn: "cstr (carr ?nm) = take DIRSIZ ?nm" by (rule cstr_carr)
  have m: "matches_entry D ?p ?nm (16 * k) \<longleftrightarrow> snd (?e ! k) \<noteq> 0 \<and> take DIRSIZ (fst (?e ! k)) = take DIRSIZ ?nm"
    if "k < length nms + 2" for k
    using root_dirent [OF rb that] mk_dirent_fields n0 [OF that] cn by (simp add: matches_entry_def case_prod_unfold)
  have ne: "(of_nat (i + 2) :: u16) \<noteq> 0"
  proof -
    have "i + 2 < 2 ^ LENGTH(16)" using i nm(2) by simp
    then have "unat (of_nat (i + 2) :: u16) = i + 2" by (simp only: unsigned_of_nat take_bit_nat_eq_self of_nat_id)
    then show ?thesis by (metis add_2_eq_Suc' nat.distinct(1) unsigned_0)
  qed
  have hit: "matches_entry D ?p ?nm (16 * (i + 2))" using m [of "i + 2"] nth [OF i] i ne by simp
  have miss: "\<not> matches_entry D ?p ?nm (16 * k)" if k: "k < i + 2" for k
  proof -
    have "map (take DIRSIZ \<circ> fst) ?e = [DOT] # [DOT, DOT] # map (take DIRSIZ \<circ> strip) nms"
      by (intro nth_equalityI) (auto simp: root_ents_def nth_Cons' DIRSIZ_def simp del: upt_Suc)
    then have "distinct (map (take DIRSIZ \<circ> fst) ?e)" using nm(1) by (simp add: names_ok_def)
    moreover have "length ?e = length nms + 2" by (simp add: root_ents_def del: upt_Suc)
    ultimately have "take DIRSIZ (fst (?e ! k)) \<noteq> take DIRSIZ (fst (?e ! (i + 2)))"
      using k i by (auto simp: distinct_conv_nth)
    then show ?thesis using m [of k] nth [OF i] k i by simp
  qed
  have z: "unat (isize ?p) = rounded (16 * (length nms + 2))" using h by (simp add: root_holds_def)
  have len: "i + 2 < (unat (isize ?p) + DIRENT - 1) div DIRENT"
    using i unfolding z by (simp add: rounded_def BSIZE_def DIRENT_def)
  have "find (matches_entry D ?p ?nm) (dir_offsets (isize ?p)) = Some (16 * (i + 2))"
    unfolding find_Some_iff using len hit miss
    by (intro exI [of _ "i + 2"]) (auto simp: dir_offsets_def DIRENT_def mult.commute)
  then show ?thesis using root_dirent [OF rb, of "i + 2"] nth [OF i] i mk_dirent_fields(1)
    by (simp add: dfind_def dir_find_def)
qed

text \<open>The root directory can be read to its end when its last block is begun, and only then.\<close>

lemma root_readable:
  assumes h: "root_holds (root_bytes nms) D v" and n: "length nms \<le> 198"
    and u: "used_blocks D (din v) \<subseteq> {..<FSSIZE}"
  shows "dir_ok D (din v) \<longleftrightarrow> (length nms + 2) mod 32 \<noteq> 0"
proof -
  let ?p = "din v"
  define l where "l = 16 * (length nms + 2)"
  have "16 * (length nms + 2) mod (16 * 32) = 16 * ((length nms + 2) mod 32)" by (rule mult_mod_right [symmetric])
  then have l: "l \<le> 3200" "l mod 512 = 0 \<longleftrightarrow> (length nms + 2) mod 32 = 0" using n by (simp_all add: l_def)
  have f: "file_at D ?p l" and z: "unat (isize ?p) = (l div 512 + 1) * 512" and "dtype v = T_DIR"
    using h by (simp_all add: root_holds_def l_def rounded_def BSIZE_def)
  then have ty: "itype ?p = T_DIR" by (simp add: of_dinode_def)
  have M: "MAXFILE * BSIZE = 71680" "NDIRECT = 12" "MAXFILE = 140" "BSIZE = 512"
    by (simp_all add: MAXFILE_def NDIRECT_def NINDIRECT_def BSIZE_def)
  have ind: "addrs ?p NDIRECT = 0" using f l(1) by (auto simp: file_at_def slot_def M)
  have sl: "mapped D ?p k \<noteq> 0 \<longleftrightarrow> k * 512 < l" if "k < 140" for k
    using f that by (simp add: file_at_def M slot_mapped)
  have l6: "l div 512 \<le> 6" using div_le_mono [OF l(1), of 512] by simp
  then have zz: "(l div 512 + 1) * 512 \<le> 71680" by simp
  show ?thesis
  proof (cases "l mod 512 = 0")
    case True
    have q: "l div 512 * 512 = l" using True by (metis add.right_neutral div_mult_mod_eq)
    have "l div 512 < 140" using l6 by simp
    then have "mapped D ?p (l div 512) = 0" using sl [of "l div 512"] q by simp
    moreover have "l < (l div 512 + 1) * 512" using q by simp
    ultimately have "\<not> has_blocks D ?p (unat (isize ?p))" unfolding has_blocks_def z M(4) by blast
    then show ?thesis using True l(2) by (simp add: dir_ok_def)
  next
    case False
    have "mapped D ?p (j div 512) \<noteq> 0 \<and> unat (mapped D ?p (j div 512)) < FSSIZE" if j: "j < (l div 512 + 1) * 512" for j
    proof -
      have "j div 512 \<le> l div 512" using less_mult_imp_div_less [OF j] by simp
      moreover have "l div 512 * 512 < l" using False div_mult_mod_eq [of l 512] by linarith
      ultimately have "j div 512 * 512 < l" "j div 512 < 140" using l6 by linarith+
      then show ?thesis using sl [of "j div 512"] slot_used [of "j div 512" D ?p] u by (auto simp: M slot_mapped)
    qed
    then have "has_blocks D ?p (unat (isize ?p))" unfolding has_blocks_def z using zz ind by (simp add: FSSIZE_def M)
    moreover have "(l div 512 + 1) * 512 = (l div 512 + 1) * 32 * 16" by simp
    then have "unat (isize ?p) mod DIRENT = 0" unfolding z DIRENT_def by (metis mod_mult_self2_is_0)
    ultimately show ?thesis using False l(2) ty by (simp add: dir_ok_def)
  qed
qed

text \<open>Claim C7. mkfs, run on files that fit, ends with status 0 and leaves the file system the kernel
  expects (\<open>image_holds\<close>): its super block; exactly the blocks in use marked in the bit map; for each
  file an inode with one link and the bytes of the file, in blocks of its own; a root directory
  with the entries. In that image each name leads from the root to the inode of its file. The
  directories are intact, so that namei can follow it, except when the entries fill whole blocks:
  then the rounded size of the root directory takes in a block that it does not have.\<close>

theorem mkfs_for_kernel:
  assumes "creatable path" and "mkfs_ready host nms" and "names_ok nms"
  shows "\<exists>t. mkfs_main creatable host (prog # path # nms) (mk_start hp) = Exit 0 t \<and> image_holds host nms (img t) \<and>
    (\<forall>i<length nms. resolve (img t) (superblock_at (img t 1)) ROOTINO [strip (nms ! i)] = Some (of_nat (i + 2))) \<and>
    (\<forall>nm. path_ok (img t) (superblock_at (img t 1)) ROOTINO [nm] \<longleftrightarrow> (length nms + 2) mod 32 \<noteq> 0)"
proof -
  obtain t where t: "mkfs_main creatable host (prog # path # nms) (mk_start hp) = Exit 0 t" "image_holds host nms (img t)"
    using mkfs_run [where creatable = creatable and path = path, OF assms(1,2)] by blast
  let ?v = "disk_inode (img t) mk_sb ROOTINO"
  have n: "length nms \<le> 198" using assms(2) by (simp add: mkfs_ready_def NINODES_def)
  have h: "superblock_at (img t 1) = mk_sb" "root_holds (root_bytes nms) (img t) ?v" "taken host nms \<le> FSSIZE"
    "inode_blocks (img t) 1 \<subseteq> {nmeta..<taken host nms}"
    using t(2) by (auto simp: image_holds_def)
  have "used_blocks (img t) (din ?v) \<subseteq> {..<FSSIZE}" using h(3,4) by (auto simp: inode_blocks_def ROOTINO_def)
  note r = root_readable [OF h(2) n this]
  have d: "dtype ?v = T_DIR" "dnlink ?v = 1" using h(2) by (simp_all add: root_holds_def)
  have "IBLOCK mk_sb ROOTINO < FSSIZE"
    using ino_block_meta(1) [of ROOTINO] by (simp add: ino_block_def ROOTINO_def FSSIZE_def)
  then have g: "good_inode (img t) mk_sb ROOTINO" using d by (simp add: good_inode_def T_DIR_def)
  have "resolve (img t) mk_sb ROOTINO [strip (nms ! i)] = Some (of_nat (i + 2))" if i: "i < length nms" for i
  proof -
    have "ucast (of_nat (i + 2) :: u16) = (of_nat (i + 2) :: u32)"
    proof -
      have "i + 2 < 2 ^ LENGTH(16)" using i n by simp
      then show ?thesis by (simp only: unsigned_of_nat take_bit_nat_eq_self)
    qed
    then show ?thesis using root_found [OF h(2) assms(3) n i] d(1) by simp
  qed
  moreover have "path_ok (img t) mk_sb ROOTINO [nm] \<longleftrightarrow> (length nms + 2) mod 32 \<noteq> 0" for nm
    using g d(1) r by (auto split: option.split)
  ultimately show ?thesis using t unfolding h(1) [symmetric] by blast
qed

definition host0 :: "u8 list \<Rightarrow> u8 list option" where
  "host0 nm = (if nm = [95, 97] then Some [7] else None)"

lemma mkfs_for_kernel_witness:
  "\<exists>t. mkfs_main (\<lambda>_. True) host0 [[], [120], [95, 97]] (mk_start 0) = Exit 0 t \<and>
    resolve (img t) (superblock_at (img t 1)) ROOTINO [[97]] = Some 2 \<and>
    file_bytes (img t) (disk_inode (img t) mk_sb 2) = [7] \<and> path_ok (img t) (superblock_at (img t 1)) ROOTINO [[97]]"
proof -
  have s: "strip [95, 97] = [97]" by (simp add: strip_def UNDERSCORE_def)
  have r: "mkfs_ready host0 [[95, 97]]"
    by (simp add: mkfs_ready_def files_fit_def host0_def SLASH_def MAXFILE_def BSIZE_def NDIRECT_def NINODES_def mkfs_files_def
        blocks_needed_def blocks_for_def meta_facts)
  have n: "names_ok [[95, 97]]" by (simp add: names_ok_def s DIRSIZ_def DOT_def)
  obtain t where t: "mkfs_main (\<lambda>_. True) host0 [[], [120], [95, 97]] (mk_start 0) = Exit 0 t" "image_holds host0 [[95, 97]] (img t)"
    "resolve (img t) (superblock_at (img t 1)) ROOTINO [[97]] = Some 2" "path_ok (img t) (superblock_at (img t 1)) ROOTINO [[97]]"
    using mkfs_for_kernel [where creatable = "\<lambda>_. True" and path = "[120]" and prog = "[]" and hp = 0, OF _ r n] s by auto
  have "file_holds (the (host0 [95, 97])) (img t) (disk_inode (img t) mk_sb 2)"
    using t(2) by (auto simp: image_holds_def)
  then show ?thesis using t by (auto simp: file_holds_def host0_def)
qed

end
