(* ===== verification/MyQueue.thy ===== *)
theory MyQueue
  imports User_Prelude
begin

section \<open>The bounded circular queue (Assignment2_C_Data_Structures/part1/myqueue.h)\<close>

text \<open>
  \<open>data\<close> is an array of \<open>capacity\<close> ints whose cells are undefined (\<open>None\<close>) until they
  are stored to; it is \<open>None\<close> itself when its malloc failed. The fields front, back, size and
  capacity are C's \<open>unsigned int\<close>. \<open>qobj\<close> is the queue the functions are called on, \<open>None\<close>
  for a NULL pointer.
\<close>

record queue =
  back_ix :: "32 word"
  front_ix :: "32 word"
  qsize :: "32 word"
  capacity :: "32 word"
  data :: "32 word option list option"

record qworld = uworld +
  qobj :: "queue option"

definition QUEUE_BYTES :: nat where "QUEUE_BYTES = 24"

definition with_queue :: "(queue \<Rightarrow> (qworld, 'a) um) \<Rightarrow> (qworld, 'a) um" where
  "with_queue f = ubnd (uget qobj) (\<lambda>q.
     case q of
       None \<Rightarrow> uthn (uputs (''Error: null queue'' @ newline)) (uexit 1)
     | Some x \<Rightarrow> f x)"

definition create_queue :: "32 word \<Rightarrow> (qworld, unit) um" where
  "create_queue cap =
     ubnd (clib_malloc QUEUE_BYTES) (\<lambda>ok.
     if \<not> ok then ucrash ''store through a null pointer''
     else ubnd (clib_malloc (4 * unat cap)) (\<lambda>ok.
       umod (\<lambda>s. s\<lparr>qobj := Some \<lparr>back_ix = 0, front_ix = 0, qsize = 0, capacity = cap,
         data = (if ok then Some (replicate (unat cap) None) else None)\<rparr>\<rparr>)))"

definition queue_empty :: "(qworld, int) um" where
  "queue_empty = with_queue (\<lambda>q. if qsize q = 0 then uret 1 else uret 0)"

definition queue_full :: "(qworld, int) um" where
  "queue_full = with_queue (\<lambda>q. if qsize q = capacity q then uret 1 else uret 0)"

text \<open>The store to \<open>q->data[q->back]\<close> has no meaning outside the array.\<close>

definition store_data :: "32 word \<Rightarrow> (qworld, unit) um" where
  "store_data item = with_queue (\<lambda>q.
     case data q of
       None \<Rightarrow> ucrash ''store through a null pointer''
     | Some d \<Rightarrow>
         if unat (back_ix q) < List.length d
         then umod (\<lambda>s. s\<lparr>qobj := Some (q\<lparr>data := Some (d[unat (back_ix q) := Some item])\<rparr>)\<rparr>)
         else ucrash ''store past the end of data'')"

definition queue_enqueue :: "32 word \<Rightarrow> (qworld, int) um" where
  "queue_enqueue item = with_queue (\<lambda>_.
     ubnd queue_full (\<lambda>f.
     if f = 1 then uthn (uputs (''Error: full queue'' @ newline)) (uret (- 1))
     else
       uthn (with_queue (\<lambda>q. umod (\<lambda>s. s\<lparr>qobj := Some (q\<lparr>qsize := qsize q + 1\<rparr>)\<rparr>))) (
       uthn (store_data item) (
       uthn (with_queue (\<lambda>q. umod (\<lambda>s.
         s\<lparr>qobj := Some (q\<lparr>back_ix := (back_ix q + 1) mod capacity q\<rparr>)\<rparr>))) (
       uret 0)))))"

definition queue_dequeue :: "(qworld, int) um" where
  "queue_dequeue = ubnd (uget qobj) (\<lambda>q.
     case q of
       None \<Rightarrow> uthn (uputs (''Error: null or empty queue'' @ newline)) (uexit 1)
     | Some q \<Rightarrow>
         if qsize q = 0 then uthn (uputs (''Error: null or empty queue'' @ newline)) (uexit 1)
         else
           uthn (umod (\<lambda>s. s\<lparr>qobj := Some (q\<lparr>qsize := qsize q - 1\<rparr>)\<rparr>)) (
           uthn (with_queue (\<lambda>q. umod (\<lambda>s.
             s\<lparr>qobj := Some (q\<lparr>front_ix := (front_ix q + 1) mod capacity q\<rparr>)\<rparr>))) (
           uret 99999)))"

definition queue_size :: "(qworld, 32 word) um" where
  "queue_size = with_queue (\<lambda>q. uret (qsize q))"

definition free_queue :: "(qworld, unit) um" where
  "free_queue = with_queue (\<lambda>q.
     uthn (clib_free (case data q of None \<Rightarrow> 0 | Some d \<Rightarrow> 4 * List.length d)) (
     uthn (clib_free QUEUE_BYTES)
       (umod (\<lambda>s. s\<lparr>qobj := None\<rparr>))))"

subsection \<open>The queue as a list\<close>

definition slot :: "queue \<Rightarrow> nat \<Rightarrow> nat" where
  "slot q i = (unat (front_ix q) + i) mod unat (capacity q)"

definition queue_ok :: "queue \<Rightarrow> bool" where
  "queue_ok q \<longleftrightarrow> (\<exists>d. data q = Some d \<and> List.length d = unat (capacity q) \<and>
     unat (qsize q) \<le> unat (capacity q) \<and>
     (0 < unat (capacity q) \<longrightarrow>
        unat (front_ix q) < unat (capacity q) \<and> unat (back_ix q) = slot q (unat (qsize q))) \<and>
     (\<forall>i < unat (qsize q). d ! slot q i \<noteq> None))"

definition contents :: "queue \<Rightarrow> 32 word list" where
  "contents q = (case data q of None \<Rightarrow> [] | Some d \<Rightarrow>
     map (\<lambda>i. the (d ! slot q i)) [0..<unat (qsize q)])"

lemma contents_length [simp]: "queue_ok q \<Longrightarrow> List.length (contents q) = unat (qsize q)"
  by (auto simp: contents_def queue_ok_def)

lemma unat_step_mod:
  fixes a c :: "32 word"
  assumes "unat a < unat c"
  shows "unat ((a + 1) mod c) = (unat a + 1) mod unat c"
proof -
  have "unat a + 1 < 2 ^ 32" using assms unat32_less [of c] by simp
  then have "unat (a + 1) = unat a + 1" by (simp add: unat_word_ariths)
  then show ?thesis by (simp add: unat_mod_distrib)
qed

lemma mod_add_neq:
  fixes a i j c :: nat
  assumes "i < j" and "j < c" shows "(a + i) mod c \<noteq> (a + j) mod c"
proof
  assume "(a + i) mod c = (a + j) mod c"
  then have "c dvd (a + j) - (a + i)" using assms by (metis add_le_cancel_left less_imp_le mod_eq_dvd_iff_nat)
  then show False using assms by (auto dest: dvd_imp_le)
qed

definition put_back :: "32 word \<Rightarrow> queue \<Rightarrow> queue" where
  "put_back v q = q\<lparr>back_ix := (back_ix q + 1) mod capacity q, qsize := qsize q + 1,
     data := map_option (\<lambda>d. d[unat (back_ix q) := Some v]) (data q)\<rparr>"

definition drop_front :: "queue \<Rightarrow> queue" where
  "drop_front q = q\<lparr>front_ix := (front_ix q + 1) mod capacity q, qsize := qsize q - 1\<rparr>"

lemma put_back_ok:
  assumes "queue_ok q" and "qsize q \<noteq> capacity q"
  shows "queue_ok (put_back v q)" and "contents (put_back v q) = contents q @ [v]"
proof -
  obtain d where d: "data q = Some d" "List.length d = unat (capacity q)"
    "\<forall>i < unat (qsize q). d ! slot q i \<noteq> None" using assms(1) by (auto simp: queue_ok_def)
  have lt: "unat (qsize q) < unat (capacity q)"
    using assms by (auto simp: queue_ok_def word_unat_eq_iff)
  then have b: "unat (back_ix q) = slot q (unat (qsize q))" "unat (front_ix q) < unat (capacity q)"
    using assms(1) by (auto simp: queue_ok_def)
  then have bl: "unat (back_ix q) < unat (capacity q)" using lt by (simp add: slot_def)
  have s: "unat (qsize q + 1) = Suc (unat (qsize q))"
    using lt unat32_less [of "capacity q"] by (simp add: unat_word_ariths)
  have b1: "unat ((back_ix q + 1) mod capacity q) = slot q (Suc (unat (qsize q)))"
    using unat_step_mod [OF bl] b(1) by (simp add: slot_def mod_Suc_eq)
  have other: "slot q i \<noteq> unat (back_ix q)" if "i < unat (qsize q)" for i
    using mod_add_neq [OF that lt, of "unat (front_ix q)"] b(1) by (simp add: slot_def)
  have sl: "slot (put_back v q) = slot q" by (auto simp: slot_def put_back_def)
  show "queue_ok (put_back v q)"
    unfolding queue_ok_def sl using d b b1 s lt other bl
    by (auto simp: put_back_def nth_list_update less_Suc_eq)
  show "contents (put_back v q) = contents q @ [v]"
    unfolding contents_def sl using d s other bl
    by (simp add: put_back_def b(1) [symmetric] nth_list_update cong: map_cong)
      (metis atLeastLessThan_iff other)
qed

lemma drop_front_ok:
  assumes "queue_ok q" and "qsize q \<noteq> 0"
  shows "queue_ok (drop_front q)" and "contents (drop_front q) = tl (contents q)"
proof -
  obtain d where d: "data q = Some d" "List.length d = unat (capacity q)"
    "\<forall>i < unat (qsize q). d ! slot q i \<noteq> None" using assms(1) by (auto simp: queue_ok_def)
  have pos: "0 < unat (qsize q)" using assms(2) by (simp add: unat_gt_0)
  have le: "unat (qsize q) \<le> unat (capacity q)" using assms(1) by (auto simp: queue_ok_def)
  then have f: "unat (front_ix q) < unat (capacity q)" "unat (back_ix q) = slot q (unat (qsize q))"
    using assms(1) pos by (auto simp: queue_ok_def)
  have s: "unat (qsize q - 1) = unat (qsize q) - 1"
    using pos assms(2) by (simp add: unat_minus_one)
  have sl: "slot (drop_front q) i = slot q (Suc i)" for i
    using unat_step_mod [OF f(1)] by (simp add: slot_def drop_front_def mod_simps)
  have dd: "data (drop_front q) = Some d" "capacity (drop_front q) = capacity q"
    "qsize (drop_front q) = qsize q - 1" "back_ix (drop_front q) = back_ix q"
    using d by (simp_all add: drop_front_def)
  have ff: "unat (front_ix (drop_front q)) < unat (capacity q)"
    using unat_step_mod [OF f(1)] f(1) by (simp add: drop_front_def)
  show "queue_ok (drop_front q)"
    unfolding queue_ok_def sl dd using d f s le pos ff by auto
  have "[0..<unat (qsize q)] = 0 # map Suc [0..<unat (qsize q) - 1]"
    using pos by (simp add: map_Suc_upt upt_conv_Cons)
  then show "contents (drop_front q) = tl (contents q)"
    unfolding contents_def sl dd using d s by simp
qed

subsection \<open>Sequences of operations against a bounded list\<close>

datatype qop = Enq "32 word" | Deq

fun qop_run :: "qop \<Rightarrow> (qworld, int) um" where
  "qop_run (Enq v) = queue_enqueue v"
| "qop_run Deq = queue_dequeue"

primrec qops_run :: "qop list \<Rightarrow> (qworld, int list) um" where
  "qops_run [] = uret []"
| "qops_run (x # xs) = ubnd (qop_run x) (\<lambda>r. ubnd (qops_run xs) (\<lambda>rs. uret (r # rs)))"

text \<open>The bounded FIFO list the header's comments promise; \<open>None\<close> is a dequeue of an empty one.\<close>

fun fifo :: "nat \<Rightarrow> 32 word list \<Rightarrow> qop list \<Rightarrow> (int list \<times> 32 word list) option" where
  "fifo n xs [] = Some ([], xs)"
| "fifo n xs (Enq v # rest) =
     (if List.length xs < n then map_option (apfst (\<lambda>rs. 0 # rs)) (fifo n (xs @ [v]) rest)
      else map_option (apfst (\<lambda>rs. - 1 # rs)) (fifo n xs rest))"
| "fifo n [] (Deq # rest) = None"
| "fifo n (x # xs) (Deq # rest) = map_option (apfst (\<lambda>rs. 99999 # rs)) (fifo n xs rest)"

lemma enqueue_run:
  assumes "qobj w = Some q" and "queue_ok q"
  shows "queue_enqueue v w =
    (if qsize q = capacity q then Done (- 1) (w\<lparr>stdout := stdout w @ ''Error: full queue'' @ newline\<rparr>)
     else Done 0 (w\<lparr>qobj := Some (put_back v q)\<rparr>))"
proof (cases "qsize q = capacity q")
  case True
  then show ?thesis using assms by (simp add: queue_enqueue_def with_queue_def queue_full_def)
next
  case False
  obtain d where d: "data q = Some d" "List.length d = unat (capacity q)"
    using assms(2) by (auto simp: queue_ok_def)
  have lt: "unat (qsize q) < unat (capacity q)"
    using assms(2) False by (auto simp: queue_ok_def word_unat_eq_iff)
  then have "unat (back_ix q) < unat (capacity q)"
    using assms(2) by (auto simp: queue_ok_def slot_def)
  then show ?thesis using assms False d
    by (simp add: queue_enqueue_def with_queue_def queue_full_def store_data_def put_back_def)
qed

lemma dequeue_run:
  assumes "qobj w = Some q"
  shows "queue_dequeue w =
    (if qsize q = 0 then Exit 1 (w\<lparr>stdout := stdout w @ ''Error: null or empty queue'' @ newline\<rparr>)
     else Done 99999 (w\<lparr>qobj := Some (drop_front q)\<rparr>))"
  using assms by (simp add: queue_dequeue_def with_queue_def drop_front_def)

lemma qops_refine:
  assumes "qobj w = Some q" and "queue_ok q"
  shows "case fifo (unat (capacity q)) (contents q) ops of
      Some (rs, ys) \<Rightarrow> (\<exists>w' q'. qops_run ops w = Done rs w' \<and> qobj w' = Some q' \<and> queue_ok q' \<and>
        contents q' = ys \<and> heap w' = heap w)
    | None \<Rightarrow> (\<exists>w'. qops_run ops w = Exit 1 w')"
  using assms
proof (induction ops arbitrary: w q)
  case Nil
  then show ?case by simp
next
  case (Cons x ops)
  note ok = Cons.prems(2)
  have full: "List.length (contents q) < unat (capacity q) \<longleftrightarrow> qsize q \<noteq> capacity q"
    using ok by (auto simp: queue_ok_def word_unat_eq_iff)
  show ?case
  proof (cases x)
    case (Enq v)
    show ?thesis
    proof (cases "qsize q = capacity q")
      case True
      let ?w = "w\<lparr>stdout := stdout w @ ''Error: full queue'' @ newline\<rparr>"
      show ?thesis using Cons.IH [of ?w q] Cons.prems True full Enq
        by (auto simp: enqueue_run split: option.splits)
    next
      case False
      let ?w = "w\<lparr>qobj := Some (put_back v q)\<rparr>"
      have c: "capacity (put_back v q) = capacity q" by (simp add: put_back_def)
      show ?thesis using Cons.IH [of ?w "put_back v q"] Cons.prems False full Enq c put_back_ok [OF ok False]
        by (auto simp: enqueue_run split: option.splits)
    qed
  next
    case Deq
    show ?thesis
    proof (cases "contents q")
      case Nil
      then have "qsize q = 0" using contents_length [OF ok] by (simp add: unat_eq_zero)
      then show ?thesis using Cons.prems Deq Nil by (simp add: dequeue_run)
    next
      case c: (Cons y ys)
      then have nz: "qsize q \<noteq> 0" using contents_length [OF ok] by auto
      let ?w = "w\<lparr>qobj := Some (drop_front q)\<rparr>"
      have k: "capacity (drop_front q) = capacity q" by (simp add: drop_front_def)
      show ?thesis using Cons.IH [of ?w "drop_front q"] Cons.prems nz Deq c k drop_front_ok [OF ok nz]
        by (auto simp: dequeue_run split: option.splits)
    qed
  qed
qed

lemma create_queue_run:
  assumes "QUEUE_BYTES + 4 * unat cap \<le> heap w"
  shows "\<exists>q w'. create_queue cap w = Done () w' \<and> qobj w' = Some q \<and> queue_ok q \<and> contents q = [] \<and>
    capacity q = cap"
  using assms by (auto simp: create_queue_def clib_malloc_def queue_ok_def contents_def slot_def)

text \<open>
  C25. A queue created with room on the heap behaves, under every sequence of enqueues and
  dequeues, as a list of at most \<open>capacity\<close> items: enqueue appends and answers 0, or -1 when
  the list is full; dequeue drops the first item and ends the process with status 1 when there
  is none. The value dequeue returns is the constant 99999, whatever the item was.
\<close>

theorem queue_is_fifo:
  assumes "QUEUE_BYTES + 4 * unat cap \<le> heap w"
  shows "case fifo (unat cap) [] ops of
      Some (rs, ys) \<Rightarrow> (\<exists>w' q. ubnd (create_queue cap) (\<lambda>_. qops_run ops) w = Done rs w' \<and>
        qobj w' = Some q \<and> queue_ok q \<and> contents q = ys)
    | None \<Rightarrow> (\<exists>w'. ubnd (create_queue cap) (\<lambda>_. qops_run ops) w = Exit 1 w')"
proof -
  obtain q w1 where c: "create_queue cap w = Done () w1" "qobj w1 = Some q" "queue_ok q"
    "contents q = []" "capacity q = cap" using create_queue_run [OF assms] by blast
  show ?thesis using qops_refine [OF c(2,3), of ops] c by (auto split: option.splits)
qed

lemma queue_is_fifo_witness:
  "\<exists>w' q. ubnd (create_queue 2) (\<lambda>_. qops_run [Enq 5, Enq 6, Enq 7, Deq, Enq 8])
     \<lparr>stdout = '''', heap = 100, qobj = None\<rparr> = Done [0, 0, - 1, 99999, 0] w' \<and>
     qobj w' = Some q \<and> queue_ok q \<and> contents q = [6, 8]"
  using queue_is_fifo [of 2 "\<lparr>stdout = '''', heap = 100, qobj = None\<rparr>" "[Enq 5, Enq 6, Enq 7, Deq, Enq 8]"]
  by (simp add: QUEUE_BYTES_def)

end
