(* ===== verification/MyStack.thy ===== *)
theory MyStack
  imports User_Prelude
begin

section \<open>The bounded stack (Assignment2_C_Data_Structures/part2/mystack.h)\<close>

text \<open>
  A stack owns its nodes, so \<open>head\<close> is the chain of their data, top first, and \<open>[]\<close> the null
  pointer. \<open>sobj\<close> is the stack the functions are called on, \<open>None\<close> for NULL. Each node and
  each \<open>stack_t\<close> is a block of the C library's heap (16 bytes on a 64-bit machine).
\<close>

record stack =
  scount :: "32 word"
  scapacity :: "32 word"
  shead :: "32 word list"

record sworld = uworld +
  sobj :: "stack option"

definition MAX_DEPTH :: "32 word" where "MAX_DEPTH = 32"
definition STACK_BYTES :: nat where "STACK_BYTES = 16"
definition NODE_BYTES :: nat where "NODE_BYTES = 16"

definition with_stack :: "(sworld, 'a) um \<Rightarrow> (stack \<Rightarrow> (sworld, 'a) um) \<Rightarrow> (sworld, 'a) um" where
  "with_stack none f = ubnd (uget sobj) (\<lambda>s. case s of None \<Rightarrow> none | Some x \<Rightarrow> f x)"

definition set_stack :: "stack \<Rightarrow> (sworld, unit) um" where
  "set_stack x = umod (\<lambda>s. s\<lparr>sobj := Some x\<rparr>)"

definition create_stack :: "32 word \<Rightarrow> (sworld, unit) um" where
  "create_stack cap =
     (if MAX_DEPTH < cap then uthn (uputs (''Error: capacity out of range'' @ newline)) (uexit 1)
      else ubnd (clib_malloc STACK_BYTES) (\<lambda>ok.
        if \<not> ok then ucrash ''store through a null pointer''
        else set_stack \<lparr>scount = 0, scapacity = cap, shead = []\<rparr>))"

definition stack_empty :: "(sworld, int) um" where
  "stack_empty = with_stack (uexit 1) (\<lambda>s. if scount s = 0 then uret 1 else uret 0)"

definition stack_full :: "(sworld, int) um" where
  "stack_full = with_stack (uexit 1) (\<lambda>s. if scount s = scapacity s then uret 1 else uret 0)"

definition new_node :: "(sworld, unit) um" where
  "new_node = ubnd (clib_malloc NODE_BYTES) (\<lambda>ok.
     if ok then uret () else ucrash ''store through a null pointer'')"

definition stack_enqueue :: "32 word \<Rightarrow> (sworld, int) um" where
  "stack_enqueue item =
     with_stack (uthn (uputs (''Error: null stack'' @ newline)) (uret (- 1))) (\<lambda>_.
     ubnd stack_full (\<lambda>f.
     if f = 1 then uthn (uputs (''Error: Stack is full'' @ newline)) (uret (- 1))
     else ubnd stack_empty (\<lambda>e.
       if e = 1 then
         uthn new_node (
         uthn (with_stack (ucrash ''null'') (\<lambda>s. set_stack (s\<lparr>shead := [item]\<rparr>))) (
         uthn (with_stack (ucrash ''null'') (\<lambda>s. set_stack (s\<lparr>scount := scount s + 1\<rparr>)))
         (uret 0)))
       else
         uthn new_node (
         uthn (with_stack (ucrash ''null'') (\<lambda>s. set_stack (s\<lparr>shead := item # shead s\<rparr>))) (
         uthn (with_stack (ucrash ''null'') (\<lambda>s. set_stack (s\<lparr>scount := scount s + 1\<rparr>)))
         (uret 0))))))"

definition stack_dequeue :: "(sworld, int) um" where
  "stack_dequeue =
     with_stack (uthn (uputs (''Error: null stack'' @ newline)) (uexit 1)) (\<lambda>_.
     ubnd stack_empty (\<lambda>e.
     if e = 1 then uthn (uputs (''Error: empty stack'' @ newline)) (uexit 1)
     else with_stack (ucrash ''null'') (\<lambda>s.
       case shead s of
         [] \<Rightarrow> ucrash ''load through a null pointer''
       | x # new_head \<Rightarrow>
           uthn (clib_free NODE_BYTES) (
           uthn (set_stack (s\<lparr>shead := new_head, scount := scount s - 1\<rparr>))
           (uret 9999999)))))"

definition stack_size :: "(sworld, 32 word) um" where
  "stack_size =
     with_stack (uthn (uputs (''Error: null stack'' @ newline)) (uexit 1)) (\<lambda>s. uret (scount s))"

primrec free_nodes :: "32 word list \<Rightarrow> (sworld, unit) um" where
  "free_nodes [] = uret ()"
| "free_nodes (x # xs) = uthn (clib_free NODE_BYTES) (free_nodes xs)"

definition free_stack :: "(sworld, unit) um" where
  "free_stack = with_stack (uexit 1) (\<lambda>s.
     uthn (free_nodes (shead s)) (
     uthn (clib_free STACK_BYTES)
       (umod (\<lambda>w. w\<lparr>sobj := None\<rparr>))))"

subsection \<open>Sequences of operations against a bounded list\<close>

definition stack_ok :: "stack \<Rightarrow> bool" where
  "stack_ok s \<longleftrightarrow> unat (scount s) = List.length (shead s) \<and> scount s \<le> scapacity s \<and>
     scapacity s \<le> MAX_DEPTH"

datatype sop = Push "32 word" | Pop

fun sop_run :: "sop \<Rightarrow> (sworld, int) um" where
  "sop_run (Push v) = stack_enqueue v"
| "sop_run Pop = stack_dequeue"

primrec sops_run :: "sop list \<Rightarrow> (sworld, int list) um" where
  "sops_run [] = uret []"
| "sops_run (x # xs) = ubnd (sop_run x) (\<lambda>r. ubnd (sops_run xs) (\<lambda>rs. uret (r # rs)))"

fun lifo :: "nat \<Rightarrow> 32 word list \<Rightarrow> sop list \<Rightarrow> (int list \<times> 32 word list) option" where
  "lifo n xs [] = Some ([], xs)"
| "lifo n xs (Push v # rest) =
     (if List.length xs < n then map_option (apfst (\<lambda>rs. 0 # rs)) (lifo n (v # xs) rest)
      else map_option (apfst (\<lambda>rs. - 1 # rs)) (lifo n xs rest))"
| "lifo n [] (Pop # rest) = None"
| "lifo n (x # xs) (Pop # rest) = map_option (apfst (\<lambda>rs. 9999999 # rs)) (lifo n xs rest)"

definition pushed :: "32 word \<Rightarrow> stack \<Rightarrow> stack" where
  "pushed v s = s\<lparr>shead := v # shead s, scount := scount s + 1\<rparr>"

lemma push_run:
  assumes "sobj w = Some s" and "stack_ok s" and "NODE_BYTES \<le> heap w"
  shows "stack_enqueue v w =
    (if scount s = scapacity s then Done (- 1) (w\<lparr>stdout := stdout w @ ''Error: Stack is full'' @ newline\<rparr>)
     else Done 0 (w\<lparr>heap := heap w - NODE_BYTES, sobj := Some (pushed v s)\<rparr>))"
proof -
  have "shead s = []" if "scount s = 0" using that assms(2) by (auto simp: stack_ok_def)
  then show ?thesis using assms
    by (simp add: stack_enqueue_def with_stack_def stack_full_def stack_empty_def set_stack_def
        new_node_def clib_malloc_def pushed_def)
qed

lemma pushed_ok:
  assumes "stack_ok s" and "scount s \<noteq> scapacity s"
  shows "stack_ok (pushed v s)"
proof -
  have "unat (scount s) < unat (scapacity s)" "unat (scapacity s) \<le> 32"
    using assms by (auto simp: stack_ok_def MAX_DEPTH_def word_le_nat_alt word_unat_eq_iff)
  then show ?thesis using assms
    by (simp add: stack_ok_def pushed_def word_le_nat_alt unat_word_ariths)
qed

lemma pop_run:
  assumes "sobj w = Some s" and "stack_ok s"
  shows "stack_dequeue w =
    (case shead s of
       [] \<Rightarrow> Exit 1 (w\<lparr>stdout := stdout w @ ''Error: empty stack'' @ newline\<rparr>)
     | x # xs \<Rightarrow> Done 9999999 (w\<lparr>heap := heap w + NODE_BYTES,
         sobj := Some (s\<lparr>shead := xs, scount := scount s - 1\<rparr>)\<rparr>))"
proof -
  have "scount s = 0 \<longleftrightarrow> shead s = []" using assms(2) by (auto simp: stack_ok_def unat_eq_0)
  then show ?thesis using assms(1)
    by (auto simp: stack_dequeue_def with_stack_def stack_empty_def set_stack_def split: list.splits)
qed

lemma popped_ok:
  assumes "stack_ok s" and "shead s = x # xs"
  shows "stack_ok (s\<lparr>shead := xs, scount := scount s - 1\<rparr>)"
proof -
  have "scount s \<noteq> 0" using assms by (auto simp: stack_ok_def)
  then have "unat (scount s - 1) = unat (scount s) - 1" by (simp add: unat_minus_one)
  then show ?thesis using assms by (auto simp: stack_ok_def word_le_nat_alt)
qed

lemma sops_refine:
  assumes "sobj w = Some s" and "stack_ok s"
    and "h = heap w + NODE_BYTES * List.length (shead s)" and "NODE_BYTES * 32 \<le> h"
  shows "case lifo (unat (scapacity s)) (shead s) ops of
      Some (rs, ys) \<Rightarrow> (\<exists>w' s'. sops_run ops w = Done rs w' \<and> sobj w' = Some s' \<and> stack_ok s' \<and>
        shead s' = ys \<and> heap w' + NODE_BYTES * List.length ys = h)
    | None \<Rightarrow> (\<exists>w'. sops_run ops w = Exit 1 w')"
  using assms
proof (induction ops arbitrary: w s)
  case Nil
  then show ?case by simp
next
  case (Cons x ops)
  note ok = Cons.prems(2)
  have full: "List.length (shead s) < unat (scapacity s) \<longleftrightarrow> scount s \<noteq> scapacity s"
    using ok by (auto simp: stack_ok_def word_unat_eq_iff word_le_nat_alt)
  show ?case
  proof (cases x)
    case (Push v)
    show ?thesis
    proof (cases "scount s = scapacity s")
      case True
      let ?w = "w\<lparr>stdout := stdout w @ ''Error: Stack is full'' @ newline\<rparr>"
      have r: "stack_enqueue v w = Done (- 1) ?w"
        using Cons.prems True
        by (simp add: stack_enqueue_def with_stack_def stack_full_def)
      show ?thesis using Cons.IH [of ?w s] Cons.prems True full Push r
        by (auto split: option.splits)
    next
      case False
      let ?w = "w\<lparr>heap := heap w - NODE_BYTES, sobj := Some (pushed v s)\<rparr>"
      have "List.length (shead s) < 32"
        using full False ok by (auto simp: stack_ok_def MAX_DEPTH_def word_le_nat_alt)
      then have room: "NODE_BYTES \<le> heap w" using Cons.prems(3,4) by (simp add: NODE_BYTES_def)
      have c: "scapacity (pushed v s) = scapacity s" "shead (pushed v s) = v # shead s"
        by (simp_all add: pushed_def)
      show ?thesis
        using Cons.IH [of ?w "pushed v s"] Cons.prems False full Push c room pushed_ok [OF ok False]
        by (auto simp: push_run split: option.splits)
    qed
  next
    case Pop
    show ?thesis
    proof (cases "shead s")
      case Nil
      then show ?thesis using Cons.prems Pop by (simp add: pop_run)
    next
      case c: (Cons y ys)
      let ?s = "s\<lparr>shead := ys, scount := scount s - 1\<rparr>"
      let ?w = "w\<lparr>heap := heap w + NODE_BYTES, sobj := Some ?s\<rparr>"
      show ?thesis using Cons.IH [of ?w ?s] Cons.prems Pop c popped_ok [OF ok c]
        by (auto simp: pop_run split: option.splits)
    qed
  qed
qed

lemma free_nodes_run: "free_nodes xs w = Done () (w\<lparr>heap := heap w + NODE_BYTES * List.length xs\<rparr>)"
  by (induction xs arbitrary: w) simp_all

text \<open>
  C26. A stack created with room for 32 nodes behaves, under every sequence of pushes and pops,
  as a list of at most \<open>capacity\<close> items, last in first out: a push answers 0, or -1 when the
  stack is full; a pop of an empty stack ends the process with status 1, and every other pop
  returns the constant 9999999. free_stack after any such sequence gives every byte back to
  the heap.
\<close>

theorem stack_is_lifo:
  assumes "cap \<le> MAX_DEPTH" and "STACK_BYTES + 32 * NODE_BYTES \<le> heap w"
  shows "case lifo (unat cap) [] ops of
      Some (rs, ys) \<Rightarrow> (\<exists>w' s w2. ubnd (create_stack cap) (\<lambda>_. sops_run ops) w = Done rs w' \<and>
        sobj w' = Some s \<and> stack_ok s \<and> shead s = ys \<and>
        free_stack w' = Done () w2 \<and> heap w2 = heap w \<and> sobj w2 = None)
    | None \<Rightarrow> (\<exists>w'. ubnd (create_stack cap) (\<lambda>_. sops_run ops) w = Exit 1 w')"
proof -
  let ?s = "\<lparr>scount = 0, scapacity = cap, shead = []\<rparr>"
  let ?w = "w\<lparr>heap := heap w - STACK_BYTES, sobj := Some ?s\<rparr>"
  have c: "create_stack cap w = Done () ?w"
    using assms by (simp add: create_stack_def clib_malloc_def set_stack_def not_less)
  have ok: "stack_ok ?s" using assms(1) by (simp add: stack_ok_def)
  have h: "NODE_BYTES * 32 \<le> heap w - STACK_BYTES" "heap w - STACK_BYTES + STACK_BYTES = heap w"
    using assms(2) by simp_all
  note r = sops_refine [of ?w ?s "heap w - STACK_BYTES" ops, simplified, OF ok h(1)]
  show ?thesis
  proof (cases "lifo (unat cap) [] ops")
    case None
    then show ?thesis using r c by simp
  next
    case (Some p)
    then obtain w' s' where s: "sops_run ops ?w = Done (fst p) w'" "sobj w' = Some s'" "stack_ok s'"
      "shead s' = snd p" "heap w' + NODE_BYTES * List.length (snd p) = heap w - STACK_BYTES"
      using r by (cases p) auto
    have "free_stack w' = Done () (w'\<lparr>heap := heap w, sobj := None\<rparr>)"
      using s h(2) by (simp add: free_stack_def with_stack_def free_nodes_run)
    then show ?thesis using Some s c by (cases p) auto
  qed
qed

lemma stack_is_lifo_witness:
  "\<exists>w' s w2. ubnd (create_stack 2) (\<lambda>_. sops_run [Push 5, Push 6, Push 7, Pop])
     \<lparr>stdout = '''', heap = 600, sobj = None\<rparr> = Done [0, 0, - 1, 9999999] w' \<and>
     sobj w' = Some s \<and> stack_ok s \<and> shead s = [5] \<and>
     free_stack w' = Done () w2 \<and> heap w2 = 600 \<and> sobj w2 = None"
  using stack_is_lifo [of 2 "\<lparr>stdout = '''', heap = 600, sobj = None\<rparr>" "[Push 5, Push 6, Push 7, Pop]"]
  by (simp add: STACK_BYTES_def NODE_BYTES_def MAX_DEPTH_def)

end
