(* ===== verification/HashMap.thy ===== *)
theory HashMap
  imports User_Prelude
begin

section \<open>The chained hash map (Assignment4_Library/part2/my_hashmap.c)\<close>

text \<open>
  A bucket of \<open>arrayOfLists\<close> is \<open>Wild\<close> as long as it holds what malloc's memory happened to
  hold, and \<open>Chain\<close> of its nodes' pairs otherwise, the null pointer being the empty chain. A
  pair remembers the size of the block its value lies in; its key lies in a block of
  \<open>strlen(key)\<close> bytes. \<open>usable n\<close> is the number of bytes a block of \<open>n\<close> can really hold
  (malloc_usable_size of the C library), so that a strcpy past it is a crash. What malloc's
  memory holds is not determined: \<open>junk_null i\<close> tells whether the \<open>i\<close>th pointer of the next
  block it hands out happens to be null, and is an arbitrary function. \<open>hobj\<close> is the map the functions
  are called on, \<open>None\<close> for NULL. Strings are C strings, without their final NUL.
\<close>

record pair =
  pkey :: string
  pvalue :: string
  vbytes :: nat

datatype chain = Wild | Chain "pair list"

record hashmap =
  buckets :: "32 word"
  lists :: "chain list"

record hworld = uworld +
  usable :: "nat \<Rightarrow> nat"
  junk_null :: "nat \<Rightarrow> bool"
  hobj :: "hashmap option"

definition HASHMAP_BYTES :: nat where "HASHMAP_BYTES = 24"
definition PTR_BYTES :: nat where "PTR_BYTES = 8"
definition PAIR_BYTES :: nat where "PAIR_BYTES = 16"
definition HNODE_BYTES :: nat where "HNODE_BYTES = 16"

text \<open>\<open>strlen(myKey) % numberOfBuckets\<close>: the int is converted to \<open>size_t\<close> first.\<close>

definition stringHash :: "string \<Rightarrow> int \<Rightarrow> nat option" where
  "stringHash k n = (if n = 0 then None else Some (List.length k mod nat (n mod 2 ^ 64)))"

definition with_map :: "(hashmap \<Rightarrow> (hworld, 'a) um) \<Rightarrow> (hworld, 'a) um" where
  "with_map f = ubnd (uget hobj) (\<lambda>h. case h of None \<Rightarrow> uexit 1 | Some x \<Rightarrow> f x)"

definition must_malloc :: "nat \<Rightarrow> (hworld, unit) um" where
  "must_malloc n = ubnd (clib_malloc n) (\<lambda>ok.
     if ok then uret () else ucrash ''store through a null pointer'')"

definition strcpy_to :: "nat \<Rightarrow> string \<Rightarrow> (hworld, unit) um" where
  "strcpy_to n t = ubnd (uget usable) (\<lambda>us.
     if List.length t + 1 \<le> us n then uret () else ucrash ''strcpy past the end of the block'')"

definition hashmap_create :: "32 word \<Rightarrow> (hworld, unit) um" where
  "hashmap_create n =
     uthn (must_malloc HASHMAP_BYTES) (
     ubnd (clib_malloc (PTR_BYTES * unat n)) (\<lambda>ok.
     umod (\<lambda>w. w\<lparr>hobj := Some \<lparr>buckets = n,
       lists = (if ok then map (\<lambda>i. if junk_null w i then Chain [] else Wild) [0..<unat n] else [])\<rparr>\<rparr>)))"

definition bucket_of :: "string \<Rightarrow> (hworld, nat) um" where
  "bucket_of k = with_map (\<lambda>h.
     case stringHash k (sint (buckets h)) of
       None \<Rightarrow> ucrash ''division by zero''
     | Some b \<Rightarrow> uret b)"

definition list_at :: "nat \<Rightarrow> (hworld, pair list) um" where
  "list_at b = with_map (\<lambda>h.
     if b < List.length (lists h) then
       (case lists h ! b of
          Wild \<Rightarrow> ucrash ''load through an uninitialised pointer''
        | Chain ps \<Rightarrow> uret ps)
     else ucrash ''load past the end of arrayOfLists'')"

definition set_list :: "nat \<Rightarrow> pair list \<Rightarrow> (hworld, unit) um" where
  "set_list b ps = with_map (\<lambda>h.
     umod (\<lambda>w. w\<lparr>hobj := Some (h\<lparr>lists := (lists h)[b := Chain ps]\<rparr>)\<rparr>))"

fun has_key :: "string \<Rightarrow> pair list \<Rightarrow> bool" where
  "has_key k [] = False"
| "has_key k (p # ps) = (if pkey p = k then True else has_key k ps)"

definition hashmap_hasKey :: "string \<Rightarrow> (hworld, int) um" where
  "hashmap_hasKey k =
     ubnd (bucket_of k) (\<lambda>b. ubnd (list_at b) (\<lambda>ps. uret (if has_key k ps then 1 else 0)))"

definition hashmap_insert :: "string \<Rightarrow> string \<Rightarrow> (hworld, unit) um" where
  "hashmap_insert k v =
     ubnd (hashmap_hasKey k) (\<lambda>r.
     if r = 1 then uret ()
     else
       ubnd (bucket_of k) (\<lambda>b.
       ubnd (list_at b) (\<lambda>ps.
       uthn (must_malloc PAIR_BYTES) (
       uthn (must_malloc (List.length k)) (
       uthn (must_malloc (List.length v)) (
       uthn (strcpy_to (List.length k) k) (
       uthn (strcpy_to (List.length v) v) (
       uthn (must_malloc HNODE_BYTES)
         (set_list b (ps @ [\<lparr>pkey = k, pvalue = v, vbytes = List.length v\<rparr>])))))))))) "

text \<open>The loop \<open>while(strcmp(list->kv->key, key) != 0) list = list->next\<close>: the node it stops at.\<close>

fun walk_to :: "string \<Rightarrow> pair list \<Rightarrow> pair option" where
  "walk_to k [] = None"
| "walk_to k (p # ps) = (if pkey p \<noteq> k then walk_to k ps else Some p)"

definition hashmap_getValue :: "string \<Rightarrow> (hworld, string option) um" where
  "hashmap_getValue k =
     ubnd (hashmap_hasKey k) (\<lambda>r.
     if r = 0 then uret None
     else
       ubnd (bucket_of k) (\<lambda>b.
       ubnd (list_at b) (\<lambda>ps.
       case walk_to k ps of
         None \<Rightarrow> ucrash ''load through a null pointer''
       | Some p \<Rightarrow> uret (Some (pvalue p)))))"

definition free_pair :: "pair \<Rightarrow> (hworld, unit) um" where
  "free_pair p =
     uthn (clib_free (List.length (pkey p))) (
     uthn (clib_free (vbytes p)) (
     uthn (clib_free PAIR_BYTES)
       (clib_free HNODE_BYTES)))"

text \<open>The loop of hashmap_removeKey over \<open>remove\<close> and \<open>prev\<close>: the chain without the node, and it.\<close>

fun unlink_key :: "string \<Rightarrow> pair list \<Rightarrow> (pair \<times> pair list) option" where
  "unlink_key k [] = None"
| "unlink_key k (p # ps) =
     (if pkey p \<noteq> k then map_option (\<lambda>(r, qs). (r, p # qs)) (unlink_key k ps) else Some (p, ps))"

definition hashmap_removeKey :: "string \<Rightarrow> (hworld, unit) um" where
  "hashmap_removeKey k =
     ubnd (hashmap_hasKey k) (\<lambda>r.
     if r = 0 then uret ()
     else
       ubnd (bucket_of k) (\<lambda>b.
       ubnd (list_at b) (\<lambda>ps.
       case ps of
         [] \<Rightarrow> ucrash ''load through a null pointer''
       | p # rest \<Rightarrow>
           if pkey p = k then uthn (set_list b rest) (free_pair p)
           else (case unlink_key k rest of
               None \<Rightarrow> ucrash ''load through a null pointer''
             | Some (r, qs) \<Rightarrow> uthn (set_list b (p # qs)) (free_pair r)))))"

fun set_value :: "string \<Rightarrow> string \<Rightarrow> nat \<Rightarrow> pair list \<Rightarrow> pair list" where
  "set_value k v n [] = []"
| "set_value k v n (p # ps) =
     (if pkey p \<noteq> k then p # set_value k v n ps else p\<lparr>pvalue := v, vbytes := n\<rparr> # ps)"

definition hashmap_update :: "string \<Rightarrow> string \<Rightarrow> (hworld, unit) um" where
  "hashmap_update k v =
     ubnd (hashmap_hasKey k) (\<lambda>r.
     if r = 0 then uret ()
     else
       ubnd (bucket_of k) (\<lambda>b.
       ubnd (list_at b) (\<lambda>ps.
       case walk_to k ps of
         None \<Rightarrow> ucrash ''load through a null pointer''
       | Some p \<Rightarrow>
           uthn (must_malloc PTR_BYTES) (
           uthn (strcpy_to PTR_BYTES v) (
           uthn (set_list b (set_value k v PTR_BYTES ps))
             (clib_free (vbytes p)))))))"

definition hashmap_delete :: "(hworld, unit) um" where
  "hashmap_delete = with_map (\<lambda>h.
     uthn (ufor [0..<unat (buckets h)] (\<lambda>i. ubnd (list_at i) (\<lambda>ps. ufor ps free_pair))) (
     uthn (clib_free (PTR_BYTES * List.length (lists h))) (
     uthn (clib_free HASHMAP_BYTES)
       (umod (\<lambda>w. w\<lparr>hobj := None\<rparr>)))))"

definition hashmap_printKeys :: "(hworld, unit) um" where
  "hashmap_printKeys = with_map (\<lambda>h.
     ufor [0..<nat (sint (buckets h))] (\<lambda>i.
       uthn (uputs (''Bucket '' @ dec i @ '':'' @ newline)) (
       ubnd (list_at i) (\<lambda>ps.
       uthn (ufor ps (\<lambda>p.
         uthn (uputs newline) (
         uthn (uputs (''Key: '' @ pkey p @ newline))
           (uputs (''Value: '' @ pvalue p @ newline)))))
         (uputs newline)))))"

subsection \<open>The map a hash map stands for\<close>

definition bucket_ix :: "hashmap \<Rightarrow> string \<Rightarrow> nat" where
  "bucket_ix h k = List.length k mod unat (buckets h)"

fun chain_pairs :: "chain \<Rightarrow> pair list" where
  "chain_pairs Wild = []"
| "chain_pairs (Chain ps) = ps"

definition map_ok :: "hashmap \<Rightarrow> bool" where
  "map_ok h \<longleftrightarrow> 0 < unat (buckets h) \<and> unat (buckets h) < 2 ^ 31 \<and>
     List.length (lists h) = unat (buckets h) \<and>
     (\<forall>b < unat (buckets h). \<exists>ps. lists h ! b = Chain ps \<and> distinct (map pkey ps))"

definition lookup :: "hashmap \<Rightarrow> string \<Rightarrow> string option" where
  "lookup h k = map_of (map (\<lambda>p. (pkey p, pvalue p)) (chain_pairs (lists h ! bucket_ix h k))) k"

lemma sint_small:
  fixes x :: "32 word"
  assumes "unat x < 2 ^ 31"
  shows "sint x = int (unat x)"
proof -
  have "int (unat x) < int (2 ^ 31)" using assms by (simp only: of_nat_less_iff)
  then have "uint x < 2 ^ 31" by simp
  moreover have "- (2 ^ 31) \<le> uint x" by (rule order_trans [of _ 0]) simp_all
  ultimately have "signed_take_bit 31 (uint x) = uint x"
    by (intro signed_take_bit_int_eq_self) simp_all
  then have "sint x = uint x" by (subst sint_uint) simp
  then show ?thesis by simp
qed

lemma hash_ix:
  assumes "map_ok h"
  shows "stringHash k (sint (buckets h)) = Some (bucket_ix h k)" and "bucket_ix h k < List.length (lists h)"
proof -
  have b: "0 < unat (buckets h)" "unat (buckets h) < 2 ^ 31" "List.length (lists h) = unat (buckets h)"
    using assms by (auto simp: map_ok_def)
  show "stringHash k (sint (buckets h)) = Some (bucket_ix h k)"
  proof -
    define n where "n = unat (buckets h)"
    have n: "sint (buckets h) = int n" "0 < n" "n < 2 ^ 31" using b sint_small [OF b(2)] by (simp_all add: n_def)
    have "nat (int n mod 2 ^ 64) = n" using n by simp
    then show ?thesis using n(2) by (simp add: stringHash_def bucket_ix_def n(1) n_def [symmetric])
  qed
  show "bucket_ix h k < List.length (lists h)" using b by (simp add: bucket_ix_def)
qed

lemma bucket_run:
  assumes "hobj w = Some h" and "map_ok h"
  shows "bucket_of k w = Done (bucket_ix h k) w"
    and "list_at (bucket_ix h k) w = Done (chain_pairs (lists h ! bucket_ix h k)) w"
proof -
  have "bucket_ix h k < unat (buckets h)" using hash_ix [OF assms(2), of k] assms(2) by (simp add: map_ok_def)
  then obtain ps where "lists h ! bucket_ix h k = Chain ps" using assms(2) by (auto simp: map_ok_def)
  then show "list_at (bucket_ix h k) w = Done (chain_pairs (lists h ! bucket_ix h k)) w"
    using assms hash_ix [OF assms(2), of k] by (simp add: list_at_def with_map_def)
  show "bucket_of k w = Done (bucket_ix h k) w"
    using assms hash_ix [OF assms(2), of k] by (simp add: bucket_of_def with_map_def)
qed

lemma has_key_iff: "has_key k ps \<longleftrightarrow> k \<in> pkey ` set ps"
  by (induction ps) auto

lemma lookup_None: "lookup h k = None \<longleftrightarrow> k \<notin> pkey ` set (chain_pairs (lists h ! bucket_ix h k))"
  by (simp add: lookup_def map_of_eq_None_iff image_image)

lemma walk_to_map: "map_option pvalue (walk_to k ps) = map_of (map (\<lambda>p. (pkey p, pvalue p)) ps) k"
  by (induction ps) auto

lemma walk_to_Some: "k \<in> pkey ` set ps \<Longrightarrow> \<exists>p. walk_to k ps = Some p \<and> p \<in> set ps \<and> pkey p = k"
  by (induction ps) auto

lemma hasKey_run:
  assumes "hobj w = Some h" and "map_ok h"
  shows "hashmap_hasKey k w = Done (if lookup h k = None then 0 else 1) w"
  using bucket_run [OF assms, of k] by (simp add: hashmap_hasKey_def has_key_iff lookup_None)

lemma getValue_run:
  assumes "hobj w = Some h" and "map_ok h"
  shows "hashmap_getValue k w = Done (lookup h k) w"
proof (cases "lookup h k")
  case None
  then show ?thesis using hasKey_run [OF assms, of k] by (simp add: hashmap_getValue_def)
next
  case (Some v)
  then obtain p where "walk_to k (chain_pairs (lists h ! bucket_ix h k)) = Some p" "pvalue p = v"
    using walk_to_map [of k "chain_pairs (lists h ! bucket_ix h k)"] by (auto simp: lookup_def)
  then show ?thesis using hasKey_run [OF assms, of k] bucket_run [OF assms, of k] Some
    by (simp add: hashmap_getValue_def)
qed

text \<open>Replacing the chain of the key's bucket.\<close>

definition with_chain :: "string \<Rightarrow> pair list \<Rightarrow> hashmap \<Rightarrow> hashmap" where
  "with_chain k ps h = h\<lparr>lists := (lists h)[bucket_ix h k := Chain ps]\<rparr>"

lemma set_list_run:
  assumes "hobj w = Some h"
  shows "set_list (bucket_ix h k) ps w = Done () (w\<lparr>hobj := Some (with_chain k ps h)\<rparr>)"
  using assms by (simp add: set_list_def with_map_def with_chain_def)

lemma with_chain_ok:
  assumes "map_ok h" and "distinct (map pkey ps)"
  shows "map_ok (with_chain k ps h)"
  using assms hash_ix(2) [OF assms(1), of k]
  by (auto simp: map_ok_def with_chain_def nth_list_update split: if_splits)

lemma with_chain_lookup:
  assumes "map_ok h"
    and "\<And>j. map_of (map (\<lambda>p. (pkey p, pvalue p)) ps) j =
      (if j = k then r else map_of (map (\<lambda>p. (pkey p, pvalue p)) (chain_pairs (lists h ! bucket_ix h k))) j)"
  shows "lookup (with_chain k ps h) = (lookup h)(k := r)"
proof
  fix j
  have b: "bucket_ix (with_chain k ps h) j = bucket_ix h j" by (simp add: bucket_ix_def with_chain_def)
  show "lookup (with_chain k ps h) j = ((lookup h)(k := r)) j"
  proof (cases "bucket_ix h j = bucket_ix h k")
    case True
    have "lists (with_chain k ps h) ! bucket_ix h j = Chain ps"
      using True hash_ix(2) [OF assms(1), of k] by (simp add: with_chain_def)
    then show ?thesis using assms(2) [of j] True by (simp add: lookup_def b)
  next
    case False
    then have "lists (with_chain k ps h) ! bucket_ix h j = lists h ! bucket_ix h j"
      by (simp add: with_chain_def)
    then show ?thesis using False by (auto simp: lookup_def b)
  qed
qed

lemma chain_distinct:
  assumes "map_ok h" shows "distinct (map pkey (chain_pairs (lists h ! bucket_ix h k)))"
proof -
  have "bucket_ix h k < unat (buckets h)" using hash_ix(2) [OF assms, of k] assms by (simp add: map_ok_def)
  then show ?thesis using assms by (auto simp: map_ok_def)
qed

lemma unlink_key_facts:
  assumes "k \<in> pkey ` set ps" and "distinct (map pkey ps)"
  shows "\<exists>r qs. unlink_key k ps = Some (r, qs) \<and> distinct (map pkey qs) \<and> pkey ` set qs = pkey ` set ps - {k} \<and>
    (\<forall>j. map_of (map (\<lambda>p. (pkey p, pvalue p)) qs) j =
       (if j = k then None else map_of (map (\<lambda>p. (pkey p, pvalue p)) ps) j))"
  using assms
proof (induction ps)
  case (Cons p ps)
  show ?case
  proof (cases "pkey p = k")
    case True
    then have "k \<notin> pkey ` set ps" using Cons.prems by auto
    then show ?thesis using True Cons.prems by (auto simp: map_of_eq_None_iff image_image)
  next
    case False
    then show ?thesis using Cons by (auto simp: image_iff)
  qed
qed simp

lemma set_value_facts:
  assumes "k \<in> pkey ` set ps"
  shows "map pkey (set_value k v n ps) = map pkey ps"
    and "map_of (map (\<lambda>p. (pkey p, pvalue p)) (set_value k v n ps)) j =
       (if j = k then Some v else map_of (map (\<lambda>p. (pkey p, pvalue p)) ps) j)"
proof -
  show "map pkey (set_value k v n ps) = map pkey ps"
    using assms by (induction ps) auto
  show "map_of (map (\<lambda>p. (pkey p, pvalue p)) (set_value k v n ps)) j =
       (if j = k then Some v else map_of (map (\<lambda>p. (pkey p, pvalue p)) ps) j)"
    using assms by (induction ps) auto
qed

subsection \<open>Sequences of operations against a finite map\<close>

datatype hop = Insert string string | Remove string | Update string string | Get string | Has string

datatype hres = RUnit | RVal "string option" | RBool int

fun hop_run :: "hop \<Rightarrow> (hworld, hres) um" where
  "hop_run (Insert k v) = uthn (hashmap_insert k v) (uret RUnit)"
| "hop_run (Remove k) = uthn (hashmap_removeKey k) (uret RUnit)"
| "hop_run (Update k v) = uthn (hashmap_update k v) (uret RUnit)"
| "hop_run (Get k) = ubnd (hashmap_getValue k) (\<lambda>r. uret (RVal r))"
| "hop_run (Has k) = ubnd (hashmap_hasKey k) (\<lambda>r. uret (RBool r))"

primrec hops_run :: "hop list \<Rightarrow> (hworld, hres list) um" where
  "hops_run [] = uret []"
| "hops_run (x # xs) = ubnd (hop_run x) (\<lambda>r. ubnd (hops_run xs) (\<lambda>rs. uret (r # rs)))"

fun spec_op :: "hop \<Rightarrow> (string \<rightharpoonup> string) \<Rightarrow> hres \<times> (string \<rightharpoonup> string)" where
  "spec_op (Insert k v) m = (RUnit, if m k = None then m(k \<mapsto> v) else m)"
| "spec_op (Remove k) m = (RUnit, m(k := None))"
| "spec_op (Update k v) m = (RUnit, if m k = None then m else m(k \<mapsto> v))"
| "spec_op (Get k) m = (RVal (m k), m)"
| "spec_op (Has k) m = (RBool (if m k = None then 0 else 1), m)"

primrec spec_ops :: "hop list \<Rightarrow> (string \<rightharpoonup> string) \<Rightarrow> hres list \<times> (string \<rightharpoonup> string)" where
  "spec_ops [] m = ([], m)"
| "spec_ops (x # xs) m =
     (let (r, m1) = spec_op x m; (rs, m2) = spec_ops xs m1 in (r # rs, m2))"

text \<open>
  The strings an operation copies, when it copies any, fit with their NUL the blocks it copies
  them to. What an operation may allocate.
\<close>

fun copies_fit :: "(nat \<Rightarrow> nat) \<Rightarrow> hop \<Rightarrow> (string \<rightharpoonup> string) \<Rightarrow> bool" where
  "copies_fit us (Insert k v) m \<longleftrightarrow>
     m k \<noteq> None \<or> (List.length k < us (List.length k) \<and> List.length v < us (List.length v))"
| "copies_fit us (Update k v) m \<longleftrightarrow> m k = None \<or> List.length v < us PTR_BYTES"
| "copies_fit us _ m \<longleftrightarrow> True"

primrec all_fit :: "(nat \<Rightarrow> nat) \<Rightarrow> hop list \<Rightarrow> (string \<rightharpoonup> string) \<Rightarrow> bool" where
  "all_fit us [] m \<longleftrightarrow> True"
| "all_fit us (x # xs) m \<longleftrightarrow> copies_fit us x m \<and> all_fit us xs (snd (spec_op x m))"

fun op_bytes :: "hop \<Rightarrow> nat" where
  "op_bytes (Insert k v) = PAIR_BYTES + List.length k + List.length v + HNODE_BYTES"
| "op_bytes (Update k v) = PTR_BYTES"
| "op_bytes _ = 0"

lemma must_malloc_run: "n \<le> heap w \<Longrightarrow> must_malloc n w = Done () (w\<lparr>heap := heap w - n\<rparr>)"
  by (simp add: must_malloc_def clib_malloc_def)

lemma strcpy_to_run: "List.length t < usable w n \<Longrightarrow> strcpy_to n t w = Done () w"
  by (simp add: strcpy_to_def)

lemma free_pair_run: "\<exists>n. free_pair p w = Done () (w\<lparr>heap := heap w + n\<rparr>)"
  by (simp add: free_pair_def) (metis add.assoc)

definition refined :: "nat \<Rightarrow> hworld \<Rightarrow> hworld \<Rightarrow> (string \<rightharpoonup> string) \<Rightarrow> bool" where
  "refined n w w' m \<longleftrightarrow> (\<exists>h. hobj w' = Some h \<and> map_ok h \<and> lookup h = m) \<and> usable w' = usable w \<and>
     heap w \<le> heap w' + n"

lemma hop_refine:
  assumes "hobj w = Some h" and "map_ok h" and "copies_fit (usable w) x (lookup h)" and "op_bytes x \<le> heap w"
  shows "\<exists>w'. hop_run x w = Done (fst (spec_op x (lookup h))) w' \<and>
    refined (op_bytes x) w w' (snd (spec_op x (lookup h)))"
proof (cases x)
  case (Insert k v)
  let ?ps = "chain_pairs (lists h ! bucket_ix h k)"
  let ?qs = "?ps @ [\<lparr>pkey = k, pvalue = v, vbytes = List.length v\<rparr>]"
  show ?thesis
  proof (cases "lookup h k")
    case None
    then have nk: "k \<notin> pkey ` set ?ps" by (simp add: lookup_None)
    have d: "distinct (map pkey ?qs)" using chain_distinct [OF assms(2), of k] nk by simp
    have l: "lookup (with_chain k ?qs h) = (lookup h)(k \<mapsto> v)"
    proof (rule with_chain_lookup [OF assms(2)])
      have "map_of (map (\<lambda>p. (pkey p, pvalue p)) ?ps) k = None"
        using nk by (simp add: map_of_eq_None_iff image_image)
      then show "map_of (map (\<lambda>p. (pkey p, pvalue p)) ?qs) j = (if j = k then Some v
         else map_of (map (\<lambda>p. (pkey p, pvalue p)) ?ps) j)" for j
        by (auto simp: map_add_def split: option.splits)
    qed
    show ?thesis using assms Insert None d l hasKey_run [OF assms(1,2), of k] bucket_run [OF assms(1,2), of k]
      by (simp add: hashmap_insert_def must_malloc_run strcpy_to_run set_list_run refined_def with_chain_ok)
  qed (use assms Insert hasKey_run [OF assms(1,2), of k] in \<open>auto simp: hashmap_insert_def refined_def\<close>)
next
  case (Remove k)
  let ?ps = "chain_pairs (lists h ! bucket_ix h k)"
  show ?thesis
  proof (cases "lookup h k")
    case None
    then have "(lookup h)(k := None) = lookup h" by (simp add: fun_upd_idem)
    then show ?thesis using None assms Remove hasKey_run [OF assms(1,2), of k]
      by (simp add: hashmap_removeKey_def refined_def)
  next
    case (Some v)
    then have k: "k \<in> pkey ` set ?ps" using lookup_None [of h k] by auto
    then obtain p rest where ps: "?ps = p # rest" by (cases ?ps) auto
    obtain r qs where u: "unlink_key k ?ps = Some (r, qs)" "distinct (map pkey qs)"
      "\<And>j. map_of (map (\<lambda>p. (pkey p, pvalue p)) qs) j =
         (if j = k then None else map_of (map (\<lambda>p. (pkey p, pvalue p)) ?ps) j)"
      using unlink_key_facts [OF k chain_distinct [OF assms(2)]] by blast
    have l: "lookup (with_chain k qs h) = (lookup h)(k := None)"
      using u(3) by (rule with_chain_lookup [OF assms(2)])
    have "hashmap_removeKey k w = uobind (set_list (bucket_ix h k) qs w) (\<lambda>_. free_pair r)"
      using Some assms hasKey_run [OF assms(1,2), of k] bucket_run [OF assms(1,2), of k] u(1) ps
      by (auto simp: hashmap_removeKey_def split: if_splits)
    then show ?thesis
      using l u(2) assms Remove free_pair_run [of r "w\<lparr>hobj := Some (with_chain k qs h)\<rparr>"]
      by (auto simp: set_list_run refined_def with_chain_ok)
  qed
next
  case (Update k v)
  let ?ps = "chain_pairs (lists h ! bucket_ix h k)"
  let ?qs = "set_value k v PTR_BYTES ?ps"
  show ?thesis
  proof (cases "lookup h k")
    case (Some u)
    then have k: "k \<in> pkey ` set ?ps" using lookup_None [of h k] by auto
    obtain p where p: "walk_to k ?ps = Some p" using walk_to_Some [OF k] by blast
    have l: "lookup (with_chain k ?qs h) = (lookup h)(k \<mapsto> v)"
      using set_value_facts(2) [OF k] by (rule with_chain_lookup [OF assms(2)])
    have "distinct (map pkey ?qs)" using set_value_facts(1) [OF k] chain_distinct [OF assms(2)] by simp
    then show ?thesis
      using Some assms Update l p hasKey_run [OF assms(1,2), of k] bucket_run [OF assms(1,2), of k]
      by (simp add: hashmap_update_def must_malloc_run strcpy_to_run set_list_run refined_def with_chain_ok)
  qed (use assms Update hasKey_run [OF assms(1,2), of k] in \<open>auto simp: hashmap_update_def refined_def\<close>)
next
  case (Get k)
  then show ?thesis using assms getValue_run [OF assms(1,2)] by (simp add: refined_def)
next
  case (Has k)
  then show ?thesis using assms hasKey_run [OF assms(1,2)] by (simp add: refined_def)
qed

lemma strcpy_to_crash:
  "\<not> List.length t < usable w n \<Longrightarrow> strcpy_to n t w = Crash ''strcpy past the end of the block''"
  by (simp add: strcpy_to_def)

lemma hop_crash:
  assumes "hobj w = Some h" and "map_ok h" and "\<not> copies_fit (usable w) x (lookup h)" and "op_bytes x \<le> heap w"
  shows "hop_run x w = Crash ''strcpy past the end of the block''"
proof (cases x)
  case (Insert k v)
  then have "lookup h k = None" and no: "\<not> List.length k < usable w (List.length k) \<or>
    \<not> List.length v < usable w (List.length v)"
    using assms(3) by auto
  show ?thesis
  proof (cases "List.length k < usable w (List.length k)")
    case True
    then have "\<not> List.length v < usable w (List.length v)" using no by simp
    then show ?thesis
      using True Insert \<open>lookup h k = None\<close> assms(4) hasKey_run [OF assms(1,2), of k] bucket_run [OF assms(1,2), of k]
      by (simp add: hashmap_insert_def must_malloc_run strcpy_to_run strcpy_to_crash)
  next
    case False
    then show ?thesis
      using Insert \<open>lookup h k = None\<close> assms(4) hasKey_run [OF assms(1,2), of k] bucket_run [OF assms(1,2), of k]
      by (simp add: hashmap_insert_def must_malloc_run strcpy_to_crash)
  qed
next
  case (Update k v)
  then have u: "lookup h k \<noteq> None" and no: "\<not> List.length v < usable w PTR_BYTES" using assms(3) by auto
  have "k \<in> pkey ` set (chain_pairs (lists h ! bucket_ix h k))" using u by (simp add: lookup_None)
  then obtain p where "walk_to k (chain_pairs (lists h ! bucket_ix h k)) = Some p" using walk_to_Some by blast
  then show ?thesis
    using Update u no assms(4) hasKey_run [OF assms(1,2), of k] bucket_run [OF assms(1,2), of k]
    by (simp add: hashmap_update_def must_malloc_run strcpy_to_crash)
qed (use assms(3) in auto)

lemma hops_refine:
  assumes "hobj w = Some h" and "map_ok h" and "sum_list (map op_bytes ops) \<le> heap w"
  shows "if all_fit (usable w) ops (lookup h)
     then \<exists>w' h'. hops_run ops w = Done (fst (spec_ops ops (lookup h))) w' \<and> hobj w' = Some h' \<and>
       map_ok h' \<and> lookup h' = snd (spec_ops ops (lookup h))
     else hops_run ops w = Crash ''strcpy past the end of the block''"
  using assms
proof (induction ops arbitrary: w h)
  case Nil
  then show ?case by auto
next
  case (Cons x ops)
  show ?case
  proof (cases "copies_fit (usable w) x (lookup h)")
    case True
    obtain w1 where r: "hop_run x w = Done (fst (spec_op x (lookup h))) w1"
      "refined (op_bytes x) w w1 (snd (spec_op x (lookup h)))"
      using hop_refine [OF Cons.prems(1,2) True] Cons.prems(3) by auto
    then obtain h1 where h1: "hobj w1 = Some h1" "map_ok h1" "lookup h1 = snd (spec_op x (lookup h))"
      by (auto simp: refined_def)
    have "sum_list (map op_bytes ops) \<le> heap w1" and u: "usable w1 = usable w"
      using Cons.prems(3) r(2) by (auto simp: refined_def)
    note IH = Cons.IH [OF h1(1,2) this(1), unfolded u h1(3)]
    then show ?thesis using r(1) True
      by (auto simp: case_prod_beta Let_def uobind_Done_iff split: if_splits)
  next
    case False
    then show ?thesis using hop_crash [OF Cons.prems(1,2) False] Cons.prems(3) by simp
  qed
qed


text \<open>The calls of main.c's unitTest1, whose update overruns a block of 8 bytes that holds 24.\<close>

definition unit_test1 :: "hop list" where
  "unit_test1 = [Insert ''pig'' ''a farm animal'', Has ''pig'', Get ''pig'',
     Update ''pig'' ''a really cool farm animal'', Get ''pig'', Remove ''pig'', Has ''pig'']"


subsection \<open>A map that has just been created\<close>

lemma hashmap_create_run:
  assumes "HASHMAP_BYTES + PTR_BYTES * unat n \<le> heap w"
  shows "hashmap_create n w = Done () (w\<lparr>heap := heap w - HASHMAP_BYTES - PTR_BYTES * unat n,
    hobj := Some \<lparr>buckets = n, lists = map (\<lambda>i. if junk_null w i then Chain [] else Wild) [0..<unat n]\<rparr>\<rparr>)"
  using assms by (simp add: hashmap_create_def must_malloc_def clib_malloc_def)

fun op_key :: "hop \<Rightarrow> string" where
  "op_key (Insert k v) = k"
| "op_key (Remove k) = k"
| "op_key (Update k v) = k"
| "op_key (Get k) = k"
| "op_key (Has k) = k"

lemma wild_hasKey:
  assumes "hobj w = Some h" and "0 < unat (buckets h)" and "unat (buckets h) < 2 ^ 31"
    and "List.length (lists h) = unat (buckets h)" and "lists h ! bucket_ix h k = Wild"
  shows "hashmap_hasKey k w = Crash ''load through an uninitialised pointer''"
proof -
  have b: "bucket_ix h k < unat (buckets h)" using assms(2) by (simp add: bucket_ix_def)
  have "stringHash k (sint (buckets h)) = Some (bucket_ix h k)"
    using hash_ix(1) [of "h\<lparr>lists := replicate (unat (buckets h)) (Chain [])\<rparr>" k] assms(2,3)
    by (simp add: map_ok_def bucket_ix_def)
  then show ?thesis using assms b
    by (simp add: hashmap_hasKey_def bucket_of_def list_at_def with_map_def)
qed

text \<open>
  C28. hashmap_create does not set the bucket heads: each of them is whatever malloc's block
  holds. The first operation on the map, an insert as well as any other, follows a pointer that
  was never stored when the head of its key's bucket does not happen to be null; only when all of
  them happen to be null is the new map well formed, and then it is empty.
\<close>

theorem fresh_map_unusable:
  assumes "0 < unat n" and "unat n < 2 ^ 31" and "HASHMAP_BYTES + PTR_BYTES * unat n \<le> heap w"
  shows "(\<not> junk_null w (List.length (op_key x) mod unat n) \<longrightarrow>
       ubnd (hashmap_create n) (\<lambda>_. hop_run x) w = Crash ''load through an uninitialised pointer'') \<and>
     (\<exists>w' h. hashmap_create n w = Done () w' \<and> hobj w' = Some h \<and>
       heap w' + HASHMAP_BYTES + PTR_BYTES * unat n = heap w \<and>
       (map_ok h \<longleftrightarrow> (\<forall>i < unat n. junk_null w i)) \<and> (map_ok h \<longrightarrow> lookup h = (\<lambda>_. None)))"
proof -
  let ?h = "\<lparr>buckets = n, lists = map (\<lambda>i. if junk_null w i then Chain [] else Wild) [0..<unat n]\<rparr>"
  let ?w = "w\<lparr>heap := heap w - HASHMAP_BYTES - PTR_BYTES * unat n, hobj := Some ?h\<rparr>"
  have b: "List.length k mod unat n < unat n" for k :: string using assms(1) by simp
  have ok: "map_ok ?h \<longleftrightarrow> (\<forall>i < unat n. junk_null w i)"
    using assms(1,2) by (auto simp: map_ok_def split: if_splits)
  have "hashmap_hasKey (op_key x) ?w = Crash ''load through an uninitialised pointer''"
    if "\<not> junk_null w (List.length (op_key x) mod unat n)"
    using that assms(1,2) b [of "op_key x"] by (intro wild_hasKey [of _ ?h]) (simp_all add: bucket_ix_def)
  then have "hop_run x ?w = Crash ''load through an uninitialised pointer''"
    if "\<not> junk_null w (List.length (op_key x) mod unat n)"
    using that by (cases x) (simp_all add: hashmap_insert_def hashmap_removeKey_def hashmap_update_def
      hashmap_getValue_def)
  moreover have "lookup ?h k = None" if "map_ok ?h" for k
    using that b [of k] unfolding ok by (simp add: lookup_def bucket_ix_def)
  then have "lookup ?h = (\<lambda>_. None)" if "map_ok ?h" using that by blast
  ultimately show ?thesis using assms(3) ok hashmap_create_run [OF assms(3)] by (simp del: map_map)
qed

lemma fresh_map_unusable_witness:
  "let w = \<lparr>stdout = '''', heap = 500, usable = (\<lambda>n. n), junk_null = (\<lambda>i. i \<noteq> 2), hobj = None\<rparr> in
   ubnd (hashmap_create 4) (\<lambda>_. hop_run (Insert ''ab'' ''1'')) w =
     Crash ''load through an uninitialised pointer'' \<and>
   (\<exists>w' h. hashmap_create 4 w = Done () w' \<and> hobj w' = Some h \<and> heap w' = 444 \<and> \<not> map_ok h)"
  using fresh_map_unusable [of 4 "\<lparr>stdout = '''', heap = 500, usable = (\<lambda>n. n), junk_null = (\<lambda>i. i \<noteq> 2), hobj = None\<rparr>"
    "Insert ''ab'' ''1''"]
  by (simp add: HASHMAP_BYTES_def PTR_BYTES_def) force

end
