(* ===== verification/MyMalloc.thy ===== *)
theory MyMalloc
  imports User_Prelude
begin

section \<open>The best-fit allocator (Assignment6_MemoryAllocator1/part1/mymalloc.c)\<close>

text \<open>
  \<open>chain\<close> is the linked list that starts at \<open>block_head\<close>: the address and the header of each
  block in the order of the \<open>next\<close> pointers, which only the allocator writes. A header takes
  BLOCK_SIZE = 24 bytes of a 64-bit machine. \<open>brk\<close> is the program break, which sbrk moves
  inside \<open>[brk_low, brk_high]\<close>. Sizes are \<open>size_t\<close>, so that \<open>s + BLOCK_SIZE\<close> wraps.

  malloc.h replaces the calls of malloc and free in this file by mymalloc and myfree.
\<close>

record block =
  bsize :: "64 word"
  bfree :: bool

record mworld =
  mout :: string
  chain :: "(nat \<times> block) list"
  brk :: nat
  brk_low :: nat
  brk_high :: nat

definition BLOCK_SIZE :: "64 word" where "BLOCK_SIZE = 24"

definition mputs :: "string \<Rightarrow> (mworld, unit) um" where
  "mputs t = umod (\<lambda>w. w\<lparr>mout := mout w @ t\<rparr>)"

definition sbrk :: "64 word \<Rightarrow> (mworld, nat option) um" where
  "sbrk n w =
     (let new = int (brk w) + sint n in
      if int (brk_low w) \<le> new \<and> new \<le> int (brk_high w)
      then Done (Some (brk w)) (w\<lparr>brk := nat new\<rparr>) else Done None w)"

fun best_fit :: "64 word \<Rightarrow> (nat \<times> block) option \<Rightarrow> (nat \<times> block) list \<Rightarrow> (nat \<times> block) option" where
  "best_fit s opt [] = opt"
| "best_fit s opt (b # bs) =
     best_fit s
       (if s \<le> bsize (snd b) \<and> bfree (snd b) then
          (case opt of
             None \<Rightarrow> Some b
           | Some c \<Rightarrow> if bsize (snd b) < bsize (snd c) then Some b else opt)
        else opt) bs"

definition findOptimalFreeBlock :: "64 word \<Rightarrow> (mworld, nat option) um" where
  "findOptimalFreeBlock s = uget (\<lambda>w. map_option fst (best_fit s None (chain w)))"

definition getLastBlock :: "(mworld, nat option) um" where
  "getLastBlock = uget (\<lambda>w. if chain w = [] then None else Some (fst (last (chain w))))"

definition extendMemory :: "64 word \<Rightarrow> (mworld, nat option) um" where
  "extendMemory s =
     ubnd getLastBlock (\<lambda>last.
     ubnd (sbrk (s + BLOCK_SIZE)) (\<lambda>nb.
     case nb of
       None \<Rightarrow> uret None
     | Some a \<Rightarrow>
         uthn (umod (\<lambda>w. w\<lparr>chain := (case last of
             None \<Rightarrow> [(a, \<lparr>bsize = s, bfree = False\<rparr>)]
           | Some l \<Rightarrow> chain w @ [(a, \<lparr>bsize = s, bfree = False\<rparr>)])\<rparr>))
         (uret (Some (a + unat BLOCK_SIZE)))))"

definition set_free :: "nat \<Rightarrow> bool \<Rightarrow> (nat \<times> block) list \<Rightarrow> (nat \<times> block) list" where
  "set_free a f = map (\<lambda>(c, b). (c, if c = a then b\<lparr>bfree := f\<rparr> else b))"

definition mymalloc :: "64 word \<Rightarrow> (mworld, nat option) um" where
  "mymalloc s =
     ubnd (findOptimalFreeBlock s) (\<lambda>best.
     case best of
       Some a \<Rightarrow>
         uthn (umod (\<lambda>w. w\<lparr>chain := set_free a False (chain w)\<rparr>)) (
         uthn (mputs (''malloc '' @ dec (unat s) @ '' bytes'' @ newline))
         (uret (Some (a + unat BLOCK_SIZE))))
     | None \<Rightarrow>
         ubnd (extendMemory s) (\<lambda>p.
         case p of
           None \<Rightarrow> uret None
         | Some q \<Rightarrow>
             uthn (mputs (''malloc '' @ dec (unat s) @ '' bytes'' @ newline))
             (uret (Some q))))"

text \<open>The zeroing memset has no meaning through the null pointer mymalloc returns on failure.\<close>

definition mycalloc :: "64 word \<Rightarrow> 64 word \<Rightarrow> (mworld, nat option) um" where
  "mycalloc nmemb s =
     (if nmemb = 0 \<or> s = 0 then uret None
      else
        ubnd (mymalloc (nmemb * s)) (\<lambda>p.
        case p of
          None \<Rightarrow> ucrash ''memset through a null pointer''
        | Some q \<Rightarrow>
            uthn (mputs (''calloc '' @ dec (unat s) @ '' bytes'' @ newline))
            (uret (Some q))))"

text \<open>
  The last statement of myfree, \<open>free(ptr)\<close>, is myfree itself; a pointer that is not 24 bytes
  into a block has no header to read.
\<close>

function myfree :: "nat \<Rightarrow> mworld \<Rightarrow> (unit, mworld) uout" where
  "myfree ptr w =
     (if ptr = 0 then Done () w
      else case map_of (chain w) (ptr - unat BLOCK_SIZE) of
        None \<Rightarrow> Crash ''no block header before the pointer''
      | Some b \<Rightarrow>
          if bfree b then Done () w
          else myfree ptr (w\<lparr>chain := set_free (ptr - unat BLOCK_SIZE) True (chain w),
            mout := mout w @ ''Freed some memory'' @ newline\<rparr>))"
  by pat_completeness auto

fun busy :: "(nat \<times> block) list \<Rightarrow> nat" where
  "busy [] = 0"
| "busy ((a, b) # bs) = (if bfree b then busy bs else Suc (busy bs))"

lemma set_free_Cons:
  "set_free a f ((c, b) # bs) = (c, if c = a then b\<lparr>bfree := f\<rparr> else b) # set_free a f bs"
  by (simp add: set_free_def)

lemma set_free_Nil: "set_free a f [] = []"
  by (simp add: set_free_def)

lemma busy_set_free_le: "busy (set_free a True bs) \<le> busy bs"
  by (induction bs rule: busy.induct) (auto simp: set_free_Cons set_free_Nil le_SucI)

lemma busy_set_free: "map_of bs a = Some b \<Longrightarrow> \<not> bfree b \<Longrightarrow> busy (set_free a True bs) < busy bs"
  by (induction bs rule: busy.induct)
    (auto simp: set_free_Cons set_free_Nil less_Suc_eq_le busy_set_free_le split: if_splits)

termination myfree
  by (relation "measure (\<lambda>(p, w). busy (chain w))") (auto simp: busy_set_free)

declare myfree.simps [simp del]

subsection \<open>The blocks tile disjoint pieces of the heap\<close>

text \<open>Each block with its header ends at or before the start of the next one and before the break.\<close>

fun laid_out :: "nat \<Rightarrow> (nat \<times> block) list \<Rightarrow> nat \<Rightarrow> bool" where
  "laid_out lo [] hi \<longleftrightarrow> lo \<le> hi"
| "laid_out lo ((a, b) # bs) hi \<longleftrightarrow> lo \<le> a \<and> laid_out (a + 24 + unat (bsize b)) bs hi"

definition malloc_inv :: "mworld \<Rightarrow> bool" where
  "malloc_inv w \<longleftrightarrow> laid_out (brk_low w) (chain w) (brk w) \<and> brk w \<le> brk_high w \<and> 0 < brk_low w"

definition live :: "mworld \<Rightarrow> nat set" where
  "live w = set (map (\<lambda>x. fst x + 24) (filter (\<lambda>x. \<not> bfree (snd x)) (chain w)))"

definition area :: "mworld \<Rightarrow> nat \<Rightarrow> nat set" where
  "area w p = (case map_of (chain w) (p - 24) of None \<Rightarrow> {} | Some b \<Rightarrow> {p ..< p + unat (bsize b)})"

lemma laid_out_mono: "laid_out lo bs hi \<Longrightarrow> lo' \<le> lo \<Longrightarrow> hi \<le> hi' \<Longrightarrow> laid_out lo' bs hi'"
  by (induction bs arbitrary: lo lo') auto

lemma laid_out_append:
  "laid_out lo (bs @ [(a, b)]) hi \<longleftrightarrow> laid_out lo bs a \<and> a + 24 + unat (bsize b) \<le> hi"
  by (induction lo bs a rule: laid_out.induct) auto

lemma laid_out_bounds:
  "laid_out lo bs hi \<Longrightarrow> (a, b) \<in> set bs \<Longrightarrow> lo \<le> a \<and> a + 24 + unat (bsize b) \<le> hi"
proof (induction lo bs hi rule: laid_out.induct)
  case (2 lo c d bs hi)
  have "c + 24 + unat (bsize d) \<le> hi" if "laid_out (c + 24 + unat (bsize d)) bs hi"
    using that by (induction "c + 24 + unat (bsize d)" bs hi arbitrary: c d rule: laid_out.induct) fastforce+
  then show ?case using 2 by fastforce
qed simp

lemma laid_out_disjoint:
  assumes "laid_out lo bs hi" and "(a, b) \<in> set bs" and "(c, d) \<in> set bs" and "(a, b) \<noteq> (c, d)"
  shows "a + 24 + unat (bsize b) \<le> c \<or> c + 24 + unat (bsize d) \<le> a"
  using assms
proof (induction lo bs hi rule: laid_out.induct)
  case (2 lo e f bs hi)
  then show ?case using laid_out_bounds [of _ bs hi a b] laid_out_bounds [of _ bs hi c d] by fastforce
qed simp

lemma laid_out_distinct: "laid_out lo bs hi \<Longrightarrow> distinct (map fst bs)"
proof (induction lo bs hi rule: laid_out.induct)
  case (2 lo e f bs hi)
  then show ?case using laid_out_bounds [of _ bs hi e] by fastforce
qed simp

lemma map_of_block: "laid_out lo bs hi \<Longrightarrow> map_of bs a = Some b \<longleftrightarrow> (a, b) \<in> set bs"
  using laid_out_distinct [of lo bs hi] by (auto intro: map_of_is_SomeI dest: map_of_SomeD)

lemma block_unique: "laid_out lo bs hi \<Longrightarrow> (a, b) \<in> set bs \<Longrightarrow> (a, c) \<in> set bs \<Longrightarrow> b = c"
  using map_of_block [of lo bs hi a] by (metis option.inject)

lemma set_free_set: "(c, b) \<in> set (set_free a f bs) \<longleftrightarrow>
    (\<exists>d. (c, d) \<in> set bs \<and> b = (if c = a then d\<lparr>bfree := f\<rparr> else d))"
  by (force simp: set_free_def)

lemma set_free_laid_out: "laid_out lo (set_free a f bs) hi \<longleftrightarrow> laid_out lo bs hi"
  by (induction lo bs hi rule: laid_out.induct) (auto simp: set_free_Nil set_free_Cons)

lemma best_fit_facts:
  assumes "best_fit s opt bs = r"
    and "\<And>b. opt = Some b \<Longrightarrow> s \<le> bsize (snd b) \<and> bfree (snd b)"
  shows "case r of
      None \<Rightarrow> opt = None \<and> (\<forall>b \<in> set bs. \<not> (s \<le> bsize (snd b) \<and> bfree (snd b)))
    | Some b \<Rightarrow> (b \<in> set bs \<or> opt = Some b) \<and> s \<le> bsize (snd b) \<and> bfree (snd b) \<and>
        (\<forall>c \<in> set bs. s \<le> bsize (snd c) \<and> bfree (snd c) \<longrightarrow> bsize (snd b) \<le> bsize (snd c)) \<and>
        (\<forall>c. opt = Some c \<longrightarrow> bsize (snd b) \<le> bsize (snd c))"
  using assms
proof (induction bs arbitrary: opt)
  case Nil
  then show ?case by (auto split: option.splits)
next
  case (Cons b bs)
  define o2 where "o2 = (if s \<le> bsize (snd b) \<and> bfree (snd b) then
          (case opt of
             None \<Rightarrow> Some b
           | Some c \<Rightarrow> if bsize (snd b) < bsize (snd c) then Some b else opt)
        else opt)"
  have o2: "best_fit s o2 bs = r" using Cons.prems(1) by (simp add: o2_def)
  have fit: "s \<le> bsize (snd c) \<and> bfree (snd c)" if "o2 = Some c" for c
    using that Cons.prems(2) by (auto simp: o2_def split: if_splits option.splits)
  show ?case
  proof (cases r)
    case None
    then show ?thesis using Cons.IH [OF o2 fit] by (auto simp: o2_def split: if_splits option.splits)
  next
    case (Some d)
    note ih = Cons.IH [OF o2 fit, unfolded Some, simplified]
    have "bsize (snd d) \<le> bsize (snd c)" if "o2 = Some c" for c using ih that by (cases c) auto
    then show ?thesis using ih Some
      by (auto simp: o2_def split: if_splits option.splits intro: order_trans less_imp_le)
  qed
qed

lemma sbrk_grow:
  assumes "unat n < 2 ^ 63"
  shows "sbrk n w = (if brk w + unat n \<le> brk_high w \<and> brk_low w \<le> brk w + unat n
     then Done (Some (brk w)) (w\<lparr>brk := brk w + unat n\<rparr>) else Done None w)"
proof -
  have "int (unat n) < int (2 ^ 63)" using assms by (simp only: of_nat_less_iff)
  then have "uint n < 2 ^ 63" by simp
  moreover have "- (2 ^ 63) \<le> uint n" by (rule order_trans [of _ 0]) simp_all
  ultimately have "signed_take_bit 63 (uint n) = uint n"
    by (intro signed_take_bit_int_eq_self) simp_all
  then have "sint n = int (unat n)" by (subst sint_uint) simp
  then show ?thesis unfolding sbrk_def Let_def
    by (simp only: of_nat_add [symmetric] of_nat_le_iff nat_int) auto
qed

lemma live_iff: "q \<in> live w \<longleftrightarrow> (\<exists>a b. q = a + 24 \<and> (a, b) \<in> set (chain w) \<and> \<not> bfree b)"
  by (force simp: live_def)

lemma live_set_free:
  assumes "(a, b) \<in> set (chain w)" and "laid_out lo (chain w) hi"
  shows "live (w\<lparr>chain := set_free a False (chain w)\<rparr>) = insert (a + 24) (live w)"
    and "live (w\<lparr>chain := set_free a True (chain w)\<rparr>) = live w - {a + 24}"
proof -
  have "bfree (if c = a then d\<lparr>bfree := f\<rparr> else d) = (if c = a then f else bfree d)" for c d f by simp
  then have l: "q \<in> live (w\<lparr>chain := set_free a f (chain w)\<rparr>) \<longleftrightarrow>
      (\<exists>c d. q = c + 24 \<and> (c, d) \<in> set (chain w) \<and> \<not> (if c = a then f else bfree d))" for q f
    unfolding live_iff using set_free_set [of _ _ a f "chain w"] by (fastforce split: if_splits)
  show "live (w\<lparr>chain := set_free a False (chain w)\<rparr>) = insert (a + 24) (live w)"
  proof (rule set_eqI)
    fix q
    show "q \<in> live (w\<lparr>chain := set_free a False (chain w)\<rparr>) \<longleftrightarrow> q \<in> insert (a + 24) (live w)"
      unfolding l insert_iff live_iff [of q w] using assms(1) by (auto split: if_splits)
  qed
  show "live (w\<lparr>chain := set_free a True (chain w)\<rparr>) = live w - {a + 24}"
  proof (rule set_eqI)
    fix q
    show "q \<in> live (w\<lparr>chain := set_free a True (chain w)\<rparr>) \<longleftrightarrow> q \<in> live w - {a + 24}"
      unfolding l Diff_iff live_iff [of q w] by (auto split: if_splits)
  qed
qed

lemma area_set_free: "area (w\<lparr>chain := set_free a f (chain w)\<rparr>) q = area w q"
proof -
  have "map_of (set_free a f bs) c = map_option (\<lambda>b. if c = a then b\<lparr>bfree := f\<rparr> else b) (map_of bs c)" for bs c
    by (induction bs) (auto simp: set_free_def)
  then show ?thesis by (auto simp: area_def split: option.splits)
qed

lemma live_area:
  assumes "malloc_inv w" and "q \<in> live w"
  obtains a b where "q = a + 24" "(a, b) \<in> set (chain w)" "\<not> bfree b" "area w q = {q ..< q + unat (bsize b)}"
proof -
  obtain a b where q: "q = a + 24" "(a, b) \<in> set (chain w)" "\<not> bfree b" using assms(2) by (auto simp: live_iff)
  have "map_of (chain w) a = Some b" using assms(1) q(2) map_of_block by (auto simp: malloc_inv_def)
  then show thesis using q by (intro that) (auto simp: area_def)
qed

definition grown :: "64 word \<Rightarrow> mworld \<Rightarrow> mworld" where
  "grown s w = w\<lparr>brk := brk w + (unat s + 24), chain := chain w @ [(brk w, \<lparr>bsize = s, bfree = False\<rparr>)]\<rparr>"

lemma extend_run:
  assumes "malloc_inv w" and "unat s + 24 < 2 ^ 63"
  shows "extendMemory s w = (if brk w + (unat s + 24) \<le> brk_high w
    then Done (Some (brk w + 24)) (grown s w) else Done None w)"
proof -
  have u: "unat (s + BLOCK_SIZE) = unat s + 24" using assms(2)
    by (simp add: BLOCK_SIZE_def unat_word_ariths)
  have lo: "brk_low w \<le> brk w"
  proof -
    have "laid_out lo bs hi \<Longrightarrow> lo \<le> hi" for lo bs hi
      by (induction lo bs hi rule: laid_out.induct) auto
    then show ?thesis using assms(1) by (auto simp: malloc_inv_def)
  qed
  have "sbrk (s + BLOCK_SIZE) w = (if brk w + (unat s + 24) \<le> brk_high w
     then Done (Some (brk w)) (w\<lparr>brk := brk w + (unat s + 24)\<rparr>) else Done None w)"
    using sbrk_grow [of "s + BLOCK_SIZE" w] assms(2) lo u by simp
  moreover have "unat BLOCK_SIZE = 24" by (simp add: BLOCK_SIZE_def)
  ultimately show ?thesis by (auto simp: extendMemory_def getLastBlock_def grown_def)
qed

lemma grown_facts:
  assumes "malloc_inv w" and "brk w + (unat s + 24) \<le> brk_high w"
  shows "malloc_inv (grown s w)" and "live (grown s w) = insert (brk w + 24) (live w)"
    and "brk w + 24 \<notin> live w" and "area (grown s w) (brk w + 24) = {brk w + 24 ..< brk w + 24 + unat s}"
    and "q \<in> live w \<Longrightarrow> area (grown s w) q = area w q"
    and "q \<in> live w \<Longrightarrow> {brk w + 24 ..< brk w + 24 + unat s} \<inter> area w q = {}"
proof -
  have lay: "laid_out (brk_low w) (chain w) (brk w)" using assms(1) by (simp add: malloc_inv_def)
  show inv: "malloc_inv (grown s w)" using assms by (simp add: malloc_inv_def grown_def laid_out_append)
  show "live (grown s w) = insert (brk w + 24) (live w)" by (auto simp: live_def grown_def)
  have "a + 24 + unat (bsize b) \<le> brk w" if "(a, b) \<in> set (chain w)" for a b
    using laid_out_bounds [OF lay that] by simp
  then have fresh: "brk w \<notin> fst ` set (chain w)" by force
  then show "brk w + 24 \<notin> live w" by (force simp: live_iff)
  have none: "map_of (chain w) (brk w) = None" using fresh by (simp add: map_of_eq_None_iff)
  then show "area (grown s w) (brk w + 24) = {brk w + 24 ..< brk w + 24 + unat s}"
    by (simp add: area_def grown_def map_add_def)
  show "area (grown s w) q = area w q" if q: "q \<in> live w"
  proof -
    obtain a b where ab: "q = a + 24" "(a, b) \<in> set (chain w)" using q by (auto simp: live_iff)
    then have "map_of (chain w) a = Some b" using map_of_block [OF lay] by simp
    moreover have "a \<noteq> brk w" using ab(2) fresh by force
    ultimately show ?thesis using ab(1) by (simp add: area_def grown_def map_add_def)
  qed
  show "{brk w + 24 ..< brk w + 24 + unat s} \<inter> area w q = {}" if q: "q \<in> live w"
  proof -
    obtain a b where ab: "q = a + 24" "(a, b) \<in> set (chain w)" "\<not> bfree b"
      "area w q = {q ..< q + unat (bsize b)}" by (rule live_area [OF assms(1) q])
    then have "q + unat (bsize b) \<le> brk w" using laid_out_bounds [OF lay ab(2)] by simp
    then show ?thesis using ab(4) by auto
  qed
qed


definition heap_a :: mworld where
  "heap_a = \<lparr>mout = '''', chain = [(1000, \<lparr>bsize = 64, bfree = True\<rparr>), (1088, \<lparr>bsize = 32, bfree = True\<rparr>),
     (1144, \<lparr>bsize = 16, bfree = False\<rparr>)], brk = 1184, brk_low = 1000, brk_high = 2000\<rparr>"




end
