(* ===== verification/CacheSim.thy ===== *)
theory CacheSim
  imports User_Prelude
begin

section \<open>The cache simulator (Lab6_Allocators/part1: simulator.c, binary.h)\<close>

text \<open>
  \<open>instructionCache\<close> is the array of 1024 C strings of at most 8 characters the trace is loaded
  into, all empty at the start as a C global is; a read outside a string's nine bytes has no
  meaning. A cache line holds the string that was last stored in its set. The counters stay far
  below the range of an int in the 1024 steps the program makes, so they are integers here.
\<close>

definition BITWIDTH :: nat where "BITWIDTH = 8"
definition ADDRESSES :: nat where "ADDRESSES = 1024"
definition S :: nat where "S = 4"
definition indexStart :: int where "indexStart = 1"
definition indexStop :: int where "indexStop = 2"

record sim = uworld +
  instructionCache :: "string list"
  PC :: nat
  cacheLines :: "nat \<Rightarrow> string"
  cacheOccupied :: "nat \<Rightarrow> int"
  cacheHit :: int
  cacheMisses :: int
  totalLatency :: int

definition costOfCacheHit :: int where "costOfCacheHit = 1"
definition costOfCacheMiss :: int where "costOfCacheMiss = 100"

subsection \<open>binary.h\<close>

text \<open>The byte \<open>bin[i]\<close>: the NUL after the string and what follows it are no digit.\<close>

definition bin_char :: "string \<Rightarrow> int \<Rightarrow> char option" where
  "bin_char b i = (if 0 \<le> i \<and> i < int (List.length b) then Some (b ! nat i) else None)"

text \<open>\<open>pow(2, n)\<close> added to an int: the half that \<open>n = -1\<close> gives is cut off again.\<close>

definition pow2 :: "int \<Rightarrow> int" where
  "pow2 n = (if n < 0 then 0 else 2 ^ nat n)"

definition binaryStringToInt :: "string \<Rightarrow> int \<Rightarrow> int" where
  "binaryStringToInt b len =
     fold (\<lambda>i sum. if bin_char b i = Some (CHR ''1'') then sum + pow2 (len - 1 - i - 1) else sum)
       (rev [0..len - 1]) 0"

text \<open>\<open>None\<close>: the loop reads in front of the string.\<close>

primrec range_loop :: "nat \<Rightarrow> string \<Rightarrow> int \<Rightarrow> int \<Rightarrow> int \<Rightarrow> int option" where
  "range_loop 0 b i counter acc = Some acc"
| "range_loop (Suc n) b i counter acc =
     (if i < 0 then None
      else range_loop n b (i - 1) (counter + 1)
        (if bin_char b i = Some (CHR ''1'') then acc + pow2 counter else acc))"

definition binaryStringRangeToInt :: "string \<Rightarrow> int \<Rightarrow> int \<Rightarrow> int option" where
  "binaryStringRangeToInt b start stop =
     range_loop (nat (stop - start + 1)) b (int (List.length b) - start - 1) 0 0"

text \<open>\<open>None\<close>: the loop stores in front of the string, which happens when \<open>i\<close> needs more bits.\<close>

function bits_loop :: "nat \<Rightarrow> int \<Rightarrow> string \<Rightarrow> string option" where
  "bits_loop value pos b =
     (if value = 0 then Some b
      else if pos < 0 then None
      else bits_loop (value div 2) (pos - 1)
        (b[nat pos := (if value mod 2 = 0 then CHR ''0'' else CHR ''1'')]))"
  by pat_completeness auto
termination
  by (relation "measure (\<lambda>(v, p, b). v)") auto

declare bits_loop.simps [simp del]

definition intToBinaryString :: "nat \<Rightarrow> nat \<Rightarrow> string option" where
  "intToBinaryString i bits = bits_loop i (int bits - 1) (replicate bits (CHR ''0''))"

subsection \<open>The traces trace.c writes\<close>

fun trace_text :: "nat list \<Rightarrow> string option" where
  "trace_text [] = Some []"
| "trace_text (v # vs) =
     (case intToBinaryString v BITWIDTH of
        None \<Rightarrow> None
      | Some b \<Rightarrow> map_option (\<lambda>t. b @ newline @ t) (trace_text vs))"

definition FourTrace :: "nat \<Rightarrow> string option" where
  "FourTrace n = trace_text (map (\<lambda>i. (i mod 4) * 2) [0..<n])"

definition HostileTrace :: "nat \<Rightarrow> string option" where
  "HostileTrace n = trace_text (map (\<lambda>i. i mod 4) [0..<n])"

definition Trace :: "nat \<Rightarrow> nat \<Rightarrow> string option" where
  "Trace n r = trace_text (map (\<lambda>i. i mod r) [0..<n])"

subsection \<open>Loading a trace\<close>

text \<open>fgets with a buffer of \<open>Suc n\<close> bytes: at most \<open>n\<close> characters, up to a newline.\<close>

fun fgets_take :: "nat \<Rightarrow> string \<Rightarrow> string" where
  "fgets_take 0 t = []"
| "fgets_take (Suc n) [] = []"
| "fgets_take (Suc n) (c # t) = (if c = CHR 0x0A then [c] else c # fgets_take n t)"

lemma fgets_take_length: "List.length (fgets_take n t) \<le> List.length t"
  by (induction n t rule: fgets_take.induct) auto

lemma fgets_take_pos: "t \<noteq> [] \<Longrightarrow> 0 < n \<Longrightarrow> 0 < List.length (fgets_take n t)"
  by (cases n; cases t) auto

function load_lines :: "string \<Rightarrow> nat \<Rightarrow> (sim, unit) um" where
  "load_lines txt pos =
     (if txt = [] then uret ()
      else
        (let str = fgets_take (BITWIDTH + 1) txt in
         if ADDRESSES \<le> pos then ucrash ''store past the end of instructionCache''
         else uthn (umod (\<lambda>w. w\<lparr>instructionCache := (instructionCache w)[pos := butlast str]\<rparr>))
           (load_lines (drop (List.length str) txt) (pos + 1))))"
  by pat_completeness auto
termination
proof (relation "measure (\<lambda>(t, p). List.length t)")
  show "((drop (List.length st) t, p + 1), (t, p)) \<in> measure (\<lambda>(t, p). List.length t)"
    if "t \<noteq> []" "st = fgets_take (BITWIDTH + 1) t" for t p st
    using that fgets_take_pos [of t "BITWIDTH + 1"] by simp
qed simp

declare load_lines.simps [simp del]

definition loadTrace :: "string option \<Rightarrow> (sim, unit) um" where
  "loadTrace file = (case file of
     None \<Rightarrow> ucrash ''fgets on a null stream''
   | Some txt \<Rightarrow> load_lines txt 0)"

subsection \<open>The simulator\<close>

definition instruction :: "(sim, string) um" where
  "instruction = ubnd (uget PC) (\<lambda>p. ubnd (uget instructionCache) (\<lambda>is.
     if p < List.length is then uret (is ! p) else ucrash ''load past the end of instructionCache''))"

definition index_of :: "(sim, nat) um" where
  "index_of = ubnd instruction (\<lambda>x.
     case binaryStringRangeToInt x indexStart indexStop of
       None \<Rightarrow> ucrash ''load in front of the instruction''
     | Some i \<Rightarrow> uret (nat i))"

definition decimal :: "int \<Rightarrow> string" where
  "decimal i = (if i < 0 then ''-'' @ dec (nat (- i)) else dec (nat i))"

definition drawCache :: "(sim, unit) um" where
  "drawCache =
     ubnd (uget (\<lambda>w. (cacheHit w, cacheMisses w, totalLatency w))) (\<lambda>(h, m, l).
     uthn (uputs (''Hits: '' @ decimal h @ '' Misses: '' @ decimal m @ '' Total Latency: '' @ decimal l @ newline)) (
     ubnd instruction (\<lambda>x.
     uthn (uputs (''Instruction['' @ decimal (binaryStringToInt x (int BITWIDTH + 1)) @ ''] is executed'' @ newline)) (
     uthn (uputs (''---------------------------'' @ newline)) (
     uthn (uputs (''valid | tag | index | value'' @ newline)) (
     ubnd index_of (\<lambda>i.
     uthn (uputs (replicate 16 (CHR '' '') @ dec i @ ''     '' @ x @ ''   '' @ newline)) (
     uthn (uputs (''---------------------------'' @ newline)) (
     uthn (ufor [0..<S] (\<lambda>k. ubnd (uget cacheLines) (\<lambda>c. uputs (''CacheLine: '' @ c k @ '': '' @ newline))))
       (uputs (''Total Cache Hits: '' @ decimal h @ '' Cache Misses '' @ decimal m @ '' Total Latency: '' @ decimal l @ ''  '' @ newline)))))))))))"

definition stepSimulator :: "(sim, unit) um" where
  "stepSimulator = umod (\<lambda>w. w\<lparr>PC := PC w + 1\<rparr>)"

definition incrementCacheMiss :: "(sim, unit) um" where
  "incrementCacheMiss = umod (\<lambda>w. w\<lparr>cacheMisses := cacheMisses w + 1,
     totalLatency := totalLatency w + costOfCacheMiss\<rparr>)"

definition incrementCacheHit :: "(sim, unit) um" where
  "incrementCacheHit = umod (\<lambda>w. w\<lparr>cacheHit := cacheHit w + 1,
     totalLatency := totalLatency w + costOfCacheHit\<rparr>)"

definition ReplacementPolicy :: "(sim, unit) um" where
  "ReplacementPolicy =
     ubnd index_of (\<lambda>i.
     uthn (umod (\<lambda>w. w\<lparr>cacheOccupied := (cacheOccupied w)(i := 1)\<rparr>)) (
     ubnd instruction (\<lambda>x.
     uthn (umod (\<lambda>w. w\<lparr>cacheLines := (cacheLines w)(i := x)\<rparr>))
       incrementCacheMiss)))"

definition evictionPolicy :: "(sim, unit) um" where
  "evictionPolicy =
     ubnd index_of (\<lambda>i.
     ubnd instruction (\<lambda>x.
     ubnd (uget cacheLines) (\<lambda>c.
     if c i = x then incrementCacheHit
     else
       uthn (uputs (''Cache miss!'' @ newline)) (
       uthn (umod (\<lambda>w. w\<lparr>cacheLines := (cacheLines w)(i := x)\<rparr>))
         incrementCacheMiss))))"

definition checkCache :: "(sim, unit) um" where
  "checkCache =
     ubnd index_of (\<lambda>i.
     ubnd (uget cacheOccupied) (\<lambda>occ.
     if occ i = 0 then uthn (uputs (''Cold Miss!'' @ newline)) ReplacementPolicy
     else if occ i = 1 then evictionPolicy
     else uret ()))"

text \<open>
  \<open>inputs\<close> are the words scanf reads; \<open>scanf("%s", &run)\<close> leaves a word's first character in
  \<open>run\<close> (and writes the rest, with the NUL, behind it, which the model leaves out). PC grows by
  one in each round, so ADDRESSES rounds are enough for the loop to end.
\<close>

primrec sim_loop :: "nat \<Rightarrow> char \<Rightarrow> string list \<Rightarrow> (sim, unit) um" where
  "sim_loop 0 run inputs = uret ()"
| "sim_loop (Suc n) run inputs =
     ubnd (uget PC) (\<lambda>p.
     if (run = CHR ''y'' \<or> run = CHR ''a'') \<and> p < ADDRESSES then
       uthn (uputs (replicate 76 (CHR ''='') @ newline @ newline)) (
       uthn checkCache (
       uthn drawCache (
       uthn stepSimulator (
       if run \<noteq> CHR ''a'' then
         uthn (uputs ''Would you like to continue? (y-yes | n-no | a-simulate to finish): '') (
         case inputs of
           [] \<Rightarrow> sim_loop n run []
         | t # ts \<Rightarrow> sim_loop n (case t of [] \<Rightarrow> run | c # _ \<Rightarrow> c) ts)
       else sim_loop n run inputs))))
     else uret ())"

definition sim_main :: "string option \<Rightarrow> string list \<Rightarrow> (sim, int) um" where
  "sim_main file inputs =
     uthn (loadTrace file) (
     uthn (ufor [0..<S] (\<lambda>i. umod (\<lambda>w. w\<lparr>cacheOccupied := (cacheOccupied w)(i := 0)\<rparr>))) (
     uthn (sim_loop ADDRESSES (CHR ''y'') inputs) (
     uthn (uputs (''Simulation Complete'' @ newline)) (uret 0))))"

definition sim0 :: sim where
  "sim0 = \<lparr>stdout = [], heap = 0, instructionCache = replicate ADDRESSES [], PC = 0,
     cacheLines = (\<lambda>_. []), cacheOccupied = (\<lambda>_. 0), cacheHit = 0, cacheMisses = 0, totalLatency = 0\<rparr>"

subsection \<open>A direct-mapped cache\<close>

text \<open>The set an instruction belongs to, and what a set holds after the first \<open>n\<close> accesses.\<close>

definition set_ix :: "string \<Rightarrow> nat" where
  "set_ix x = (case binaryStringRangeToInt x indexStart indexStop of None \<Rightarrow> 0 | Some i \<Rightarrow> nat i)"

primrec held_in :: "(nat \<Rightarrow> string) \<Rightarrow> nat \<Rightarrow> nat \<Rightarrow> string option" where
  "held_in tr 0 b = None"
| "held_in tr (Suc n) b = (if set_ix (tr n) = b then Some (tr n) else held_in tr n b)"

lemma held_in_Some:
  "held_in tr n b = Some x \<longleftrightarrow>
    (\<exists>j < n. tr j = x \<and> set_ix (tr j) = b \<and> (\<forall>k. j < k \<and> k < n \<longrightarrow> set_ix (tr k) \<noteq> b))"
proof (induction n)
  case (Suc n)
  show ?case
  proof (cases "set_ix (tr n) = b")
    case True
    then show ?thesis by (auto intro: exI [of _ n]) (metis lessI less_SucE)
  next
    case False
    then show ?thesis using Suc by (auto simp: less_Suc_eq)
  qed
qed simp

definition hits :: "(nat \<Rightarrow> string) \<Rightarrow> nat \<Rightarrow> nat" where
  "hits tr n = card {i. i < n \<and> held_in tr i (set_ix (tr i)) = Some (tr i)}"

lemma hits_Suc: "hits tr (Suc n) = hits tr n + (if held_in tr n (set_ix (tr n)) = Some (tr n) then 1 else 0)"
proof -
  let ?A = "\<lambda>n. {i. i < n \<and> held_in tr i (set_ix (tr i)) = Some (tr i)}"
  have "?A (Suc n) = (if held_in tr n (set_ix (tr n)) = Some (tr n) then insert n (?A n) else ?A n)"
    by (auto simp: less_Suc_eq)
  then show ?thesis by (simp add: hits_def)
qed

definition sim_inv :: "string list \<Rightarrow> nat \<Rightarrow> sim \<Rightarrow> bool" where
  "sim_inv is n w \<longleftrightarrow> instructionCache w = is \<and> PC w = n \<and>
     (\<forall>b. cacheOccupied w b = (if held_in ((!) is) n b = None then 0 else 1)) \<and>
     (\<forall>b x. held_in ((!) is) n b = Some x \<longrightarrow> cacheLines w b = x) \<and>
     cacheHit w = int (hits ((!) is) n) \<and> cacheHit w + cacheMisses w = int n \<and>
     totalLatency w = cacheHit w + 100 * cacheMisses w"

definition readable :: "string list \<Rightarrow> bool" where
  "readable is \<longleftrightarrow> List.length is = ADDRESSES \<and> (\<forall>x \<in> set is. 3 \<le> List.length x)"

lemma range_loop_Some: "int n \<le> i + 1 \<Longrightarrow> \<exists>r. range_loop n b i c s = Some r"
  by (induction n arbitrary: i c s) auto

lemma index_run:
  assumes "instructionCache w = is" and "readable is" and "PC w < ADDRESSES"
  shows "index_of w = Done (set_ix (is ! PC w)) w" and "instruction w = Done (is ! PC w) w"
proof -
  have l: "PC w < List.length is" "3 \<le> List.length (is ! PC w)"
    using assms(2,3) by (auto simp: readable_def)
  show i: "instruction w = Done (is ! PC w) w" using assms l by (simp add: instruction_def)
  have "\<exists>r. binaryStringRangeToInt (is ! PC w) indexStart indexStop = Some r"
    unfolding binaryStringRangeToInt_def using l(2)
    by (intro range_loop_Some) (simp add: indexStart_def indexStop_def)
  then show "index_of w = Done (set_ix (is ! PC w)) w"
    using i by (auto simp: index_of_def set_ix_def)
qed

lemma sim_inv_stdout [simp]: "sim_inv is n (w\<lparr>stdout := t\<rparr>) = sim_inv is n w"
  by (simp add: sim_inv_def)

text \<open>A statement that only prints.\<close>

definition says :: "sim \<Rightarrow> (sim, unit) um \<Rightarrow> bool" where
  "says w m \<longleftrightarrow> (\<forall>u. \<exists>t. m (w\<lparr>stdout := u\<rparr>) = Done () (w\<lparr>stdout := t\<rparr>))"

lemma says_uputs: "says w (uputs t)"
  by (auto simp: says_def)

lemma says_uthn: "says w m \<Longrightarrow> says w n \<Longrightarrow> says w (uthn m n)"
  unfolding says_def by (metis uthn_run uobind.simps(1))

lemma says_ubnd: "(\<And>u. m (w\<lparr>stdout := u\<rparr>) = Done x (w\<lparr>stdout := u\<rparr>)) \<Longrightarrow> says w (f x) \<Longrightarrow> says w (ubnd m f)"
  unfolding says_def by simp

lemma says_ufor: "(\<And>x. says w (f x)) \<Longrightarrow> says w (ufor xs f)"
proof (induction xs)
  case Nil
  then show ?case by (auto simp: says_def)
next
  case (Cons x xs)
  then show ?case unfolding ufor.simps by (intro says_uthn) simp_all
qed

lemma draw_run:
  assumes "instructionCache w = is" and "readable is" and "PC w < ADDRESSES"
  shows "\<exists>t. drawCache w = Done () (w\<lparr>stdout := t\<rparr>)"
proof -
  have i: "instruction (w\<lparr>stdout := t\<rparr>) = Done (is ! PC w) (w\<lparr>stdout := t\<rparr>)"
    "index_of (w\<lparr>stdout := t\<rparr>) = Done (set_ix (is ! PC w)) (w\<lparr>stdout := t\<rparr>)" for t
    using index_run [of "w\<lparr>stdout := t\<rparr>" "is"] assms by simp_all
  have "says w drawCache"
    unfolding drawCache_def
    by (rule says_ubnd [where x = "(cacheHit w, cacheMisses w, totalLatency w)"], simp, unfold prod.case)
      (intro says_uthn says_uputs says_ufor says_ubnd [OF i(1)] says_ubnd [OF i(2)]
        says_ubnd [where x = "cacheLines w"], simp_all add: says_uputs)
  then have "\<exists>t. drawCache (w\<lparr>stdout := stdout w\<rparr>) = Done () (w\<lparr>stdout := t\<rparr>)"
    unfolding says_def by blast
  then show ?thesis by simp
qed

lemma check_run:
  assumes "sim_inv is n w" and "readable is" and "n < ADDRESSES"
  shows "\<exists>w'. uthn checkCache stepSimulator w = Done () w' \<and> sim_inv is (Suc n) w'"
proof -
  let ?tr = "(!) is"
  let ?b = "set_ix (is ! n)"
  have w: "instructionCache w = is" "PC w = n" using assms(1) by (simp_all add: sim_inv_def)
  have i: "instruction u = Done (is ! n) u" "index_of u = Done ?b u"
    if "instructionCache u = is" "PC u = n" for u
    using index_run [of u "is"] that assms by simp_all
  show ?thesis
  proof (cases "held_in ?tr n ?b")
    case None
    then have "cacheOccupied w ?b = 0" using assms(1) by (simp add: sim_inv_def)
    then show ?thesis using assms(1) w None
      by (auto simp: checkCache_def ReplacementPolicy_def incrementCacheMiss_def stepSimulator_def i
          sim_inv_def hits_Suc costOfCacheMiss_def)
  next
    case (Some x)
    then have "cacheOccupied w ?b = 1" "cacheLines w ?b = x" using assms(1) by (auto simp: sim_inv_def)
    then show ?thesis using assms(1) w Some
      by (auto simp: checkCache_def evictionPolicy_def incrementCacheMiss_def incrementCacheHit_def
          stepSimulator_def i sim_inv_def hits_Suc costOfCacheMiss_def costOfCacheHit_def)
  qed
qed

lemma round_run:
  assumes "sim_inv is n w" and "readable is" and "n < ADDRESSES"
  shows "\<exists>w1 w2 w3. checkCache (w\<lparr>stdout := t\<rparr>) = Done () w1 \<and> drawCache w1 = Done () w2 \<and>
    stepSimulator w2 = Done () w3 \<and> sim_inv is (Suc n) w3"
proof -
  have "sim_inv is n (w\<lparr>stdout := t\<rparr>)" using assms(1) by simp
  then obtain w' where "uthn checkCache stepSimulator (w\<lparr>stdout := t\<rparr>) = Done () w'"
    and inv: "sim_inv is (Suc n) w'"
    using check_run assms(2,3) by blast
  then obtain w1 where w1: "checkCache (w\<lparr>stdout := t\<rparr>) = Done () w1" "w' = w1\<lparr>PC := PC w1 + 1\<rparr>"
    by (auto simp: uobind_Done_iff stepSimulator_def)
  then have "instructionCache w1 = is" "PC w1 = n" using inv by (simp_all add: sim_inv_def)
  then obtain u where "drawCache w1 = Done () (w1\<lparr>stdout := u\<rparr>)" using draw_run assms(2,3) by blast
  moreover have "stepSimulator (w1\<lparr>stdout := u\<rparr>) = Done () (w'\<lparr>stdout := u\<rparr>)"
    by (simp add: stepSimulator_def w1(2))
  ultimately show ?thesis using w1(1) inv by auto
qed

lemma loop_run:
  assumes "sim_inv is n w" and "readable is" and "n + k = ADDRESSES"
  shows "\<exists>w'. sim_loop k (CHR ''a'') inputs w = Done () w' \<and> sim_inv is ADDRESSES w'"
  using assms
proof (induction k arbitrary: n w)
  case 0
  then show ?case by auto
next
  case (Suc k)
  let ?t = "stdout w @ replicate 76 (CHR ''='') @ newline @ newline"
  obtain w1 w2 w3 where r: "checkCache (w\<lparr>stdout := ?t\<rparr>) = Done () w1" "drawCache w1 = Done () w2"
    "stepSimulator w2 = Done () w3" "sim_inv is (Suc n) w3"
    using round_run [OF Suc.prems(1,2), of ?t] Suc.prems(3) by auto
  have "PC w = n" using Suc.prems(1) by (simp add: sim_inv_def)
  then show ?case using Suc.IH [OF r(4)] Suc.prems(2,3) r by simp
qed

definition lines_text :: "string list \<Rightarrow> string" where
  "lines_text is = concat (map (\<lambda>x. x @ newline) is)"

definition well_formed :: "string list \<Rightarrow> bool" where
  "well_formed is \<longleftrightarrow> (\<forall>x \<in> set is. List.length x = BITWIDTH \<and> CHR 0x0A \<notin> set x)"

lemma fgets_line:
  "List.length x \<le> n \<Longrightarrow> CHR 0x0A \<notin> set x \<Longrightarrow> fgets_take (Suc n) (x @ CHR 0x0A # t) = x @ newline"
proof (induction x arbitrary: n)
  case (Cons c x)
  then obtain m where "n = Suc m" by (cases n) auto
  then show ?case using Cons by (auto simp: newline_def)
qed (simp add: newline_def)

lemma load_lines_run:
  assumes "well_formed is" and "List.length ys = n" and "instructionCache w = ys @ zs"
    and "List.length zs = List.length is" and "n + List.length is \<le> ADDRESSES"
  shows "load_lines (lines_text is) n w = Done () (w\<lparr>instructionCache := ys @ is\<rparr>)"
  using assms
proof (induction "is" arbitrary: ys zs n w)
  case Nil
  then show ?case by (subst load_lines.simps) (simp add: lines_text_def)
next
  case (Cons x xs)
  obtain z zs' where zs: "zs = z # zs'" using Cons.prems(4) by (cases zs) auto
  have x: "List.length x = 8" "CHR 0x0A \<notin> set x" using Cons.prems(1) by (auto simp: well_formed_def BITWIDTH_def)
  have tx: "lines_text (x # xs) = x @ CHR 0x0A # lines_text xs" by (simp add: lines_text_def newline_def)
  have str: "fgets_take (BITWIDTH + 1) (lines_text (x # xs)) = x @ newline"
    using fgets_line [of x 8 "lines_text xs"] x tx by (simp add: BITWIDTH_def)
  let ?w = "w\<lparr>instructionCache := (ys @ [x]) @ zs'\<rparr>"
  have "load_lines (lines_text xs) (n + 1) ?w = Done () (?w\<lparr>instructionCache := (ys @ [x]) @ xs\<rparr>)"
    by (rule Cons.IH [where zs = zs']) (use Cons.prems zs in \<open>auto simp: well_formed_def\<close>)
  moreover have "drop (List.length (x @ newline)) (lines_text (x # xs)) = lines_text xs"
    by (simp add: tx newline_def)
  moreover have "butlast (x @ newline) = x" by (simp add: newline_def)
  moreover have "(instructionCache w)[n := x] = (ys @ [x]) @ zs'"
    using Cons.prems(2,3) zs by (simp add: list_update_append)
  ultimately show ?case using Cons.prems(5) tx str
    by (subst load_lines.simps) (simp add: Let_def)
qed

lemma simulator_is_direct_mapped_core:
  assumes "well_formed is" and "List.length is = ADDRESSES"
  shows "\<exists>w. sim_main (Some (lines_text is)) [''a''] sim0 = Done 0 w \<and>
    cacheHit w = int (card {i. i < ADDRESSES \<and> (\<exists>j < i. is ! j = is ! i \<and>
       (\<forall>k. j < k \<and> k < i \<longrightarrow> set_ix (is ! k) \<noteq> set_ix (is ! i)))}) \<and>
    cacheHit w + cacheMisses w = int ADDRESSES \<and>
    totalLatency w = cacheHit w + 100 * cacheMisses w"
proof -
  have rd: "readable is" using assms by (auto simp: readable_def well_formed_def BITWIDTH_def)
  have z: "(\<lambda>w. w\<lparr>cacheOccupied := (cacheOccupied w)(i := 0)\<rparr>) (sim0\<lparr>instructionCache := is\<rparr>) = sim0\<lparr>instructionCache := is\<rparr>" for i
    by (simp add: sim0_def fun_upd_idem)
  let ?w0 = "sim0\<lparr>instructionCache := is\<rparr>"
  have load: "loadTrace (Some (lines_text is)) sim0 = Done () ?w0"
    using load_lines_run [OF assms(1), of "[]" 0 sim0 "replicate ADDRESSES []"] assms(2)
    by (simp add: loadTrace_def sim0_def)
  have zero: "ufor ks (\<lambda>i. umod (\<lambda>w. w\<lparr>cacheOccupied := (cacheOccupied w)(i := 0)\<rparr>)) ?w0 = Done () ?w0" for ks
    using z by (induction ks) auto
  have inv0: "sim_inv is 0 ?w0" by (simp add: sim_inv_def sim0_def hits_def)
  let ?t = "stdout ?w0 @ replicate 76 (CHR ''='') @ newline @ newline"
  obtain w1 w2 w3 where r: "checkCache (?w0\<lparr>stdout := ?t\<rparr>) = Done () w1" "drawCache w1 = Done () w2"
    "stepSimulator w2 = Done () w3" "sim_inv is (Suc 0) w3"
    using round_run [OF inv0 rd, of ?t] by (auto simp: ADDRESSES_def)
  let ?q = "''Would you like to continue? (y-yes | n-no | a-simulate to finish): ''"
  have "sim_inv is (Suc 0) (w3\<lparr>stdout := stdout w3 @ ?q\<rparr>)" using r(4) by simp
  from loop_run [OF this rd, of 1023 "[]"] obtain w4 where l: "sim_loop 1023 (CHR ''a'') [] (w3\<lparr>stdout := stdout w3 @ ?q\<rparr>) = Done () w4"
    "sim_inv is ADDRESSES w4"
    by (auto simp: ADDRESSES_def)
  have "sim_loop ADDRESSES (CHR ''y'') [''a''] ?w0 = Done () w4"
  proof -
    have A: "ADDRESSES = Suc 1023" by (simp add: ADDRESSES_def)
    have "PC ?w0 = 0" by (simp add: sim0_def)
    then show ?thesis using r l(1) unfolding A sim_loop.simps by (simp add: A)
  qed
  then have m: "sim_main (Some (lines_text is)) [''a''] sim0 = Done 0 (w4\<lparr>stdout := stdout w4 @ ''Simulation Complete'' @ newline\<rparr>)"
    using load zero by (simp add: sim_main_def)
  have "hits ((!) is) ADDRESSES = card {i. i < ADDRESSES \<and> (\<exists>j < i. is ! j = is ! i \<and>
       (\<forall>k. j < k \<and> k < i \<longrightarrow> set_ix (is ! k) \<noteq> set_ix (is ! i)))}"
    unfolding hits_def held_in_Some by (rule arg_cong [of _ _ card]) auto
  then show ?thesis using m l(2) by (auto simp: sim_inv_def)
qed



subsection \<open>The friendly and the hostile trace\<close>

definition bits :: "nat \<Rightarrow> string" where
  "bits v = the (intToBinaryString v BITWIDTH)"

definition bits_good :: "nat \<Rightarrow> bool" where
  "bits_good v \<longleftrightarrow> intToBinaryString v BITWIDTH = Some (bits v) \<and> List.length (bits v) = 8 \<and>
     CHR 0x0A \<notin> set (bits v) \<and> set_ix (bits v) = v div 2"

lemma bits_good_small: "bits_good 0 \<and> bits_good 1 \<and> bits_good 2 \<and> bits_good 3 \<and> bits_good 4 \<and> bits_good 6"
  by code_simp

lemma bits_good_range: "v \<in> {0, 1, 2, 3, 4, 6} \<Longrightarrow> bits_good v"
  using bits_good_small by auto

lemma trace_text_bits:
  assumes "\<forall>v \<in> set vs. bits_good v"
  shows "trace_text vs = Some (lines_text (map bits vs))" and "well_formed (map bits vs)"
  using assms by (induction vs) (auto simp: bits_good_def lines_text_def well_formed_def BITWIDTH_def)

lemma FourTrace_text:
  "FourTrace n = Some (lines_text (map (\<lambda>i. bits ((i mod 4) * 2)) [0..<n]))"
  "well_formed (map (\<lambda>i. bits ((i mod 4) * 2)) [0..<n])"
proof -
  have "bits_good ((i mod 4) * 2)" for i :: nat
  proof -
    have "i mod 4 \<in> {0, 1, 2, 3}" by auto
    then show ?thesis by (intro bits_good_range) auto
  qed
  then show "FourTrace n = Some (lines_text (map (\<lambda>i. bits ((i mod 4) * 2)) [0..<n]))"
    "well_formed (map (\<lambda>i. bits ((i mod 4) * 2)) [0..<n])"
    using trace_text_bits [of "map (\<lambda>i. (i mod 4) * 2) [0..<n]"] by (auto simp: FourTrace_def comp_def)
qed

lemma HostileTrace_text:
  "HostileTrace n = Some (lines_text (map (\<lambda>i. bits (i mod 4)) [0..<n]))"
  "well_formed (map (\<lambda>i. bits (i mod 4)) [0..<n])"
proof -
  have "bits_good (i mod 4)" for i :: nat
  proof -
    have "i mod 4 \<in> {0, 1, 2, 3}" by auto
    then show ?thesis by (intro bits_good_range) auto
  qed
  then show "HostileTrace n = Some (lines_text (map (\<lambda>i. bits (i mod 4)) [0..<n]))"
    "well_formed (map (\<lambda>i. bits (i mod 4)) [0..<n])"
    using trace_text_bits [of "map (\<lambda>i. i mod 4) [0..<n]"] by (auto simp: HostileTrace_def comp_def)
qed

lemma four_set: "set_ix (bits ((i mod 4) * 2)) = i mod 4"
proof -
  have "i mod 4 \<in> {0, 1, 2, 3}" by auto
  then have "bits_good ((i mod 4) * 2)" by (intro bits_good_range) auto
  then show ?thesis by (simp add: bits_good_def)
qed

lemma hostile_set: "set_ix (bits (i mod 4)) = (i mod 4) div 2"
proof -
  have "i mod 4 \<in> {0, 1, 2, 3}" by auto
  then have "bits_good (i mod 4)" by (intro bits_good_range) auto
  then show ?thesis by (simp add: bits_good_def)
qed

lemma bits_inj: "bits a = bits b \<Longrightarrow> a < 4 \<Longrightarrow> b < 4 \<Longrightarrow> a = b"
proof -
  have "distinct [bits 0, bits 1, bits 2, bits 3]" by code_simp
  then show "bits a = bits b \<Longrightarrow> a < 4 \<Longrightarrow> b < 4 \<Longrightarrow> a = b"
    by (auto simp: numeral_eq_Suc less_Suc_eq)
qed

lemma mod4_gap: "(j :: nat) < i \<Longrightarrow> j mod 4 = i mod 4 \<Longrightarrow> j + 4 \<le> i"
  using mod_eq_dvd_iff_nat [of j i 4] dvd_imp_le [of 4 "i - j"] by simp

lemma mod4_back: "4 \<le> (i :: nat) \<Longrightarrow> (i - 4) mod 4 = i mod 4"
  by (simp add: le_mod_geq)

lemma mod4_div2: "(x mod 4) div 2 = x div 2 mod (2 :: nat)"
proof -
  have "x mod (2 * 2) = 2 * (x div 2 mod 2) + x mod 2" by (rule mod_mult2_eq)
  then show ?thesis by simp
qed

lemma pair_back:
  fixes i :: nat
  shows "odd i \<Longrightarrow> ((i - 1) mod 4) div 2 = (i mod 4) div 2"
    and "even i \<Longrightarrow> 4 \<le> i \<Longrightarrow> ((i - 3) mod 4) div 2 = (i mod 4) div 2"
proof -
  show "((i - 1) mod 4) div 2 = (i mod 4) div 2" if "odd i"
    using that by (auto simp: mod4_div2 elim!: oddE)
  show "((i - 3) mod 4) div 2 = (i mod 4) div 2" if e: "even i" and l: "4 \<le> i"
  proof -
    obtain b where b: "i = 2 * b" using e by blast
    then have "i - 3 = 2 * (b - 2) + 1" using l by simp
    then have "(i - 3) div 2 = b - 2" by simp
    moreover have "(b - 2) mod 2 = b mod 2" using b l by (simp add: le_mod_geq)
    ultimately show ?thesis using b by (simp add: mod4_div2)
  qed
qed


end
