(* ===== verification/Ulib.thy ===== *)
theory Ulib
  imports User_Prelude Console_Out Kstring
begin

section \<open>The user library (ulib.c, printf.c)\<close>

text \<open>
  A user program sees the system through its calls. \<open>fds\<close> gives for each open descriptor the
  pieces the next reads of it return (a read never gets more than one piece, and an empty piece
  or none is the end of the file); \<open>fs\<close> gives the pieces of each file that can be opened;
  \<open>outs\<close> is what has been written to each descriptor, and \<open>wok\<close> tells which descriptors take
  writes. After its pieces a descriptor in \<open>rerr\<close> gives an error instead of the end. exit()
  of this system takes no status, so that every \<open>Exit\<close> has status 0.

  C strings are character lists without their NUL; a \<open>char\<close> pointer into a string is the rest
  of the string from there.
\<close>

record xworld =
  fds :: "nat \<rightharpoonup> string list"
  fs :: "string \<rightharpoonup> string list"
  outs :: "nat \<Rightarrow> string"
  wok :: "nat \<Rightarrow> bool"
  rerr :: "nat \<Rightarrow> bool"

definition sys_read :: "nat \<Rightarrow> nat \<Rightarrow> xworld \<Rightarrow> int \<times> string \<times> xworld" where
  "sys_read fd n w = (case fds w fd of
       None \<Rightarrow> (- 1, [], w)
     | Some [] \<Rightarrow> (if rerr w fd then (- 1, [], w) else (0, [], w))
     | Some (c # cs) \<Rightarrow>
         (int (min n (List.length c)), take n c,
          w\<lparr>fds := (fds w)(fd \<mapsto> (if drop n c = [] then cs else drop n c # cs))\<rparr>))"

definition emit :: "nat \<Rightarrow> string \<Rightarrow> xworld \<Rightarrow> xworld" where
  "emit fd d w = w\<lparr>outs := (outs w)(fd := outs w fd @ d)\<rparr>"

lemma emit_emit [simp]: "emit fd b (emit fd a w) = emit fd (a @ b) w"
  by (simp add: emit_def)

lemma emit_nil [simp]: "emit fd [] w = w"
  by (simp add: emit_def fun_upd_idem)

lemma emit_fields [simp]: "fds (emit fd d w) = fds w" "fs (emit fd d w) = fs w"
  "wok (emit fd d w) = wok w" "rerr (emit fd d w) = rerr w" "outs (emit fd d w) fd = outs w fd @ d"
  by (simp_all add: emit_def)

definition sys_write :: "nat \<Rightarrow> string \<Rightarrow> (xworld, int) um" where
  "sys_write fd d w =
     (if wok w fd then Done (int (List.length d)) (emit fd d w)
      else Done (- 1) w)"

definition sys_open :: "string \<Rightarrow> (xworld, nat option) um" where
  "sys_open path w =
     (case fs w path of
        None \<Rightarrow> Done None w
      | Some cs \<Rightarrow> (case find (\<lambda>f. fds w f = None) [0..<16] of
            None \<Rightarrow> Done None w
          | Some f \<Rightarrow> Done (Some f) (w\<lparr>fds := (fds w)(f \<mapsto> cs)\<rparr>)))"

definition sys_close :: "nat \<Rightarrow> (xworld, unit) um" where
  "sys_close fd = umod (\<lambda>w. w\<lparr>fds := (fds w)(fd := None)\<rparr>)"

definition xexit :: "(xworld, 'a) um" where "xexit = uexit 0"

subsection \<open>ulib.c: strings\<close>

fun ustrcmp :: "string \<Rightarrow> string \<Rightarrow> int" where
  "ustrcmp (p # ps) (q # qs) =
     (if p = q then ustrcmp ps qs else int (of_char p) - int (of_char q))"
| "ustrcmp (p # ps) [] = int (of_char p)"
| "ustrcmp [] (q # qs) = - int (of_char q)"
| "ustrcmp [] [] = 0"

definition ustrlen :: "string \<Rightarrow> nat" where
  "ustrlen s = List.length s"

fun ustrchr :: "string \<Rightarrow> char \<Rightarrow> string option" where
  "ustrchr [] c = None"
| "ustrchr (x # xs) c = (if x = c then Some (x # xs) else ustrchr xs c)"

text \<open>gets: \<open>i\<close> characters are in the buffer of \<open>max\<close> bytes.\<close>

function ugets_loop :: "nat \<Rightarrow> string \<Rightarrow> xworld \<Rightarrow> string \<times> xworld" where
  "ugets_loop mx acc w =
     (if List.length acc + 1 < mx then
        (case sys_read 0 1 w of (cc, d, w1) \<Rightarrow>
           if cc < 1 then (acc, w1)
           else
             (let c = hd d in
              if c = CHR 0x0A \<or> c = CHR 0x0D then (acc @ [c], w1)
              else ugets_loop mx (acc @ [c]) w1))
      else (acc, w))"
  by pat_completeness auto
termination
  by (relation "measure (\<lambda>(mx, acc, w). mx - List.length acc)") auto

declare ugets_loop.simps [simp del]

definition ugets :: "nat \<Rightarrow> xworld \<Rightarrow> string \<times> xworld" where
  "ugets mx w = ugets_loop mx [] w"

text \<open>atoi: the product and the sum wrap at 32 bits.\<close>

fun atoi_loop :: "string \<Rightarrow> 32 word \<Rightarrow> 32 word" where
  "atoi_loop [] n = n"
| "atoi_loop (c # cs) n =
     (if 48 \<le> (of_char c :: nat) \<and> (of_char c :: nat) \<le> 57
      then atoi_loop cs (n * 10 + of_nat (of_char c) - 48) else n)"

definition atoi :: "string \<Rightarrow> 32 word" where
  "atoi s = atoi_loop s 0"

subsection \<open>ulib.c: memory\<close>

partial_function (option) ustrcpy_loop :: "mem \<Rightarrow> u32 \<Rightarrow> u32 \<Rightarrow> mem option" where
  "ustrcpy_loop m s t =
     (if m t = 0 then Some (m(s := 0)) else ustrcpy_loop (m(s := m t)) (s + 1) (t + 1))"

definition ustrcpy :: "mem \<Rightarrow> u32 \<Rightarrow> u32 \<Rightarrow> mem option" where
  "ustrcpy m s t = ustrcpy_loop m s t"

definition umemset :: "mem \<Rightarrow> u32 \<Rightarrow> u32 \<Rightarrow> nat \<Rightarrow> mem" where
  "umemset m dst c n = stosb m dst (ucast c) n"

fun umemmove_loop :: "mem \<Rightarrow> u32 \<Rightarrow> u32 \<Rightarrow> nat \<Rightarrow> mem" where
  "umemmove_loop m dst src 0 = m"
| "umemmove_loop m dst src (Suc n) = umemmove_loop (m(dst := m src)) (dst + 1) (src + 1) n"

definition umemmove :: "mem \<Rightarrow> u32 \<Rightarrow> u32 \<Rightarrow> int \<Rightarrow> mem" where
  "umemmove m vdst vsrc n = umemmove_loop m vdst vsrc (nat n)"

subsection \<open>printf.c\<close>

definition uputc :: "nat \<Rightarrow> char \<Rightarrow> (xworld, unit) um" where
  "uputc fd c = ubnd (sys_write fd [c]) (\<lambda>_. uret ())"

definition digits_upper :: string where "digits_upper = ''0123456789ABCDEF''"

definition uprintint_text :: "u32 \<Rightarrow> nat \<Rightarrow> bool \<Rightarrow> string" where
  "uprintint_text xx base sg =
     (let neg = (sg \<and> sint xx < 0);
          x = (if neg then - xx else xx);
          buf = map (\<lambda>d. digits_upper ! d) (pdigits base (unat x));
          buf = (if neg then buf @ ''-'' else buf)
      in rev buf)"

definition uprintint :: "nat \<Rightarrow> u32 \<Rightarrow> nat \<Rightarrow> bool \<Rightarrow> (xworld, unit) um" where
  "uprintint fd xx base sg = ufor (uprintint_text xx base sg) (uputc fd)"

text \<open>
  The loop over the format with its \<open>state\<close> (\<open>True\<close> after a percent sign). An argument that is
  missing, or of the other kind, makes the library read the stack as something it is not.
\<close>

fun uprintf_loop :: "nat \<Rightarrow> bool \<Rightarrow> string \<Rightarrow> fmt_arg list \<Rightarrow> (xworld, unit) um" where
  "uprintf_loop fd st [] ap = uret ()"
| "uprintf_loop fd False (c # f) ap =
     (if c = CHR ''%'' then uprintf_loop fd True f ap
      else uthn (uputc fd c) (uprintf_loop fd False f ap))"
| "uprintf_loop fd True (c # f) ap =
     (if c = CHR ''d'' then
        (case ap of FInt x # ap \<Rightarrow> uthn (uprintint fd x 10 True) (uprintf_loop fd False f ap)
         | _ \<Rightarrow> ucrash ''bad argument'')
      else if c = CHR ''x'' \<or> c = CHR ''p'' then
        (case ap of FInt x # ap \<Rightarrow> uthn (uprintint fd x 16 False) (uprintf_loop fd False f ap)
         | _ \<Rightarrow> ucrash ''bad argument'')
      else if c = CHR ''s'' then
        (case ap of FPtr p # ap \<Rightarrow>
           uthn (ufor (case p of None \<Rightarrow> ''(null)'' | Some t \<Rightarrow> t) (uputc fd)) (uprintf_loop fd False f ap)
         | _ \<Rightarrow> ucrash ''bad argument'')
      else if c = CHR ''c'' then
        (case ap of FInt x # ap \<Rightarrow> uthn (uputc fd (char_of (unat x))) (uprintf_loop fd False f ap)
         | _ \<Rightarrow> ucrash ''bad argument'')
      else if c = CHR ''%'' then uthn (uputc fd c) (uprintf_loop fd False f ap)
      else uthn (uputc fd (CHR ''%'')) (uthn (uputc fd c) (uprintf_loop fd False f ap)))"

definition uprintf :: "nat \<Rightarrow> string \<Rightarrow> fmt_arg list \<Rightarrow> (xworld, unit) um" where
  "uprintf fd fmt ap = uprintf_loop fd False fmt ap"

subsection \<open>What printf writes\<close>

lemma ufor_putc:
  "wok w fd \<Longrightarrow> ufor t (uputc fd) w = Done () (emit fd t w)"
  by (induction t arbitrary: w) (simp_all add: uputc_def sys_write_def)

lemma ufor_putc_bad: "\<not> wok w fd \<Longrightarrow> ufor t (uputc fd) w = Done () w"
  by (induction t) (simp_all add: uputc_def sys_write_def)

text \<open>
  What a format means: the list of the pieces it prints, each with a flag that tells whether it
  is the number of a \<open>%x\<close> or \<open>%p\<close>. Only cprintf's missing \<open>%c\<close> is left out.
\<close>

fun no_char :: "string \<Rightarrow> bool" where
  "no_char [] \<longleftrightarrow> True"
| "no_char [c] \<longleftrightarrow> True"
| "no_char (c # d # f) \<longleftrightarrow>
     (if c = CHR ''%'' then d \<noteq> CHR ''c'' \<and> no_char f else no_char (d # f))"

text \<open>Formats without \<open>%x\<close> and \<open>%p\<close> print the same text.\<close>

fun plain_fmt :: "string \<Rightarrow> bool" where
  "plain_fmt [] \<longleftrightarrow> True"
| "plain_fmt [c] \<longleftrightarrow> True"
| "plain_fmt (c # d # f) \<longleftrightarrow>
     (if c = CHR ''%'' then d \<notin> set ''xpc'' \<and> plain_fmt f else plain_fmt (d # f))"

fun fmt_pieces :: "string \<Rightarrow> fmt_arg list \<Rightarrow> (bool \<times> string) list option" where
  "fmt_pieces [] as = Some []"
| "fmt_pieces [c] as = Some (if c = CHR ''%'' then [] else [(False, [c])])"
| "fmt_pieces (c # d # f) as =
     (if c \<noteq> CHR ''%'' then map_option (Cons (False, [c])) (fmt_pieces (d # f) as)
      else if d = CHR ''c'' then None
      else if d = CHR ''d'' then
        (case as of FInt x # as' \<Rightarrow>
           map_option (Cons (False, printint_text x 10 True)) (fmt_pieces f as')
         | _ \<Rightarrow> None)
      else if d = CHR ''x'' \<or> d = CHR ''p'' then
        (case as of FInt x # as' \<Rightarrow>
           map_option (Cons (True, printint_text x 16 False)) (fmt_pieces f as')
         | _ \<Rightarrow> None)
      else if d = CHR ''s'' then
        (case as of FPtr p # as' \<Rightarrow>
           map_option (Cons (False, case p of None \<Rightarrow> ''(null)'' | Some t \<Rightarrow> t)) (fmt_pieces f as')
         | _ \<Rightarrow> None)
      else map_option (Cons (False, if d = CHR ''%'' then [d] else [c, d])) (fmt_pieces f as))"

definition upcase :: "char \<Rightarrow> char" where
  "upcase c = (if c \<in> set ''abcdef'' then char_of (of_char c - 32 :: nat) else c)"

definition shown :: "bool \<times> string \<Rightarrow> string" where
  "shown p = (if fst p then map upcase (snd p) else snd p)"

lemma shown_plain [simp]: "shown (False, t) = t"
  by (simp add: shown_def)

lemma digits_upcase: "d < 16 \<Longrightarrow> digits_upper ! d = upcase (digits_lower ! d)"
proof -
  assume "d < 16"
  moreover have "list_all (\<lambda>d. digits_upper ! d = upcase (digits_lower ! d)) [0..<16]" by code_simp
  ultimately show ?thesis by (simp only: list_all_iff set_upt) simp
qed

lemma uprintint_hex: "uprintint_text x 16 False = shown (True, printint_text x 16 False)"
proof -
  have "map (\<lambda>d. digits_upper ! d) (pdigits 16 n) = map upcase (map (\<lambda>d. digits_lower ! d) (pdigits 16 n))" for n
    unfolding map_map by (rule map_cong) (use pdigits_small [of 16] in \<open>auto intro!: digits_upcase\<close>)
  then show ?thesis by (simp add: uprintint_text_def printint_text_def shown_def rev_map)
qed

lemma digits_same: "d < 10 \<Longrightarrow> digits_upper ! d = digits_lower ! d"
  by (auto simp: digits_upper_def digits_lower_def less_Suc_eq numeral_eq_Suc)

lemma uprintint_decimal: "uprintint_text x 10 s = printint_text x 10 s"
proof -
  have "map (\<lambda>d. digits_upper ! d) (pdigits 10 n) = map (\<lambda>d. digits_lower ! d) (pdigits 10 n)" for n
    by (rule map_cong) (use pdigits_small [of 10] in \<open>auto intro!: digits_same\<close>)
  then show ?thesis unfolding uprintint_text_def printint_text_def by (simp only: Let_def)
qed

text \<open>The kernel's printer and the library's, over the same pieces.\<close>

lemma fmt_pieces_step [consumes 1, case_names lit dec hex str pct other]:
  assumes "fmt_pieces (c # d # f) as = Some ps"
  obtains qs where "c \<noteq> CHR ''%''" "fmt_pieces (d # f) as = Some qs" "ps = (False, [c]) # qs"
  | x as' qs where "c = CHR ''%''" "d = CHR ''d''" "as = FInt x # as'" "fmt_pieces f as' = Some qs"
      "ps = (False, printint_text x 10 True) # qs"
  | x as' qs where "c = CHR ''%''" "d = CHR ''x'' \<or> d = CHR ''p''" "as = FInt x # as'"
      "fmt_pieces f as' = Some qs" "ps = (True, printint_text x 16 False) # qs"
  | p as' qs where "c = CHR ''%''" "d = CHR ''s''" "as = FPtr p # as'" "fmt_pieces f as' = Some qs"
      "ps = (False, case p of None \<Rightarrow> ''(null)'' | Some t \<Rightarrow> t) # qs"
  | qs where "c = CHR ''%''" "d = CHR ''%''" "fmt_pieces f as = Some qs" "ps = (False, ''%'') # qs"
  | qs where "c = CHR ''%''" "d \<noteq> CHR ''c''" "d \<noteq> CHR ''d''" "d \<noteq> CHR ''x''" "d \<noteq> CHR ''p''"
      "d \<noteq> CHR ''s''" "d \<noteq> CHR ''%''" "fmt_pieces f as = Some qs" "ps = (False, [c, d]) # qs"
proof (cases "c = CHR ''%''")
  case False
  then show ?thesis using assms that(1) by (auto simp del: fmt_pieces.simps(1,2))
next
  case c: True
  consider "d = CHR ''c''" | "d = CHR ''d''" | "d = CHR ''x'' \<or> d = CHR ''p''" | "d = CHR ''s''" | "d = CHR ''%''"
    | "d \<noteq> CHR ''c''" "d \<noteq> CHR ''d''" "d \<noteq> CHR ''x''" "d \<noteq> CHR ''p''" "d \<noteq> CHR ''s''" "d \<noteq> CHR ''%''"
    by argo
  then show ?thesis
  proof cases
    case 1 then show ?thesis using assms c by simp
  next
    case 2
    then show ?thesis using assms c that(2) by (simp split: list.splits fmt_arg.splits) blast
  next
    case 3
    then have "fmt_pieces (c # d # f) as = (case as of FInt x # as' \<Rightarrow>
        map_option (Cons (True, printint_text x 16 False)) (fmt_pieces f as') | _ \<Rightarrow> None)"
      using c by (elim disjE) simp_all
    then show ?thesis using assms c 3 that(3)
      by (simp split: list.splits fmt_arg.splits del: fmt_pieces.simps) blast
  next
    case 4
    then show ?thesis using assms c that(4) by (simp split: list.splits fmt_arg.splits) blast
  next
    case 5
    then show ?thesis using assms c that(5) by simp blast
  next
    case 6
    then show ?thesis using assms c that(6) by simp blast
  qed
qed

lemma cprintf_pieces: "fmt_pieces f ap = Some ps \<Longrightarrow> cprintf_fmt f ap = Some (concat (map snd ps))"
proof (induction f arbitrary: ap ps rule: plain_fmt.induct)
  case (3 c d f)
  from "3.prems" show ?case
  proof (cases rule: fmt_pieces_step)
    case (hex x as' qs)
    then have "cprintf_fmt (c # d # f) ap = map_option ((@) (printint_text x 16 False)) (cprintf_fmt f as')"
      by (elim disjE) simp_all
    then show ?thesis using "3.IH"(1) [OF hex(1,4)] hex(5) by simp
  qed (use "3.IH" in simp_all)
qed (auto split: if_splits)

lemma pieces_exist:
  "no_char f \<Longrightarrow> cprintf_fmt f ap = Some t \<Longrightarrow> \<exists>ps. fmt_pieces f ap = Some ps"
proof (induction f arbitrary: ap t rule: plain_fmt.induct)
  case (3 c d f)
  show ?case
  proof (cases "c = CHR ''%''")
    case False
    then show ?thesis using 3 by (auto simp del: fmt_pieces.simps(1,2))
  next
    case c: True
    then have n: "d \<noteq> CHR ''c''" "no_char f" using "3.prems"(1) by simp_all
    note IH = "3.IH"(1) [OF c n(2)]
    consider "d = CHR ''d''" | "d = CHR ''x'' \<or> d = CHR ''p''" | "d = CHR ''s''" | "d = CHR ''%''"
      | "d \<noteq> CHR ''d''" "d \<noteq> CHR ''x''" "d \<noteq> CHR ''p''" "d \<noteq> CHR ''s''" "d \<noteq> CHR ''%''"
      by argo
    then show ?thesis
    proof cases
      case 1
      then show ?thesis using "3.prems"(2) c IH by (fastforce split: list.splits fmt_arg.splits)
    next
      case 2
      then show ?thesis using "3.prems"(2) c IH
        by (elim disjE) (fastforce split: list.splits fmt_arg.splits)+
    next
      case 3
      then show ?thesis using "3.prems"(2) c IH by (fastforce split: list.splits fmt_arg.splits)
    next
      case 4
      then show ?thesis using "3.prems"(2) c IH by fastforce
    next
      case 5
      then show ?thesis using "3.prems"(2) c IH n(1) by fastforce
    qed
  qed
qed auto

lemma uprintf_pieces:
  "fmt_pieces f ap = Some ps \<Longrightarrow> wok w fd \<Longrightarrow>
     uprintf_loop fd False f ap w = Done () (emit fd (concat (map shown ps)) w)"
proof (induction f arbitrary: ap ps w rule: plain_fmt.induct)
  case (2 c)
  then show ?case by (auto simp: uputc_def sys_write_def split: if_splits)
next
  case (3 c d f)
  from "3.prems"(1) show ?case
  proof (cases rule: fmt_pieces_step)
    case (hex x as' qs)
    then have "uprintf_loop fd False (c # d # f) ap w =
        uthn (uprintint fd x 16 False) (uprintf_loop fd False f as') w"
      by (elim disjE) simp_all
    then show ?thesis using "3.IH"(1) [OF hex(1,4)] hex(5) "3.prems"(2)
      by (simp add: uprintint_def uprintint_hex ufor_putc)
  qed (use "3.IH" "3.prems"(2) in
      \<open>simp_all add: uputc_def sys_write_def uprintint_def uprintint_decimal ufor_putc\<close>)
qed simp

lemma plain_no_char: "plain_fmt f \<Longrightarrow> no_char f"
  by (induction f rule: plain_fmt.induct) (auto split: if_splits)

lemma plain_pieces: "plain_fmt f \<Longrightarrow> fmt_pieces f ap = Some ps \<Longrightarrow> p \<in> set ps \<Longrightarrow> \<not> fst p"
proof (induction f arbitrary: ap ps rule: plain_fmt.induct)
  case (3 c d f)
  from "3.prems"(2) show ?case
    by (cases rule: fmt_pieces_step) (use 3 in \<open>auto simp del: fmt_pieces.simps\<close>)
qed (auto split: if_splits)

lemma uprintf_text:
  assumes "plain_fmt f" and "cprintf_fmt f ap = Some t" and "wok w fd"
  shows "uprintf_loop fd False f ap w = Done () (emit fd t w)"
proof -
  obtain ps where ps: "fmt_pieces f ap = Some ps"
    using pieces_exist [OF plain_no_char [OF assms(1)] assms(2)] by blast
  have "map shown ps = map snd ps"
    using plain_pieces [OF assms(1) ps] by (intro map_cong) (auto simp: shown_def)
  then show ?thesis using uprintf_pieces [OF ps assms(3)] cprintf_pieces [OF ps] assms(2)
    by (simp del: map_eq_conv)
qed


definition xworld0 :: xworld where
  "xworld0 = \<lparr>fds = Map.empty, fs = Map.empty, outs = (\<lambda>_. []), wok = (\<lambda>fd. fd < 3), rerr = (\<lambda>_. False)\<rparr>"


subsection \<open>atoi reads what printf prints\<close>

lemma atoi_loop_digits:
  assumes "\<forall>d \<in> set ds. d < 10"
  shows "atoi_loop (map (\<lambda>d. digits_upper ! d) ds) n = fold (\<lambda>d n. n * 10 + of_nat d) ds n"
  using assms
proof (induction ds arbitrary: n)
  case (Cons d ds)
  have "of_char (digits_upper ! d) = d + 48" if "d < 10" for d :: nat
    using that by (auto simp: digits_upper_def less_Suc_eq numeral_eq_Suc)
  then show ?case using Cons by simp
qed simp

lemma fold_digits_value:
  "fold (\<lambda>d n. n * 10 + of_nat d) (rev ds) (n :: 32 word) = n * 10 ^ List.length ds + of_nat (digits_value 10 ds)"
proof (induction ds)
  case (Cons d ds)
  then show ?case by (simp add: algebra_simps)
qed simp

text \<open>
  C34. The text printf prints for a non-negative int under \<open>%d\<close> is read back by atoi as the
  same int.
\<close>

theorem atoi_printint:
  assumes "0 \<le> sint x"
  shows "atoi (uprintint_text x 10 True) = x"
proof -
  have s: "\<forall>d \<in> set (rev (pdigits 10 (unat x))). d < 10" using pdigits_small [of 10] by auto
  have "uprintint_text x 10 True = map (\<lambda>d. digits_upper ! d) (rev (pdigits 10 (unat x)))"
    using assms by (simp add: uprintint_text_def rev_map)
  then show ?thesis
    using atoi_loop_digits [OF s] fold_digits_value [of "pdigits 10 (unat x)" 0]
    by (simp add: atoi_def pdigits_value)
qed

lemma atoi_printint_witness: "0 \<le> sint (1234 :: 32 word) \<and> atoi (uprintint_text 1234 10 True) = 1234"
proof -
  have "0 \<le> sint (1234 :: 32 word)" by code_simp
  then show ?thesis using atoi_printint by blast
qed

subsection \<open>memmove of the user library\<close>

lemma umemmove_loop_up: "umemmove_loop m d s n = copy_up m d s n"
  by (induction n arbitrary: m d s) simp_all

lemma copy_up_snoc:
  "copy_up m d s (Suc n) = (copy_up m d s n)(d + of_nat n := copy_up m d s n (s + of_nat n))"
proof (induction n arbitrary: m d s)
  case (Suc n)
  have "copy_up m d s (Suc (Suc n)) = copy_up (m(d := m s)) (d + 1) (s + 1) (Suc n)" by simp
  also have "\<dots> = (copy_up m d s (Suc n))(d + 1 + of_nat n := copy_up m d s (Suc n) (s + 1 + of_nat n))"
    by (subst Suc.IH) simp
  finally show ?case by (simp add: algebra_simps)
qed simp

lemma unat_of_nat_u32: "n < 2 ^ 32 \<Longrightarrow> unat (of_nat n :: u32) = n"
  by (rule unat_of_nat_small) simp

text \<open>
  The byte at offset \<open>i\<close> of the destination comes from the source at \<open>i\<close> modulo the distance by
  which the destination is above the source (in HOL \<open>i mod 0\<close> is \<open>i\<close>).
\<close>

definition smeared :: "mem \<Rightarrow> u32 \<Rightarrow> u32 \<Rightarrow> nat \<Rightarrow> mem" where
  "smeared m d s n = (\<lambda>a. if unat (a - d) < n
     then m (s + of_nat (unat (a - d) mod unat (d - s))) else m a)"

lemma smeared_source:
  assumes "n < 2 ^ 32"
  shows "smeared m d s n (s + of_nat n) = m (s + of_nat (n mod unat (d - s)))"
proof -
  let ?k = "unat (d - s)"
  have un: "unat (of_nat n :: u32) = n" using assms by (simp add: unat_of_nat_u32)
  have e: "s + of_nat n - d = of_nat n - (d - s)" by simp
  consider "d = s" | "d \<noteq> s" "?k \<le> n" | "n < ?k" by fastforce
  then show ?thesis
  proof cases
    case 1
    then show ?thesis using un by (simp add: smeared_def)
  next
    case 2
    have k0: "0 < ?k" using 2(1) by (simp add: unat_gt_0)
    have u: "unat (s + of_nat n - d) = n - ?k"
      unfolding e using 2(2) un by (simp add: unat_sub word_le_nat_alt)
    have "(n - ?k) mod ?k = n mod ?k" using 2(2) by (simp add: le_mod_geq)
    then show ?thesis using k0 2(2) by (simp add: smeared_def u)
  next
    case 3
    have "n \<le> unat (s + of_nat n - d)"
      unfolding e using 3 unat32_less [of "d - s"] un by (simp add: unat_sub_if')
    then show ?thesis using 3 by (simp add: smeared_def)
  qed
qed

lemma copy_up_smeared: "n \<le> 2 ^ 32 \<Longrightarrow> copy_up m d s n = smeared m d s n"
proof (induction n)
  case 0
  then show ?case by (simp add: smeared_def)
next
  case (Suc n)
  then have n: "n < 2 ^ 32" by simp
  have un: "unat (of_nat n :: u32) = n" using n by (simp add: unat_of_nat_u32)
  have "copy_up m d s (Suc n) = (smeared m d s n)(d + of_nat n := smeared m d s n (s + of_nat n))"
    unfolding copy_up_snoc using Suc by simp
  also have "\<dots> = smeared m d s (Suc n)"
  proof
    fix a
    have "unat (a - d) = n \<longleftrightarrow> a = d + of_nat n"
    proof
      assume "unat (a - d) = n"
      then have "a - d = of_nat n" by auto
      then show "a = d + of_nat n" by (simp add: algebra_simps)
    qed (simp add: un)
    then show "((smeared m d s n)(d + of_nat n := smeared m d s n (s + of_nat n))) a = smeared m d s (Suc n) a"
      unfolding smeared_source [OF n] using un by (auto simp: smeared_def less_Suc_eq)
  qed
  finally show ?case .
qed

text \<open>
  C35. The user library's memmove copies upwards only, one byte at a time. For every destination
  the byte at offset \<open>i\<close> below \<open>n\<close> ends up as the source's byte at \<open>i\<close> modulo the distance from
  the source up to the destination, and no other byte changes. So it moves \<open>n\<close> bytes as memmove
  should exactly as far as the destination does not start inside the source, and a destination
  inside the source gets the source's first bytes over and over. A negative count moves nothing.
\<close>

theorem umemmove_outcomes:
  assumes "n < 2 ^ 32"
  shows "umemmove m dst src n =
       (\<lambda>a. if int (unat (a - dst)) < n
            then m (src + of_nat (unat (a - dst) mod unat (dst - src))) else m a) \<and>
     (dst = src \<or> n \<le> uint (dst - src) \<longrightarrow> umemmove m dst src n = copied m dst src (nat n))"
proof
  have n: "nat n < 2 ^ 32" using assms by (simp add: nat_less_iff)
  show "umemmove m dst src n = (\<lambda>a. if int (unat (a - dst)) < n
      then m (src + of_nat (unat (a - dst) mod unat (dst - src))) else m a)"
    using copy_up_smeared [of "nat n" m dst src] n
    by (auto simp: umemmove_def umemmove_loop_up smeared_def fun_eq_iff zless_nat_eq_int_zless)
  show "dst = src \<or> n \<le> uint (dst - src) \<longrightarrow> umemmove m dst src n = copied m dst src (nat n)"
  proof
    assume "dst = src \<or> n \<le> uint (dst - src)"
    then have "dst = src \<or> nat n \<le> unat (dst - src)" by (auto simp: nat_le_iff)
    then show "umemmove m dst src n = copied m dst src (nat n)"
      using copy_up_copied [OF n] by (simp add: umemmove_def umemmove_loop_up)
  qed
qed

lemma umemmove_outcomes_witness:
  "map (umemmove (\<lambda>a. if a < 103 then ucast (a - 99) else 9) 102 100 4) [102, 103, 104, 105, 106] =
     [1, 2, 1, 2, 9]"
proof -
  have "(4 :: int) < 2 ^ 32" by simp
  note moved = conjunct1 [OF umemmove_outcomes [OF this]]
  show ?thesis unfolding moved by simp
qed

subsection \<open>strcpy returns\<close>

lemma ustrcpy_loop_returns:
  assumes "m (t + of_nat k) = 0" and "\<forall>j<k. m (t + of_nat j) \<noteq> 0" and "k < 2 ^ 32"
    and "s = t \<or> k < unat (s - t)"
  shows "ustrcpy_loop m s t = Some (copy_up m s t (Suc k))"
  using assms
proof (induction k arbitrary: m s t)
  case 0
  then show ?case by (subst ustrcpy_loop.simps) simp
next
  case (Suc k)
  let ?m = "m(s := m t)"
  have same: "?m (t + 1 + of_nat j) = m (t + of_nat (Suc j))" if "j \<le> k" for j
  proof -
    have u: "unat (of_nat (Suc j) :: u32) = Suc j" by (rule unat_of_nat_u32) (use that Suc.prems(3) in simp)
    have "t + of_nat (Suc j) \<noteq> s"
    proof
      assume a: "t + of_nat (Suc j) = s"
      then have "s - t = of_nat (Suc j)" by (simp add: algebra_simps)
      then have "unat (s - t) = Suc j" using u by simp
      moreover have "s \<noteq> t" using calculation by auto
      ultimately show False using Suc.prems(4) that by simp
    qed
    then show ?thesis by (simp add: algebra_simps)
  qed
  have "m t \<noteq> 0" using Suc.prems(2) by force
  then have "ustrcpy_loop m s t = ustrcpy_loop ?m (s + 1) (t + 1)" by (subst ustrcpy_loop.simps) simp
  also have "\<dots> = Some (copy_up ?m (s + 1) (t + 1) (Suc k))"
  proof (rule Suc.IH)
    show "?m (t + 1 + of_nat k) = 0" using same [of k] Suc.prems(1) by simp
    show "\<forall>j<k. ?m (t + 1 + of_nat j) \<noteq> 0"
    proof (intro allI impI)
      fix j assume "j < k"
      then show "?m (t + 1 + of_nat j) \<noteq> 0" using same [of j] Suc.prems(2) by (simp only: less_imp_le Suc_less_eq) blast
    qed
  qed (use Suc.prems(3,4) in auto)
  finally show ?case by simp
qed

text \<open>
  strcpy of a string of \<open>k\<close> characters returns, with the string and its NUL copied, when the
  destination does not lie inside the source.
\<close>

lemma ustrcpy_returns:
  assumes "m (t + of_nat k) = 0" and "\<forall>j<k. m (t + of_nat j) \<noteq> 0" and "Suc k < 2 ^ 32"
    and "s = t \<or> k < unat (s - t)"
  shows "ustrcpy m s t = Some (copied m s t (Suc k))"
proof -
  have "ustrcpy m s t = Some (copy_up m s t (Suc k))"
    unfolding ustrcpy_def by (rule ustrcpy_loop_returns) (use assms in auto)
  moreover have "s = t \<or> Suc k \<le> unat (s - t)" using assms(4) by auto
  ultimately show ?thesis using copy_up_copied [OF assms(3)] by simp
qed

end
