(* ===== verification/Uprogs.thy ===== *)
theory Uprogs
  imports Ulib
begin

section \<open>Filters: cat.c, wc.c, grep.c\<close>

subsection \<open>Reading a descriptor to its end\<close>

definition weight :: "nat \<Rightarrow> xworld \<Rightarrow> nat" where
  "weight fd w = (case fds w fd of None \<Rightarrow> 0 | Some cs \<Rightarrow> sum_list (map (\<lambda>c. Suc (List.length c)) cs))"

lemma sys_read_weight:
  assumes "sys_read fd n w = (r, d, w')" and "0 < r"
  shows "weight fd w' < weight fd w"
  using assms by (auto simp: sys_read_def weight_def split: option.splits list.splits if_splits)

lemma sys_read_weight_sym: "(r, d, w') = sys_read fd n w \<Longrightarrow> 0 < r \<Longrightarrow> weight fd w' < weight fd w"
  by (metis sys_read_weight)

lemma weight_fds: "fds w' = fds w \<Longrightarrow> weight fd w' = weight fd w"
  by (simp add: weight_def)

lemma sys_read_end:
  assumes "sys_read fd n w = (r, d, w')" and "fds w fd = Some []"
  shows "w' = w" and "r = (if rerr w fd then - 1 else 0)"
  using assms by (auto simp: sys_read_def split: if_splits)

subsection \<open>cat\<close>

function cat_loop :: "nat \<Rightarrow> xworld \<Rightarrow> (int, xworld) uout" where
  "cat_loop fd w =
     (case sys_read fd 512 w of (n, d, w1) \<Rightarrow>
        if 0 < n then
          (if wok w1 1 then cat_loop fd (emit 1 d w1)
           else uthn (uprintf 1 (''cat: write error'' @ newline) []) xexit w1)
        else Done n w1)"
  by pat_completeness auto
termination
  by (relation "measure (\<lambda>(fd, w). weight fd w)") (auto dest: sys_read_weight_sym simp: weight_fds [OF emit_fields(1)])

declare cat_loop.simps [simp del]

definition cat :: "nat \<Rightarrow> (xworld, unit) um" where
  "cat fd = ubnd (cat_loop fd) (\<lambda>n.
     if n < 0 then uthn (uprintf 1 (''cat: read error'' @ newline) []) xexit else uret ())"

definition each_file :: "string \<Rightarrow> (nat \<Rightarrow> string \<Rightarrow> (xworld, unit) um) \<Rightarrow> string list \<Rightarrow> (xworld, unit) um" where
  "each_file cannot body args =
     ufor args (\<lambda>a. ubnd (sys_open a) (\<lambda>r.
       case r of
         None \<Rightarrow> uthn (uprintf 1 (cannot @ newline) [FPtr (Some a)]) xexit
       | Some fd \<Rightarrow> uthn (body fd a) (sys_close fd)))"

definition cat_main :: "string list \<Rightarrow> (xworld, unit) um" where
  "cat_main argv =
     (if List.length argv \<le> 1 then uthn (cat 0) xexit
      else uthn (each_file ''cat: cannot open %s'' (\<lambda>fd a. cat fd) (tl argv)) xexit)"

subsection \<open>wc\<close>

definition wc_space :: "char \<Rightarrow> bool" where
  "wc_space c \<longleftrightarrow> ustrchr [CHR '' '', CHR 0x0D, CHR 0x09, CHR 0x0A, CHR 0x0B] c \<noteq> None"

fun wc_char :: "char \<Rightarrow> u32 \<times> u32 \<times> u32 \<times> bool \<Rightarrow> u32 \<times> u32 \<times> u32 \<times> bool" where
  "wc_char x (l, w, c, inword) =
     (let c = c + 1;
          l = (if x = CHR 0x0A then l + 1 else l)
      in if wc_space x then (l, w, c, False)
         else if \<not> inword then (l, w + 1, c, True)
         else (l, w, c, inword))"

function wc_loop :: "nat \<Rightarrow> u32 \<times> u32 \<times> u32 \<times> bool \<Rightarrow> xworld \<Rightarrow> int \<times> (u32 \<times> u32 \<times> u32 \<times> bool) \<times> xworld" where
  "wc_loop fd st w =
     (case sys_read fd 512 w of (n, d, w1) \<Rightarrow>
        if 0 < n then wc_loop fd (fold wc_char d st) w1 else (n, st, w1))"
  by pat_completeness auto
termination
  by (relation "measure (\<lambda>(fd, st, w). weight fd w)") (auto dest: sys_read_weight_sym)

declare wc_loop.simps [simp del]

definition wc :: "nat \<Rightarrow> string \<Rightarrow> (xworld, unit) um" where
  "wc fd name w =
     (case wc_loop fd (0, 0, 0, False) w of (n, (l, wd, c, inword), w1) \<Rightarrow>
        if n < 0 then uthn (uprintf 1 (''wc: read error'' @ newline) []) xexit w1
        else uprintf 1 (''%d %d %d %s'' @ newline) [FInt l, FInt wd, FInt c, FPtr (Some name)] w1)"

definition wc_main :: "string list \<Rightarrow> (xworld, unit) um" where
  "wc_main argv =
     (if List.length argv \<le> 1 then uthn (wc 0 []) xexit
      else uthn (each_file ''wc: cannot open %s'' wc (tl argv)) xexit)"

subsection \<open>grep: the matcher\<close>

text \<open>A pattern or text pointer is the rest of the string; its character at the end is NUL.\<close>

definition char_is :: "string \<Rightarrow> nat \<Rightarrow> char \<Rightarrow> bool" where
  "char_is s i c \<longleftrightarrow> i < List.length s \<and> s ! i = c"

function matchhere :: "string \<Rightarrow> string \<Rightarrow> bool"
  and matchstar :: "char \<Rightarrow> string \<Rightarrow> string \<Rightarrow> bool" where
  "matchhere re text =
     (case re of
        [] \<Rightarrow> True
      | c # re1 \<Rightarrow>
          if char_is re 1 (CHR ''*'') then matchstar c (tl re1) text
          else if c = CHR ''$'' \<and> re1 = [] then text = []
          else (case text of
              [] \<Rightarrow> False
            | t # ts \<Rightarrow> (if c = CHR ''.'' \<or> c = t then matchhere re1 ts else False)))"
| "matchstar c re text =
     (if matchhere re text then True
      else (case text of
          [] \<Rightarrow> False
        | t # ts \<Rightarrow> (if t = c \<or> c = CHR ''.'' then matchstar c re ts else False)))"
  by pat_completeness auto
termination
  by (relation "measures [\<lambda>x. case x of Inl (re, t) \<Rightarrow> 2 * List.length re | Inr (c, re, t) \<Rightarrow> 2 * List.length re + 1,
      \<lambda>x. case x of Inl (re, t) \<Rightarrow> List.length t | Inr (c, re, t) \<Rightarrow> List.length t]")
    (auto simp: char_is_def)

declare matchhere.simps [simp del] matchstar.simps [simp del]

fun match_from :: "string \<Rightarrow> string \<Rightarrow> bool" where
  "match_from re text =
     (if matchhere re text then True
      else (case text of [] \<Rightarrow> False | t # ts \<Rightarrow> match_from re ts))"

declare match_from.simps [simp del]

definition match :: "string \<Rightarrow> string \<Rightarrow> bool" where
  "match re text = (if char_is re 0 (CHR ''^'') then matchhere (tl re) text else match_from re text)"

subsection \<open>grep: the lines\<close>

text \<open>\<open>strchr(p, newline)\<close> sees the buffer up to its first NUL.\<close>

definition NUL :: char where "NUL = CHR 0x00"

definition split_line :: "string \<Rightarrow> (string \<times> string) option" where
  "split_line p =
     (let s = takeWhile (\<lambda>c. c \<noteq> NUL) p; l = takeWhile (\<lambda>c. c \<noteq> CHR 0x0A) s
      in if CHR 0x0A \<in> set s then Some (l, drop (Suc (List.length l)) p) else None)"

lemma split_line_shorter: "split_line p = Some (l, r) \<Longrightarrow> List.length r < List.length p"
  by (cases p) (auto simp: split_line_def Let_def split: if_splits)

function grep_lines :: "string \<Rightarrow> string \<Rightarrow> xworld \<Rightarrow> string \<times> xworld" where
  "grep_lines pat p w =
     (case split_line p of
        None \<Rightarrow> (p, w)
      | Some (line, rest) \<Rightarrow>
          grep_lines pat rest
            (if match pat line \<and> wok w 1 then emit 1 (line @ newline) w else w))"
  by pat_completeness auto
termination
  by (relation "measure (\<lambda>(pat, p, w). List.length p)") (auto simp: split_line_shorter)

declare grep_lines.simps [simp del]

text \<open>
  \<open>kept\<close> is the first \<open>m\<close> bytes of the buffer. When no line was found, \<open>p == buf\<close>, the code
  sets \<open>m\<close> to 0.
\<close>

lemma grep_lines_fds: "fds (snd (grep_lines pat p w)) = fds w"
proof (induction pat p w rule: grep_lines.induct)
  case (1 pat p w)
  then show ?case by (subst grep_lines.simps) (auto split: option.splits if_splits)
qed

lemma grep_lines_weight: "(p', w') = grep_lines pat p w \<Longrightarrow> weight fd w' = weight fd w"
  using weight_fds [OF grep_lines_fds [of pat p w]] by (metis snd_conv)

function grep_loop :: "string \<Rightarrow> nat \<Rightarrow> string \<Rightarrow> xworld \<Rightarrow> xworld" where
  "grep_loop pat fd kept w =
     (case sys_read fd (1024 - List.length kept - 1) w of (n, d, w1) \<Rightarrow>
        if 0 < n then
          (case grep_lines pat (kept @ d) w1 of (p, w2) \<Rightarrow>
             grep_loop pat fd (if p = kept @ d then [] else p) w2)
        else w1)"
  by pat_completeness auto
termination
  by (relation "measure (\<lambda>(pat, fd, kept, w). weight fd w)")
    (auto dest: sys_read_weight_sym simp: grep_lines_weight)

declare grep_loop.simps [simp del]

definition grep :: "string \<Rightarrow> nat \<Rightarrow> (xworld, unit) um" where
  "grep pat fd w = Done () (grep_loop pat fd [] w)"

definition grep_main :: "string list \<Rightarrow> (xworld, unit) um" where
  "grep_main argv =
     (if List.length argv \<le> 1 then
        uthn (uprintf 2 (''usage: grep pattern [file ...]'' @ newline) []) xexit
      else
        (let pattern = argv ! 1 in
         if List.length argv \<le> 2 then uthn (grep pattern 0) xexit
         else uthn (each_file ''grep: cannot open %s'' (\<lambda>fd a. grep pattern fd) (drop 2 argv)) xexit))"

section \<open>What the filters do\<close>

definition pieces_ok :: "string list \<Rightarrow> bool" where
  "pieces_ok cs \<longleftrightarrow> (\<forall>c \<in> set cs. c \<noteq> [])"

definition drained :: "nat \<Rightarrow> xworld \<Rightarrow> xworld" where
  "drained fd w = w\<lparr>fds := (fds w)(fd \<mapsto> [])\<rparr>"

lemma sys_read_piece:
  assumes "fds w fd = Some (c # cs)" and "c \<noteq> []" and "pieces_ok cs" and "0 < n"
  obtains cs' where "sys_read fd n w = (int (min n (List.length c)), take n c, w\<lparr>fds := (fds w)(fd \<mapsto> cs')\<rparr>)"
    and "pieces_ok cs'" and "take n c @ concat cs' = c @ concat cs" and "0 < min n (List.length c)"
  using assms by (auto simp: sys_read_def pieces_ok_def)

lemma wc_loop_run:
  assumes "fds w fd = Some cs" and "pieces_ok cs"
  shows "wc_loop fd st w = (if rerr w fd then - 1 else 0, fold wc_char (concat cs) st, drained fd w)"
  using assms
proof (induction fd st w arbitrary: cs rule: wc_loop.induct)
  case (1 fd st w)
  show ?case
  proof (cases cs)
    case Nil
    then show ?thesis using "1.prems"
      by (subst wc_loop.simps) (simp add: sys_read_def drained_def fun_upd_idem)
  next
    case (Cons c cs0)
    then have "c \<noteq> []" "pieces_ok cs0" using "1.prems"(2) by (auto simp: pieces_ok_def)
    then obtain cs' where r: "sys_read fd 512 w = (int (min 512 (List.length c)), take 512 c, w\<lparr>fds := (fds w)(fd \<mapsto> cs')\<rparr>)"
      "pieces_ok cs'" "take 512 c @ concat cs' = c @ concat cs0" "0 < min 512 (List.length c)"
      using sys_read_piece "1.prems"(1) Cons by (metis zero_less_numeral)
    have "wc_loop fd (fold wc_char (take 512 c) st) (w\<lparr>fds := (fds w)(fd \<mapsto> cs')\<rparr>) =
       (if rerr w fd then - 1 else 0, fold wc_char (concat cs') (fold wc_char (take 512 c) st), drained fd w)"
      using "1.IH" [OF r(1) [symmetric] refl, of cs'] r(2,4) by (simp add: drained_def)
    moreover have "fold wc_char (concat cs') (fold wc_char (take 512 c) st) = fold wc_char (concat cs) st"
      using arg_cong [OF r(3), of "\<lambda>x. fold wc_char x st"] Cons by simp
    ultimately show ?thesis using r(1,4) by (subst wc_loop.simps) simp
  qed
qed

text \<open>The number of newlines and of words (maximal runs of other characters than white space).\<close>

definition newlines :: "string \<Rightarrow> nat" where
  "newlines t = List.length (filter (\<lambda>c. c = CHR 0x0A) t)"

definition wordcount :: "string \<Rightarrow> nat" where
  "wordcount t = List.length
     (filter (\<lambda>i. \<not> wc_space (t ! i) \<and> (i = 0 \<or> wc_space (t ! (i - 1)))) [0..<List.length t])"

lemma wordcount_snoc:
  "wordcount (t @ [c]) = wordcount t + (if \<not> wc_space c \<and> (t = [] \<or> wc_space (last t)) then 1 else 0)"
proof -
  have "filter (\<lambda>i. \<not> wc_space ((t @ [c]) ! i) \<and> (i = 0 \<or> wc_space ((t @ [c]) ! (i - 1)))) [0..<List.length t] =
    filter (\<lambda>i. \<not> wc_space (t ! i) \<and> (i = 0 \<or> wc_space (t ! (i - 1)))) [0..<List.length t]"
    by (rule filter_cong) (auto simp: nth_append)
  moreover have "t \<noteq> [] \<Longrightarrow> (t @ [c]) ! (List.length t - 1) = last t"
    by (simp add: nth_append last_conv_nth)
  ultimately show ?thesis by (cases "t = []") (simp_all add: wordcount_def)
qed

lemma wc_fold:
  "fold wc_char t (0, 0, 0, False) =
     (of_nat (newlines t), of_nat (wordcount t), of_nat (List.length t), t \<noteq> [] \<and> \<not> wc_space (last t))"
proof (induction t rule: rev_induct)
  case Nil
  then show ?case by (simp add: newlines_def wordcount_def)
next
  case (snoc c t)
  then show ?case by (auto simp: newlines_def wordcount_snoc Let_def)
qed

text \<open>
  C36. However a file's bytes are split into the pieces the reads return, wc prints the number of
  newlines, of words and of bytes of the whole file, each modulo 2^32, and the name it was given.
\<close>

theorem wc_counts:
  assumes "fds w fd = Some cs" and "pieces_ok cs" and "\<not> rerr w fd" and "wok w 1"
  shows "wc fd name w = Done () (emit 1
    (printint_text (of_nat (newlines (concat cs))) 10 True @ '' '' @
     printint_text (of_nat (wordcount (concat cs))) 10 True @ '' '' @
     printint_text (of_nat (List.length (concat cs))) 10 True @ '' '' @ name @ newline) (drained fd w))"
proof -
  have "uprintf 1 (''%d %d %d %s'' @ newline) [FInt a, FInt b, FInt c, FPtr (Some name)] u =
     Done () (emit 1 (printint_text a 10 True @ '' '' @ printint_text b 10 True @ '' '' @
       printint_text c 10 True @ '' '' @ name @ newline) u)" if "wok u 1" for a b c u
    unfolding uprintf_def using that by (intro uprintf_text) (simp_all add: newline_def)
  then show ?thesis using wc_loop_run [OF assms(1,2), of "(0, 0, 0, False)"] assms(3,4)
    by (simp add: wc_def wc_fold drained_def)
qed

definition xfile :: "string list \<Rightarrow> xworld" where
  "xfile cs = xworld0\<lparr>fds := [0 \<mapsto> cs]\<rparr>"

lemma wc_counts_witness:
  "wc 0 ''f'' (xfile [''one t'', ''wo'' @ newline]) =
     Done () (emit 1 (''1 2 8 f'' @ newline) (drained 0 (xfile [''one t'', ''wo'' @ newline])))"
proof -
  let ?cs = "[''one t'', ''wo'' @ newline]"
  have c: "newlines (concat ?cs) = 1" "wordcount (concat ?cs) = 2" "List.length (concat ?cs) = 8"
    by code_simp+
  have p: "printint_text 1 10 True = ''1''" "printint_text 2 10 True = ''2''" "printint_text 8 10 True = ''8''"
    by code_simp+
  have "pieces_ok ?cs" by (simp add: pieces_ok_def newline_def)
  then have "wc 0 ''f'' (xfile ?cs) = Done () (emit 1
    (printint_text (of_nat (newlines (concat ?cs))) 10 True @ '' '' @
     printint_text (of_nat (wordcount (concat ?cs))) 10 True @ '' '' @
     printint_text (of_nat (List.length (concat ?cs))) 10 True @ '' '' @ ''f'' @ newline) (drained 0 (xfile ?cs)))"
    by (intro wc_counts) (simp_all add: xfile_def xworld0_def)
  then show ?thesis unfolding c using p by simp
qed

lemma cat_loop_run:
  assumes "fds w fd = Some cs" and "pieces_ok cs" and "wok w 1"
  shows "cat_loop fd w = Done (if rerr w fd then - 1 else 0) (emit 1 (concat cs) (drained fd w))"
  using assms
proof (induction fd w arbitrary: cs rule: cat_loop.induct)
  case (1 fd w)
  show ?case
  proof (cases cs)
    case Nil
    then show ?thesis using "1.prems"
      by (subst cat_loop.simps) (simp add: sys_read_def drained_def fun_upd_idem)
  next
    case (Cons c cs0)
    then have "c \<noteq> []" "pieces_ok cs0" using "1.prems"(2) by (auto simp: pieces_ok_def)
    then obtain cs' where r: "sys_read fd 512 w = (int (min 512 (List.length c)), take 512 c, w\<lparr>fds := (fds w)(fd \<mapsto> cs')\<rparr>)"
      "pieces_ok cs'" "take 512 c @ concat cs' = c @ concat cs0" "0 < min 512 (List.length c)"
      using sys_read_piece "1.prems"(1) Cons by (metis zero_less_numeral)
    let ?w1 = "w\<lparr>fds := (fds w)(fd \<mapsto> cs')\<rparr>"
    have "cat_loop fd (emit 1 (take 512 c) ?w1) =
       Done (if rerr w fd then - 1 else 0) (emit 1 (concat cs') (drained fd (emit 1 (take 512 c) ?w1)))"
      using "1.IH" [OF r(1) [symmetric] refl, of cs'] r(2,4) "1.prems"(3) by simp
    moreover have "emit 1 (concat cs') (drained fd (emit 1 (take 512 c) ?w1)) = emit 1 (concat cs) (drained fd w)"
      using r(3) Cons by (simp add: emit_def drained_def)
    ultimately show ?thesis using r(1,4) "1.prems"(3) by (subst cat_loop.simps) simp
  qed
qed

text \<open>
  C37. cat copies a descriptor to the standard output unchanged, and ends the process with its
  message when the writes, or a read, fail.
\<close>

theorem cat_copies:
  assumes "fds w fd = Some cs" and "pieces_ok cs"
  shows "(wok w 1 \<longrightarrow> cat fd w =
      (if rerr w fd then Exit 0 (emit 1 (concat cs @ ''cat: read error'' @ newline) (drained fd w))
       else Done () (emit 1 (concat cs) (drained fd w)))) \<and>
    (\<not> wok w 1 \<and> cs \<noteq> [] \<longrightarrow> (\<exists>w'. cat fd w = Exit 0 w' \<and> outs w' = outs w))"
proof (intro conjI impI)
  have msg: "uprintf 1 (t @ newline) [] u = Done () (emit 1 (t @ newline) u)"
    if "wok u 1" "cprintf_fmt (t @ newline) [] = Some (t @ newline)" "plain_fmt (t @ newline)" for t u
    unfolding uprintf_def using that by (intro uprintf_text)
  assume "wok w 1"
  then show "cat fd w =
      (if rerr w fd then Exit 0 (emit 1 (concat cs @ ''cat: read error'' @ newline) (drained fd w))
       else Done () (emit 1 (concat cs) (drained fd w)))"
    using cat_loop_run [OF assms] msg [of "emit 1 (concat cs) (drained fd w)" "''cat: read error''"]
    by (simp add: cat_def drained_def xexit_def newline_def)
next
  assume a: "\<not> wok w 1 \<and> cs \<noteq> []"
  then obtain c cs0 where c: "cs = c # cs0" "c \<noteq> []" "pieces_ok cs0"
    using assms(2) by (cases cs) (auto simp: pieces_ok_def)
  then obtain cs' where r: "sys_read fd 512 w = (int (min 512 (List.length c)), take 512 c, w\<lparr>fds := (fds w)(fd \<mapsto> cs')\<rparr>)"
    "0 < min 512 (List.length c)"
    using sys_read_piece [of w fd c cs0 512] assms(1) by auto
  have quiet: "uprintf_loop 1 False (t @ newline) [] u = Done () u"
    if "CHR ''%'' \<notin> set t" "\<not> wok u 1" for t u
    using that by (induction t) (auto simp: newline_def uputc_def sys_write_def)
  have "cat_loop fd w = Exit 0 (w\<lparr>fds := (fds w)(fd \<mapsto> cs')\<rparr>)"
    using r a quiet [of "''cat: write error''" "w\<lparr>fds := (fds w)(fd \<mapsto> cs')\<rparr>"]
    by (subst cat_loop.simps) (simp add: uprintf_def xexit_def)
  then show "\<exists>w'. cat fd w = Exit 0 w' \<and> outs w' = outs w" by (simp add: cat_def)
qed

lemma cat_copies_witness:
  "cat 0 (xfile [''ab'', ''c'']) = Done () (emit 1 ''abc'' (drained 0 (xfile [''ab'', ''c''])))"
  using cat_copies [of "xfile [''ab'', ''c'']" 0 "[''ab'', ''c'']"]
  by (simp add: xfile_def xworld0_def pieces_ok_def)

subsection \<open>The matcher against its regular expressions\<close>

definition char_matches :: "char \<Rightarrow> char \<Rightarrow> bool" where
  "char_matches c t \<longleftrightarrow> c = CHR ''.'' \<or> c = t"

text \<open>\<open>rx re text\<close>: some prefix of the text belongs to the expression.\<close>

inductive rx :: "string \<Rightarrow> string \<Rightarrow> bool" where
  rx_done: "rx [] tt"
| rx_star: "list_all (char_matches c) xs \<Longrightarrow> rx re tt \<Longrightarrow> rx (c # CHR ''*'' # re) (xs @ tt)"
| rx_end: "rx ''$'' []"
| rx_char: "\<not> char_is (c # re) 1 (CHR ''*'') \<Longrightarrow> c # re \<noteq> ''$'' \<Longrightarrow> char_matches c t \<Longrightarrow> rx re tt \<Longrightarrow>
    rx (c # re) (t # tt)"

inductive_cases rx_ConsE: "rx (c # re) tt"

lemma char_is_star: "char_is (c # re) 1 (CHR ''*'') \<longleftrightarrow> (\<exists>re'. re = CHR ''*'' # re')"
  by (cases re) (auto simp: char_is_def)

lemma rx_star_iff:
  "rx (c # CHR ''*'' # re) u \<longleftrightarrow> (\<exists>xs rest. u = xs @ rest \<and> list_all (char_matches c) xs \<and> rx re rest)"
proof
  show "\<exists>xs rest. u = xs @ rest \<and> list_all (char_matches c) xs \<and> rx re rest" if "rx (c # CHR ''*'' # re) u"
    using that by (rule rx_ConsE) (auto simp: char_is_def)
qed (auto intro: rx_star)

lemma rx_end_iff: "rx ''$'' u \<longleftrightarrow> u = []"
proof
  show "u = []" if "rx ''$'' u" using that by (rule rx_ConsE) auto
qed (simp add: rx_end)

lemma rx_char_iff:
  assumes "\<not> char_is (c # re) 1 (CHR ''*'')" and "c # re \<noteq> ''$''"
  shows "rx (c # re) u \<longleftrightarrow> (\<exists>t ts. u = t # ts \<and> char_matches c t \<and> rx re ts)"
proof
  show "\<exists>t ts. u = t # ts \<and> char_matches c t \<and> rx re ts" if "rx (c # re) u"
    using that by (rule rx_ConsE) (use assms in \<open>auto simp: char_is_def\<close>)
  show "rx (c # re) u" if "\<exists>t ts. u = t # ts \<and> char_matches c t \<and> rx re ts"
    using that rx_char [OF assms] by auto
qed

lemma match_rx:
  "matchhere re tt \<longleftrightarrow> rx re tt"
  "matchstar c re tt \<longleftrightarrow> (\<exists>xs rest. tt = xs @ rest \<and> list_all (char_matches c) xs \<and> rx re rest)"
proof (induction re tt and c re tt rule: matchhere_matchstar.induct)
  case (1 re tt)
  show ?case
  proof (cases re)
    case Nil
    then show ?thesis by (subst matchhere.simps) (simp add: rx_done)
  next
    case (Cons c re1)
    show ?thesis
    proof (cases "char_is re 1 (CHR ''*'')")
      case True
      then obtain re' where re': "re1 = CHR ''*'' # re'" using Cons char_is_star by auto
      have "matchhere re tt = matchstar c re' tt"
        using True Cons re' by (subst matchhere.simps) simp
      also have "\<dots> \<longleftrightarrow> (\<exists>xs rest. tt = xs @ rest \<and> list_all (char_matches c) xs \<and> rx re' rest)"
        using "1.IH"(1) [OF Cons True] re' by simp
      also have "\<dots> \<longleftrightarrow> rx re tt"
        unfolding Cons re' rx_star_iff ..
      finally show ?thesis .
    next
      case False
      then have ns: "\<not> char_is (c # re1) 1 (CHR ''*'')" using Cons by simp
      show ?thesis
      proof (cases "c = CHR ''$'' \<and> re1 = []")
        case True
        then show ?thesis using Cons ns
          by (subst matchhere.simps) (auto simp: rx_end_iff)
      next
        case nd: False
        then have nd': "c # re1 \<noteq> ''$''" by simp
        note iff = rx_char_iff [OF ns nd']
        show ?thesis
        proof (cases tt)
          case Nil
          then show ?thesis using Cons ns nd
            by (subst matchhere.simps) (simp add: iff)
        next
          case t: (Cons t ts)
          show ?thesis
          proof (cases "c = CHR ''.'' \<or> c = t")
            case True
            then have "matchhere re1 ts = rx re1 ts"
              using "1.IH"(2) [OF Cons _ nd t True] ns Cons by simp
            then show ?thesis using True Cons ns nd t
              by (subst matchhere.simps) (auto simp: iff char_matches_def)
          next
            case False
            then show ?thesis using Cons ns nd t
              by (subst matchhere.simps) (auto simp: iff char_matches_def)
          qed
        qed
      qed
    qed
  qed
next
  case (2 c re tt)
  show ?case
  proof (cases "matchhere re tt")
    case True
    then have "rx re tt" using "2.IH"(1) by simp
    then show ?thesis using True
      by (subst matchstar.simps) (auto intro: exI [of _ "[]"])
  next
    case False
    then have nr: "\<not> rx re tt" using "2.IH"(1) by simp
    show ?thesis
    proof (cases tt)
      case Nil
      then show ?thesis using False nr by (subst matchstar.simps) auto
    next
      case (Cons t ts)
      show ?thesis
      proof (cases "t = c \<or> c = CHR ''.''")
        case True
        then have "matchstar c re tt = matchstar c re ts"
          using False Cons by (subst matchstar.simps) simp
        also have "\<dots> \<longleftrightarrow> (\<exists>xs rest. ts = xs @ rest \<and> list_all (char_matches c) xs \<and> rx re rest)"
          using "2.IH"(2) [OF False Cons True] .
        also have "\<dots> \<longleftrightarrow> (\<exists>xs rest. tt = xs @ rest \<and> list_all (char_matches c) xs \<and> rx re rest)"
        proof
          assume "\<exists>xs rest. ts = xs @ rest \<and> list_all (char_matches c) xs \<and> rx re rest"
          then obtain xs rest where "ts = xs @ rest" "list_all (char_matches c) xs" "rx re rest" by blast
          then show "\<exists>xs rest. tt = xs @ rest \<and> list_all (char_matches c) xs \<and> rx re rest"
            using Cons True by (intro exI [of _ "t # xs"] exI [of _ rest]) (auto simp: char_matches_def)
        next
          assume "\<exists>xs rest. tt = xs @ rest \<and> list_all (char_matches c) xs \<and> rx re rest"
          then obtain xs rest where x: "tt = xs @ rest" "list_all (char_matches c) xs" "rx re rest" by blast
          then obtain y ys where "xs = y # ys" using nr by (cases xs) auto
          then show "\<exists>xs rest. ts = xs @ rest \<and> list_all (char_matches c) xs \<and> rx re rest"
            using x Cons by auto
        qed
        finally show ?thesis .
      next
        case no: False
        have "xs = []" if "tt = xs @ rest" "list_all (char_matches c) xs" for xs rest
          using that Cons no by (cases xs) (auto simp: char_matches_def)
        then have "\<not> (\<exists>xs rest. tt = xs @ rest \<and> list_all (char_matches c) xs \<and> rx re rest)"
          using nr by (metis append_Nil)
        moreover have "\<not> matchstar c re tt" using False Cons no by (subst matchstar.simps) simp
        ultimately show ?thesis by blast
      qed
    qed
  qed
qed

lemma match_from_rx: "match_from re tt \<longleftrightarrow> (\<exists>pre suf. tt = pre @ suf \<and> rx re suf)"
proof (induction tt)
  case Nil
  then show ?case by (subst match_from.simps) (simp add: match_rx)
next
  case (Cons t ts)
  then show ?case by (subst match_from.simps) (auto simp: match_rx Cons_eq_append_conv)
qed

text \<open>
  C38. match decides the language of its regular expressions: with a leading caret some prefix of
  the text must belong to the rest of the expression, and otherwise some substring must belong to
  the expression, where a dot is any character, a final dollar is the end of the text and a star
  repeats the character before it any number of times.
\<close>

theorem match_is_regex:
  "match re tt \<longleftrightarrow>
    (case re of
       c # re1 \<Rightarrow> if c = CHR ''^'' then rx re1 tt else (\<exists>pre suf. tt = pre @ suf \<and> rx re suf)
     | [] \<Rightarrow> True)"
  by (cases re) (auto simp: match_def char_is_def match_rx match_from_rx intro: rx_done)

subsection \<open>The lines grep prints\<close>

text \<open>The complete lines of a text, without their newlines, and what follows the last newline.\<close>

primrec line_split :: "string \<Rightarrow> string list \<times> string" where
  "line_split [] = ([], [])"
| "line_split (c # t) =
     (case line_split t of (ls, r) \<Rightarrow>
        if c = CHR 0x0A then ([] # ls, r)
        else (case ls of [] \<Rightarrow> ([], c # r) | l # ls' \<Rightarrow> ((c # l) # ls', r)))"

lemma line_split_append:
  "line_split (a @ b) =
     (fst (line_split a) @ fst (line_split (snd (line_split a) @ b)), snd (line_split (snd (line_split a) @ b)))"
  by (induction a) (auto split: prod.splits list.splits)

lemma line_split_no_newline: "CHR 0x0A \<notin> set t \<Longrightarrow> line_split t = ([], t)"
  by (induction t) auto

lemma line_split_line:
  "CHR 0x0A \<notin> set l \<Longrightarrow> line_split (l @ CHR 0x0A # t) = (l # fst (line_split t), snd (line_split t))"
  by (induction l) (auto split: prod.splits)

lemma line_split_rest:
  "CHR 0x0A \<notin> set (snd (line_split t)) \<and> set (snd (line_split t)) \<subseteq> set t \<and>
   List.length (snd (line_split t)) \<le> List.length t \<and>
   (CHR 0x0A \<in> set t \<longrightarrow> List.length (snd (line_split t)) < List.length t)"
  by (induction t) (auto split: prod.splits list.splits)

lemma split_line_Some:
  assumes "NUL \<notin> set p" and "CHR 0x0A \<in> set p"
  obtains l rest where "split_line p = Some (l, rest)" and "p = l @ CHR 0x0A # rest" and "CHR 0x0A \<notin> set l"
proof -
  obtain l rest where p: "p = l @ CHR 0x0A # rest" "CHR 0x0A \<notin> set l"
    using split_list_first [OF assms(2)] by blast
  have nn: "takeWhile (\<lambda>c. c \<noteq> NUL) p = p" using assms(1) by (auto simp: takeWhile_eq_all_conv)
  have tl: "takeWhile (\<lambda>c. c \<noteq> CHR 0x0A) p = l" using p by (auto simp: takeWhile_append2 takeWhile_tail)
  have "split_line p = Some (l, drop (Suc (List.length l)) p)"
    using assms(2) unfolding split_line_def Let_def nn tl by simp
  moreover have "drop (Suc (List.length l)) p = rest" using p by simp
  ultimately have "split_line p = Some (l, rest)" by simp
  then show thesis using p that by blast
qed

definition matching :: "string \<Rightarrow> string list \<Rightarrow> string" where
  "matching pat ls = concat (map (\<lambda>l. l @ newline) (filter (match pat) ls))"

lemma grep_lines_run:
  assumes "NUL \<notin> set p" and "wok w 1"
  shows "grep_lines pat p w = (snd (line_split p), emit 1 (matching pat (fst (line_split p))) w)"
  using assms
proof (induction pat p w rule: grep_lines.induct)
  case (1 pat p w)
  show ?case
  proof (cases "CHR 0x0A \<in> set p")
    case True
    then obtain l rest where s: "split_line p = Some (l, rest)" "p = l @ CHR 0x0A # rest" "CHR 0x0A \<notin> set l"
      using split_line_Some "1.prems"(1) by blast
    let ?w = "if match pat l \<and> wok w 1 then emit 1 (l @ newline) w else w"
    have "grep_lines pat rest ?w = (snd (line_split rest), emit 1 (matching pat (fst (line_split rest))) ?w)"
      using "1.IH" [OF s(1) refl] "1.prems" s(2) by simp
    then show ?thesis using s line_split_line [OF s(3), of rest] "1.prems"(2)
      by (subst grep_lines.simps) (simp add: matching_def)
  next
    case False
    then have "split_line p = None" by (auto simp: split_line_def Let_def dest: set_takeWhileD)
    then show ?thesis using line_split_no_newline [OF False]
      by (subst grep_lines.simps) (simp add: matching_def)
  qed
qed

definition lined :: "string list \<Rightarrow> bool" where
  "lined cs \<longleftrightarrow> (\<forall>c \<in> set cs. CHR 0x0A \<in> set c \<and> NUL \<notin> set c \<and> List.length c \<le> 512)"

lemma grep_loop_run:
  assumes "fds w fd = Some cs" and "lined cs" and "CHR 0x0A \<notin> set kept" and "NUL \<notin> set kept"
    and "List.length kept < 512" and "wok w 1" and "\<not> rerr w fd"
  shows "grep_loop pat fd kept w =
    emit 1 (matching pat (fst (line_split (kept @ concat cs)))) (drained fd w)"
  using assms
proof (induction cs arbitrary: kept w)
  case Nil
  then show ?case
    by (subst grep_loop.simps)
      (simp add: sys_read_def line_split_no_newline matching_def drained_def fun_upd_idem)
next
  case (Cons c cs)
  have c: "CHR 0x0A \<in> set c" "NUL \<notin> set c" "List.length c \<le> 512" "lined cs"
    using Cons.prems(2) by (auto simp: lined_def)
  have ne: "c \<noteq> []" using c(1) by auto
  let ?w1 = "w\<lparr>fds := (fds w)(fd \<mapsto> cs)\<rparr>"
  have r: "sys_read fd (1024 - List.length kept - 1) w = (int (List.length c), c, ?w1)"
    using Cons.prems(1,5) c(3) by (simp add: sys_read_def)
  let ?p = "snd (line_split (kept @ c))"
  let ?o = "matching pat (fst (line_split (kept @ c)))"
  have g: "grep_lines pat (kept @ c) ?w1 = (?p, emit 1 ?o ?w1)"
    using Cons.prems c(2) by (intro grep_lines_run) auto
  have p: "CHR 0x0A \<notin> set ?p" "set ?p \<subseteq> set (kept @ c)"
    using line_split_rest [of "kept @ c"] by blast+
  have "?p = snd (line_split c)"
    using c(1)
  proof -
    obtain l rest where s: "c = l @ CHR 0x0A # rest" "CHR 0x0A \<notin> set l"
      using split_list_first [OF c(1)] by blast
    show ?thesis using line_split_line [of "kept @ l" rest] line_split_line [OF s(2), of rest] s Cons.prems(3)
      by simp
  qed
  then have pl: "List.length ?p < List.length c" using line_split_rest [of c] c(1) by simp
  then have "?p \<noteq> kept @ c" by (metis length_append not_add_less2)
  moreover have "grep_loop pat fd ?p (emit 1 ?o ?w1) =
      emit 1 (matching pat (fst (line_split (?p @ concat cs)))) (drained fd (emit 1 ?o ?w1))"
  proof (rule Cons.IH)
    show "NUL \<notin> set ?p" using p(2) Cons.prems(4) c(2) by auto
  qed (use Cons.prems c p pl in auto)
  moreover have "matching pat (fst (line_split (kept @ c @ concat cs))) =
      ?o @ matching pat (fst (line_split (?p @ concat cs)))"
    using line_split_append [of "kept @ c" "concat cs"] by (simp add: matching_def)
  ultimately show ?case using r g ne
    by (subst grep_loop.simps) (simp add: emit_def drained_def)
qed

text \<open>
  C39. When every read returns at most 512 bytes with a newline among them, grep prints exactly
  the complete lines of its input that match the pattern, in order; what follows the last newline
  is dropped.
\<close>

theorem grep_prints_matching:
  assumes "fds w fd = Some cs" and "lined cs" and "wok w 1" and "\<not> rerr w fd"
  shows "grep pat fd w = Done () (emit 1
    (concat (map (\<lambda>l. l @ newline) (filter (match pat) (fst (line_split (concat cs)))))) (drained fd w))"
  using grep_loop_run [of w fd cs "[]" pat] assms by (simp add: grep_def matching_def)

lemma grep_prints_matching_witness:
  "grep ''^a*b'' 0 (xfile [''aab'' @ newline @ ''c'', ''b'' @ newline @ ''b'']) =
     Done () (emit 1 (''aab'' @ newline) (drained 0 (xfile [''aab'' @ newline @ ''c'', ''b'' @ newline @ ''b''])))"
proof -
  let ?cs = "[''aab'' @ newline @ ''c'', ''b'' @ newline @ ''b'']"
  have "lined ?cs" by (simp add: lined_def newline_def NUL_def)
  then have "grep ''^a*b'' 0 (xfile ?cs) = Done () (emit 1
    (concat (map (\<lambda>l. l @ newline) (filter (match ''^a*b'') (fst (line_split (concat ?cs)))))) (drained 0 (xfile ?cs)))"
    by (intro grep_prints_matching) (simp_all add: xfile_def xworld0_def)
  moreover have "concat (map (\<lambda>l. l @ newline) (filter (match ''^a*b'') (fst (line_split (concat ?cs))))) = ''aab'' @ newline"
    by code_simp
  ultimately show ?thesis by simp
qed

text \<open>
  C40. A read that returns a piece of a line without its newline is forgotten: grep goes on with
  the next read as if the piece had never been there, and so splits the line it begins.
\<close>

theorem grep_forgets_partial_line:
  assumes "fds w fd = Some (c # cs)" and "c \<noteq> []" and "CHR 0x0A \<notin> set c" and "List.length c \<le> 1023"
  shows "grep pat fd w = grep pat fd (w\<lparr>fds := (fds w)(fd \<mapsto> cs)\<rparr>)"
proof -
  let ?w1 = "w\<lparr>fds := (fds w)(fd \<mapsto> cs)\<rparr>"
  have r: "sys_read fd 1023 w = (int (List.length c), c, ?w1)"
    using assms(1,4) by (simp add: sys_read_def)
  have "split_line c = None" using assms(3) by (auto simp: split_line_def Let_def dest: set_takeWhileD)
  then have "grep_lines pat c ?w1 = (c, ?w1)" by (subst grep_lines.simps) simp
  then have "grep_loop pat fd [] w = grep_loop pat fd [] ?w1"
    using r assms(2) by (subst grep_loop.simps) simp
  then show ?thesis by (simp add: grep_def)
qed

lemma grep_forgets_partial_line_witness:
  "grep ''^cd'' 0 (xfile [''ab'', ''cd'' @ newline]) = grep ''^cd'' 0 (xfile [''cd'' @ newline])"
  using grep_forgets_partial_line [of "xfile [''ab'', ''cd'' @ newline]" 0 "''ab''" "[''cd'' @ newline]" "''^cd''"]
  by (simp add: xfile_def xworld0_def)

end
