(* ===== verification/Sh.thy ===== *)
theory Sh
  imports Ulib "HOL-Library.Sublist"
begin

section \<open>The shell: parsing (sh.c)\<close>

text \<open>
  A pointer into the command line is the rest of the line from there, so that \<open>es\<close>, the end, is
  the empty string and the character at the end is NUL. A command node is a constructor of
  \<open>cmd\<close>, with the same fields; a word of the line is its two pointers \<open>(q, eq)\<close>. A node's
  malloc is taken to succeed.
\<close>

datatype cmd =
    EXEC "(string \<times> string) list"
  | REDIR cmd string string int nat
  | PIPE cmd cmd
  | LIST cmd cmd
  | BACK cmd

definition MAXARGS :: nat where "MAXARGS = 10"

definition O_RDONLY :: int where "O_RDONLY = 0"
definition O_WRONLY :: int where "O_WRONLY = 1"
definition O_CREATE :: int where "O_CREATE = 512"

definition is_ws :: "char \<Rightarrow> bool" where
  "is_ws c \<longleftrightarrow> c \<in> set [CHR '' '', CHR 0x09, CHR 0x0D, CHR 0x0A, CHR 0x0B]"

definition is_sym :: "char \<Rightarrow> bool" where
  "is_sym c \<longleftrightarrow> c \<in> set ''<|>&;()''"

definition skip_ws :: "string \<Rightarrow> string" where
  "skip_ws s = dropWhile is_ws s"

text \<open>gettoken: the code, the two pointers of the token, and where the parser goes on.\<close>

definition token_at :: "string \<Rightarrow> char \<times> string" where
  "token_at s =
     (case s of
        [] \<Rightarrow> (CHR 0x00, s)
      | c # r \<Rightarrow>
          if c \<in> set ''|();&<'' then (c, r)
          else if c = CHR ''>'' then
            (case r of
               d # r2 \<Rightarrow> if d = CHR ''>'' then (CHR ''+'', r2) else (c, r)
             | [] \<Rightarrow> (c, r))
          else (CHR ''a'', dropWhile (\<lambda>c. \<not> is_ws c \<and> \<not> is_sym c) s))"

definition gettoken :: "string \<Rightarrow> char \<times> (string \<times> string) \<times> string" where
  "gettoken ps =
     (let s = skip_ws ps; q = s; (rt, s) = token_at s
      in (rt, (q, s), skip_ws s))"

definition peek :: "string \<Rightarrow> string \<Rightarrow> string \<times> bool" where
  "peek ps toks =
     (let s = skip_ws ps in (s, (case s of [] \<Rightarrow> False | c # _ \<Rightarrow> c \<in> set toks)))"

datatype 'a parsed = Parsed 'a string | Bad string | NoFuel

lemma skip_ws_length: "List.length (skip_ws s) \<le> List.length s"
  by (simp add: skip_ws_def length_dropWhile_le)

lemma skip_ws_idem [simp]: "skip_ws (skip_ws s) = skip_ws s"
  by (simp add: skip_ws_def)

lemma skip_ws_Nil [simp]: "skip_ws [] = []"
  by (simp add: skip_ws_def)

lemma skip_ws_hd: "skip_ws ps = c # s \<Longrightarrow> \<not> is_ws c"
  using hd_dropWhile [of is_ws ps] by (simp add: skip_ws_def)

lemma token_at_length: "List.length (snd (token_at s)) \<le> List.length s"
  by (auto simp: token_at_def length_dropWhile_le le_SucI split: list.splits)

lemma token_at_shorter:
  assumes "\<not> is_ws c" shows "List.length (snd (token_at (c # s))) \<le> List.length s"
proof -
  have "c \<notin> set ''|();&<'' \<Longrightarrow> c \<noteq> CHR ''>'' \<Longrightarrow> \<not> is_sym c" by (auto simp: is_sym_def)
  then have "c \<notin> set ''|();&<'' \<Longrightarrow> c \<noteq> CHR ''>'' \<Longrightarrow>
      List.length (dropWhile (\<lambda>c. \<not> is_ws c \<and> \<not> is_sym c) (c # s)) \<le> List.length s"
    using assms by (simp add: length_dropWhile_le)
  then show ?thesis unfolding token_at_def by (auto split: list.splits simp del: dropWhile.simps)
qed

lemma gettoken_eq:
  "gettoken ps = (fst (token_at (skip_ws ps)), (skip_ws ps, snd (token_at (skip_ws ps))),
     skip_ws (snd (token_at (skip_ws ps))))"
  by (simp add: gettoken_def Let_def split_beta)

lemma gettoken_length: "gettoken ps = (rt, w, r) \<Longrightarrow> List.length r \<le> List.length (skip_ws ps)"
  using order_trans [OF skip_ws_length token_at_length] by (auto simp: gettoken_eq)

lemma gettoken_shorter:
  assumes "gettoken ps = (rt, w, r)" and "skip_ws ps \<noteq> []"
  shows "List.length r < List.length (skip_ws ps)"
proof -
  obtain c s where s: "skip_ws ps = c # s" using assms(2) by (cases "skip_ws ps") auto
  have "List.length (snd (token_at (c # s))) \<le> List.length s" using skip_ws_hd [OF s] by (rule token_at_shorter)
  then show ?thesis using assms(1) s order_trans [OF skip_ws_length [of "snd (token_at (c # s))"]]
    by (auto simp: gettoken_eq less_Suc_eq_le)
qed

lemma peek_facts:
  "peek ps toks = (s, b) \<Longrightarrow> s = skip_ws ps"
  "peek ps toks = (s, True) \<Longrightarrow> s \<noteq> []"
  by (auto simp: peek_def Let_def split: list.splits)

function parseredirs :: "cmd \<Rightarrow> string \<Rightarrow> cmd parsed" where
  "parseredirs cmd ps =
     (case peek ps ''<>'' of (s, mo) \<Rightarrow>
        if \<not> mo then Parsed cmd s
        else
          (case gettoken s of (tok, _, s1) \<Rightarrow>
             case gettoken s1 of (rt, (q, eq), s2) \<Rightarrow>
               if rt \<noteq> CHR ''a'' then Bad ''missing file for redirection''
               else if tok = CHR ''<'' then parseredirs (REDIR cmd q eq O_RDONLY 0) s2
               else if tok = CHR ''>'' then parseredirs (REDIR cmd q eq (O_WRONLY + O_CREATE) 1) s2
               else if tok = CHR ''+'' then parseredirs (REDIR cmd q eq (O_WRONLY + O_CREATE) 1) s2
               else parseredirs cmd s2))"
  by pat_completeness auto

lemma two_tokens_shorter:
  assumes "(s, True) = peek ps toks" and "(tok, w, s1) = gettoken s" and "(rt, w2, s2) = gettoken s1"
  shows "List.length s2 < List.length ps"
proof -
  have s: "s = skip_ws ps" "s \<noteq> []" using assms(1) peek_facts by metis+
  have "List.length s1 < List.length s"
    using gettoken_shorter [OF assms(2) [symmetric]] s by simp
  moreover have "List.length s2 \<le> List.length s1"
    using gettoken_length [OF assms(3) [symmetric]] skip_ws_length [of s1] by simp
  moreover have "List.length s \<le> List.length ps" using s(1) skip_ws_length by simp
  ultimately show ?thesis by simp
qed

termination parseredirs
  by (relation "measure (\<lambda>(c, ps). List.length ps)") (auto dest: two_tokens_shorter)

declare parseredirs.simps [simp del]

text \<open>The EXEC node that parseexec fills in lies under the redirections read so far.\<close>

fun set_argv :: "(string \<times> string) list \<Rightarrow> cmd \<Rightarrow> cmd" where
  "set_argv a (REDIR c q eq m fd) = REDIR (set_argv a c) q eq m fd"
| "set_argv a (EXEC _) = EXEC a"
| "set_argv a c = c"

function exec_args :: "cmd \<Rightarrow> (string \<times> string) list \<Rightarrow> string \<Rightarrow> cmd parsed" where
  "exec_args rt argv ps =
     (case peek ps ''|)&;'' of (s, stop) \<Rightarrow>
        if stop then Parsed (set_argv argv rt) s
        else
          (case gettoken s of (tok, (q, eq), s1) \<Rightarrow>
             if tok = CHR 0x00 then Parsed (set_argv argv rt) s1
             else if tok \<noteq> CHR ''a'' then Bad ''syntax''
             else if MAXARGS \<le> List.length argv + 1 then Bad ''too many args''
             else
               (case parseredirs rt s1 of
                  Parsed rt2 s2 \<Rightarrow> exec_args rt2 (argv @ [(q, eq)]) s2
                | Bad e \<Rightarrow> Bad e
                | NoFuel \<Rightarrow> NoFuel)))"
  by pat_completeness auto
termination
  by (relation "measure (\<lambda>(rt, argv, ps). MAXARGS - List.length argv)") auto

declare exec_args.simps [simp del]

text \<open>The loop of parseline over trailing ampersands.\<close>

function back_loop :: "cmd \<Rightarrow> string \<Rightarrow> cmd \<times> string" where
  "back_loop cmd ps =
     (case peek ps ''&'' of (s, mo) \<Rightarrow>
        if mo then (case gettoken s of (tok, w, s1) \<Rightarrow> back_loop (BACK cmd) s1)
        else (cmd, s))"
  by pat_completeness auto

lemma one_token_shorter:
  assumes "(s, True) = peek ps toks" and "(tok, w, s1) = gettoken s"
  shows "List.length s1 < List.length ps"
proof -
  have s: "s = skip_ws ps" "s \<noteq> []" using assms(1) peek_facts by metis+
  then show ?thesis
    using gettoken_shorter [OF assms(2) [symmetric]] skip_ws_length [of ps] by simp
qed

termination back_loop
  by (relation "measure (\<lambda>(c, ps). List.length ps)") (auto dest: one_token_shorter)

declare back_loop.simps [simp del]

text \<open>
  The four functions that call each other, with the depth of the calls still allowed as the first
  argument; \<open>NoFuel\<close> is never the result for the depth parsecmd starts with (shown below).
\<close>

fun parseline :: "nat \<Rightarrow> string \<Rightarrow> cmd parsed"
  and parsepipe :: "nat \<Rightarrow> string \<Rightarrow> cmd parsed"
  and parseexec :: "nat \<Rightarrow> string \<Rightarrow> cmd parsed"
  and parseblock :: "nat \<Rightarrow> string \<Rightarrow> cmd parsed" where
  "parseline 0 ps = NoFuel"
| "parsepipe 0 ps = NoFuel"
| "parseexec 0 ps = NoFuel"
| "parseblock 0 ps = NoFuel"
| "parseline (Suc n) ps =
     (case parsepipe n ps of
        Parsed cmd s \<Rightarrow>
          (case back_loop cmd s of (cmd, s) \<Rightarrow>
             case peek s '';'' of (s, mo) \<Rightarrow>
               if mo then
                 (case gettoken s of (_, _, s) \<Rightarrow>
                    case parseline n s of
                      Parsed r s \<Rightarrow> Parsed (LIST cmd r) s
                    | Bad e \<Rightarrow> Bad e
                    | NoFuel \<Rightarrow> NoFuel)
               else Parsed cmd s)
      | Bad e \<Rightarrow> Bad e
      | NoFuel \<Rightarrow> NoFuel)"
| "parsepipe (Suc n) ps =
     (case parseexec n ps of
        Parsed cmd s \<Rightarrow>
          (case peek s ''|'' of (s, mo) \<Rightarrow>
             if mo then
               (case gettoken s of (_, _, s) \<Rightarrow>
                  case parsepipe n s of
                    Parsed r s \<Rightarrow> Parsed (PIPE cmd r) s
                  | Bad e \<Rightarrow> Bad e
                  | NoFuel \<Rightarrow> NoFuel)
             else Parsed cmd s)
      | Bad e \<Rightarrow> Bad e
      | NoFuel \<Rightarrow> NoFuel)"
| "parseexec (Suc n) ps =
     (case peek ps ''('' of (s, block) \<Rightarrow>
        if block then parseblock n s
        else
          (case parseredirs (EXEC []) s of
             Parsed rt s \<Rightarrow> exec_args rt [] s
           | Bad e \<Rightarrow> Bad e
           | NoFuel \<Rightarrow> NoFuel))"
| "parseblock (Suc n) ps =
     (case peek ps ''('' of (s, open_p) \<Rightarrow>
        if \<not> open_p then Bad ''parseblock''
        else
          (case gettoken s of (_, _, s) \<Rightarrow>
             case parseline n s of
               Parsed cmd s \<Rightarrow>
                 (case peek s '')'' of (s, close_p) \<Rightarrow>
                    if \<not> close_p then Bad ''syntax - missing )''
                    else (case gettoken s of (_, _, s) \<Rightarrow> parseredirs cmd s))
             | Bad e \<Rightarrow> Bad e
             | NoFuel \<Rightarrow> NoFuel))"

definition parse_depth :: "string \<Rightarrow> nat" where
  "parse_depth s = 4 * List.length s + 4"

text \<open>nulterminate: the ends that receive a NUL, in the order of the stores.\<close>

fun nulterminate :: "cmd \<Rightarrow> string list" where
  "nulterminate (EXEC argv) = map snd argv"
| "nulterminate (REDIR c q eq m fd) = nulterminate c @ [eq]"
| "nulterminate (PIPE l r) = nulterminate l @ nulterminate r"
| "nulterminate (LIST l r) = nulterminate l @ nulterminate r"
| "nulterminate (BACK c) = nulterminate c"

text \<open>The line with its final NUL after the stores, and the string a pointer then points to.\<close>

definition nul_line :: "string \<Rightarrow> string list \<Rightarrow> string" where
  "nul_line s es = fold (\<lambda>e b. b[List.length s - List.length e := CHR 0x00]) es (s @ [CHR 0x00])"

definition string_at :: "string \<Rightarrow> string \<Rightarrow> string \<Rightarrow> string" where
  "string_at s b q = takeWhile (\<lambda>c. c \<noteq> CHR 0x00) (drop (List.length s - List.length q) b)"

definition xpanic :: "string \<Rightarrow> (xworld, 'a) um" where
  "xpanic s = uthn (uprintf 2 (''%s'' @ newline) [FPtr (Some s)]) xexit"

definition parsecmd :: "string \<Rightarrow> (xworld, cmd \<times> string) um" where
  "parsecmd s =
     (case parseline (parse_depth s) s of
        Parsed cmd r \<Rightarrow>
          (case peek r [] of (r, _) \<Rightarrow>
             if r \<noteq> [] then
               uthn (uprintf 2 (''leftovers: %s'' @ newline) [FPtr (Some r)]) (xpanic ''syntax'')
             else uret (cmd, nul_line s (nulterminate cmd)))
      | Bad e \<Rightarrow> xpanic e
      | NoFuel \<Rightarrow> ucrash ''parse depth'')"

subsection \<open>The parser ends\<close>

lemma parseredirs_step:
  "parseredirs cmd ps =
     (if snd (peek ps ''<>'') then
        (let (tok, _, s1) = gettoken (skip_ws ps); (rt, (q, eq), s2) = gettoken s1 in
         if rt \<noteq> CHR ''a'' then Bad ''missing file for redirection''
         else if tok = CHR ''<'' then parseredirs (REDIR cmd q eq O_RDONLY 0) s2
         else if tok = CHR ''>'' \<or> tok = CHR ''+'' then parseredirs (REDIR cmd q eq (O_WRONLY + O_CREATE) 1) s2
         else parseredirs cmd s2)
      else Parsed cmd (skip_ws ps))"
  by (subst parseredirs.simps) (auto simp: peek_def Let_def split: prod.splits)

lemma parseredirs_total:
  "parseredirs c ps \<noteq> NoFuel \<and> (\<forall>d s. parseredirs c ps = Parsed d s \<longrightarrow> List.length s \<le> List.length ps)"
proof (induction c ps rule: parseredirs.induct)
  case (1 c ps)
  obtain b where p: "peek ps ''<>'' = (skip_ws ps, b)" using peek_facts(1) by (metis surj_pair)
  show ?case
  proof (cases b)
    case False
    then show ?thesis using p skip_ws_length [of ps] by (subst (1 2) parseredirs_step) simp
  next
    case True
    obtain tok w s1 where g1: "gettoken (skip_ws ps) = (tok, w, s1)" by (metis prod_cases3)
    obtain rt q eq s2 where g2: "gettoken s1 = (rt, (q, eq), s2)" by (metis prod.exhaust)
    have l: "List.length s2 \<le> List.length ps" using two_tokens_shorter p g1 g2 True by (metis less_imp_le)
    have r: "parseredirs c ps =
        (if rt \<noteq> CHR ''a'' then Bad ''missing file for redirection''
         else if tok = CHR ''<'' then parseredirs (REDIR c q eq O_RDONLY 0) s2
         else if tok = CHR ''>'' \<or> tok = CHR ''+'' then parseredirs (REDIR c q eq (O_WRONLY + O_CREATE) 1) s2
         else parseredirs c s2)"
      using p g1 g2 True by (subst parseredirs_step) simp
    note ih = "1.IH" [OF p [symmetric] _ g1 [symmetric] refl g2 [symmetric] refl refl]
    show ?thesis unfolding r using ih True l by (auto intro: order_trans)
  qed
qed

lemma exec_args_total:
  "exec_args c argv ps \<noteq> NoFuel \<and> (\<forall>d s. exec_args c argv ps = Parsed d s \<longrightarrow> List.length s \<le> List.length ps)"
proof (induction c argv ps rule: exec_args.induct)
  case (1 c argv ps)
  obtain b where p: "peek ps ''|)&;'' = (skip_ws ps, b)" using peek_facts(1) by (metis surj_pair)
  obtain tok q eq s1 where g: "gettoken (skip_ws ps) = (tok, (q, eq), s1)" by (metis prod.exhaust)
  have l: "List.length s1 \<le> List.length ps" "List.length (skip_ws ps) \<le> List.length ps"
    using gettoken_length [OF g] skip_ws_length [of ps] by simp_all
  show ?case
  proof (cases "b \<or> tok \<noteq> CHR ''a'' \<or> MAXARGS \<le> List.length argv + 1")
    case True
    then show ?thesis using p g l by (subst (1 2) exec_args.simps) auto
  next
    case False
    show ?thesis
    proof (cases "parseredirs c s1")
      case (Parsed c2 s2)
      then have "List.length s2 \<le> List.length ps" using parseredirs_total [of c s1] l by auto
      moreover have "exec_args c argv ps = exec_args c2 (argv @ [(q, eq)]) s2"
        using False p g Parsed by (subst exec_args.simps) simp
      moreover note "1.IH" [OF p [symmetric] _ g [symmetric] refl refl]
      ultimately show ?thesis using False Parsed by (auto intro: order_trans)
    next
      case (Bad e)
      then show ?thesis using False p g by (subst (1 2) exec_args.simps) simp
    next
      case NoFuel
      then show ?thesis using parseredirs_total by blast
    qed
  qed
qed

lemma back_loop_length: "List.length (snd (back_loop c ps)) \<le> List.length ps"
proof (induction c ps rule: back_loop.induct)
  case (1 c ps)
  obtain b where p: "peek ps ''&'' = (skip_ws ps, b)" using peek_facts(1) by (metis surj_pair)
  obtain tok w s1 where g: "gettoken (skip_ws ps) = (tok, w, s1)" by (metis prod_cases3)
  show ?case
  proof (cases b)
    case True
    have "List.length s1 \<le> List.length ps" using gettoken_length [OF g] skip_ws_length [of ps] by simp
    then show ?thesis using "1.IH" [OF p [symmetric] True g [symmetric]] p g True
      by (subst back_loop.simps) (auto intro: order_trans)
  next
    case False
    then show ?thesis using p skip_ws_length [of ps] by (subst back_loop.simps) simp
  qed
qed

text \<open>After a successful peek, a token that is not the end has been read.\<close>

lemma peek_gettoken:
  assumes "peek ps toks = (s, b)" and b and "gettoken s = (tok, w, r)"
  shows "List.length r < List.length ps"
  using one_token_shorter assms by metis

lemma parse_total:
  "(4 * List.length ps + 4 \<le> n \<longrightarrow> parseline n ps \<noteq> NoFuel) \<and>
    (\<forall>c s. parseline n ps = Parsed c s \<longrightarrow> List.length s \<le> List.length ps)"
  "(4 * List.length ps + 3 \<le> n \<longrightarrow> parsepipe n ps \<noteq> NoFuel) \<and>
    (\<forall>c s. parsepipe n ps = Parsed c s \<longrightarrow> List.length s \<le> List.length ps)"
  "(4 * List.length ps + 2 \<le> n \<longrightarrow> parseexec n ps \<noteq> NoFuel) \<and>
    (\<forall>c s. parseexec n ps = Parsed c s \<longrightarrow> List.length s \<le> List.length ps)"
  "(4 * List.length ps + 1 \<le> n \<longrightarrow> parseblock n ps \<noteq> NoFuel) \<and>
    (\<forall>c s. parseblock n ps = Parsed c s \<longrightarrow> List.length s \<le> List.length ps)"
proof (induction n arbitrary: ps)
  case 0
  { case 1 show ?case by simp }
  { case 2 show ?case by simp }
  { case 3 show ?case by simp }
  { case 4 show ?case by simp }
next
  case (Suc n)
  { case 1
    show ?case
    proof (cases "parsepipe n ps")
      case (Parsed c s)
      obtain c2 s2 where b: "back_loop c s = (c2, s2)" by fastforce
      obtain mo where p: "peek s2 '';'' = (skip_ws s2, mo)" using peek_facts(1) by (metis surj_pair)
      obtain tok w s3 where g: "gettoken (skip_ws s2) = (tok, w, s3)" by (metis prod_cases3)
      have l: "List.length s2 \<le> List.length ps"
        using Suc.IH(2) [of ps] Parsed back_loop_length [of c s] b by auto
      show ?thesis
      proof (cases mo)
        case True
        have "List.length s3 < List.length ps" using peek_gettoken [OF p True g] l by simp
        then show ?thesis using Parsed b p g True Suc.IH(1) [of s3] by (auto split: parsed.splits)
      next
        case False
        then show ?thesis using Parsed b p l skip_ws_length [of s2] by auto
      qed
    next
      case NoFuel
      then show ?thesis using Suc.IH(2) [of ps] by auto
    qed simp }
  { case 2
    show ?case
    proof (cases "parseexec n ps")
      case (Parsed c s)
      obtain mo where p: "peek s ''|'' = (skip_ws s, mo)" using peek_facts(1) by (metis surj_pair)
      obtain tok w s3 where g: "gettoken (skip_ws s) = (tok, w, s3)" by (metis prod_cases3)
      have l: "List.length s \<le> List.length ps" using Suc.IH(3) [of ps] Parsed by auto
      show ?thesis
      proof (cases mo)
        case True
        have "List.length s3 < List.length ps" using peek_gettoken [OF p True g] l by simp
        then show ?thesis using Parsed p g True Suc.IH(2) [of s3] by (auto split: parsed.splits)
      next
        case False
        then show ?thesis using Parsed p l skip_ws_length [of s] by auto
      qed
    next
      case NoFuel
      then show ?thesis using Suc.IH(3) [of ps] by auto
    qed simp }
  { case 3
    obtain mo where p: "peek ps ''('' = (skip_ws ps, mo)" using peek_facts(1) by (metis surj_pair)
    have l: "List.length (skip_ws ps) \<le> List.length ps" by (rule skip_ws_length)
    have blk: "4 * List.length ps + 2 \<le> Suc n \<longrightarrow> parseblock n (skip_ws ps) \<noteq> NoFuel"
      "\<And>d t. parseblock n (skip_ws ps) = Parsed d t \<Longrightarrow> List.length t \<le> List.length ps"
      using Suc.IH(4) [of "skip_ws ps"] l by (auto intro: order_trans)
    show ?case
    proof (cases "parseredirs (EXEC []) (skip_ws ps)")
      case (Parsed c s)
      then have "List.length s \<le> List.length ps" using parseredirs_total [of "EXEC []" "skip_ws ps"] l by auto
      then have e: "exec_args c [] s \<noteq> NoFuel" "\<And>d t. exec_args c [] s = Parsed d t \<Longrightarrow> List.length t \<le> List.length ps"
        using exec_args_total [of c "[]" s] by (auto intro: order_trans)
      have x: "parseexec (Suc n) ps = (if mo then parseblock n (skip_ws ps) else exec_args c [] s)"
        using p Parsed by simp
      show ?thesis unfolding x using e blk by auto
    next
      case (Bad e)
      then have x: "parseexec (Suc n) ps = (if mo then parseblock n (skip_ws ps) else Bad e)"
        using p by simp
      show ?thesis unfolding x using blk by auto
    next
      case NoFuel
      then show ?thesis using parseredirs_total by blast
    qed }
  { case 4
    obtain mo where p: "peek ps ''('' = (skip_ws ps, mo)" using peek_facts(1) by (metis surj_pair)
    obtain tok w s1 where g: "gettoken (skip_ws ps) = (tok, w, s1)" by (metis prod_cases3)
    show ?case
    proof (cases mo)
      case True
      have l1: "List.length s1 < List.length ps" using peek_gettoken [OF p True g] .
      show ?thesis
      proof (cases "parseline n s1")
        case (Parsed c s)
        obtain mo2 where p2: "peek s '')'' = (skip_ws s, mo2)" using peek_facts(1) by (metis surj_pair)
        obtain tok2 w2 s2 where g2: "gettoken (skip_ws s) = (tok2, w2, s2)" by (metis prod_cases3)
        have "List.length s \<le> List.length s1" using Suc.IH(1) [of s1] Parsed by auto
        then have "List.length s2 \<le> List.length ps"
          using gettoken_length [OF g2] skip_ws_length [of s] l1 by simp
        then show ?thesis using p g True Parsed p2 g2 parseredirs_total [of c s2] by (auto intro: order_trans)
      next
        case NoFuel
        then show ?thesis using Suc.IH(1) [of s1] l1 p g True by auto
      qed (use p g True in simp)
    qed (use p in simp) }
qed

subsection \<open>The words of a parsed command\<close>

fun words :: "cmd \<Rightarrow> (string \<times> string) list" where
  "words (EXEC argv) = argv"
| "words (REDIR c q eq m fd) = words c @ [(q, eq)]"
| "words (PIPE l r) = words l @ words r"
| "words (LIST l r) = words l @ words r"
| "words (BACK c) = words c"

definition word_char :: "char \<Rightarrow> bool" where
  "word_char c \<longleftrightarrow> \<not> is_ws c \<and> \<not> is_sym c"

definition good_word :: "string \<Rightarrow> string \<times> string \<Rightarrow> bool" where
  "good_word line w \<longleftrightarrow> suffix (fst w) line \<and>
     (\<exists>t. fst w = t @ snd w \<and> t \<noteq> [] \<and> list_all word_char t) \<and>
     (snd w = [] \<or> \<not> word_char (hd (snd w)))"

definition fine :: "string \<Rightarrow> cmd \<Rightarrow> string \<Rightarrow> bool" where
  "fine line c s \<longleftrightarrow> suffix s line \<and> list_all (good_word line) (words c)"

lemma skip_ws_suffix: "suffix s line \<Longrightarrow> suffix (skip_ws s) line"
  unfolding skip_ws_def by (meson suffix_dropWhile suffix_order.trans)

lemma peek_suffix: "peek ps t = (s, b) \<Longrightarrow> suffix ps line \<Longrightarrow> suffix s line"
  using peek_facts(1) skip_ws_suffix by metis

lemma token_at_suffix: "suffix (snd (token_at s)) s"
  by (auto simp: token_at_def suffix_ConsI suffix_dropWhile split: list.splits)

lemma token_at_word:
  assumes "fst (token_at s) = CHR ''a''" and "s = skip_ws ps"
  shows "\<exists>t. s = t @ snd (token_at s) \<and> t \<noteq> [] \<and> list_all word_char t"
    and "snd (token_at s) = [] \<or> \<not> word_char (hd (snd (token_at s)))"
proof -
  let ?P = "\<lambda>c. \<not> is_ws c \<and> \<not> is_sym c"
  obtain c r where s: "s = c # r" "c \<notin> set ''|();&<''" "c \<noteq> CHR ''>''"
    "snd (token_at s) = dropWhile ?P s"
    using assms(1) by (auto simp: token_at_def split: list.splits if_splits)
  have "skip_ws ps = c # r" using assms(2) s(1) by simp
  then have "\<not> is_ws c" by (rule skip_ws_hd)
  then have "?P c" using s(2,3) by (auto simp: is_sym_def)
  then have "takeWhile ?P s \<noteq> []" using s(1) by simp
  moreover have "s = takeWhile ?P s @ snd (token_at s)" using s(4) by simp
  moreover have "list_all word_char (takeWhile ?P s)"
    by (auto simp: list_all_iff word_char_def dest: set_takeWhileD)
  ultimately show "\<exists>t. s = t @ snd (token_at s) \<and> t \<noteq> [] \<and> list_all word_char t" by blast
  show "snd (token_at s) = [] \<or> \<not> word_char (hd (snd (token_at s)))"
    using s(4) hd_dropWhile [of ?P s] by (auto simp: word_char_def)
qed

lemma gettoken_fine:
  assumes "gettoken ps = (rt, (q, eq), r)" and "suffix ps line"
  shows "suffix r line" and "rt = CHR ''a'' \<Longrightarrow> good_word line (q, eq)"
proof -
  have g: "rt = fst (token_at (skip_ws ps))" "q = skip_ws ps" "eq = snd (token_at (skip_ws ps))"
    "r = skip_ws (snd (token_at (skip_ws ps)))" using assms(1) unfolding gettoken_eq by auto
  have s: "suffix (skip_ws ps) line" using assms(2) by (rule skip_ws_suffix)
  then have "suffix (snd (token_at (skip_ws ps))) line"
    using token_at_suffix suffix_order.trans by blast
  then show "suffix r line" unfolding g by (rule skip_ws_suffix)
  show "good_word line (q, eq)" if "rt = CHR ''a''"
    using token_at_word [of "skip_ws ps" ps] that g s by (simp add: good_word_def)
qed

lemma parseredirs_fine:
  "fine line c ps \<Longrightarrow> parseredirs c ps = Parsed d s \<Longrightarrow> fine line d s"
proof (induction c ps rule: parseredirs.induct)
  case (1 c ps)
  obtain b where p: "peek ps ''<>'' = (skip_ws ps, b)" using peek_facts(1) by (metis surj_pair)
  obtain tok w1 w2 s1 where g1: "gettoken (skip_ws ps) = (tok, (w1, w2), s1)" by (metis prod.exhaust)
  obtain rt q eq s2 where g2: "gettoken s1 = (rt, (q, eq), s2)" by (metis prod.exhaust)
  have sf: "suffix (skip_ws ps) line" using "1.prems"(1) skip_ws_suffix by (simp add: fine_def)
  have s2: "suffix s2 line" "rt = CHR ''a'' \<Longrightarrow> good_word line (q, eq)"
    using gettoken_fine [OF g2] gettoken_fine(1) [OF g1 sf] by blast+
  note ih = "1.IH" [OF p [symmetric] _ g1 [symmetric] refl g2 [symmetric] refl refl]
  have f: "rt = CHR ''a'' \<Longrightarrow> fine line (REDIR c q eq m fd) s2" "fine line c s2" for m fd
    using "1.prems"(1) s2 by (auto simp: fine_def)
  have r: "parseredirs c ps = (if b then
        (if rt \<noteq> CHR ''a'' then Bad ''missing file for redirection''
         else if tok = CHR ''<'' then parseredirs (REDIR c q eq O_RDONLY 0) s2
         else if tok = CHR ''>'' \<or> tok = CHR ''+'' then parseredirs (REDIR c q eq (O_WRONLY + O_CREATE) 1) s2
         else parseredirs c s2)
      else Parsed c (skip_ws ps))"
    using p g1 g2 by (subst parseredirs_step) simp
  show ?case
    using "1.prems" sf f ih unfolding r by (auto simp: fine_def split: if_splits)
qed

lemma set_argv_words: "list_all P (words c) \<Longrightarrow> list_all P a \<Longrightarrow> list_all P (words (set_argv a c))"
  by (induction a c rule: set_argv.induct) auto

lemma exec_args_fine:
  "fine line c ps \<Longrightarrow> list_all (good_word line) argv \<Longrightarrow> exec_args c argv ps = Parsed d s \<Longrightarrow> fine line d s"
proof (induction c argv ps rule: exec_args.induct)
  case (1 c argv ps)
  obtain b where p: "peek ps ''|)&;'' = (skip_ws ps, b)" using peek_facts(1) by (metis surj_pair)
  obtain tok q eq s1 where g: "gettoken (skip_ws ps) = (tok, (q, eq), s1)" by (metis prod.exhaust)
  have sf: "suffix (skip_ws ps) line" using "1.prems"(1) skip_ws_suffix by (simp add: fine_def)
  note gt = gettoken_fine [OF g sf]
  have sa: "fine line (set_argv argv c) t" if "suffix t line" for t
    using "1.prems"(1,2) that set_argv_words by (simp add: fine_def)
  show ?case
  proof (cases "b \<or> tok \<noteq> CHR ''a'' \<or> MAXARGS \<le> List.length argv + 1")
    case True
    then show ?thesis using "1.prems"(3) p g sa gt(1) sf by (subst (asm) exec_args.simps) (auto split: if_splits)
  next
    case False
    then obtain c2 s2 where r: "parseredirs c s1 = Parsed c2 s2" "exec_args c2 (argv @ [(q, eq)]) s2 = Parsed d s"
      using "1.prems"(3) p g by (subst (asm) exec_args.simps) (auto split: parsed.splits)
    have "fine line c s1" using "1.prems"(1) gt(1) by (simp add: fine_def)
    then have "fine line c2 s2" using r(1) by (rule parseredirs_fine)
    then show ?thesis
      using "1.IH" [OF p [symmetric] _ g [symmetric] refl refl _ _ _ r(1)] False r(2) "1.prems"(2) gt(2) by simp
  qed
qed

lemma back_loop_fine: "fine line c ps \<Longrightarrow> back_loop c ps = (d, s) \<Longrightarrow> fine line d s"
proof (induction c ps rule: back_loop.induct)
  case (1 c ps)
  obtain b where p: "peek ps ''&'' = (skip_ws ps, b)" using peek_facts(1) by (metis surj_pair)
  obtain tok q eq s1 where g: "gettoken (skip_ws ps) = (tok, (q, eq), s1)" by (metis prod.exhaust)
  have sf: "suffix (skip_ws ps) line" using "1.prems"(1) skip_ws_suffix by (simp add: fine_def)
  have f: "fine line (BACK c) s1" using "1.prems"(1) gettoken_fine(1) [OF g sf] by (simp add: fine_def)
  have r: "back_loop c ps = (if b then back_loop (BACK c) s1 else (c, skip_ws ps))"
    using p g by (subst back_loop.simps) simp
  show ?case
    using "1.IH" [OF p [symmetric] _ g [symmetric] refl] "1.prems" f sf unfolding r
    by (auto simp: fine_def split: if_splits)
qed

lemma parse_fine:
  "suffix ps line \<Longrightarrow> parseline n ps = Parsed c s \<Longrightarrow> fine line c s"
  "suffix ps line \<Longrightarrow> parsepipe n ps = Parsed c s \<Longrightarrow> fine line c s"
  "suffix ps line \<Longrightarrow> parseexec n ps = Parsed c s \<Longrightarrow> fine line c s"
  "suffix ps line \<Longrightarrow> parseblock n ps = Parsed c s \<Longrightarrow> fine line c s"
proof (induction n arbitrary: ps c s)
  case 0
  { case 1 then show ?case by simp }
  { case 2 then show ?case by simp }
  { case 3 then show ?case by simp }
  { case 4 then show ?case by simp }
next
  case (Suc n)
  { case 1
    then obtain c1 s1 where r: "parsepipe n ps = Parsed c1 s1" by (auto split: parsed.splits)
    obtain c2 s2 where b: "back_loop c1 s1 = (c2, s2)" by fastforce
    have f: "fine line c2 s2" using back_loop_fine [OF Suc.IH(2) [OF 1(1) r] b] .
    obtain mo where p: "peek s2 '';'' = (skip_ws s2, mo)" using peek_facts(1) by (metis surj_pair)
    obtain tok q eq s3 where g: "gettoken (skip_ws s2) = (tok, (q, eq), s3)" by (metis prod.exhaust)
    have sf: "suffix (skip_ws s2) line" using f skip_ws_suffix by (simp add: fine_def)
    show ?case
    proof (cases mo)
      case True
      then obtain c3 s4 where l: "parseline n s3 = Parsed c3 s4" "c = LIST c2 c3" "s = s4"
        using 1(2) r b p g by (auto split: parsed.splits)
      then show ?thesis using Suc.IH(1) [OF gettoken_fine(1) [OF g sf] l(1)] f by (simp add: fine_def)
    next
      case False
      then show ?thesis using 1(2) r b p f sf by (simp add: fine_def)
    qed }
  { case 2
    then obtain c2 s2 where r: "parseexec n ps = Parsed c2 s2" by (auto split: parsed.splits)
    have f: "fine line c2 s2" using Suc.IH(3) [OF 2(1) r] .
    obtain mo where p: "peek s2 ''|'' = (skip_ws s2, mo)" using peek_facts(1) by (metis surj_pair)
    obtain tok q eq s3 where g: "gettoken (skip_ws s2) = (tok, (q, eq), s3)" by (metis prod.exhaust)
    have sf: "suffix (skip_ws s2) line" using f skip_ws_suffix by (simp add: fine_def)
    show ?case
    proof (cases mo)
      case True
      then obtain c3 s4 where l: "parsepipe n s3 = Parsed c3 s4" "c = PIPE c2 c3" "s = s4"
        using 2(2) r p g by (auto split: parsed.splits)
      then show ?thesis using Suc.IH(2) [OF gettoken_fine(1) [OF g sf] l(1)] f by (simp add: fine_def)
    next
      case False
      then show ?thesis using 2(2) r p f sf by (simp add: fine_def)
    qed }
  { case 3
    obtain mo where p: "peek ps ''('' = (skip_ws ps, mo)" using peek_facts(1) by (metis surj_pair)
    have sf: "suffix (skip_ws ps) line" using 3(1) by (rule skip_ws_suffix)
    show ?case
    proof (cases mo)
      case True
      then show ?thesis using 3(2) p Suc.IH(4) [OF sf] by simp
    next
      case False
      then obtain d t where r: "parseredirs (EXEC []) (skip_ws ps) = Parsed d t" "exec_args d [] t = Parsed c s"
        using 3(2) p by (auto split: parsed.splits)
      have "fine line (EXEC []) (skip_ws ps)" using sf by (simp add: fine_def)
      then have f: "fine line d t" using r(1) by (rule parseredirs_fine)
      show ?thesis by (rule exec_args_fine [OF f _ r(2)]) simp
    qed }
  { case 4
    obtain mo where p: "peek ps ''('' = (skip_ws ps, mo)" using peek_facts(1) by (metis surj_pair)
    have sf: "suffix (skip_ws ps) line" using 4(1) by (rule skip_ws_suffix)
    obtain tok q eq s1 where g: "gettoken (skip_ws ps) = (tok, (q, eq), s1)" by (metis prod.exhaust)
    have pb: "parseblock (Suc n) ps =
        (if \<not> mo then Bad ''parseblock''
         else (case parseline n s1 of
             Parsed cmd s \<Rightarrow>
               (case peek s '')'' of (s, close_p) \<Rightarrow>
                  if \<not> close_p then Bad ''syntax - missing )''
                  else (case gettoken s of (_, _, s) \<Rightarrow> parseredirs cmd s))
           | Bad e \<Rightarrow> Bad e
           | NoFuel \<Rightarrow> NoFuel))"
      using p g by simp
    then obtain c1 s2 where r: "parseline n s1 = Parsed c1 s2"
      using 4(2) by (cases "parseline n s1") (simp_all split: if_splits)
    have f: "fine line c1 s2" using Suc.IH(1) [OF gettoken_fine(1) [OF g sf] r] .
    obtain mo2 where p2: "peek s2 '')'' = (skip_ws s2, mo2)" using peek_facts(1) by (metis surj_pair)
    have sf2: "suffix (skip_ws s2) line" using f skip_ws_suffix by (simp add: fine_def)
    obtain tok2 q2 eq2 s3 where g2: "gettoken (skip_ws s2) = (tok2, (q2, eq2), s3)" by (metis prod.exhaust)
    have f3: "fine line c1 s3" using f gettoken_fine(1) [OF g2 sf2] by (simp add: fine_def)
    have "parseredirs c1 s3 = Parsed c s"
      using 4(2) unfolding pb r using p2 g2 by (simp split: if_splits)
    then show ?case by (rule parseredirs_fine [OF f3]) }
qed

subsection \<open>The words after nulterminate\<close>

definition token_of :: "string \<times> string \<Rightarrow> string" where
  "token_of w = take (List.length (fst w) - List.length (snd w)) (fst w)"

subsection \<open>The tokens of a line and the grammar of commands\<close>

function toks :: "string \<Rightarrow> string list" where
  "toks ps =
     (let s = skip_ws ps in
      if s = [] then [] else let r = snd (token_at s) in token_of (s, r) # toks r)"
  by pat_completeness auto
termination
proof (relation "measure List.length")
  fix ps x xa
  assume a: "x = skip_ws ps" "x \<noteq> []" "xa = snd (token_at x)"
  obtain c s where s: "skip_ws ps = c # s" using a(1,2) by (cases "skip_ws ps") auto
  then have "List.length xa < List.length (skip_ws ps)"
    using token_at_shorter [OF skip_ws_hd [OF s]] a by (simp add: less_Suc_eq_le)
  then show "(xa, ps) \<in> measure List.length" using skip_ws_length [of ps] by simp
qed simp

declare toks.simps [simp del]

lemma toks_Nil: "toks [] = []"
  by (subst toks.simps) simp

lemma toks_skip: "toks (skip_ws ps) = toks ps"
  by (subst (1 2) toks.simps) simp

lemma gettoken_skip: "gettoken (skip_ws ps) = gettoken ps"
  by (simp add: gettoken_eq)

lemma gettoken_toks:
  assumes "gettoken ps = (rt, (q, eq), r)"
  shows "toks ps = (if skip_ws ps = [] then [] else token_of (q, eq) # toks r)"
  using assms by (subst toks.simps) (auto simp: gettoken_eq toks_skip Let_def)

lemma gettoken_kind:
  assumes "gettoken ps = (rt, (q, eq), r)"
  shows "skip_ws ps = [] \<Longrightarrow> rt = CHR 0x00 \<and> r = []"
    and "skip_ws ps = c # x \<Longrightarrow> c \<in> set ''|();&<'' \<Longrightarrow> rt = c \<and> token_of (q, eq) = [c]"
    and "skip_ws ps = CHR ''>'' # x \<Longrightarrow> rt = CHR ''>'' \<and> token_of (q, eq) = ''>'' \<or> rt = CHR ''+'' \<and> token_of (q, eq) = ''>>''"
    and "rt = CHR 0x00 \<Longrightarrow> CHR 0x00 \<notin> set ps \<Longrightarrow> skip_ws ps = []"
proof -
  have g: "rt = fst (token_at (skip_ws ps))" "q = skip_ws ps" "eq = snd (token_at (skip_ws ps))"
    "r = skip_ws (snd (token_at (skip_ws ps)))"
    using assms unfolding gettoken_eq by auto
  show "skip_ws ps = [] \<Longrightarrow> rt = CHR 0x00 \<and> r = []" using g by (simp add: token_at_def)
  show "skip_ws ps = c # x \<Longrightarrow> c \<in> set ''|();&<'' \<Longrightarrow> rt = c \<and> token_of (q, eq) = [c]"
    using g by (simp add: token_at_def token_of_def)
  show "skip_ws ps = CHR ''>'' # x \<Longrightarrow> rt = CHR ''>'' \<and> token_of (q, eq) = ''>'' \<or> rt = CHR ''+'' \<and> token_of (q, eq) = ''>>''"
    using g by (auto simp: token_at_def token_of_def split: list.splits)
  show "skip_ws ps = []" if "rt = CHR 0x00" "CHR 0x00 \<notin> set ps"
  proof (rule ccontr)
    assume "skip_ws ps \<noteq> []"
    then obtain c x where s: "skip_ws ps = c # x" by (cases "skip_ws ps") auto
    then have "c \<in> set ps" using set_dropWhileD [of c is_ws ps] by (simp add: skip_ws_def)
    then show False using that g s by (auto simp: token_at_def split: list.splits if_splits)
  qed
qed

definition wordy :: "string \<Rightarrow> bool" where
  "wordy t \<longleftrightarrow> t \<noteq> [] \<and> list_all word_char t"

lemma gettoken_wordy:
  assumes "gettoken ps = (rt, (q, eq), r)" and "skip_ws ps \<noteq> []"
  shows "wordy (token_of (q, eq)) \<longleftrightarrow> rt = CHR ''a''"
proof
  assume "rt = CHR ''a''"
  moreover have g: "rt = fst (token_at (skip_ws ps))" "q = skip_ws ps" "eq = snd (token_at (skip_ws ps))"
    using assms(1) unfolding gettoken_eq by auto
  ultimately obtain t where "q = t @ eq" "t \<noteq> []" "list_all word_char t"
    using token_at_word(1) [of "skip_ws ps" ps] by auto
  then show "wordy (token_of (q, eq))" by (simp add: wordy_def token_of_def)
next
  assume w: "wordy (token_of (q, eq))"
  obtain c x where s: "skip_ws ps = c # x" using assms(2) by (cases "skip_ws ps") auto
  have "c \<notin> set ''|();&<''"
    using gettoken_kind(2) [OF assms(1) s] w by (auto simp: wordy_def word_char_def is_sym_def)
  moreover have "c \<noteq> CHR ''>''"
    using gettoken_kind(3) [OF assms(1)] s w by (auto simp: wordy_def word_char_def is_sym_def)
  ultimately show "rt = CHR ''a''" using assms(1) s unfolding gettoken_eq by (auto simp: token_at_def)
qed

lemma peek_hd: "peek ps t = (s, True) \<Longrightarrow> \<exists>c x. skip_ws ps = c # x \<and> c \<in> set t"
  by (auto simp: peek_def Let_def split: list.splits)

text \<open>
  The grammar, over the texts of the tokens. \<open>gredirs c ts d\<close>: the redirections \<open>ts\<close> after a
  command with tree \<open>c\<close> make it \<open>d\<close>; \<open>gargs\<close> takes the rest of a simple command, \<open>a\<close> being
  the arguments so far.
\<close>

inductive gredirs :: "cmd \<Rightarrow> string list \<Rightarrow> cmd \<Rightarrow> bool" where
  no_redir: "gredirs c [] c"
| from_file: "gredirs (REDIR c q eq O_RDONLY 0) ts d \<Longrightarrow> wordy (token_of (q, eq)) \<Longrightarrow>
    gredirs c (''<'' # token_of (q, eq) # ts) d"
| to_file: "gredirs (REDIR c q eq (O_WRONLY + O_CREATE) 1) ts d \<Longrightarrow> op \<in> {''>'', ''>>''} \<Longrightarrow>
    wordy (token_of (q, eq)) \<Longrightarrow> gredirs c (op # token_of (q, eq) # ts) d"

inductive gargs :: "cmd \<Rightarrow> (string \<times> string) list \<Rightarrow> string list \<Rightarrow> cmd \<Rightarrow> bool" where
  no_args: "gargs c a [] (set_argv a c)"
| more_args: "gredirs c rs c2 \<Longrightarrow> gargs c2 (a @ [(q, eq)]) ts d \<Longrightarrow> List.length a + 1 < MAXARGS \<Longrightarrow>
    wordy (token_of (q, eq)) \<Longrightarrow> gargs c a (token_of (q, eq) # rs @ ts) d"

inductive gexec :: "cmd \<Rightarrow> string list \<Rightarrow> bool"
  and gpipe :: "cmd \<Rightarrow> string list \<Rightarrow> bool"
  and gback :: "cmd \<Rightarrow> string list \<Rightarrow> bool"
  and gline :: "cmd \<Rightarrow> string list \<Rightarrow> bool" where
  simple: "gredirs (EXEC []) rs c \<Longrightarrow> gargs c [] ts d \<Longrightarrow> gexec d (rs @ ts)"
| block: "gline c ts \<Longrightarrow> gredirs c rs d \<Longrightarrow> gexec d (''('' # ts @ '')'' # rs)"
| one_pipe: "gexec c ts \<Longrightarrow> gpipe c ts"
| more_pipe: "gexec l ts \<Longrightarrow> gpipe r us \<Longrightarrow> gpipe (PIPE l r) (ts @ ''|'' # us)"
| no_back: "gpipe c ts \<Longrightarrow> gback c ts"
| more_back: "gback c ts \<Longrightarrow> gback (BACK c) (ts @ [''&''])"
| one_line: "gback c ts \<Longrightarrow> gline c ts"
| more_line: "gback l ts \<Longrightarrow> gline r us \<Longrightarrow> gline (LIST l r) (ts @ '';'' # us)"

lemma parseredirs_gram:
  "parseredirs c ps = Parsed d s \<Longrightarrow> \<exists>ts. gredirs c ts d \<and> toks ps = ts @ toks s"
proof (induction c ps rule: parseredirs.induct)
  case (1 c ps)
  obtain b where p: "peek ps ''<>'' = (skip_ws ps, b)" using peek_facts(1) by (metis surj_pair)
  obtain tok w1 w2 s1 where g1: "gettoken (skip_ws ps) = (tok, (w1, w2), s1)" by (metis prod.exhaust)
  obtain rt q eq s2 where g2: "gettoken s1 = (rt, (q, eq), s2)" by (metis prod.exhaust)
  note ih = "1.IH" [OF p [symmetric] _ g1 [symmetric] refl g2 [symmetric] refl refl]
  have r: "parseredirs c ps = (if b then
        (if rt \<noteq> CHR ''a'' then Bad ''missing file for redirection''
         else if tok = CHR ''<'' then parseredirs (REDIR c q eq O_RDONLY 0) s2
         else if tok = CHR ''>'' \<or> tok = CHR ''+'' then parseredirs (REDIR c q eq (O_WRONLY + O_CREATE) 1) s2
         else parseredirs c s2)
      else Parsed c (skip_ws ps))"
    using p g1 g2 by (subst parseredirs_step) simp
  show ?case
  proof (cases b)
    case False
    then show ?thesis using "1.prems" unfolding r by (auto simp: toks_skip intro: no_redir)
  next
    case True
    then obtain x y where x: "skip_ws ps = x # y" "x \<in> set ''<>''" using peek_hd p by metis
    have rt: "rt = CHR ''a''" using "1.prems" True unfolding r by (auto split: if_splits)
    then have ne: "skip_ws s1 \<noteq> []" using gettoken_kind(1) [OF g2] by auto
    then have wd: "wordy (token_of (q, eq))" using gettoken_wordy [OF g2] rt by simp
    have t: "toks ps = token_of (w1, w2) # token_of (q, eq) # toks s2"
      using gettoken_toks [OF g1 [unfolded gettoken_skip]] gettoken_toks [OF g2] ne x(1) by simp
    show ?thesis
    proof (cases "x = CHR ''<''")
      case True2: True
      have k: "tok = CHR ''<'' \<and> token_of (w1, w2) = ''<''" using gettoken_kind(2) [OF g1 [unfolded gettoken_skip]] x True2 by simp
      then have "parseredirs (REDIR c q eq O_RDONLY 0) s2 = Parsed d s" using "1.prems" True rt unfolding r by simp
      then show ?thesis using ih(1) True rt k t wd by (fastforce intro: from_file)
    next
      case False
      then have k: "tok = CHR ''>'' \<and> token_of (w1, w2) = ''>'' \<or> tok = CHR ''+'' \<and> token_of (w1, w2) = ''>>''"
        using gettoken_kind(3) [OF g1 [unfolded gettoken_skip]] x by simp
      then have e: "parseredirs (REDIR c q eq (O_WRONLY + O_CREATE) 1) s2 = Parsed d s"
        using "1.prems" True rt unfolding r by (auto split: if_splits)
      then obtain ts where ts: "gredirs (REDIR c q eq (O_WRONLY + O_CREATE) 1) ts d" "toks s2 = ts @ toks s"
        using ih(2,3) True rt k by (cases "tok = CHR ''>''") auto
      then have "gredirs c (token_of (w1, w2) # token_of (q, eq) # ts) d" using k wd by (intro to_file) auto
      then show ?thesis using t ts(2) by (intro exI [of _ "token_of (w1, w2) # token_of (q, eq) # ts"]) simp
    qed
  qed
qed

lemma suffix_set: "suffix s t \<Longrightarrow> c \<notin> set t \<Longrightarrow> c \<notin> set s"
  by (auto simp: suffix_def)

lemma exec_args_gram:
  "exec_args c a ps = Parsed d s \<Longrightarrow> fine line c ps \<Longrightarrow> CHR 0x00 \<notin> set line \<Longrightarrow>
    \<exists>ts. gargs c a ts d \<and> toks ps = ts @ toks s"
proof (induction c a ps rule: exec_args.induct)
  case (1 c a ps)
  obtain b where p: "peek ps ''|)&;'' = (skip_ws ps, b)" using peek_facts(1) by (metis surj_pair)
  obtain tok q eq s1 where g: "gettoken (skip_ws ps) = (tok, (q, eq), s1)" by (metis prod.exhaust)
  have sf: "suffix (skip_ws ps) line" using "1.prems"(2) skip_ws_suffix by (simp add: fine_def)
  note g' = g [unfolded gettoken_skip]
  have z: "CHR 0x00 \<notin> set ps" using "1.prems"(2) suffix_set [OF _ "1.prems"(3)] by (simp add: fine_def)
  have x: "exec_args c a ps = (if b then Parsed (set_argv a c) (skip_ws ps)
      else if tok = CHR 0x00 then Parsed (set_argv a c) s1
      else if tok \<noteq> CHR ''a'' then Bad ''syntax''
      else if MAXARGS \<le> List.length a + 1 then Bad ''too many args''
      else (case parseredirs c s1 of Parsed c2 s2 \<Rightarrow> exec_args c2 (a @ [(q, eq)]) s2
        | Bad e \<Rightarrow> Bad e | NoFuel \<Rightarrow> NoFuel))"
    using p g by (subst exec_args.simps) simp
  show ?case
  proof (cases "b \<or> tok = CHR 0x00")
    case True
    have "toks s = toks ps" if "tok = CHR 0x00" "s = s1"
    proof -
      have "skip_ws ps = []" using gettoken_kind(4) [OF g' that(1) z] .
      then show ?thesis using gettoken_kind(1) [OF g'] gettoken_toks [OF g'] that(2) by (simp add: toks_Nil)
    qed
    then have "d = set_argv a c \<and> toks ps = toks s"
      using "1.prems"(1) True unfolding x by (auto simp: toks_skip split: if_splits)
    then show ?thesis using no_args by force
  next
    case False
    then have k: "tok = CHR ''a''" "\<not> MAXARGS \<le> List.length a + 1"
      using "1.prems"(1) unfolding x by (auto split: if_splits)
    obtain c2 s2 where r: "parseredirs c s1 = Parsed c2 s2" "exec_args c2 (a @ [(q, eq)]) s2 = Parsed d s"
      using "1.prems"(1) False k unfolding x by (auto split: parsed.splits)
    have "fine line c s1" using "1.prems"(2) gettoken_fine(1) [OF g sf] by (simp add: fine_def)
    then have f: "fine line c2 s2" using r(1) by (rule parseredirs_fine)
    obtain ts where ts: "gargs c2 (a @ [(q, eq)]) ts d" "toks s2 = ts @ toks s"
      using "1.IH" [OF p [symmetric] _ g [symmetric] refl refl _ _ _ r(1)] False k r(2) f "1.prems"(3) by auto
    obtain rs where rs: "gredirs c rs c2" "toks s1 = rs @ toks s2" using parseredirs_gram [OF r(1)] by blast
    have "skip_ws ps \<noteq> []" using gettoken_kind(1) [OF g'] k(1) by auto
    then have "gargs c a (token_of (q, eq) # rs @ ts) d"
      using rs(1) ts(1) k gettoken_wordy [OF g'] by (intro more_args) auto
    moreover have "toks ps = token_of (q, eq) # toks s1"
      using gettoken_toks [OF g'] gettoken_kind(1) [OF g'] k(1) by (auto split: if_splits)
    ultimately show ?thesis using ts(2) rs(2) by (intro exI [of _ "token_of (q, eq) # rs @ ts"]) simp
  qed
qed

lemma back_loop_gram:
  "back_loop c ps = (d, s) \<Longrightarrow> gback c us \<Longrightarrow> \<exists>ts. gback d (us @ ts) \<and> toks ps = ts @ toks s"
proof (induction c ps arbitrary: us rule: back_loop.induct)
  case (1 c ps)
  obtain b where p: "peek ps ''&'' = (skip_ws ps, b)" using peek_facts(1) by (metis surj_pair)
  obtain tok q eq s1 where g: "gettoken (skip_ws ps) = (tok, (q, eq), s1)" by (metis prod.exhaust)
  have r: "back_loop c ps = (if b then back_loop (BACK c) s1 else (c, skip_ws ps))"
    using p g by (subst back_loop.simps) simp
  show ?case
  proof (cases b)
    case False
    then show ?thesis using "1.prems" unfolding r by (intro exI [of _ "[]"]) (auto simp: toks_skip)
  next
    case True
    then obtain x y where x: "skip_ws ps = x # y" "x \<in> set ''&''" using peek_hd p by metis
    note g' = g [unfolded gettoken_skip]
    have k: "token_of (q, eq) = ''&''" using gettoken_kind(2) [OF g'] x by simp
    have t: "toks ps = ''&'' # toks s1" using gettoken_toks [OF g'] x(1) k by simp
    have "gback (BACK c) (us @ [''&''])" using "1.prems"(2) by (rule more_back)
    moreover have "back_loop (BACK c) s1 = (d, s)" using "1.prems"(1) True unfolding r by simp
    ultimately obtain ts where "gback d ((us @ [''&'']) @ ts)" "toks s1 = ts @ toks s"
      using "1.IH" [OF p [symmetric] True g [symmetric] refl] by blast
    then show ?thesis using t by (intro exI [of _ "''&'' # ts"]) simp
  qed
qed

text \<open>After a successful peek at one of the symbols, gettoken takes that symbol.\<close>

lemma peek_symbol:
  assumes "peek ps [c] = (skip_ws ps, True)" and "c \<in> set ''|();&<''" and "gettoken (skip_ws ps) = (tok, w, r)"
  shows "toks ps = [c] # toks r"
proof -
  obtain q eq where w: "w = (q, eq)" by fastforce
  obtain x y where x: "skip_ws ps = x # y" "x \<in> set [c]" using peek_hd assms(1) by metis
  have "gettoken ps = (tok, (q, eq), r)" using assms(3) w by (simp only: gettoken_skip)
  then show ?thesis using gettoken_kind(2) [of ps tok q eq r] gettoken_toks [of ps tok q eq r] assms(2) x by simp
qed

lemma parse_gram:
  assumes "CHR 0x00 \<notin> set line"
  shows "suffix ps line \<Longrightarrow> parseline n ps = Parsed c s \<Longrightarrow> \<exists>ts. gline c ts \<and> toks ps = ts @ toks s"
    and "suffix ps line \<Longrightarrow> parsepipe n ps = Parsed c s \<Longrightarrow> \<exists>ts. gpipe c ts \<and> toks ps = ts @ toks s"
    and "suffix ps line \<Longrightarrow> parseexec n ps = Parsed c s \<Longrightarrow> \<exists>ts. gexec c ts \<and> toks ps = ts @ toks s"
    and "suffix ps line \<Longrightarrow> parseblock n ps = Parsed c s \<Longrightarrow> \<exists>ts. gexec c ts \<and> toks ps = ts @ toks s"
proof (induction n arbitrary: ps c s)
  case 0
  { case 1 then show ?case by simp }
  { case 2 then show ?case by simp }
  { case 3 then show ?case by simp }
  { case 4 then show ?case by simp }
next
  case (Suc n)
  { case 1
    then obtain c1 s1 where r: "parsepipe n ps = Parsed c1 s1" by (auto split: parsed.splits)
    obtain c2 s2 where b: "back_loop c1 s1 = (c2, s2)" by fastforce
    obtain ts1 where ts1: "gpipe c1 ts1" "toks ps = ts1 @ toks s1" using Suc.IH(2) [OF 1(1) r] by blast
    obtain ts2 where ts2: "gback c2 (ts1 @ ts2)" "toks s1 = ts2 @ toks s2"
      using back_loop_gram [OF b no_back [OF ts1(1)]] by blast
    obtain mo where p: "peek s2 '';'' = (skip_ws s2, mo)" using peek_facts(1) by (metis surj_pair)
    obtain tok w s3 where g: "gettoken (skip_ws s2) = (tok, w, s3)" by (metis prod.exhaust)
    have "suffix s2 line" using back_loop_fine [OF parse_fine(2) [OF 1(1) r] b] by (simp add: fine_def)
    then have sf: "suffix s3 line" by (metis g gettoken_fine(1) prod.exhaust skip_ws_suffix)
    show ?case
    proof (cases mo)
      case True
      then obtain c3 where l: "parseline n s3 = Parsed c3 s" "c = LIST c2 c3"
        using 1(2) r b p g by (auto split: parsed.splits)
      obtain ts3 where "gline c3 ts3" "toks s3 = ts3 @ toks s" using Suc.IH(1) [OF sf l(1)] by blast
      moreover have "toks s2 = '';'' # toks s3" using peek_symbol [of s2 "CHR '';''" tok w s3] p g True by simp
      ultimately show ?thesis
        using more_line [OF ts2(1)] ts1(2) ts2(2) l(2) by (intro exI [of _ "(ts1 @ ts2) @ '';'' # ts3"]) simp
    next
      case False
      then have "c = c2 \<and> s = skip_ws s2" using 1(2) r b p by simp
      then show ?thesis using one_line [OF ts2(1)] ts1(2) ts2(2) by (intro exI [of _ "ts1 @ ts2"]) (simp add: toks_skip)
    qed }
  { case 2
    then obtain c2 s2 where r: "parseexec n ps = Parsed c2 s2" by (auto split: parsed.splits)
    obtain ts where ts: "gexec c2 ts" "toks ps = ts @ toks s2" using Suc.IH(3) [OF 2(1) r] by blast
    obtain mo where p: "peek s2 ''|'' = (skip_ws s2, mo)" using peek_facts(1) by (metis surj_pair)
    obtain tok w s3 where g: "gettoken (skip_ws s2) = (tok, w, s3)" by (metis prod.exhaust)
    have "suffix s2 line" using parse_fine(3) [OF 2(1) r] by (simp add: fine_def)
    then have sf: "suffix s3 line" by (metis g gettoken_fine(1) prod.exhaust skip_ws_suffix)
    show ?case
    proof (cases mo)
      case True
      then obtain c3 where l: "parsepipe n s3 = Parsed c3 s" "c = PIPE c2 c3"
        using 2(2) r p g by (auto split: parsed.splits)
      obtain us where "gpipe c3 us" "toks s3 = us @ toks s" using Suc.IH(2) [OF sf l(1)] by blast
      moreover have "toks s2 = ''|'' # toks s3" using peek_symbol [of s2 "CHR ''|''" tok w s3] p g True by simp
      ultimately show ?thesis
        using more_pipe [OF ts(1)] ts(2) l(2) by (intro exI [of _ "ts @ ''|'' # us"]) simp
    next
      case False
      then have "c = c2 \<and> s = skip_ws s2" using 2(2) r p by simp
      then show ?thesis using one_pipe [OF ts(1)] ts(2) by (intro exI [of _ ts]) (simp add: toks_skip)
    qed }
  { case 3
    obtain mo where p: "peek ps ''('' = (skip_ws ps, mo)" using peek_facts(1) by (metis surj_pair)
    have sf: "suffix (skip_ws ps) line" using 3(1) by (rule skip_ws_suffix)
    show ?case
    proof (cases mo)
      case True
      then show ?thesis using 3(2) p Suc.IH(4) [OF sf] by (simp add: toks_skip)
    next
      case False
      then obtain d t where r: "parseredirs (EXEC []) (skip_ws ps) = Parsed d t" "exec_args d [] t = Parsed c s"
        using 3(2) p by (auto split: parsed.splits)
      have "fine line (EXEC []) (skip_ws ps)" using sf by (simp add: fine_def)
      then have f: "fine line d t" using r(1) by (rule parseredirs_fine)
      obtain rs where rs: "gredirs (EXEC []) rs d" "toks ps = rs @ toks t"
        using parseredirs_gram [OF r(1)] by (auto simp: toks_skip)
      obtain ts where ts: "gargs d [] ts c" "toks t = ts @ toks s"
        using exec_args_gram [OF r(2) f assms] by blast
      show ?thesis using simple [OF rs(1) ts(1)] rs(2) ts(2) by (intro exI [of _ "rs @ ts"]) simp
    qed }
  { case 4
    obtain mo where p: "peek ps ''('' = (skip_ws ps, mo)" using peek_facts(1) by (metis surj_pair)
    obtain tok w s1 where g: "gettoken (skip_ws ps) = (tok, w, s1)" by (metis prod.exhaust)
    have sf: "suffix s1 line" using 4(1) by (metis g gettoken_fine(1) prod.exhaust skip_ws_suffix)
    have pb: "parseblock (Suc n) ps =
        (if \<not> mo then Bad ''parseblock''
         else (case parseline n s1 of
             Parsed cmd s \<Rightarrow>
               (case peek s '')'' of (s, close_p) \<Rightarrow>
                  if \<not> close_p then Bad ''syntax - missing )''
                  else (case gettoken s of (_, _, s) \<Rightarrow> parseredirs cmd s))
           | Bad e \<Rightarrow> Bad e
           | NoFuel \<Rightarrow> NoFuel))"
      using p g by simp
    then obtain c1 s2 where r: "parseline n s1 = Parsed c1 s2" "mo"
      using 4(2) by (cases "parseline n s1") (simp_all split: if_splits)
    obtain ts where ts: "gline c1 ts" "toks s1 = ts @ toks s2" using Suc.IH(1) [OF sf r(1)] by blast
    obtain mo2 where p2: "peek s2 '')'' = (skip_ws s2, mo2)" using peek_facts(1) by (metis surj_pair)
    obtain tok2 w2 s3 where g2: "gettoken (skip_ws s2) = (tok2, w2, s3)" by (metis prod.exhaust)
    have e: "parseredirs c1 s3 = Parsed c s" and mo2: "mo2"
      using 4(2) unfolding pb r using p2 g2 r(2) by (simp_all split: if_splits)
    obtain rs where rs: "gredirs c1 rs c" "toks s3 = rs @ toks s" using parseredirs_gram [OF e] by blast
    have "toks ps = ''('' # toks s1" using peek_symbol [of ps "CHR ''(''" tok w s1] p g r(2) by simp
    moreover have "toks s2 = '')'' # toks s3" using peek_symbol [of s2 "CHR '')''" tok2 w2 s3] p2 g2 mo2 by simp
    ultimately show ?case
      using block [OF ts(1) rs(1)] ts(2) rs(2) by (intro exI [of _ "''('' # ts @ '')'' # rs"]) simp }
qed

subsection \<open>Lines the parser refuses\<close>

text \<open>\<open>trouble e ts\<close>: what the tokens \<open>ts\<close> of a line have in them when it is refused with the message \<open>e\<close>.\<close>

definition trouble :: "string \<Rightarrow> string list \<Rightarrow> bool" where
  "trouble e ts \<longleftrightarrow>
     e = ''missing file for redirection'' \<and>
       (\<exists>xs op ys. ts = xs @ op # ys \<and> op \<in> {''<'', ''>'', ''>>''} \<and> (ys = [] \<or> \<not> wordy (hd ys))) \<or>
     e = ''too many args'' \<and> MAXARGS \<le> List.length (filter wordy ts) \<or>
     e \<in> {''syntax'', ''syntax - missing )''} \<and> ''('' \<in> set ts"

lemma trouble_file:
  "ts = xs @ op # ys \<Longrightarrow> op \<in> {''<'', ''>'', ''>>''} \<Longrightarrow> ys = [] \<or> \<not> wordy (hd ys) \<Longrightarrow>
    trouble ''missing file for redirection'' ts"
  unfolding trouble_def by (rule disjI1, rule conjI, rule refl) (intro exI conjI; assumption)

lemma trouble_app: "trouble e us \<Longrightarrow> trouble e (ts @ us)"
proof -
  assume a: "trouble e us"
  have "\<exists>xs' op ys. ts @ us = xs' @ op # ys \<and> op \<in> S \<and> (ys = [] \<or> \<not> wordy (hd ys))"
    if "us = xs @ op # ys" "op \<in> S" "ys = [] \<or> \<not> wordy (hd ys)" for xs op ys S
    using that by (intro exI [of _ "ts @ xs"] exI [of _ op] exI [of _ ys]) simp
  then show ?thesis using a unfolding trouble_def by (elim disjE conjE exE) (simp | fast)+
qed

lemma parseredirs_bad: "parseredirs c ps = Bad e \<Longrightarrow> trouble e (toks ps)"
proof (induction c ps rule: parseredirs.induct)
  case (1 c ps)
  obtain b where p: "peek ps ''<>'' = (skip_ws ps, b)" using peek_facts(1) by (metis surj_pair)
  obtain tok w1 w2 s1 where g1: "gettoken (skip_ws ps) = (tok, (w1, w2), s1)" by (metis prod.exhaust)
  obtain rt q eq s2 where g2: "gettoken s1 = (rt, (q, eq), s2)" by (metis prod.exhaust)
  note ih = "1.IH" [OF p [symmetric] _ g1 [symmetric] refl g2 [symmetric] refl refl]
  have r: "parseredirs c ps = (if b then
        (if rt \<noteq> CHR ''a'' then Bad ''missing file for redirection''
         else if tok = CHR ''<'' then parseredirs (REDIR c q eq O_RDONLY 0) s2
         else if tok = CHR ''>'' \<or> tok = CHR ''+'' then parseredirs (REDIR c q eq (O_WRONLY + O_CREATE) 1) s2
         else parseredirs c s2)
      else Parsed c (skip_ws ps))"
    using p g1 g2 by (subst parseredirs_step) simp
  have b using "1.prems" unfolding r by (auto split: if_splits)
  then obtain x y where x: "skip_ws ps = x # y" "x \<in> set ''<>''" using peek_hd p by metis
  have t1: "toks ps = token_of (w1, w2) # toks s1" "token_of (w1, w2) \<in> {''<'', ''>'', ''>>''}"
    using gettoken_toks [OF g1 [unfolded gettoken_skip]] gettoken_kind(2,3) [OF g1 [unfolded gettoken_skip]] x by auto
  have t2: "toks s1 = (if skip_ws s1 = [] then [] else token_of (q, eq) # toks s2)"
    using gettoken_toks [OF g2] .
  show ?case
  proof (cases "rt = CHR ''a''")
    case False
    then have "e = ''missing file for redirection''" using "1.prems" \<open>b\<close> unfolding r by simp
    moreover have "toks s1 = [] \<or> \<not> wordy (hd (toks s1))"
      using t2 gettoken_wordy [OF g2] False by auto
    ultimately show ?thesis using trouble_file [of "toks ps" "[]" "token_of (w1, w2)" "toks s1"] t1 by simp
  next
    case True
    then have ne: "skip_ws s1 \<noteq> []" using gettoken_kind(1) [OF g2] by auto
    have "trouble e (toks s2)" using "1.prems" \<open>b\<close> True ih unfolding r by (auto split: if_splits)
    then show ?thesis using trouble_app [of e "toks s2" "[token_of (w1, w2), token_of (q, eq)]"] t1(1) t2 ne by simp
  qed
qed

lemma parseredirs_rest: "parseredirs c ps = Parsed d s \<Longrightarrow> snd (peek s ''<>'') = False"
proof (induction c ps rule: parseredirs.induct)
  case (1 c ps)
  obtain b where p: "peek ps ''<>'' = (skip_ws ps, b)" using peek_facts(1) by (metis surj_pair)
  obtain tok w1 w2 s1 where g1: "gettoken (skip_ws ps) = (tok, (w1, w2), s1)" by (metis prod.exhaust)
  obtain rt q eq s2 where g2: "gettoken s1 = (rt, (q, eq), s2)" by (metis prod.exhaust)
  note ih = "1.IH" [OF p [symmetric] _ g1 [symmetric] refl g2 [symmetric] refl refl]
  have r: "parseredirs c ps = (if b then
        (if rt \<noteq> CHR ''a'' then Bad ''missing file for redirection''
         else if tok = CHR ''<'' then parseredirs (REDIR c q eq O_RDONLY 0) s2
         else if tok = CHR ''>'' \<or> tok = CHR ''+'' then parseredirs (REDIR c q eq (O_WRONLY + O_CREATE) 1) s2
         else parseredirs c s2)
      else Parsed c (skip_ws ps))"
    using p g1 g2 by (subst parseredirs_step) simp
  show ?case
    using "1.prems" ih p unfolding r by (auto simp: peek_def Let_def split: if_splits)
qed

lemma exec_args_bad:
  "exec_args c a ps = Bad e \<Longrightarrow> \<not> snd (peek ps ''<>'') \<Longrightarrow>
    trouble e (toks ps) \<or> e = ''too many args'' \<and> MAXARGS \<le> List.length a + List.length (filter wordy (toks ps))"
proof (induction c a ps rule: exec_args.induct)
  case (1 c a ps)
  obtain b where p: "peek ps ''|)&;'' = (skip_ws ps, b)" using peek_facts(1) by (metis surj_pair)
  obtain tok q eq s1 where g: "gettoken (skip_ws ps) = (tok, (q, eq), s1)" by (metis prod.exhaust)
  note g' = g [unfolded gettoken_skip]
  have x: "exec_args c a ps = (if b then Parsed (set_argv a c) (skip_ws ps)
      else if tok = CHR 0x00 then Parsed (set_argv a c) s1
      else if tok \<noteq> CHR ''a'' then Bad ''syntax''
      else if MAXARGS \<le> List.length a + 1 then Bad ''too many args''
      else (case parseredirs c s1 of Parsed c2 s2 \<Rightarrow> exec_args c2 (a @ [(q, eq)]) s2
        | Bad e \<Rightarrow> Bad e | NoFuel \<Rightarrow> NoFuel))"
    using p g by (subst exec_args.simps) simp
  have nb: "\<not> b" "tok \<noteq> CHR 0x00" using "1.prems"(1) unfolding x by (auto split: if_splits)
  then have ne: "skip_ws ps \<noteq> []" using gettoken_kind(1) [OF g'] by auto
  then obtain h y where h: "skip_ws ps = h # y" by (cases "skip_ws ps") auto
  have t: "toks ps = token_of (q, eq) # toks s1" using gettoken_toks [OF g'] ne by simp
  show ?case
  proof (cases "tok = CHR ''a''")
    case False
    then have e: "e = ''syntax''" using "1.prems"(1) nb unfolding x by simp
    have "h \<notin> set ''|)&;''" "h \<notin> set ''<>''"
      using p nb(1) "1.prems"(2) h by (auto simp: peek_def Let_def)
    moreover have "h \<in> set ''|();&<>''"
      using g' h False unfolding gettoken_eq by (auto simp: token_at_def split: list.splits if_splits)
    ultimately have "h = CHR ''(''" by auto
    then have "token_of (q, eq) = ''(''" using gettoken_kind(2) [OF g' h] by simp
    then show ?thesis using t e by (simp add: trouble_def)
  next
    case True
    have w: "wordy (token_of (q, eq))" using gettoken_wordy [OF g' ne] True by simp
    show ?thesis
    proof (cases "MAXARGS \<le> List.length a + 1")
      case True2: True
      then have "e = ''too many args''" using "1.prems"(1) nb True unfolding x by simp
      then show ?thesis using True2 t w by simp
    next
      case False
      show ?thesis
      proof (cases "parseredirs c s1")
        case (Parsed c2 s2)
        have "exec_args c2 (a @ [(q, eq)]) s2 = Bad e" using "1.prems"(1) nb True False Parsed unfolding x by simp
        then have "trouble e (toks s2) \<or> e = ''too many args'' \<and>
            MAXARGS \<le> List.length (a @ [(q, eq)]) + List.length (filter wordy (toks s2))"
          using "1.IH" [OF p [symmetric] _ g [symmetric] refl refl _ _ _ Parsed] nb True False
            parseredirs_rest [OF Parsed] by simp
        moreover obtain rs where "toks s1 = rs @ toks s2" using parseredirs_gram [OF Parsed] by blast
        ultimately show ?thesis using t w trouble_app [of e "toks s2" "token_of (q, eq) # rs"] by auto
      next
        case (Bad e')
        then have "trouble e (toks s1)" using "1.prems"(1) nb True False parseredirs_bad [OF Bad] unfolding x by simp
        then show ?thesis using t trouble_app [of e "toks s1" "[token_of (q, eq)]"] by simp
      next
        case NoFuel
        then show ?thesis using parseredirs_total by blast
      qed
    qed
  qed
qed

lemma parse_bad:
  assumes "CHR 0x00 \<notin> set line"
  shows "suffix ps line \<Longrightarrow> parseline n ps = Bad e \<Longrightarrow> trouble e (toks ps)"
    and "suffix ps line \<Longrightarrow> parsepipe n ps = Bad e \<Longrightarrow> trouble e (toks ps)"
    and "suffix ps line \<Longrightarrow> parseexec n ps = Bad e \<Longrightarrow> trouble e (toks ps)"
    and "suffix ps line \<Longrightarrow> snd (peek ps ''('') \<Longrightarrow> parseblock n ps = Bad e \<Longrightarrow> trouble e (toks ps)"
proof (induction n arbitrary: ps e)
  case 0
  { case 1 then show ?case by simp }
  { case 2 then show ?case by simp }
  { case 3 then show ?case by simp }
  { case 4 then show ?case by simp }
next
  case (Suc n)
  { case 1
    show ?case
    proof (cases "parsepipe n ps")
      case (Parsed c1 s1)
      obtain c2 s2 where b: "back_loop c1 s1 = (c2, s2)" by fastforce
      obtain ts1 where ts1: "gpipe c1 ts1" "toks ps = ts1 @ toks s1" using parse_gram(2) [OF assms 1(1) Parsed] by blast
      obtain ts2 where ts2: "toks s1 = ts2 @ toks s2" using back_loop_gram [OF b no_back [OF ts1(1)]] by blast
      obtain mo where p: "peek s2 '';'' = (skip_ws s2, mo)" using peek_facts(1) by (metis surj_pair)
      obtain tok w s3 where g: "gettoken (skip_ws s2) = (tok, w, s3)" by (metis prod.exhaust)
      have "suffix s2 line" using back_loop_fine [OF parse_fine(2) [OF 1(1) Parsed] b] by (simp add: fine_def)
      then have sf: "suffix s3 line" by (metis g gettoken_fine(1) prod.exhaust skip_ws_suffix)
      have mo: mo and l: "parseline n s3 = Bad e"
        using 1(2) Parsed b p g by (auto split: if_splits parsed.splits)
      have "toks s2 = '';'' # toks s3" using peek_symbol [of s2 "CHR '';''" tok w s3] p g mo by simp
      then show ?thesis using trouble_app [OF Suc.IH(1) [OF sf l], of "ts1 @ ts2 @ ['';'']"] ts1(2) ts2 by simp
    next
      case (Bad e')
      then show ?thesis using 1 Suc.IH(2) by simp
    qed (use 1 in simp) }
  { case 2
    show ?case
    proof (cases "parseexec n ps")
      case (Parsed c2 s2)
      obtain ts where ts: "toks ps = ts @ toks s2" using parse_gram(3) [OF assms 2(1) Parsed] by blast
      obtain mo where p: "peek s2 ''|'' = (skip_ws s2, mo)" using peek_facts(1) by (metis surj_pair)
      obtain tok w s3 where g: "gettoken (skip_ws s2) = (tok, w, s3)" by (metis prod.exhaust)
      have "suffix s2 line" using parse_fine(3) [OF 2(1) Parsed] by (simp add: fine_def)
      then have sf: "suffix s3 line" by (metis g gettoken_fine(1) prod.exhaust skip_ws_suffix)
      have mo: mo and l: "parsepipe n s3 = Bad e"
        using 2(2) Parsed p g by (auto split: if_splits parsed.splits)
      have "toks s2 = ''|'' # toks s3" using peek_symbol [of s2 "CHR ''|''" tok w s3] p g mo by simp
      then show ?thesis using trouble_app [OF Suc.IH(2) [OF sf l], of "ts @ [''|'']"] ts by simp
    next
      case (Bad e')
      then show ?thesis using 2 Suc.IH(3) by simp
    qed (use 2 in simp) }
  { case 3
    obtain mo where p: "peek ps ''('' = (skip_ws ps, mo)" using peek_facts(1) by (metis surj_pair)
    have sf: "suffix (skip_ws ps) line" using 3(1) by (rule skip_ws_suffix)
    show ?case
    proof (cases mo)
      case True
      have "snd (peek (skip_ws ps) ''('')" using p True by (simp add: peek_def Let_def)
      moreover have "parseblock n (skip_ws ps) = Bad e" using 3(2) p True by simp
      ultimately show ?thesis using Suc.IH(4) [OF sf] by (simp add: toks_skip)
    next
      case False
      show ?thesis
      proof (cases "parseredirs (EXEC []) (skip_ws ps)")
        case (Parsed d t)
        have "exec_args d [] t = Bad e" using 3(2) p False Parsed by simp
        then have "trouble e (toks t)"
          using exec_args_bad [of d "[]" t e] parseredirs_rest [OF Parsed] by (auto simp: trouble_def)
        moreover obtain rs where "toks ps = rs @ toks t" using parseredirs_gram [OF Parsed] by (auto simp: toks_skip)
        ultimately show ?thesis using trouble_app by simp
      next
        case (Bad e')
        then show ?thesis using 3(2) p False parseredirs_bad [OF Bad] by (simp add: toks_skip)
      next
        case NoFuel
        then show ?thesis using parseredirs_total by blast
      qed
    qed }
  { case 4
    obtain tok w s1 where g: "gettoken (skip_ws ps) = (tok, w, s1)" by (metis prod.exhaust)
    have p: "peek ps ''('' = (skip_ws ps, True)" using 4(2) peek_facts(1) by (metis prod.collapse)
    have sf: "suffix s1 line" using 4(1) by (metis g gettoken_fine(1) prod.exhaust skip_ws_suffix)
    have t: "toks ps = ''('' # toks s1" using peek_symbol [of ps "CHR ''(''" tok w s1] p g by simp
    have pb: "parseblock (Suc n) ps = (case parseline n s1 of
             Parsed cmd s \<Rightarrow>
               (case peek s '')'' of (s, close_p) \<Rightarrow>
                  if \<not> close_p then Bad ''syntax - missing )''
                  else (case gettoken s of (_, _, s) \<Rightarrow> parseredirs cmd s))
           | Bad e \<Rightarrow> Bad e
           | NoFuel \<Rightarrow> NoFuel)"
      using p g by simp
    show ?case
    proof (cases "parseline n s1")
      case (Parsed c1 s2)
      obtain ts where ts: "toks s1 = ts @ toks s2" using parse_gram(1) [OF assms sf Parsed] by blast
      obtain mo2 where p2: "peek s2 '')'' = (skip_ws s2, mo2)" using peek_facts(1) by (metis surj_pair)
      obtain tok2 w2 s3 where g2: "gettoken (skip_ws s2) = (tok2, w2, s3)" by (metis prod.exhaust)
      show ?thesis
      proof (cases mo2)
        case False
        then show ?thesis using 4(3) t p2 unfolding pb Parsed by (simp add: trouble_def)
      next
        case True
        have "parseredirs c1 s3 = Bad e" using 4(3) p2 g2 True unfolding pb Parsed by simp
        then have "trouble e (toks s3)" by (rule parseredirs_bad)
        moreover have "toks s2 = '')'' # toks s3" using peek_symbol [of s2 "CHR '')''" tok2 w2 s3] p2 g2 True by simp
        ultimately show ?thesis using trouble_app [of e "toks s3" "''('' # ts @ ['')'']"] t ts by simp
      qed
    next
      case (Bad e')
      then have "trouble e (toks s1)" using 4(3) Suc.IH(1) [OF sf Bad] unfolding pb by simp
      then show ?thesis using trouble_app [of e "toks s1" "[''('']"] t by simp
    qed (use 4 pb in simp) }
qed

text \<open>Where a line goes on after a complete command, an ampersand or a closing parenthesis came before.\<close>

definition ends_at :: "char set \<Rightarrow> string \<Rightarrow> bool" where
  "ends_at S s \<longleftrightarrow> (case skip_ws s of [] \<Rightarrow> True | c # _ \<Rightarrow> c \<in> S)"

lemma ends_at_mono: "ends_at S s \<Longrightarrow> S \<subseteq> T \<Longrightarrow> ends_at T s"
  by (auto simp: ends_at_def split: list.splits)

lemma ends_at_skip: "ends_at S (skip_ws s) = ends_at S s"
  by (simp add: ends_at_def)

lemma peek_ends:
  "peek ps t = (s, True) \<Longrightarrow> set t \<subseteq> S \<Longrightarrow> ends_at S s"
  "peek ps [c] = (s, False) \<Longrightarrow> ends_at (insert c S) ps \<Longrightarrow> ends_at S s"
proof -
  assume p: "peek ps t = (s, True)" "set t \<subseteq> S"
  then obtain x y where "skip_ws ps = x # y" "x \<in> set t" using peek_hd by metis
  moreover have "s = skip_ws ps" using p(1) peek_facts(1) by metis
  ultimately show "ends_at S s" using p(2) skip_ws_idem [of ps] by (auto simp: ends_at_def)
next
  assume p: "peek ps [c] = (s, False)" "ends_at (insert c S) ps"
  have s: "s = skip_ws ps" using p(1) peek_facts(1) by metis
  show "ends_at S s" unfolding s ends_at_skip using p by (auto simp: ends_at_def peek_def Let_def split: list.splits)
qed

lemma exec_args_ends: "exec_args c a ps = Parsed d s \<Longrightarrow> CHR 0x00 \<notin> set line \<Longrightarrow> fine line c ps \<Longrightarrow>
  ends_at {CHR ''|'', CHR '')'', CHR ''&'', CHR '';''} s"
proof (induction c a ps rule: exec_args.induct)
  case (1 c a ps)
  obtain b where p: "peek ps ''|)&;'' = (skip_ws ps, b)" using peek_facts(1) by (metis surj_pair)
  obtain tok q eq s1 where g: "gettoken (skip_ws ps) = (tok, (q, eq), s1)" by (metis prod.exhaust)
  note g' = g [unfolded gettoken_skip]
  have x: "exec_args c a ps = (if b then Parsed (set_argv a c) (skip_ws ps)
      else if tok = CHR 0x00 then Parsed (set_argv a c) s1
      else if tok \<noteq> CHR ''a'' then Bad ''syntax''
      else if MAXARGS \<le> List.length a + 1 then Bad ''too many args''
      else (case parseredirs c s1 of Parsed c2 s2 \<Rightarrow> exec_args c2 (a @ [(q, eq)]) s2
        | Bad e \<Rightarrow> Bad e | NoFuel \<Rightarrow> NoFuel))"
    using p g by (subst exec_args.simps) simp
  have sf: "suffix (skip_ws ps) line" using "1.prems"(3) skip_ws_suffix by (simp add: fine_def)
  have z: "CHR 0x00 \<notin> set ps" using "1.prems"(3) suffix_set [OF _ "1.prems"(2)] by (simp add: fine_def)
  consider b | "\<not> b" "tok = CHR 0x00" | "\<not> b" "tok \<noteq> CHR 0x00" by blast
  then show ?case
  proof cases
    case 1
    then have "s = skip_ws ps" using "1.prems"(1) unfolding x by simp
    then show ?thesis using 1 p peek_ends(1) [of ps "''|)&;''" s "{CHR ''|'', CHR '')'', CHR ''&'', CHR '';''}"] by simp
  next
    case 2
    have "s1 = []" using gettoken_kind(1) [OF g' gettoken_kind(4) [OF g' 2(2) z]] by blast
    then have "s = []" using "1.prems"(1) 2 unfolding x by simp
    then show ?thesis by (simp add: ends_at_def)
  next
    case 3
    then obtain c2 s2 where r: "tok = CHR ''a''" "\<not> MAXARGS \<le> List.length a + 1"
      "parseredirs c s1 = Parsed c2 s2" "exec_args c2 (a @ [(q, eq)]) s2 = Parsed d s"
      using "1.prems"(1) unfolding x by (auto split: if_splits parsed.splits)
    have "fine line c s1" using "1.prems"(3) gettoken_fine(1) [OF g sf] by (simp add: fine_def)
    then have "fine line c2 s2" using r(3) by (rule parseredirs_fine)
    then show ?thesis using "1.IH" [OF p [symmetric] _ g [symmetric] refl refl _ _ _ r(3)] 3 r "1.prems"(2) by simp
  qed
qed

lemma back_loop_ends:
  "back_loop c ps = (d, s) \<Longrightarrow> ends_at (insert (CHR ''&'') S) ps \<Longrightarrow> ends_at S s \<or> ''&'' \<in> set (toks ps)"
proof -
  assume a: "back_loop c ps = (d, s)" "ends_at (insert (CHR ''&'') S) ps"
  obtain b where p: "peek ps ''&'' = (skip_ws ps, b)" using peek_facts(1) by (metis surj_pair)
  obtain tok w s1 where g: "gettoken (skip_ws ps) = (tok, w, s1)" by (metis prod.exhaust)
  show ?thesis
  proof (cases b)
    case True
    then show ?thesis using peek_symbol [of ps "CHR ''&''" tok w s1] p g by simp
  next
    case False
    then have "s = skip_ws ps" using a(1) p by (subst (asm) back_loop.simps) simp
    then show ?thesis using peek_ends(2) [of ps "CHR ''&''" s S] a(2) p False by simp
  qed
qed

lemma parse_ends:
  assumes "CHR 0x00 \<notin> set line"
  shows "suffix ps line \<Longrightarrow> parseline n ps = Parsed c s \<Longrightarrow>
      ends_at {CHR '')''} s \<or> '')'' \<in> set (toks ps) \<or> ''&'' \<in> set (toks ps)"
    and "suffix ps line \<Longrightarrow> parsepipe n ps = Parsed c s \<Longrightarrow>
      ends_at {CHR ''&'', CHR '';'', CHR '')''} s \<or> '')'' \<in> set (toks ps)"
    and "suffix ps line \<Longrightarrow> parseexec n ps = Parsed c s \<Longrightarrow>
      ends_at {CHR ''|'', CHR '')'', CHR ''&'', CHR '';''} s \<or> '')'' \<in> set (toks ps)"
proof (induction n arbitrary: ps c s)
  case 0
  { case 1 then show ?case by simp }
  { case 2 then show ?case by simp }
  { case 3 then show ?case by simp }
next
  case (Suc n)
  { case 1
    then obtain c1 s1 where r: "parsepipe n ps = Parsed c1 s1" by (auto split: parsed.splits)
    obtain c2 s2 where b: "back_loop c1 s1 = (c2, s2)" by fastforce
    obtain ts1 where ts1: "gpipe c1 ts1" "toks ps = ts1 @ toks s1" using parse_gram(2) [OF assms 1(1) r] by blast
    obtain ts2 where ts2: "toks s1 = ts2 @ toks s2" using back_loop_gram [OF b no_back [OF ts1(1)]] by blast
    obtain mo where p: "peek s2 '';'' = (skip_ws s2, mo)" using peek_facts(1) by (metis surj_pair)
    obtain tok w s3 where g: "gettoken (skip_ws s2) = (tok, w, s3)" by (metis prod.exhaust)
    have "suffix s2 line" using back_loop_fine [OF parse_fine(2) [OF 1(1) r] b] by (simp add: fine_def)
    then have sf: "suffix s3 line" by (metis g gettoken_fine(1) prod.exhaust skip_ws_suffix)
    have e: "ends_at {CHR '';'', CHR '')''} s2 \<or> ''&'' \<in> set (toks s1) \<or> '')'' \<in> set (toks ps)"
      using Suc.IH(2) [OF 1(1) r] back_loop_ends [OF b, of "{CHR '';'', CHR '')''}"] by auto
    show ?case
    proof (cases mo)
      case True
      then obtain c3 where l: "parseline n s3 = Parsed c3 s"
        using 1(2) r b p g by (auto split: parsed.splits)
      have "toks s2 = '';'' # toks s3" using peek_symbol [of s2 "CHR '';''" tok w s3] p g True by simp
      then show ?thesis using Suc.IH(1) [OF sf l] ts1(2) ts2 by auto
    next
      case False
      then have "s = skip_ws s2" using 1(2) r b p by simp
      then show ?thesis using e peek_ends(2) [of s2 "CHR '';''" s "{CHR '')''}"] p False ts1(2) by auto
    qed }
  { case 2
    then obtain c2 s2 where r: "parseexec n ps = Parsed c2 s2" by (auto split: parsed.splits)
    obtain ts where ts: "toks ps = ts @ toks s2" using parse_gram(3) [OF assms 2(1) r] by blast
    obtain mo where p: "peek s2 ''|'' = (skip_ws s2, mo)" using peek_facts(1) by (metis surj_pair)
    obtain tok w s3 where g: "gettoken (skip_ws s2) = (tok, w, s3)" by (metis prod.exhaust)
    have "suffix s2 line" using parse_fine(3) [OF 2(1) r] by (simp add: fine_def)
    then have sf: "suffix s3 line" by (metis g gettoken_fine(1) prod.exhaust skip_ws_suffix)
    show ?case
    proof (cases mo)
      case True
      then obtain c3 where l: "parsepipe n s3 = Parsed c3 s"
        using 2(2) r p g by (auto split: parsed.splits)
      have "toks s2 = ''|'' # toks s3" using peek_symbol [of s2 "CHR ''|''" tok w s3] p g True by simp
      then show ?thesis using Suc.IH(2) [OF sf l] ts by auto
    next
      case False
      then have "s = skip_ws s2" using 2(2) r p by simp
      moreover have "{CHR ''|'', CHR '')'', CHR ''&'', CHR '';''} = insert (CHR ''|'') {CHR ''&'', CHR '';'', CHR '')''}" by auto
      ultimately show ?thesis
        using Suc.IH(3) [OF 2(1) r] peek_ends(2) [of s2 "CHR ''|''" s "{CHR ''&'', CHR '';'', CHR '')''}"] p False by auto
    qed }
  { case 3
    obtain mo where p: "peek ps ''('' = (skip_ws ps, mo)" using peek_facts(1) by (metis surj_pair)
    have sf: "suffix (skip_ws ps) line" using 3(1) by (rule skip_ws_suffix)
    show ?case
    proof (cases mo)
      case False
      then obtain d t where r: "parseredirs (EXEC []) (skip_ws ps) = Parsed d t" "exec_args d [] t = Parsed c s"
        using 3(2) p by (auto split: parsed.splits)
      have "fine line (EXEC []) (skip_ws ps)" using sf by (simp add: fine_def)
      then have f: "fine line d t" using r(1) by (rule parseredirs_fine)
      show ?thesis using exec_args_ends [OF r(2) assms f] by simp
    next
      case True
      then have r: "parseblock n (skip_ws ps) = Parsed c s" using 3(2) p by simp
      then obtain m where n: "n = Suc m" by (cases n) auto
      obtain tok w s1 where g: "gettoken (skip_ws ps) = (tok, w, s1)" by (metis prod.exhaust)
      have p': "peek (skip_ws ps) ''('' = (skip_ws ps, True)" using p True by (simp add: peek_def Let_def)
      have sf1: "suffix s1 line" using sf by (metis g gettoken_fine(1) prod.exhaust gettoken_skip)
      obtain c1 s2 where l: "parseline m s1 = Parsed c1 s2"
        using r p' g unfolding n by (cases "parseline m s1") (auto split: if_splits)
      obtain mo2 where p2: "peek s2 '')'' = (skip_ws s2, mo2)" using peek_facts(1) by (metis surj_pair)
      obtain tok2 w2 s3 where g2: "gettoken (skip_ws s2) = (tok2, w2, s3)" by (metis prod.exhaust)
      have "mo2" using r p' g l p2 g2 unfolding n by (simp split: if_splits)
      then have "'')'' \<in> set (toks s2)" using peek_symbol [of s2 "CHR '')''" tok2 w2 s3] p2 g2 by simp
      moreover have "toks ps = ''('' # toks s1" using peek_symbol [of ps "CHR ''(''" tok w s1] p g True by simp
      moreover obtain ts where "toks s1 = ts @ toks s2" using parse_gram(1) [OF assms sf1 l] by blast
      ultimately show ?thesis by simp
    qed }
qed

lemma nul_fold:
  "List.length (fold (\<lambda>e b. b[f e := x]) es b) = List.length b"
  "i < List.length b \<Longrightarrow> fold (\<lambda>e b. b[f e := x]) es b ! i = (if i \<in> f ` set es then x else b ! i)"
  by (induction es arbitrary: b) (auto simp: nth_list_update)

lemma suffix_drop: "suffix e s \<Longrightarrow> e = drop (List.length s - List.length e) s"
  by (auto simp: suffix_def)

lemma string_at_word:
  assumes w: "good_word s (q, eq)" and "CHR 0x00 \<notin> set s" and "eq \<in> set es"
    and es: "\<And>e. e \<in> set es \<Longrightarrow> suffix e s \<and> (e = [] \<or> \<not> word_char (hd e))"
  shows "string_at s (nul_line s es) q = token_of (q, eq)"
proof -
  obtain t where t: "q = t @ eq" "t \<noteq> []" "list_all word_char t" using w by (auto simp: good_word_def)
  obtain pre where pre: "s = pre @ t @ eq" using w t(1) by (auto simp: good_word_def suffix_def)
  let ?b = "nul_line s es"
  let ?f = "\<lambda>e. List.length s - List.length e"
  have lb: "List.length ?b = Suc (List.length s)" by (simp add: nul_line_def nul_fold(1))
  have nb: "?b ! i = (if i \<in> ?f ` set es then CHR 0x00 else (s @ [CHR 0x00]) ! i)" if "i \<le> List.length s" for i
    unfolding nul_line_def using that by (intro nul_fold(2)) simp
  have p: "List.length s - List.length q = List.length pre" using pre t(1) by simp
  have in_word: "?b ! (List.length pre + k) = t ! k" if k: "k < List.length t" for k
  proof -
    have sk: "s ! (List.length pre + k) = t ! k" using pre k by (simp add: nth_append)
    have "List.length pre + k \<notin> ?f ` set es"
    proof
      assume "List.length pre + k \<in> ?f ` set es"
      then obtain e where e: "e \<in> set es" "List.length pre + k = List.length s - List.length e" by auto
      then have "e = drop (List.length pre + k) s" using es suffix_drop by metis
      moreover have "List.length pre + k < List.length s" using pre k by simp
      ultimately have "e \<noteq> []" "hd e = t ! k" using sk by (simp_all add: hd_drop_conv_nth)
      then show False using es [OF e(1)] t(3) k by (auto simp: list_all_length)
    qed
    then show ?thesis using nb [of "List.length pre + k"] pre k by (simp add: nth_append)
  qed
  have at_end: "?b ! (List.length pre + List.length t) = CHR 0x00"
  proof -
    have "List.length pre + List.length t \<in> ?f ` set es"
      using assms(3) pre by (intro image_eqI [of _ _ eq]) simp_all
    then show ?thesis using nb [of "List.length pre + List.length t"] pre by simp
  qed
  have "t ! k \<noteq> CHR 0x00" if k: "k < List.length t" for k
  proof
    assume "t ! k = CHR 0x00"
    then have "CHR 0x00 \<in> set t" using nth_mem [OF k] by simp
    then show False using assms(2) pre by simp
  qed
  then have "takeWhile (\<lambda>c. c \<noteq> CHR 0x00) (drop (List.length pre) ?b) = take (List.length t) (drop (List.length pre) ?b)"
    using in_word at_end lb pre by (intro takeWhile_eq_take_P_nth) simp_all
  also have "\<dots> = t"
    using in_word lb pre by (intro nth_equalityI) simp_all
  finally show ?thesis unfolding string_at_def p by (simp add: token_of_def t(1))
qed

lemma nulterminate_words: "nulterminate c = map snd (words c)"
  by (induction c) auto

lemma words_read_back:
  assumes "list_all (good_word s) (words c)" and "CHR 0x00 \<notin> set s" and "(q, eq) \<in> set (words c)"
  shows "string_at s (nul_line s (nulterminate c)) q = token_of (q, eq)"
proof (rule string_at_word)
  show "good_word s (q, eq)" using assms(1,3) by (auto simp: list_all_iff)
  show "eq \<in> set (nulterminate c)" using assms(3) by (force simp: nulterminate_words)
  show "suffix e s \<and> (e = [] \<or> \<not> word_char (hd e))" if "e \<in> set (nulterminate c)" for e
  proof -
    obtain p where "(p, e) \<in> set (words c)" using \<open>e \<in> set (nulterminate c)\<close> by (auto simp: nulterminate_words)
    then have "good_word s (p, e)" using assms(1) by (auto simp: list_all_iff)
    then show ?thesis by (auto simp: good_word_def suffix_def)
  qed
qed (rule assms(2))

lemma xpanic_run: "xpanic e v = Exit 0 (if wok v 2 then emit 2 (e @ newline) v else v)"
proof -
  have "uprintf_loop 2 False (''%s'' @ newline) [FPtr (Some e)] v = Done () (if wok v 2 then emit 2 (e @ newline) v else v)"
    by (cases "wok v 2") (simp_all add: newline_def ufor_putc ufor_putc_bad uputc_def sys_write_def)
  then show ?thesis by (simp add: xpanic_def uprintf_def xexit_def)
qed

text \<open>\<open>refused s m\<close>: the line \<open>s\<close> has something in it that the message \<open>m\<close> is about.\<close>

definition refused :: "string \<Rightarrow> string \<Rightarrow> bool" where
  "refused s m \<longleftrightarrow> (\<exists>e. trouble e (toks s) \<and> m = e @ newline) \<or>
     (\<exists>c r ts. suffix r s \<and> toks r \<noteq> [] \<and> gline c ts \<and> toks s = ts @ toks r \<and>
        ('')'' \<in> set (toks s) \<or> ''&'' \<in> set (toks s)) \<and>
        m = ''leftovers: '' @ r @ newline @ ''syntax'' @ newline)"

text \<open>
  C23. parsecmd always comes to an end. When it returns, nothing has been printed, the tokens of the
  whole line are derived by the grammar from the tree it returns, and every word of the tree, read
  through its pointer from the line after nulterminate, is exactly the characters of its token: not
  empty, and free of white space and of the shell's symbols. Otherwise it ends the process with a
  message on descriptor 2 that the line deserves: a redirection is not followed by a word, a
  command has ten words or more, a parenthesis opens where it may not or is not closed, or a
  complete command is followed by something else, after an ampersand or a closing parenthesis.
\<close>

theorem parsecmd_outcomes:
  assumes "CHR 0x00 \<notin> set s"
  shows "case parsecmd s w of
      Done (c, b) w' \<Rightarrow> w' = w \<and> gline c (toks s) \<and>
        (\<forall>x \<in> set (words c). string_at s b (fst x) = token_of x \<and> wordy (token_of x))
    | Exit st w' \<Rightarrow> st = 0 \<and> (\<exists>m. refused s m \<and> w' = (if wok w 2 then emit 2 m w else w))
    | Crash e \<Rightarrow> False"
proof (cases "parseline (parse_depth s) s")
  case (Bad e)
  have "refused s (e @ newline)" using parse_bad(1) [OF assms _ Bad] by (auto simp: refused_def)
  then show ?thesis using Bad by (auto simp: parsecmd_def xpanic_run)
next
  case NoFuel
  then show ?thesis using parse_total(1) [of s "parse_depth s"] by (simp add: parse_depth_def)
next
  case (Parsed c r)
  have f: "fine s c r" using parse_fine(1) [OF _ Parsed] by simp
  obtain ts where ts: "gline c ts" "toks s = ts @ toks r" using parse_gram(1) [OF assms _ Parsed] by auto
  show ?thesis
  proof (cases "skip_ws r = []")
    case True
    have "string_at s (nul_line s (nulterminate c)) (fst x) = token_of x \<and> wordy (token_of x)"
      if x: "x \<in> set (words c)" for x
    proof -
      have g: "good_word s x" using f x by (auto simp: fine_def list_all_iff)
      then obtain t where "fst x = t @ snd x" "t \<noteq> []" "list_all word_char t" by (auto simp: good_word_def)
      then have "wordy (token_of x)" by (simp add: token_of_def wordy_def)
      then show ?thesis using words_read_back [of s c "fst x" "snd x"] f x assms by (simp add: fine_def)
    qed
    moreover have "toks r = []" using True by (subst toks.simps) simp
    ultimately show ?thesis using Parsed True ts by (simp add: parsecmd_def peek_def Let_def)
  next
    case False
    let ?m = "''leftovers: '' @ skip_ws r @ newline @ ''syntax'' @ newline"
    have "uprintf 2 (''leftovers: %s'' @ newline) [FPtr (Some (skip_ws r))] w =
        Done () (if wok w 2 then emit 2 (''leftovers: '' @ skip_ws r @ newline) w else w)"
      by (cases "wok w 2") (simp_all add: uprintf_def newline_def ufor_putc ufor_putc_bad uputc_def sys_write_def)
    then have e: "parsecmd s w = Exit 0 (if wok w 2 then emit 2 ?m w else w)"
      using Parsed False by (auto simp: parsecmd_def peek_def Let_def xpanic_run)
    have t: "toks r \<noteq> []" using False by (subst toks.simps) (simp add: Let_def)
    have "'')'' \<in> set (toks s) \<or> ''&'' \<in> set (toks s)"
    proof (rule disjE [OF parse_ends(1) [OF assms _ Parsed]])
      assume a: "ends_at {CHR '')''} r"
      obtain tok q eq u where g: "gettoken r = (tok, (q, eq), u)" by (metis prod.exhaust)
      obtain x where x: "skip_ws r = CHR '')'' # x" using a False by (auto simp: ends_at_def split: list.splits)
      have "'')'' \<in> set (toks r)" using gettoken_toks [OF g] gettoken_kind(2) [OF g x] x by simp
      then show ?thesis using ts(2) by simp
    qed simp_all
    then have "refused s ?m"
      using ts t f skip_ws_suffix [of r s] unfolding refused_def fine_def
      by (intro disjI2 exI [of _ c] exI [of _ "skip_ws r"] exI [of _ ts]) (simp add: toks_skip)
    then show ?thesis unfolding e by auto
  qed
qed

lemma parsecmd_outcomes_witness:
  "(\<exists>c b. parsecmd ''ls|wc >f'' xworld0 = Done (c, b) xworld0 \<and> gline c [''ls'', ''|'', ''wc'', ''>'', ''f''] \<and>
     map token_of (words c) = [''ls'', ''wc'', ''f'']) \<and>
   (case parsecmd ''ls )'' xworld0 of Exit st w \<Rightarrow> outs w 2 = ''leftovers: )'' @ newline @ ''syntax'' @ newline | _ \<Rightarrow> False)"
proof -
  let ?s = "''ls|wc >f''" and ?c = "PIPE (EXEC [(''ls|wc >f'', ''|wc >f'')]) (REDIR (EXEC [(''wc >f'', '' >f'')]) ''f'' [] 513 1)"
  have p: "parseline (parse_depth ?s) ?s = Parsed ?c []" by code_simp
  have n: "CHR 0x00 \<notin> set ?s" by simp
  have t: "toks ?s = [''ls'', ''|'', ''wc'', ''>'', ''f'']" by code_simp
  have d: "parsecmd ?s xworld0 = Done (?c, nul_line ?s (nulterminate ?c)) xworld0"
    unfolding parsecmd_def p by (simp add: peek_def Let_def)
  have "gline ?c [''ls'', ''|'', ''wc'', ''>'', ''f'']" using parsecmd_outcomes [OF n, of xworld0] unfolding d t by simp
  moreover have "map token_of (words ?c) = [''ls'', ''wc'', ''f'']" by code_simp
  moreover have "case parsecmd ''ls )'' xworld0 of Exit st w \<Rightarrow> outs w 2 = ''leftovers: )'' @ newline @ ''syntax'' @ newline | _ \<Rightarrow> False"
    by code_simp
  ultimately show ?thesis
    by (intro conjI exI [of _ ?c] exI [of _ "nul_line ?s (nulterminate ?c)"]) (assumption | rule d)+
qed

subsection \<open>Commands as text\<close>

text \<open>
  A command as its author thinks of it, and its text: words are separated by blanks, and a part
  that binds more loosely than its place allows is put in parentheses.
\<close>

datatype rkind = RIn | ROut

datatype scmd =
    SExec "string list"
  | SRedir scmd string rkind
  | SPipe scmd scmd
  | SBack scmd
  | SList scmd scmd

primrec lvl :: "scmd \<Rightarrow> nat" where
  "lvl (SExec ws) = 0"
| "lvl (SRedir c f k) = 0"
| "lvl (SPipe l r) = 1"
| "lvl (SBack c) = 2"
| "lvl (SList l r) = 3"

definition redir_text :: "string \<times> rkind \<Rightarrow> string" where
  "redir_text r = (case snd r of RIn \<Rightarrow> '' < '' | ROut \<Rightarrow> '' > '') @ fst r"

definition words_text :: "string list \<Rightarrow> string" where
  "words_text ws = concat (map (\<lambda>w. '' '' @ w) ws)"

primrec cmd_text :: "scmd \<Rightarrow> string" where
  "cmd_text (SExec ws) = words_text ws"
| "cmd_text (SRedir c f k) = (if lvl c \<le> 0 then cmd_text c else '' ('' @ cmd_text c @ '' )'') @ redir_text (f, k)"
| "cmd_text (SPipe l r) =
     (if lvl l \<le> 0 then cmd_text l else '' ('' @ cmd_text l @ '' )'') @ '' |'' @
     (if lvl r \<le> 1 then cmd_text r else '' ('' @ cmd_text r @ '' )'')"
| "cmd_text (SBack c) = (if lvl c \<le> 2 then cmd_text c else '' ('' @ cmd_text c @ '' )'') @ '' &''"
| "cmd_text (SList l r) =
     (if lvl l \<le> 2 then cmd_text l else '' ('' @ cmd_text l @ '' )'') @ '' ;'' @ cmd_text r"

definition paren :: "nat \<Rightarrow> scmd \<Rightarrow> string" where
  "paren k c = (if lvl c \<le> k then cmd_text c else '' ('' @ cmd_text c @ '' )'')"

definition wf_word :: "string \<Rightarrow> bool" where
  "wf_word w \<longleftrightarrow> w \<noteq> [] \<and> list_all word_char w"

primrec wf_cmd :: "scmd \<Rightarrow> bool" where
  "wf_cmd (SExec ws) \<longleftrightarrow> list_all wf_word ws \<and> List.length ws < MAXARGS"
| "wf_cmd (SRedir c f k) \<longleftrightarrow> wf_cmd c \<and> wf_word f"
| "wf_cmd (SPipe l r) \<longleftrightarrow> wf_cmd l \<and> wf_cmd r"
| "wf_cmd (SBack c) \<longleftrightarrow> wf_cmd c"
| "wf_cmd (SList l r) \<longleftrightarrow> wf_cmd l \<and> wf_cmd r"

fun denotes :: "cmd \<Rightarrow> scmd \<Rightarrow> bool" where
  "denotes (EXEC a) (SExec ws) \<longleftrightarrow> map token_of a = ws"
| "denotes (REDIR c q eq m fd) (SRedir d f k) \<longleftrightarrow> denotes c d \<and> token_of (q, eq) = f \<and>
     (m, fd) = (case k of RIn \<Rightarrow> (O_RDONLY, 0) | ROut \<Rightarrow> (O_WRONLY + O_CREATE, 1))"
| "denotes (PIPE l r) (SPipe a b) \<longleftrightarrow> denotes l a \<and> denotes r b"
| "denotes (LIST l r) (SList a b) \<longleftrightarrow> denotes l a \<and> denotes r b"
| "denotes (BACK c) (SBack a) \<longleftrightarrow> denotes c a"
| "denotes _ _ \<longleftrightarrow> False"

subsection \<open>Reading tokens back\<close>

definition spaced :: "string \<Rightarrow> bool" where
  "spaced r \<longleftrightarrow> r = [] \<or> hd r = CHR '' ''"

definition next_in :: "string \<Rightarrow> string \<Rightarrow> bool" where
  "next_in S r \<longleftrightarrow> skip_ws r = [] \<or> hd (skip_ws r) \<in> set S"

lemma skip_space [simp]: "skip_ws (CHR '' '' # r) = skip_ws r"
  by (simp add: skip_ws_def is_ws_def)

lemma skip_stop: "\<not> is_ws c \<Longrightarrow> skip_ws (c # r) = c # r"
  by (simp add: skip_ws_def)

lemma sym_not_ws: "is_sym c \<Longrightarrow> \<not> is_ws c"
  by (auto simp: is_sym_def is_ws_def)

lemma skip_word: "wf_word w \<Longrightarrow> skip_ws (w @ r) = w @ r"
  by (cases w) (auto simp: wf_word_def word_char_def skip_ws_def)

lemma skip_sym: "is_sym c \<Longrightarrow> skip_ws (c # r) = c # r"
  by (simp add: skip_stop sym_not_ws)

lemma peek_skip: "peek (skip_ws ps) t = peek ps t"
  by (simp add: peek_def)

lemma parseredirs_skip: "parseredirs c (skip_ws ps) = parseredirs c ps"
  by (simp add: parseredirs_step [of c ps] parseredirs_step [of c "skip_ws ps"] peek_skip)

lemma exec_args_skip: "exec_args c a (skip_ws ps) = exec_args c a ps"
  by (simp add: exec_args.simps [of c a ps] exec_args.simps [of c a "skip_ws ps"] peek_skip)

lemma back_loop_skip: "back_loop c (skip_ws ps) = back_loop c ps"
  by (simp add: back_loop.simps [of c ps] back_loop.simps [of c "skip_ws ps"] peek_skip)

lemma gettoken_word:
  assumes "wf_word w" and "spaced r"
  shows "gettoken (w @ r) = (CHR ''a'', (w @ r, r), skip_ws r)"
proof -
  obtain c v where w: "w = c # v" using assms(1) by (cases w) (auto simp: wf_word_def)
  let ?P = "\<lambda>c. \<not> is_ws c \<and> \<not> is_sym c"
  have all: "\<forall>x \<in> set w. ?P x" using assms(1) by (auto simp: wf_word_def list_all_iff word_char_def)
  have r: "dropWhile ?P r = r" using assms(2) by (cases r) (auto simp: spaced_def is_ws_def)
  have "dropWhile ?P (w @ r) = r" using all r by (simp add: dropWhile_append2)
  moreover have "c \<notin> set ''|();&<''" "c \<noteq> CHR ''>''" using all w by (auto simp: is_sym_def)
  ultimately have "token_at (w @ r) = (CHR ''a'', r)" using w by (simp add: token_at_def)
  then show ?thesis using skip_word [OF assms(1)] by (simp add: gettoken_eq)
qed

lemma gettoken_sym:
  "c \<in> set ''|();&<'' \<Longrightarrow> gettoken (c # r) = (c, (c # r, r), skip_ws r)"
  "spaced r \<Longrightarrow> gettoken (CHR ''>'' # r) = (CHR ''>'', (CHR ''>'' # r, r), skip_ws r)"
proof -
  show "gettoken (c # r) = (c, (c # r, r), skip_ws r)" if "c \<in> set ''|();&<''"
    using that skip_sym [of c r] by (auto simp: gettoken_eq token_at_def is_sym_def)
  show "gettoken (CHR ''>'' # r) = (CHR ''>'', (CHR ''>'' # r, r), skip_ws r)" if "spaced r"
    using that skip_sym [of "CHR ''>''" r]
    by (cases r) (auto simp: gettoken_eq token_at_def is_sym_def spaced_def)
qed

lemma peek_sym: "is_sym c \<Longrightarrow> peek (c # r) t = (c # r, c \<in> set t)"
  by (simp add: peek_def skip_sym)

lemma peek_word: "wf_word w \<Longrightarrow> list_all is_sym t \<Longrightarrow> peek (w @ r) t = (w @ r, False)"
  using skip_word [of w r]
  by (cases w) (auto simp: peek_def Let_def wf_word_def word_char_def list_all_iff)

lemma peek_next: "next_in S r \<Longrightarrow> set S \<inter> set t = {} \<Longrightarrow> peek r t = (skip_ws r, False)"
  by (cases "skip_ws r") (auto simp: peek_def next_in_def)

lemma token_of_word [simp]: "token_of (w @ r, r) = w"
  by (simp add: token_of_def)

subsection \<open>Reading redirections and simple commands back\<close>

definition redirs_text :: "(string \<times> rkind) list \<Rightarrow> string" where
  "redirs_text rs = concat (map redir_text rs)"

definition add_redirs :: "scmd \<Rightarrow> (string \<times> rkind) list \<Rightarrow> scmd" where
  "add_redirs c rs = foldl (\<lambda>c r. SRedir c (fst r) (snd r)) c rs"

lemma redirs_spaced: "spaced rest \<Longrightarrow> spaced (redirs_text rs @ rest)"
  by (cases rs) (auto simp: redirs_text_def redir_text_def spaced_def split: rkind.splits)

lemma parseredirs_one:
  assumes "wf_word f" and "spaced rest"
  shows "\<exists>q eq m fd. parseredirs c (redir_text (f, k) @ rest) = parseredirs (REDIR c q eq m fd) rest \<and>
    token_of (q, eq) = f \<and> (m, fd) = (case k of RIn \<Rightarrow> (O_RDONLY, 0) | ROut \<Rightarrow> (O_WRONLY + O_CREATE, 1))"
proof -
  have s: "spaced (CHR '' '' # f @ rest)" by (simp add: spaced_def)
  have g: "gettoken (f @ rest) = (CHR ''a'', (f @ rest, rest), skip_ws rest)"
    using assms by (rule gettoken_word)
  have sw: "skip_ws (CHR '' '' # f @ rest) = f @ rest" using skip_word [OF assms(1)] by simp
  show ?thesis
  proof (cases k)
    case RIn
    have "parseredirs c (redir_text (f, k) @ rest) = parseredirs (REDIR c (f @ rest) rest O_RDONLY 0) (skip_ws rest)"
      using g sw gettoken_sym(1) [of "CHR ''<''" "CHR '' '' # f @ rest"]
      by (subst parseredirs_step)
        (simp add: redir_text_def RIn peek_def skip_sym is_sym_def Let_def)
    then show ?thesis using RIn parseredirs_skip by (intro exI conjI) (auto simp: parseredirs_skip)
  next
    case ROut
    have "parseredirs c (redir_text (f, k) @ rest) =
        parseredirs (REDIR c (f @ rest) rest (O_WRONLY + O_CREATE) 1) (skip_ws rest)"
      using g sw gettoken_sym(2) [OF s]
      by (subst parseredirs_step)
        (simp add: redir_text_def ROut peek_def skip_sym is_sym_def Let_def)
    then show ?thesis using ROut parseredirs_skip by (intro exI conjI) (auto simp: parseredirs_skip)
  qed
qed

text \<open>\<open>d\<close> is \<open>c\<close> under redirections that stand for \<open>rs\<close>, the last one outermost.\<close>

fun wraps :: "cmd \<Rightarrow> (string \<times> rkind) list \<Rightarrow> cmd \<Rightarrow> bool" where
  "wraps c [] d \<longleftrightarrow> d = c"
| "wraps c (r # rs) d \<longleftrightarrow> (\<exists>q eq m fd. wraps (REDIR c q eq m fd) rs d \<and> token_of (q, eq) = fst r \<and>
     (m, fd) = (case snd r of RIn \<Rightarrow> (O_RDONLY, 0) | ROut \<Rightarrow> (O_WRONLY + O_CREATE, 1)))"

definition rs_ok :: "(string \<times> rkind) list \<Rightarrow> bool" where
  "rs_ok rs \<longleftrightarrow> list_all (\<lambda>r. wf_word (fst r)) rs"

lemma parseredirs_all:
  assumes "rs_ok rs" and "spaced rest" and "next_in S rest" and "set S \<inter> set ''<>'' = {}"
  shows "\<exists>d. parseredirs c (redirs_text rs @ rest) = Parsed d (skip_ws rest) \<and> wraps c rs d"
  using assms(1)
proof (induction rs arbitrary: c)
  case Nil
  have "peek rest ''<>'' = (skip_ws rest, False)" using assms(3,4) by (rule peek_next)
  then show ?case by (subst parseredirs_step) (simp add: redirs_text_def)
next
  case (Cons r rs)
  obtain f k where r: "r = (f, k)" by (cases r)
  have w: "wf_word f" "rs_ok rs" using Cons.prems r by (auto simp: rs_ok_def)
  obtain q eq m fd where o: "parseredirs c (redir_text (f, k) @ (redirs_text rs @ rest)) =
      parseredirs (REDIR c q eq m fd) (redirs_text rs @ rest)" "token_of (q, eq) = f"
      "(m, fd) = (case k of RIn \<Rightarrow> (O_RDONLY, 0) | ROut \<Rightarrow> (O_WRONLY + O_CREATE, 1))"
    using parseredirs_one [OF w(1) redirs_spaced [OF assms(2)]] by blast
  obtain d where "parseredirs (REDIR c q eq m fd) (redirs_text rs @ rest) = Parsed d (skip_ws rest)"
      "wraps (REDIR c q eq m fd) rs d" using Cons.IH [OF w(2)] by blast
  then show ?case using o r by (auto simp: redirs_text_def)
qed

lemma wraps_denotes: "wraps c rs d \<Longrightarrow> denotes c s \<Longrightarrow> denotes d (add_redirs s rs)"
  by (induction c rs d arbitrary: s rule: wraps.induct) (auto simp: add_redirs_def split: rkind.splits)

lemma wraps_set_argv: "wraps c rs d \<Longrightarrow> wraps (set_argv a c) rs (set_argv a d)"
proof (induction c rs d rule: wraps.induct)
  case (2 c r rs d)
  then show ?case by simp blast
qed simp

lemma words_text_spaced: "spaced rest \<Longrightarrow> spaced (words_text ws @ rest)"
  by (cases ws) (auto simp: words_text_def spaced_def)

lemma parseredirs_none: "peek ps ''<>'' = (skip_ws ps, False) \<Longrightarrow> parseredirs c ps = Parsed c (skip_ws ps)"
  by (subst parseredirs_step) simp

lemma exec_args_words:
  assumes "list_all wf_word ws" and "List.length argv + List.length ws < MAXARGS" and "rs_ok rs"
    and "spaced rest" and "next_in ''|)&;'' rest"
  shows "\<exists>toks d. exec_args c argv (words_text ws @ (if ws = [] then rest else redirs_text rs @ rest)) =
      Parsed (set_argv (argv @ toks) d) (skip_ws rest) \<and> map token_of toks = ws \<and>
      wraps c (if ws = [] then [] else rs) d"
  using assms(1,2)
proof (induction ws arbitrary: argv c)
  case Nil
  have "skip_ws rest = [] \<or> snd (peek rest ''|)&;'')" using assms(5)
    by (cases "skip_ws rest") (auto simp: peek_def next_in_def)
  moreover have "skip_ws rest = [] \<Longrightarrow> gettoken (skip_ws rest) = (CHR 0x00, ([], []), [])"
    by (simp add: gettoken_eq token_at_def)
  ultimately have "exec_args c argv rest = Parsed (set_argv argv c) (skip_ws rest)"
    using peek_facts(1) [of rest "''|)&;''"]
    by (subst exec_args.simps) (cases "peek rest ''|)&;''"; auto)
  then show ?case by (auto simp: words_text_def intro!: exI [of _ "[]"])
next
  case (Cons w ws)
  define tail where "tail = words_text ws @ redirs_text rs @ rest"
  have w: "wf_word w" "list_all wf_word ws" using Cons.prems by auto
  have sp: "spaced tail" unfolding tail_def by (intro words_text_spaced redirs_spaced assms(4))
  have g: "gettoken (w @ tail) = (CHR ''a'', (w @ tail, tail), skip_ws tail)"
    using w(1) sp by (rule gettoken_word)
  have p: "peek (w @ tail) ''|)&;'' = (w @ tail, False)"
    using w(1) by (rule peek_word) (simp add: is_sym_def)
  have len: "\<not> MAXARGS \<le> List.length argv + 1" using Cons.prems(2) by simp
  have next_redirs: "\<exists>d0. parseredirs c tail = Parsed d0 (skip_ws (words_text ws @ (if ws = [] then rest else redirs_text rs @ rest))) \<and>
      wraps c (if ws = [] then rs else []) d0"
  proof (cases ws)
    case Nil
    then show ?thesis using parseredirs_all [OF assms(3,4,5), of c] by (simp add: tail_def words_text_def)
  next
    case (Cons v vs)
    have "wf_word v" using w(2) Cons by simp
    then have "peek (v @ words_text vs @ redirs_text rs @ rest) ''<>'' = (v @ words_text vs @ redirs_text rs @ rest, False)"
      by (rule peek_word) (simp add: is_sym_def)
    moreover have "skip_ws tail = v @ words_text vs @ redirs_text rs @ rest"
      using Cons skip_word [OF \<open>wf_word v\<close>] by (simp add: tail_def words_text_def)
    ultimately have "peek tail ''<>'' = (skip_ws tail, False)" using peek_skip [of tail] by simp
    then have "parseredirs c tail = Parsed c (skip_ws tail)" by (rule parseredirs_none)
    then show ?thesis using Cons by (simp add: tail_def)
  qed
  then obtain d0 where r: "parseredirs c (skip_ws tail) =
      Parsed d0 (skip_ws (words_text ws @ (if ws = [] then rest else redirs_text rs @ rest)))"
    "wraps c (if ws = [] then rs else []) d0" using parseredirs_skip [of c tail] by auto
  obtain toks d where t: "exec_args d0 (argv @ [(w @ tail, tail)])
        (words_text ws @ (if ws = [] then rest else redirs_text rs @ rest)) =
      Parsed (set_argv ((argv @ [(w @ tail, tail)]) @ toks) d) (skip_ws rest)"
    "map token_of toks = ws" "wraps d0 (if ws = [] then [] else rs) d"
    using Cons.IH [OF w(2), of "argv @ [(w @ tail, tail)]" d0] Cons.prems(2) by auto
  have "exec_args c argv (w @ tail) = exec_args d0 (argv @ [(w @ tail, tail)])
      (words_text ws @ (if ws = [] then rest else redirs_text rs @ rest))"
    using p g len r(1) by (subst exec_args.simps) (simp add: exec_args_skip)
  then have "exec_args c argv (words_text (w # ws) @ redirs_text rs @ rest) =
      Parsed (set_argv (argv @ (w @ tail, tail) # toks) d) (skip_ws rest)"
    using t(1) exec_args_skip [of c argv "words_text (w # ws) @ redirs_text rs @ rest"] skip_word [OF w(1)]
    by (simp add: words_text_def tail_def)
  moreover have "wraps c rs d" using r(2) t(3) by (cases "ws = []") auto
  ultimately show ?case using t(2)
    by (intro exI [of _ "(w @ tail, tail) # toks"] exI [of _ d]) simp
qed

subsection \<open>Reading whole commands back\<close>

definition reads :: "cmd parsed \<Rightarrow> scmd \<Rightarrow> string \<Rightarrow> bool" where
  "reads p c rest \<longleftrightarrow> p = NoFuel \<or> (\<exists>d. p = Parsed d (skip_ws rest) \<and> denotes d c)"

definition reads_exec :: "scmd \<Rightarrow> bool" where
  "reads_exec c \<longleftrightarrow> (\<forall>n rs rest. rs_ok rs \<longrightarrow> spaced rest \<longrightarrow> next_in ''|)&;'' rest \<longrightarrow>
     reads (parseexec n (paren 0 c @ redirs_text rs @ rest)) (add_redirs c rs) rest)"

definition reads_pipe :: "scmd \<Rightarrow> bool" where
  "reads_pipe c \<longleftrightarrow> (\<forall>n rest. spaced rest \<longrightarrow> next_in '')&;'' rest \<longrightarrow>
     reads (parsepipe n (paren 1 c @ rest)) c rest)"

definition reads_back :: "scmd \<Rightarrow> bool" where
  "reads_back c \<longleftrightarrow> (\<forall>n rest. spaced rest \<longrightarrow> next_in '')&;'' rest \<longrightarrow>
     (let p = parsepipe n (paren 2 c @ rest) in
      p = NoFuel \<or> (\<exists>d s e. p = Parsed d s \<and> back_loop d s = back_loop e (skip_ws rest) \<and> denotes e c)))"

definition reads_line :: "scmd \<Rightarrow> bool" where
  "reads_line c \<longleftrightarrow> (\<forall>n rest. spaced rest \<longrightarrow> next_in '')'' rest \<longrightarrow>
     reads (parseline n (paren 3 c @ rest)) c rest)"

lemma spaced_sym [simp]: "spaced (CHR '' '' # r)"
  by (simp add: spaced_def)

lemma next_in_sym [simp]: "is_sym c \<Longrightarrow> next_in S (CHR '' '' # c # r) \<longleftrightarrow> c \<in> set S"
  by (simp add: next_in_def skip_sym)

lemma next_in_mono: "next_in S r \<Longrightarrow> set S \<subseteq> set T \<Longrightarrow> next_in T r"
  by (auto simp: next_in_def)

lemma add_redirs_Nil [simp]: "add_redirs c [] = c"
  by (simp add: add_redirs_def)

lemma add_redirs_SRedir: "add_redirs (SRedir c f k) rs = add_redirs c ((f, k) # rs)"
  by (simp add: add_redirs_def)

lemma redirs_text_simps [simp]: "redirs_text [] = []" "redirs_text (r # rs) = redir_text r @ redirs_text rs"
  by (simp_all add: redirs_text_def)

lemma reads_execD:
  "reads_exec c \<Longrightarrow> rs_ok rs \<Longrightarrow> spaced rest \<Longrightarrow> next_in ''|)&;'' rest \<Longrightarrow>
     reads (parseexec n (paren 0 c @ redirs_text rs @ rest)) (add_redirs c rs) rest"
  unfolding reads_exec_def by blast

lemma reads_execD0:
  "reads_exec c \<Longrightarrow> spaced rest \<Longrightarrow> next_in ''|)&;'' rest \<Longrightarrow> reads (parseexec n (paren 0 c @ rest)) c rest"
  using reads_execD [of c "[]" rest n] by (simp add: rs_ok_def)

lemma reads_lineD:
  "reads_line c \<Longrightarrow> spaced rest \<Longrightarrow> next_in '')'' rest \<Longrightarrow> reads (parseline n (paren 3 c @ rest)) c rest"
  unfolding reads_line_def by blast

lemma reads_pipeD:
  "reads_pipe c \<Longrightarrow> spaced rest \<Longrightarrow> next_in '')&;'' rest \<Longrightarrow> reads (parsepipe n (paren 1 c @ rest)) c rest"
  unfolding reads_pipe_def by blast

lemma reads_backD:
  "reads_back c \<Longrightarrow> spaced rest \<Longrightarrow> next_in '')&;'' rest \<Longrightarrow>
     parsepipe n (paren 2 c @ rest) = NoFuel \<or>
     (\<exists>d s e. parsepipe n (paren 2 c @ rest) = Parsed d s \<and> back_loop d s = back_loop e (skip_ws rest) \<and> denotes e c)"
  unfolding reads_back_def Let_def by blast

lemma sym_rest: "is_sym c \<Longrightarrow> spaced (CHR '' '' # c # r)" "is_sym c \<Longrightarrow> skip_ws (CHR '' '' # c # r) = c # r"
  by (simp_all add: skip_sym)

lemma syms [simp]: "is_sym CHR '')''" "is_sym CHR ''|''" "is_sym CHR ''&''" "is_sym CHR '';''" "is_sym CHR ''(''"
  by (simp_all add: is_sym_def)

lemma parseexec_skip: "parseexec n (skip_ws ps) = parseexec n ps"
  by (cases n) (simp_all add: peek_skip)

lemma parsepipe_skip: "parsepipe n (skip_ws ps) = parsepipe n ps"
  by (cases n) (simp_all add: parseexec_skip)

lemma parseline_skip: "parseline n (skip_ws ps) = parseline n ps"
  by (cases n) (simp_all add: parsepipe_skip)

lemma exec_simple:
  assumes "list_all wf_word ws" and "List.length ws < MAXARGS"
  shows "reads_exec (SExec ws)"
  unfolding reads_exec_def
proof (intro allI impI)
  fix n rs rest
  assume r: "rs_ok rs" "spaced rest" "next_in ''|)&;'' rest"
  define body where "body = words_text ws @ redirs_text rs @ rest"
  show "reads (parseexec n (paren 0 (SExec ws) @ redirs_text rs @ rest)) (add_redirs (SExec ws) rs) rest"
  proof (cases n)
    case (Suc m)
    have np: "peek body ''('' = (skip_ws body, False)"
    proof (cases ws)
      case Nil
      have "next_in ''|)&;<>'' (redirs_text rs @ rest)"
      proof (cases rs)
        case Nil
        then show ?thesis using r(3) by (auto simp: next_in_def)
      next
        case (Cons q qs)
        then show ?thesis by (auto simp: redir_text_def next_in_def skip_sym is_sym_def split: rkind.splits)
      qed
      then show ?thesis using Nil peek_next [of "''|)&;<>''" "redirs_text rs @ rest" "''(''"]
        by (simp add: body_def words_text_def)
    next
      case (Cons v vs)
      then have v: "wf_word v" using assms(1) by simp
      have "peek (v @ words_text vs @ redirs_text rs @ rest) ''('' = (v @ words_text vs @ redirs_text rs @ rest, False)"
        using v by (rule peek_word) (simp add: is_sym_def)
      moreover have "skip_ws body = v @ words_text vs @ redirs_text rs @ rest"
        using Cons skip_word [OF v] by (simp add: body_def words_text_def)
      ultimately show ?thesis using peek_skip [of body] by simp
    qed
    have "\<exists>c0. parseredirs (EXEC []) body = Parsed c0 (skip_ws (words_text ws @ (if ws = [] then rest else redirs_text rs @ rest))) \<and>
        wraps (EXEC []) (if ws = [] then rs else []) c0"
    proof (cases ws)
      case Nil
      then show ?thesis using parseredirs_all [OF r(1,2,3), of "EXEC []"] by (simp add: body_def words_text_def)
    next
      case (Cons v vs)
      then have v: "wf_word v" using assms(1) by simp
      have "peek (v @ words_text vs @ redirs_text rs @ rest) ''<>'' = (v @ words_text vs @ redirs_text rs @ rest, False)"
        using v by (rule peek_word) (simp add: is_sym_def)
      moreover have "skip_ws body = v @ words_text vs @ redirs_text rs @ rest"
        using Cons skip_word [OF v] by (simp add: body_def words_text_def)
      ultimately have "peek body ''<>'' = (skip_ws body, False)" using peek_skip [of body] by simp
      then have "parseredirs (EXEC []) body = Parsed (EXEC []) (skip_ws body)" by (rule parseredirs_none)
      then show ?thesis using Cons by (simp add: body_def)
    qed
    then obtain c0 where c0: "parseredirs (EXEC []) body =
        Parsed c0 (skip_ws (words_text ws @ (if ws = [] then rest else redirs_text rs @ rest)))"
      "wraps (EXEC []) (if ws = [] then rs else []) c0" by blast
    obtain toks d where t: "exec_args c0 [] (words_text ws @ (if ws = [] then rest else redirs_text rs @ rest)) =
        Parsed (set_argv toks d) (skip_ws rest)" "map token_of toks = ws"
      "wraps c0 (if ws = [] then [] else rs) d"
      using exec_args_words [OF assms(1) _ r(1,2,3), of "[]" c0] assms(2) by auto
    have w: "wraps (EXEC []) rs d" using c0(2) t(3) by (cases "ws = []") auto
    have "denotes (set_argv toks d) (add_redirs (SExec ws) rs)"
      using wraps_denotes [OF wraps_set_argv [OF w, of toks]] t(2) by simp
    moreover have "parseexec n (paren 0 (SExec ws) @ redirs_text rs @ rest) = Parsed (set_argv toks d) (skip_ws rest)"
      using Suc np c0(1) t(1) parseredirs_skip [of "EXEC []" body]
      by (simp add: paren_def body_def exec_args_skip)
    ultimately show ?thesis by (simp add: reads_def)
  qed (simp add: reads_def)
qed

lemma exec_redir:
  assumes "reads_exec c" and "wf_word f"
  shows "reads_exec (SRedir c f k)"
  unfolding reads_exec_def
proof (intro allI impI)
  fix n rs rest
  assume r: "rs_ok rs" "spaced rest" "next_in ''|)&;'' rest"
  then have "rs_ok ((f, k) # rs)" using assms(2) by (simp add: rs_ok_def)
  then have "reads (parseexec n (paren 0 c @ redirs_text ((f, k) # rs) @ rest)) (add_redirs c ((f, k) # rs)) rest"
    using assms(1) r(2,3) unfolding reads_exec_def by blast
  then show "reads (parseexec n (paren 0 (SRedir c f k) @ redirs_text rs @ rest)) (add_redirs (SRedir c f k) rs) rest"
    by (simp add: paren_def add_redirs_SRedir)
qed

lemma exec_block:
  assumes "reads_line c" and "lvl c > 0" and "lvl c \<le> 3"
  shows "reads_exec c"
  unfolding reads_exec_def
proof (intro allI impI)
  fix n rs rest
  assume r: "rs_ok rs" "spaced rest" "next_in ''|)&;'' rest"
  let ?tail = "redirs_text rs @ rest"
  let ?inner = "cmd_text c @ '' )'' @ ?tail"
  show "reads (parseexec n (paren 0 c @ redirs_text rs @ rest)) (add_redirs c rs) rest"
  proof (cases "\<exists>m. n = Suc (Suc m)")
    case True
    then obtain m where m: "n = Suc (Suc m)" by blast
    have tx: "paren 0 c @ redirs_text rs @ rest = CHR '' '' # CHR ''('' # ?inner"
      using assms(2) by (simp add: paren_def)
    have o: "peek (CHR '' '' # CHR ''('' # ?inner) ''('' = (CHR ''('' # ?inner, True)"
      by (simp add: peek_def skip_sym)
    have o2: "peek (CHR ''('' # ?inner) ''('' = (CHR ''('' # ?inner, True)"
      by (simp add: peek_sym is_sym_def)
    have g: "gettoken (CHR ''('' # ?inner) = (CHR ''('', (CHR ''('' # ?inner, ?inner), skip_ws ?inner)"
      by (rule gettoken_sym) simp
    have "reads (parseline m (paren 3 c @ ('' )'' @ ?tail))) c ('' )'' @ ?tail)"
      by (rule reads_lineD [OF assms(1)]) simp_all
    then have l: "parseline m ?inner = NoFuel \<or>
        (\<exists>d. parseline m ?inner = Parsed d (CHR '')'' # ?tail) \<and> denotes d c)"
      using assms(3) by (simp add: reads_def paren_def skip_sym is_sym_def)
    have ls: "parseline m (skip_ws ?inner) = parseline m ?inner" by (rule parseline_skip)
    have cl: "peek (CHR '')'' # ?tail) '')'' = (CHR '')'' # ?tail, True)" by (simp add: peek_sym is_sym_def)
    have gc: "gettoken (CHR '')'' # ?tail) = (CHR '')'', (CHR '')'' # ?tail, ?tail), skip_ws ?tail)"
      by (rule gettoken_sym) simp
    have px: "parseexec n (paren 0 c @ redirs_text rs @ rest) =
        (case parseline m ?inner of
           Parsed cmd s \<Rightarrow>
             (case peek s '')'' of (s, close_p) \<Rightarrow>
                if \<not> close_p then Bad ''syntax - missing )''
                else (case gettoken s of (_, _, s) \<Rightarrow> parseredirs cmd s))
         | Bad e \<Rightarrow> Bad e
         | NoFuel \<Rightarrow> NoFuel)"
      using o o2 g unfolding tx m by (simp add: parseline_skip)
    show ?thesis
    proof (cases "parseline m ?inner = NoFuel")
      case True
      then show ?thesis unfolding px by (simp add: reads_def)
    next
      case False
      then obtain d where d: "parseline m ?inner = Parsed d (CHR '')'' # ?tail)" "denotes d c" using l by blast
      obtain e where e: "parseredirs d ?tail = Parsed e (skip_ws rest)" "wraps d rs e"
        using parseredirs_all [OF r(1,2,3), of d] by auto
      have "denotes e (add_redirs c rs)" using e(2) d(2) by (rule wraps_denotes)
      then show ?thesis unfolding px d(1) using cl gc e(1) by (simp add: reads_def parseredirs_skip)
    qed
  next
    case False
    then have n: "n = 0 \<or> n = Suc 0" by (metis not0_implies_Suc)
    have pk: "peek (CHR '' '' # CHR ''('' # ?inner) ''('' = (CHR ''('' # ?inner, True)"
      by (simp add: peek_def skip_sym)
    have tx: "paren 0 c @ redirs_text rs @ rest = CHR '' '' # CHR ''('' # ?inner"
      using assms(2) by (simp add: paren_def)
    show ?thesis using n pk unfolding tx by (elim disjE) (simp_all add: reads_def)
  qed
qed

lemma pipe_exec:
  assumes "reads_exec c" and "lvl c \<noteq> 1"
  shows "reads_pipe c"
  unfolding reads_pipe_def
proof (intro allI impI)
  fix n rest
  assume r: "spaced rest" "next_in '')&;'' rest"
  have p: "paren 1 c = paren 0 c" using assms(2) by (auto simp: paren_def)
  show "reads (parsepipe n (paren 1 c @ rest)) c rest"
  proof (cases n)
    case (Suc m)
    have "next_in ''|)&;'' rest" using r(2) by (rule next_in_mono) auto
    then have "reads (parseexec m (paren 0 c @ rest)) c rest" by (rule reads_execD0 [OF assms(1) r(1)])
    moreover have "peek (skip_ws rest) ''|'' = (skip_ws rest, False)"
      using peek_next [OF r(2), of "''|''"] by (simp add: peek_skip)
    ultimately show ?thesis unfolding p Suc by (auto simp: reads_def)
  qed (simp add: reads_def)
qed

lemma pipe_pipe:
  assumes "reads_exec l" and "reads_pipe r"
  shows "reads_pipe (SPipe l r)"
  unfolding reads_pipe_def
proof (intro allI impI)
  fix n rest
  assume sp: "spaced rest" "next_in '')&;'' rest"
  let ?tail = "paren 1 r @ rest"
  have tx: "paren 1 (SPipe l r) @ rest = paren 0 l @ (CHR '' '' # CHR ''|'' # ?tail)"
    by (simp add: paren_def)
  show "reads (parsepipe n (paren 1 (SPipe l r) @ rest)) (SPipe l r) rest"
  proof (cases n)
    case (Suc m)
    have "reads (parseexec m (paren 0 l @ (CHR '' '' # CHR ''|'' # ?tail))) l (CHR '' '' # CHR ''|'' # ?tail)"
      by (rule reads_execD0 [OF assms(1)]) simp_all
    then have l: "parseexec m (paren 1 (SPipe l r) @ rest) = NoFuel \<or>
        (\<exists>d. parseexec m (paren 1 (SPipe l r) @ rest) = Parsed d (CHR ''|'' # ?tail) \<and> denotes d l)"
      unfolding tx reads_def sym_rest(2) [OF syms(2)] .
    have p: "peek (CHR ''|'' # ?tail) ''|'' = (CHR ''|'' # ?tail, True)" by (simp add: peek_sym is_sym_def)
    have g: "gettoken (CHR ''|'' # ?tail) = (CHR ''|'', (CHR ''|'' # ?tail, ?tail), skip_ws ?tail)"
      by (rule gettoken_sym) simp
    have "reads (parsepipe m ?tail) r rest" using assms(2) sp unfolding reads_pipe_def by blast
    then have q: "parsepipe m (skip_ws ?tail) = NoFuel \<or>
        (\<exists>d. parsepipe m (skip_ws ?tail) = Parsed d (skip_ws rest) \<and> denotes d r)"
      by (simp add: reads_def parsepipe_skip)
    show ?thesis using l q p g by (auto simp: Suc reads_def)
  qed (simp add: reads_def)
qed

lemma back_pipe:
  assumes "reads_pipe c" and "lvl c \<noteq> 2"
  shows "reads_back c"
  unfolding reads_back_def
proof (intro allI impI)
  fix n rest
  assume r: "spaced rest" "next_in '')&;'' rest"
  have p: "paren 2 c = paren 1 c" using assms(2) by (auto simp: paren_def)
  have "reads (parsepipe n (paren 1 c @ rest)) c rest" using assms(1) r unfolding reads_pipe_def by blast
  then show "let p = parsepipe n (paren 2 c @ rest) in
      p = NoFuel \<or> (\<exists>d s e. p = Parsed d s \<and> back_loop d s = back_loop e (skip_ws rest) \<and> denotes e c)"
    unfolding p by (auto simp: reads_def Let_def)
qed

lemma back_back:
  assumes "reads_back c"
  shows "reads_back (SBack c)"
  unfolding reads_back_def
proof (intro allI impI)
  fix n rest
  assume r: "spaced rest" "next_in '')&;'' rest"
  let ?rest = "CHR '' '' # CHR ''&'' # rest"
  have tx: "paren 2 (SBack c) @ rest = paren 2 c @ ?rest" by (simp add: paren_def)
  have loop: "back_loop e (skip_ws ?rest) = back_loop (BACK e) (skip_ws rest)" for e
    unfolding sym_rest(2) [OF syms(3)]
    by (subst back_loop.simps) (simp add: peek_sym gettoken_sym)
  have "parsepipe n (paren 2 c @ ?rest) = NoFuel \<or>
     (\<exists>d s e. parsepipe n (paren 2 c @ ?rest) = Parsed d s \<and> back_loop d s = back_loop e (skip_ws ?rest) \<and> denotes e c)"
    by (rule reads_backD [OF assms]) simp_all
  then consider "parsepipe n (paren 2 c @ ?rest) = NoFuel"
    | d s e where "parsepipe n (paren 2 c @ ?rest) = Parsed d s"
        "back_loop d s = back_loop (BACK e) (skip_ws rest)" "denotes (BACK e) (SBack c)"
    unfolding loop by auto
  then show "let p = parsepipe n (paren 2 (SBack c) @ rest) in
      p = NoFuel \<or> (\<exists>d s e. p = Parsed d s \<and> back_loop d s = back_loop e (skip_ws rest) \<and> denotes e (SBack c))"
    unfolding tx Let_def by cases blast+
qed

lemma line_back:
  assumes "reads_back c" and "lvl c \<noteq> 3" and "lvl c \<le> 3"
  shows "reads_line c"
  unfolding reads_line_def
proof (intro allI impI)
  fix n rest
  assume r: "spaced rest" "next_in '')'' rest"
  have p: "paren 3 c = paren 2 c" using assms(2,3) by (auto simp: paren_def)
  have nx: "next_in '')&;'' rest" using r(2) by (rule next_in_mono) auto
  show "reads (parseline n (paren 3 c @ rest)) c rest"
  proof (cases n)
    case (Suc m)
    have stop: "back_loop e (skip_ws rest) = (e, skip_ws rest)" for e
      using peek_next [OF r(2), of "''&''"] by (subst back_loop.simps) (simp add: peek_skip)
    have semi: "peek (skip_ws rest) '';'' = (skip_ws rest, False)"
      using peek_next [OF r(2), of "'';''"] by (simp add: peek_skip)
    consider "parsepipe m (paren 2 c @ rest) = NoFuel"
      | d s e where "parsepipe m (paren 2 c @ rest) = Parsed d s"
          "back_loop d s = (e, skip_ws rest)" "denotes e c"
      using reads_backD [OF assms(1) r(1) nx, of m] unfolding stop by blast
    then show ?thesis using semi unfolding p Suc by cases (simp_all add: reads_def)
  qed (simp add: reads_def)
qed

lemma line_list:
  assumes "reads_back l" and "reads_line r" and "lvl r \<le> 3"
  shows "reads_line (SList l r)"
  unfolding reads_line_def
proof (intro allI impI)
  fix n rest
  assume sp: "spaced rest" "next_in '')'' rest"
  let ?tail = "paren 3 r @ rest"
  let ?rest = "CHR '' '' # CHR '';'' # ?tail"
  have tx: "paren 3 (SList l r) @ rest = paren 2 l @ ?rest"
    using assms(3) by (simp add: paren_def)
  show "reads (parseline n (paren 3 (SList l r) @ rest)) (SList l r) rest"
  proof (cases n)
    case (Suc m)
    have stop: "back_loop e (skip_ws ?rest) = (e, CHR '';'' # ?tail)" for e
      unfolding sym_rest(2) [OF syms(4)]
      by (subst back_loop.simps) (simp add: peek_sym)
    have "parsepipe m (paren 2 l @ ?rest) = NoFuel \<or>
       (\<exists>d s e. parsepipe m (paren 2 l @ ?rest) = Parsed d s \<and> back_loop d s = back_loop e (skip_ws ?rest) \<and> denotes e l)"
      by (rule reads_backD [OF assms(1)]) simp_all
    then consider (out) "parsepipe m (paren 2 l @ ?rest) = NoFuel"
      | (got) d s e where "parsepipe m (paren 2 l @ ?rest) = Parsed d s"
          "back_loop d s = (e, CHR '';'' # ?tail)" "denotes e l"
      unfolding stop by blast
    note b = this
    have semi: "peek (CHR '';'' # ?tail) '';'' = (CHR '';'' # ?tail, True)" by (simp add: peek_sym is_sym_def)
    have g: "gettoken (CHR '';'' # ?tail) = (CHR '';'', (CHR '';'' # ?tail, ?tail), skip_ws ?tail)"
      by (rule gettoken_sym) simp
    have "reads (parseline m ?tail) r rest" using assms(2) sp unfolding reads_line_def by blast
    then have q: "parseline m (skip_ws ?tail) = NoFuel \<or>
        (\<exists>d. parseline m (skip_ws ?tail) = Parsed d (skip_ws rest) \<and> denotes d r)"
      by (simp add: reads_def parseline_skip)
    show ?thesis
    proof (cases rule: b)
      case out
      then show ?thesis unfolding Suc tx by (simp add: reads_def)
    next
      case (got d s e)
      then show ?thesis using q semi g unfolding Suc tx by (auto simp: reads_def)
    qed
  qed (simp add: reads_def)
qed

lemma reads_all: "wf_cmd c \<Longrightarrow> reads_exec c \<and> reads_pipe c \<and> reads_back c \<and> reads_line c"
proof (induction c)
  case (SExec ws)
  then have "reads_exec (SExec ws)" by (intro exec_simple) simp_all
  then show ?case by (simp add: pipe_exec back_pipe line_back)
next
  case (SRedir c f k)
  then have "reads_exec (SRedir c f k)" by (intro exec_redir) simp_all
  then show ?case by (simp add: pipe_exec back_pipe line_back)
next
  case (SPipe l r)
  then have p: "reads_pipe (SPipe l r)" by (intro pipe_pipe) simp_all
  then have "reads_back (SPipe l r)" "reads_line (SPipe l r)" by (simp_all add: back_pipe line_back)
  then show ?case using p by (simp add: exec_block)
next
  case (SBack c)
  then have b: "reads_back (SBack c)" by (intro back_back) simp_all
  then have "reads_line (SBack c)" by (simp add: line_back)
  then show ?case using b by (simp add: exec_block pipe_exec)
next
  case (SList l r)
  have "lvl r \<le> 3" by (cases r) simp_all
  then have l: "reads_line (SList l r)" using SList by (intro line_list) simp_all
  then have "reads_exec (SList l r)" by (simp add: exec_block)
  then show ?case using l by (simp add: pipe_exec back_pipe)
qed

text \<open>
  C22. The parser inverts the printer: for every command built from non-empty words, with at most
  nine arguments each, redirections, pipes, lists, background commands and parentheses, parsing its
  text gives that command back, with every word and file name, and nothing is left over.
\<close>

theorem parse_inverts_text:
  assumes "wf_cmd c"
  shows "\<exists>d. parseline (parse_depth (cmd_text c)) (cmd_text c) = Parsed d [] \<and> denotes d c"
proof -
  have "lvl c \<le> 3" by (cases c) simp_all
  then have "paren 3 c = cmd_text c" by (simp add: paren_def)
  then have "reads (parseline (parse_depth (cmd_text c)) (cmd_text c @ [])) c []"
    using reads_lineD [of c "[]" "parse_depth (cmd_text c)"] reads_all [OF assms]
    by (simp add: spaced_def next_in_def)
  moreover have "parseline (parse_depth (cmd_text c)) (cmd_text c) \<noteq> NoFuel"
    using parse_total(1) [of "cmd_text c" "parse_depth (cmd_text c)"] by (simp add: parse_depth_def)
  ultimately show ?thesis by (simp add: reads_def)
qed

lemma parse_inverts_text_witness:
  "\<exists>d. parseline (parse_depth '' ls -l | wc > f &'') '' ls -l | wc > f &'' = Parsed d [] \<and>
     denotes d (SBack (SPipe (SExec [''ls'', ''-l'']) (SRedir (SExec [''wc'']) ''f'' ROut)))"
proof -
  let ?c = "SBack (SPipe (SExec [''ls'', ''-l'']) (SRedir (SExec [''wc'']) ''f'' ROut))"
  have "wf_cmd ?c" by code_simp
  moreover have "cmd_text ?c = '' ls -l | wc > f &''" by code_simp
  ultimately show ?thesis using parse_inverts_text [of ?c] by simp
qed

text \<open>
  C24. The shell does not distinguish appending from overwriting: a redirection written with two
  signs opens its file with the same mode as one written with a single sign.
\<close>

theorem append_is_overwrite:
  assumes "wf_word f"
  shows "parseredirs c (''>>'' @ f) = Parsed (REDIR c f [] (O_WRONLY + O_CREATE) 1) [] \<and>
    parseredirs c (''>'' @ f) = Parsed (REDIR c f [] (O_WRONLY + O_CREATE) 1) []"
proof -
  have g: "gettoken f = (CHR ''a'', (f, []), [])"
    using gettoken_word [OF assms, of "[]"] by (simp add: spaced_def)
  obtain a v where f: "f = a # v" "a \<noteq> CHR ''>''"
    using assms by (cases f) (auto simp: wf_word_def word_char_def is_sym_def)
  have none: "parseredirs d [] = Parsed d []" for d
    by (rule trans [OF parseredirs_step]) (simp add: peek_def)
  have t: "token_at (''>>'' @ f) = (CHR ''+'', f)" "token_at (''>'' @ f) = (CHR ''>'', f)"
    using f by (simp_all add: token_at_def)
  have sk: "skip_ws f = f" using skip_word [OF assms, of "[]"] by simp
  have "gettoken (''>>'' @ f) = (CHR ''+'', (''>>'' @ f, f), f)" "gettoken (''>'' @ f) = (CHR ''>'', (''>'' @ f, f), f)"
    using t sk by (simp_all add: gettoken_eq skip_sym is_sym_def)
  then show ?thesis using g none
    by (subst (1 2) parseredirs_step) (simp add: peek_def skip_sym is_sym_def)
qed

lemma append_is_overwrite_witness:
  "wf_word ''f'' \<and> parseredirs (EXEC []) ''>>f'' = parseredirs (EXEC []) ''>f''"
proof -
  have "wf_word ''f''" by code_simp
  then show ?thesis using append_is_overwrite [of "''f''" "EXEC []"] by simp
qed

end
