(* ===== verification/Spec2Isabelle.thy ===== *)
theory Spec2Isabelle
  imports Syscall Fs_Write Fs_Grow Mkfs MyQueue MyStack HashMap MyMalloc CacheSim Uprogs Sh
begin

text \<open>
  The kernel of xv6 (src/Assignment9_xv6/part1/xv6-public), its user library and programs, and the
  data structures of the course's assignments.
\<close>

end
